(* ===== verification/Prelude.thy ===== *)
theory Prelude
  imports Main "HOL-Library.Word" "HOL-Library.Monad_Syntax"
begin

text \<open>
  Shared vocabulary of the Nico-OS development.

  \<^item> machine integers: \<open>u8\<close>, \<open>u16\<close>, \<open>u32\<close> are the C types \<open>uint8_t\<close>, \<open>uint16_t\<close>,
    \<open>uint32_t\<close> (\<open>lib/include/stdint.h\<close>); addition and subtraction wrap as in C;
  \<^item> kernel panics: a call that reaches \<open>PANIC\<close> or a failed \<open>ASSERT\<close>
    (\<open>include/kernel/debug.h\<close>) never returns. Every fallible operation of the model has type
    \<open>\<dots> option\<close> and \<open>None\<close> is this outcome; \<open>kassert\<close> is the macro \<open>ASSERT\<close>;
  \<^item> little-endian words: the on-disk structures are byte arrays, read through
    \<open>uint32_t\<close> pointers on x86;
  \<^item> generic lemmas on lists, options and words that the components share.
\<close>

unbundle bit_operations_syntax

type_synonym u8 = "8 word"
type_synonym u16 = "16 word"
type_synonym u32 = "32 word"

named_theorems kernel_simps \<open>rewrite rules of the kernel model\<close>
named_theorems inv_intros \<open>introduction rules for component invariants\<close>

section \<open>Panics\<close>

definition kassert :: "bool \<Rightarrow> unit option" where
  "kassert b = (if b then Some () else None)"

lemma kassert_bind [simp]: "(kassert b \<bind> f) = (if b then f () else None)"
  by (simp add: kassert_def)

lemma kassert_Some [simp]: "(kassert b = Some u) = b"
  by (simp add: kassert_def)

lemma bind_SomeE:
  assumes "x \<bind> f = Some y"
  obtains a where "x = Some a" and "f a = Some y"
  using assms by (cases x) auto

definition PG_SIZE :: u32 where "PG_SIZE = 4096"

section \<open>ROUND_UP\<close>

text \<open>
  \<open>ROUND_UP(X, STEP)\<close> of \<open>include/kernel/defs.h\<close> and \<open>mkfs/include/superblock.h\<close>: the number of
  steps that cover \<open>X\<close>, not a multiple of \<open>STEP\<close>.
\<close>

definition ROUND_UP :: "u32 \<Rightarrow> u32 \<Rightarrow> u32" where
  "ROUND_UP x step = (x + step - 1) div step"

section \<open>Words\<close>

lemma unat_of_nat_u32:
  assumes "n < 2 ^ 32"
  shows "unat (of_nat n :: u32) = n"
  using assms by (simp add: unat_of_nat)

lemma of_nat_u32_eq_iff:
  assumes "m < 2 ^ 32" and "n < 2 ^ 32"
  shows "(of_nat m :: u32) = of_nat n \<longleftrightarrow> m = n"
  by (metis assms unat_of_nat_u32)

lemma sint_u32:
  fixes w :: u32
  shows "sint w = (if uint w < 2 ^ 31 then uint w else uint w - 2 ^ 32)"
proof -
  have bounds: "0 \<le> uint w" "uint w < 2 ^ 32"
    using uint_lt2p [of w] by simp_all
  have "(uint w + 2 ^ 31) mod 2 ^ 32 = uint w - 2 ^ 31" if "\<not> uint w < 2 ^ 31"
  proof -
    have "uint w + 2 ^ 31 = (uint w - 2 ^ 31) + 2 ^ 32" by simp
    then have "(uint w + 2 ^ 31) mod 2 ^ 32 = (uint w - 2 ^ 31) mod 2 ^ 32"
      by (simp only: mod_add_self2)
    then show ?thesis
      using that bounds by (simp add: mod_pos_pos_trivial)
  qed
  then have "(uint w + 2 ^ 31) mod 2 ^ 32 = (if uint w < 2 ^ 31 then uint w + 2 ^ 31 else uint w - 2 ^ 31)"
    using bounds by (simp add: mod_pos_pos_trivial)
  then show ?thesis
    by (simp add: sint_uint signed_take_bit_eq_take_bit_shift take_bit_eq_mod)
qed

section \<open>Little-endian words\<close>

definition le32_bytes :: "u32 \<Rightarrow> u8 list" where
  "le32_bytes w = [ucast w, ucast (drop_bit 8 w), ucast (drop_bit 16 w), ucast (drop_bit 24 w)]"

definition bytes_le32 :: "u8 \<Rightarrow> u8 \<Rightarrow> u8 \<Rightarrow> u8 \<Rightarrow> u32" where
  "bytes_le32 a b c d =
     ucast a OR push_bit 8 (ucast b) OR push_bit 16 (ucast c) OR push_bit 24 (ucast d)"

text \<open>The \<open>i\<close>-th \<open>uint32_t\<close> of a byte array, and the array after storing it.\<close>

definition get32 :: "u8 list \<Rightarrow> nat \<Rightarrow> u32" where
  "get32 bs i = bytes_le32 (bs ! (4 * i)) (bs ! (4 * i + 1)) (bs ! (4 * i + 2)) (bs ! (4 * i + 3))"

definition put32 :: "u8 list \<Rightarrow> nat \<Rightarrow> u32 \<Rightarrow> u8 list" where
  "put32 bs i w =
     bs[4 * i := ucast w, 4 * i + 1 := ucast (drop_bit 8 w),
        4 * i + 2 := ucast (drop_bit 16 w), 4 * i + 3 := ucast (drop_bit 24 w)]"

lemma bytes_le32_of_word [simp]:
  "bytes_le32 (ucast w) (ucast (drop_bit 8 w)) (ucast (drop_bit 16 w)) (ucast (drop_bit 24 w)) = w"
  unfolding bytes_le32_def
proof (rule bit_word_eqI)
  fix n
  assume "n < LENGTH(32)"
  then consider "n < 8" | "8 \<le> n \<and> n < 16" | "16 \<le> n \<and> n < 24" | "24 \<le> n \<and> n < 32"
    by fastforce
  then show "bit ((ucast (ucast w :: u8) :: u32) OR push_bit 8 (ucast (ucast (drop_bit 8 w) :: u8))
      OR push_bit 16 (ucast (ucast (drop_bit 16 w) :: u8))
      OR push_bit 24 (ucast (ucast (drop_bit 24 w) :: u8))) n = bit w n"
    by cases (auto simp: bit_simps)
qed

lemma length_put32 [simp]: "length (put32 bs i w) = length bs"
  by (simp add: put32_def)

lemma get32_put32_same [simp]:
  assumes "4 * i + 3 < length bs"
  shows "get32 (put32 bs i w) i = w"
  using assms by (simp add: get32_def put32_def nth_list_update)

lemma get32_put32_other [simp]:
  assumes "i \<noteq> j"
  shows "get32 (put32 bs i w) j = get32 bs j"
proof -
  have "4 * i + a \<noteq> 4 * j + b" if "a < 4" "b < 4" for a b
    using assms that by arith
  from this [of 0] this [of 1] this [of 2] this [of 3] show ?thesis
    unfolding get32_def put32_def using assms
    by (subst nth_list_update_neq, arith)+ (rule refl)
qed

section \<open>Flags of open (fcntl.h)\<close>

definition O_RDONLY :: u32 where "O_RDONLY = 0"
definition O_WRONLY :: u32 where "O_WRONLY = 1"
definition O_RDWR :: u32 where "O_RDWR = 2"
definition O_CREAT :: u32 where "O_CREAT = 64"
definition O_APPEND :: u32 where "O_APPEND = 1024"

end
