(* ===== verification/CList.thy ===== *)
theory CList
  imports Prelude
begin

text \<open>
  The intrusive doubly linked list of \<open>include/kernel/list.h\<close>, over an explicit heap of nodes.
  A pointer \<open>struct list_node *\<close> is a \<open>u32\<close> (0 is \<open>NULL\<close>), \<open>struct list\<close> is the pair of the
  addresses of its two sentinel nodes, and every operation is a function on the heap with the
  source's assignments in the source's order.

  \<open>dlist h l xs\<close> says that in the heap \<open>h\<close> the list \<open>l\<close> holds exactly the nodes \<open>xs\<close>, in order
  from \<open>head\<close> to \<open>tail\<close>. The lemmas show that each operation refines an operation on \<open>xs\<close>, that
  the traversals return, and (through the locale \<open>deque\<close>) the order in which nodes come back out.
\<close>

section \<open>Nodes, heaps and the operations\<close>

record list_node =
  nprev :: u32
  nnext :: u32

record klist =
  lhead :: u32
  ltail :: u32

type_synonym nheap = "u32 \<Rightarrow> list_node"

definition set_nnext :: "u32 \<Rightarrow> u32 \<Rightarrow> nheap \<Rightarrow> nheap" where
  "set_nnext n v h = h(n := (h n)\<lparr>nnext := v\<rparr>)"

definition set_nprev :: "u32 \<Rightarrow> u32 \<Rightarrow> nheap \<Rightarrow> nheap" where
  "set_nprev n v h = h(n := (h n)\<lparr>nprev := v\<rparr>)"

definition list_init :: "klist \<Rightarrow> nheap \<Rightarrow> nheap" where
  "list_init l h = set_nprev (ltail l) (lhead l) (set_nnext (lhead l) (ltail l) h)"

definition list_linked_before :: "u32 \<Rightarrow> u32 \<Rightarrow> nheap \<Rightarrow> nheap" where
  "list_linked_before n new_node h =
     (let h1 = set_nnext new_node n h;
          h2 = set_nprev new_node (nprev (h1 n)) h1;
          h3 = set_nnext (nprev (h2 n)) new_node h2
      in set_nprev n new_node h3)"

definition list_linked_after :: "u32 \<Rightarrow> u32 \<Rightarrow> nheap \<Rightarrow> nheap" where
  "list_linked_after n new_node h =
     (let h1 = set_nprev new_node n h;
          h2 = set_nnext new_node (nnext (h1 n)) h1;
          h3 = set_nprev (nnext (h2 n)) new_node h2
      in set_nnext n new_node h3)"

definition list_unlinked :: "u32 \<Rightarrow> nheap \<Rightarrow> nheap" where
  "list_unlinked node h =
     (let h1 = set_nnext (nprev (h node)) (nnext (h node)) h;
          h2 = set_nprev (nnext (h1 node)) (nprev (h1 node)) h1;
          h3 = set_nnext node 0 h2
      in set_nprev node 0 h3)"

definition list_empty :: "klist \<Rightarrow> nheap \<Rightarrow> bool" where
  "list_empty l h = (nnext (h (lhead l)) = ltail l)"

definition list_offer :: "klist \<Rightarrow> u32 \<Rightarrow> nheap \<Rightarrow> nheap" where
  "list_offer l n h = list_linked_after (lhead l) n h"

definition list_poll :: "klist \<Rightarrow> nheap \<Rightarrow> (u32 \<times> nheap) option" where
  "list_poll l h = do {
     kassert (\<not> list_empty l h);
     let n = nprev (h (ltail l));
     Some (n, list_unlinked n h)
   }"

definition list_push :: "klist \<Rightarrow> u32 \<Rightarrow> nheap \<Rightarrow> nheap" where
  "list_push l n h = list_linked_before (ltail l) n h"

definition list_pop :: "klist \<Rightarrow> nheap \<Rightarrow> (u32 \<times> nheap) option" where
  "list_pop l h = do {
     kassert (\<not> list_empty l h);
     let n = nprev (h (ltail l));
     Some (n, list_unlinked n h)
   }"

definition list_clear :: "klist \<Rightarrow> nheap \<Rightarrow> nheap" where
  "list_clear l h = set_nprev (ltail l) (lhead l) (set_nnext (lhead l) (ltail l) h)"

definition is_unlinked_node :: "u32 \<Rightarrow> nheap \<Rightarrow> bool" where
  "is_unlinked_node n h = (nprev (h n) = 0 \<and> nnext (h n) = 0)"

text \<open>
  The traversals follow \<open>next\<close> pointers until they meet the tail sentinel; on a heap with a cycle
  that misses it they do not return, so they are partial functions.
\<close>

partial_function (option) list_find_loop :: "nheap \<Rightarrow> u32 \<Rightarrow> u32 \<Rightarrow> u32 \<Rightarrow> bool option" where
  "list_find_loop h e target n =
     (if n = e then Some False
      else if n = target then Some True
      else list_find_loop h e target (nnext (h n)))"

definition list_find :: "klist \<Rightarrow> u32 \<Rightarrow> nheap \<Rightarrow> bool option" where
  "list_find l target h = list_find_loop h (ltail l) target (nnext (h (lhead l)))"

partial_function (option) list_size_loop :: "nheap \<Rightarrow> u32 \<Rightarrow> u32 \<Rightarrow> u32 \<Rightarrow> u32 option" where
  "list_size_loop h e n sz =
     (if n = e then Some sz else list_size_loop h e (nnext (h n)) (sz + 1))"

definition list_size :: "klist \<Rightarrow> nheap \<Rightarrow> u32 option" where
  "list_size l h = list_size_loop h (ltail l) (nnext (h (lhead l))) 0"

partial_function (option) list_get_loop :: "nheap \<Rightarrow> u32 \<Rightarrow> u32 \<Rightarrow> u32 \<Rightarrow> u32 \<Rightarrow> u32 option" where
  "list_get_loop h e idx i n =
     (if i \<noteq> idx \<and> n \<noteq> e then list_get_loop h e idx (i + 1) (nnext (h n)) else Some n)"

definition list_get :: "klist \<Rightarrow> u32 \<Rightarrow> nheap \<Rightarrow> u32 option" where
  "list_get l idx h = do {
     sz \<leftarrow> list_size l h;
     kassert (idx < sz);
     n \<leftarrow> list_get_loop h (ltail l) idx 0 (nnext (h (lhead l)));
     Some (if n = ltail l then 0 else n)
   }"

section \<open>Chains of nodes\<close>

fun dchain :: "nheap \<Rightarrow> u32 list \<Rightarrow> bool" where
  "dchain h (a # b # ns) = (nnext (h a) = b \<and> nprev (h b) = a \<and> dchain h (b # ns))"
| "dchain h _ = True"

definition dlist :: "nheap \<Rightarrow> klist \<Rightarrow> u32 list \<Rightarrow> bool" where
  "dlist h l xs =
     (distinct (0 # lhead l # ltail l # xs) \<and> dchain h (lhead l # xs @ [ltail l]))"

text \<open>A node that can be linked into \<open>l\<close>: a real node other than the sentinels.\<close>

definition node_for :: "klist \<Rightarrow> u32 \<Rightarrow> bool" where
  "node_for l n = (n \<noteq> 0 \<and> n \<noteq> lhead l \<and> n \<noteq> ltail l)"

lemma field_updates [simp]:
  "nnext (set_nnext n v h m) = (if m = n then v else nnext (h m))"
  "nprev (set_nnext n v h m) = nprev (h m)"
  "nprev (set_nprev n v h m) = (if m = n then v else nprev (h m))"
  "nnext (set_nprev n v h m) = nnext (h m)"
  by (simp_all add: set_nnext_def set_nprev_def)

lemma dchain_append:
  "dchain h (xs @ a # ys) = (dchain h (xs @ [a]) \<and> dchain h (a # ys))"
proof (induction xs)
  case (Cons x xs)
  then show ?case by (cases xs) auto
qed simp

lemma dchain_cong:
  assumes "\<And>m. m \<in> set ns \<Longrightarrow> m \<noteq> last ns \<Longrightarrow> nnext (h' m) = nnext (h m)"
    and "\<And>m. m \<in> set ns \<Longrightarrow> m \<noteq> hd ns \<Longrightarrow> nprev (h' m) = nprev (h m)"
    and "distinct ns"
  shows "dchain h' ns = dchain h ns"
  using assms
proof (induction h ns rule: dchain.induct)
  case (1 h a b ns)
  have "dchain h' (b # ns) = dchain h (b # ns)"
    using "1.prems" by (intro "1.IH") (auto split: if_splits)
  moreover have "last (b # ns) \<in> set (b # ns)"
    by (rule last_in_set) simp
  then have "a \<noteq> last (b # ns)"
    using "1.prems"(3) by auto
  then have "nnext (h' a) = nnext (h a)" and "nprev (h' b) = nprev (h b)"
    using "1.prems" by auto
  ultimately show ?case by simp
qed simp_all

lemma dchain_split:
  "dchain h (xs @ a # b # ys) =
     (dchain h (xs @ [a]) \<and> nnext (h a) = b \<and> nprev (h b) = a \<and> dchain h (b # ys))"
  by (simp add: dchain_append [of h xs a "b # ys"])

text \<open>
  Linking a node between two neighbours, and unlinking it, change the chain exactly there. Both
  sides of the insertion point keep their links because no node occurs twice.
\<close>

lemma dchain_insert:
  assumes ch: "dchain h (xs @ a # b # ys)"
    and dist: "distinct (n # xs @ a # b # ys)"
    and nx: "\<And>m. nnext (h' m) = (if m = n then b else if m = a then n else nnext (h m))"
    and pv: "\<And>m. nprev (h' m) = (if m = n then a else if m = b then n else nprev (h m))"
  shows "dchain h' (xs @ a # n # b # ys)"
proof -
  from ch have l: "dchain h (xs @ [a])" and r: "dchain h (b # ys)"
    by (simp_all add: dchain_split)
  have "dchain h' (xs @ [a]) = dchain h (xs @ [a])"
    by (rule dchain_cong) (use dist in \<open>auto simp: nx pv\<close>)
  moreover have "dchain h' (b # ys) = dchain h (b # ys)"
    by (rule dchain_cong) (use dist in \<open>auto simp: nx pv\<close>)
  ultimately show ?thesis
    using l r dist by (auto simp: dchain_split nx pv)
qed

lemma dchain_remove:
  assumes ch: "dchain h (xs @ a # n # b # ys)"
    and dist: "distinct (xs @ a # n # b # ys)"
    and nx: "\<And>m. nnext (h' m) = (if m = n then 0 else if m = a then b else nnext (h m))"
    and pv: "\<And>m. nprev (h' m) = (if m = n then 0 else if m = b then a else nprev (h m))"
  shows "dchain h' (xs @ a # b # ys)"
proof -
  from ch have l: "dchain h (xs @ [a])" and r: "dchain h (b # ys)"
    by (simp_all add: dchain_split)
  have "dchain h' (xs @ [a]) = dchain h (xs @ [a])"
    by (rule dchain_cong) (use dist in \<open>auto simp: nx pv\<close>)
  moreover have "dchain h' (b # ys) = dchain h (b # ys)"
    by (rule dchain_cong) (use dist in \<open>auto simp: nx pv\<close>)
  ultimately show ?thesis
    using l r dist by (auto simp: dchain_split nx pv)
qed

section \<open>Each operation on the node sequence\<close>

lemma dlist_init:
  assumes "distinct [0, lhead l, ltail l]"
  shows "dlist (list_init l h) l []"
  using assms by (simp add: dlist_def list_init_def)

lemma dlist_empty_iff:
  assumes "dlist h l xs"
  shows "list_empty l h = (xs = [])"
  using assms by (cases xs) (auto simp: dlist_def list_empty_def)

lemma dlist_snoc_cases:
  assumes "dlist h l xs"
  shows "nprev (h (ltail l)) = (if xs = [] then lhead l else last xs)"
proof (cases xs rule: rev_cases)
  case Nil
  with assms show ?thesis by (simp add: dlist_def)
next
  case (snoc ys y)
  with assms show ?thesis
    using dchain_split [of h "lhead l # ys" y "ltail l" "[]"] by (simp add: dlist_def)
qed

lemma dlist_first:
  assumes "dlist h l xs"
  shows "nnext (h (lhead l)) = (if xs = [] then ltail l else hd xs)"
  using assms by (cases xs) (auto simp: dlist_def)

lemma dlist_offer:
  assumes d: "dlist h l xs" and n: "node_for l n" "n \<notin> set xs"
  shows "dlist (list_offer l n h) l (n # xs)"
proof -
  obtain b bs where bs: "xs @ [ltail l] = b # bs"
    by (cases "xs @ [ltail l]") auto
  from d have ch: "dchain h ([] @ lhead l # b # bs)"
    by (simp add: dlist_def bs)
  have dist: "distinct (n # [] @ lhead l # b # bs)"
    using d n by (auto simp: dlist_def node_for_def bs [symmetric])
  from ch have nb: "nnext (h (lhead l)) = b" by simp
  have "dchain (list_offer l n h) ([] @ lhead l # n # b # bs)"
    by (rule dchain_insert [OF ch dist])
       (use dist nb in \<open>auto simp: list_offer_def list_linked_after_def Let_def\<close>)
  then show ?thesis
    using d n by (auto simp: dlist_def node_for_def bs)
qed

lemma dlist_push:
  assumes d: "dlist h l xs" and n: "node_for l n" "n \<notin> set xs"
  shows "dlist (list_push l n h) l (xs @ [n])"
proof -
  obtain as a where as: "lhead l # xs = as @ [a]"
    by (cases "lhead l # xs" rule: rev_cases) auto
  from d have ch: "dchain h (as @ a # ltail l # [])"
    unfolding dlist_def using as by (metis append_Cons append.assoc append_Nil)
  have dist: "distinct (n # as @ a # ltail l # [])"
  proof -
    have "distinct (n # (lhead l # xs) @ [ltail l])"
      using d n by (auto simp: dlist_def node_for_def)
    then show ?thesis by (simp add: as)
  qed
  from ch have pa: "nprev (h (ltail l)) = a" by (simp add: dchain_split)
  have "dchain (list_push l n h) (as @ a # n # ltail l # [])"
    by (rule dchain_insert [OF ch dist])
       (use dist pa in \<open>auto simp: list_push_def list_linked_before_def Let_def\<close>)
  then have "dchain (list_push l n h) ((lhead l # xs) @ [n, ltail l])"
    by (simp add: as)
  then show ?thesis
    using d n by (auto simp: dlist_def node_for_def)
qed

lemma dlist_unlinked:
  assumes d: "dlist h l (xs @ n # ys)"
  shows "dlist (list_unlinked n h) l (xs @ ys)"
proof -
  obtain as a where as: "lhead l # xs = as @ [a]"
    by (cases "lhead l # xs" rule: rev_cases) auto
  obtain b bs where bs: "ys @ [ltail l] = b # bs"
    by (cases "ys @ [ltail l]") auto
  have nodes: "(lhead l # xs) @ zs @ ys @ [ltail l] = as @ a # zs @ b # bs" for zs
    by (simp add: as bs)
  from d have ch: "dchain h (as @ a # n # b # bs)"
    using nodes [of "[n]"] by (simp add: dlist_def)
  have "distinct ((lhead l # xs) @ [n] @ ys @ [ltail l])"
    using d by (auto simp: dlist_def)
  then have "distinct (as @ a # [n] @ b # bs)"
    by (simp only: nodes)
  then have dist: "distinct (as @ a # n # b # bs)"
    by simp
  from ch have "nprev (h n) = a" "nnext (h n) = b"
    by (simp_all add: dchain_split)
  with dist have "dchain (list_unlinked n h) (as @ a # b # bs)"
    by (intro dchain_remove [OF ch dist]) (auto simp: list_unlinked_def Let_def)
  then have "dchain (list_unlinked n h) ((lhead l # xs) @ ys @ [ltail l])"
    using nodes [of "[]"] by simp
  then show ?thesis
    using d by (simp add: dlist_def)
qed

lemma unlinked_is_unlinked:
  "is_unlinked_node n (list_unlinked n h)"
  by (simp add: is_unlinked_node_def list_unlinked_def Let_def)

lemma dlist_poll:
  assumes d: "dlist h l xs" and ne: "xs \<noteq> []"
  shows "\<exists>h'. list_poll l h = Some (last xs, h') \<and> dlist h' l (butlast xs)
           \<and> is_unlinked_node (last xs) h'"
proof -
  have "dlist (list_unlinked (last xs) h) l (butlast xs)"
    using dlist_unlinked [of h l "butlast xs" "last xs" "[]"] d ne by simp
  then show ?thesis
    using d ne by (simp add: list_poll_def Let_def dlist_empty_iff dlist_snoc_cases
        unlinked_is_unlinked)
qed

lemma dlist_poll_empty:
  assumes "dlist h l []"
  shows "list_poll l h = None"
  using assms by (simp add: list_poll_def dlist_empty_iff)

lemma list_pop_eq_poll: "list_pop l h = list_poll l h"
  by (simp add: list_pop_def list_poll_def)

section \<open>The traversals return\<close>

lemma list_find_loop_chain:
  assumes "dchain h (n # ns @ [e])" and "e \<notin> set (n # ns)"
  shows "list_find_loop h e target n = Some (target \<in> set (n # ns))"
  using assms
proof (induction ns arbitrary: n)
  case Nil
  then show ?case
    by (simp add: list_find_loop.simps [of h e target n] list_find_loop.simps [of h e target e])
next
  case (Cons m ns)
  then have "list_find_loop h e target m = Some (target \<in> set (m # ns))"
    by (intro Cons.IH) auto
  with Cons.prems show ?case
    by (auto simp: list_find_loop.simps [of h e target n])
qed

lemma list_size_loop_chain:
  assumes "dchain h (n # ns @ [e])" and "e \<notin> set (n # ns)"
  shows "list_size_loop h e n sz = Some (sz + of_nat (length (n # ns)))"
  using assms
proof (induction ns arbitrary: n sz)
  case Nil
  then show ?case
    by (simp add: list_size_loop.simps [of h e n] list_size_loop.simps [of h e e])
next
  case (Cons m ns)
  then have "list_size_loop h e m (sz + 1) = Some (sz + 1 + of_nat (length (m # ns)))"
    by (intro Cons.IH) auto
  with Cons.prems show ?case
    by (auto simp: list_size_loop.simps [of h e n] algebra_simps)
qed

lemma list_get_loop_chain:
  assumes "dchain h (n # ns @ [e])" and "e \<notin> set (n # ns)"
    and "k < length (n # ns)" and "idx = i + of_nat k" and "length (n # ns) < 2 ^ 32"
  shows "list_get_loop h e idx i n = Some ((n # ns) ! k)"
  using assms
proof (induction ns arbitrary: n i k)
  case Nil
  then show ?case
    by (subst list_get_loop.simps) simp
next
  case (Cons m ns)
  show ?case
  proof (cases k)
    case 0
    with Cons.prems show ?thesis
      by (subst list_get_loop.simps) simp
  next
    case (Suc k')
    have "(of_nat k :: u32) \<noteq> of_nat 0"
      using Cons.prems(3,5) Suc by (subst of_nat_u32_eq_iff) auto
    then have "idx \<noteq> i"
      using Cons.prems(4) by auto
    moreover have "list_get_loop h e idx (i + 1) m = Some ((m # ns) ! k')"
      using Cons.prems Suc by (intro Cons.IH) (auto simp: algebra_simps)
    ultimately show ?thesis
      using Cons.prems Suc by (subst list_get_loop.simps) auto
  qed
qed

lemma dlist_length_bound:
  assumes "dlist h l xs"
  shows "length xs < 2 ^ 32"
proof -
  have "card (set (0 # xs)) \<le> card (UNIV :: u32 set)"
    by (rule card_mono) simp_all
  with assms show ?thesis
    by (simp add: dlist_def card_word distinct_card)
qed

lemma dlist_find:
  assumes d: "dlist h l xs"
  shows "list_find l target h = Some (target \<in> set xs)"
proof (cases xs)
  case Nil
  with d show ?thesis
    by (simp add: list_find_def dlist_def list_find_loop.simps [of h "ltail l" target "ltail l"])
next
  case (Cons n ns)
  with d have "list_find_loop h (ltail l) target n = Some (target \<in> set (n # ns))"
    by (intro list_find_loop_chain) (auto simp: dlist_def)
  with d Cons show ?thesis
    by (simp add: list_find_def dlist_def)
qed

lemma dlist_size:
  assumes d: "dlist h l xs"
  shows "list_size l h = Some (of_nat (length xs))"
proof (cases xs)
  case Nil
  with d show ?thesis
    by (simp add: list_size_def dlist_def list_size_loop.simps [of h "ltail l" "ltail l"])
next
  case (Cons n ns)
  with d have "list_size_loop h (ltail l) n 0 = Some (0 + of_nat (length (n # ns)))"
    by (intro list_size_loop_chain) (auto simp: dlist_def)
  with d Cons show ?thesis
    by (simp add: list_size_def dlist_def)
qed

lemma dlist_get:
  assumes d: "dlist h l xs" and i: "i < length xs"
  shows "list_get l (of_nat i) h = Some (xs ! i)"
proof -
  obtain n ns where xs: "xs = n # ns"
    using i by (cases xs) auto
  have len: "length xs < 2 ^ 32"
    using d by (rule dlist_length_bound)
  have "(of_nat i :: u32) < of_nat (length xs)"
    using i len by (simp add: word_less_nat_alt unat_of_nat_u32)
  moreover have "list_get_loop h (ltail l) (of_nat i) 0 n = Some ((n # ns) ! i)"
    using d i len by (intro list_get_loop_chain [where k = i]) (auto simp: dlist_def xs)
  moreover have "xs ! i \<noteq> ltail l"
    using d nth_mem [OF i] by (auto simp: dlist_def)
  ultimately show ?thesis
    using d by (simp add: list_get_def dlist_size dlist_first xs)
qed

section \<open>The deque interface\<close>

text \<open>
  What the kernel's users of the list rely on: a representation relation, adding at the front
  (\<open>offer\<close>) or at the back (\<open>push\<close>), and removing at the back (\<open>take_last\<close>). The order results
  are proved once from these laws.
\<close>

fun take_n :: "('h \<Rightarrow> ('a \<times> 'h) option) \<Rightarrow> nat \<Rightarrow> 'h \<Rightarrow> ('a list \<times> 'h) option" where
  "take_n tk 0 h = Some ([], h)"
| "take_n tk (Suc k) h = do {
     (x, h1) \<leftarrow> tk h;
     (xs, h2) \<leftarrow> take_n tk k h1;
     Some (x # xs, h2)
   }"

locale deque =
  fixes rep :: "'h \<Rightarrow> 'a list \<Rightarrow> bool"
    and admissible :: "'a \<Rightarrow> bool"
    and offer :: "'a \<Rightarrow> 'h \<Rightarrow> 'h"
    and push :: "'a \<Rightarrow> 'h \<Rightarrow> 'h"
    and take_last :: "'h \<Rightarrow> ('a \<times> 'h) option"
  assumes rep_offer: "rep h xs \<Longrightarrow> admissible x \<Longrightarrow> x \<notin> set xs \<Longrightarrow> rep (offer x h) (x # xs)"
    and rep_push: "rep h xs \<Longrightarrow> admissible x \<Longrightarrow> x \<notin> set xs \<Longrightarrow> rep (push x h) (xs @ [x])"
    and rep_take: "rep h xs \<Longrightarrow> xs \<noteq> [] \<Longrightarrow>
           \<exists>h'. take_last h = Some (last xs, h') \<and> rep h' (butlast xs)"
begin

lemma rep_offer_all:
  assumes "rep h ys" and "distinct (ys @ xs)" and "\<forall>x \<in> set xs. admissible x"
  shows "rep (fold offer xs h) (rev xs @ ys)"
  using assms
proof (induction xs arbitrary: h ys)
  case (Cons x xs)
  then have "rep (fold offer xs (offer x h)) (rev xs @ x # ys)"
    by (intro Cons.IH) (auto intro: rep_offer)
  then show ?case by simp
qed simp

lemma rep_push_all:
  assumes "rep h ys" and "distinct (ys @ xs)" and "\<forall>x \<in> set xs. admissible x"
  shows "rep (fold push xs h) (ys @ xs)"
  using assms
proof (induction xs arbitrary: h ys)
  case (Cons x xs)
  then have "rep (fold push xs (push x h)) ((ys @ [x]) @ xs)"
    by (intro Cons.IH) (auto intro: rep_push)
  then show ?case by simp
qed simp

lemma take_n_rep:
  assumes "rep h (xs @ ys)"
  shows "\<exists>h'. take_n take_last (length ys) h = Some (rev ys, h') \<and> rep h' xs"
  using assms
proof (induction ys arbitrary: h rule: rev_induct)
  case (snoc y ys)
  then obtain h1 where "take_last h = Some (y, h1)" and "rep h1 (xs @ ys)"
    using rep_take [of h "xs @ ys @ [y]"] by (auto simp: butlast_append)
  with snoc.IH [of h1] show ?case by auto
qed simp

lemma fifo:
  assumes "rep h []" and "distinct xs" and "\<forall>x \<in> set xs. admissible x"
  shows "\<exists>h'. take_n take_last (length xs) (fold offer xs h) = Some (xs, h') \<and> rep h' []"
  using rep_offer_all [of h "[]" xs] take_n_rep [of "fold offer xs h" "[]" "rev xs"] assms
  by simp

lemma lifo:
  assumes "rep h []" and "distinct xs" and "\<forall>x \<in> set xs. admissible x"
  shows "\<exists>h'. take_n take_last (length xs) (fold push xs h) = Some (rev xs, h') \<and> rep h' []"
  using rep_push_all [of h "[]" xs] take_n_rep [of "fold push xs h" "[]" xs] assms
  by simp

end

interpretation kl: deque "\<lambda>h xs. dlist h l xs" "node_for l" "list_offer l" "list_push l" "list_poll l"
  for l
  by unfold_locales (auto simp: dlist_offer dlist_push dest: dlist_poll)

section \<open>Properties\<close>

text \<open>
  A concrete list for the witnesses: sentinels at 1 and 2 in an otherwise empty heap, with the
  nodes 3 and 4 linked by \<open>list_push\<close>.
\<close>

definition demo_list :: klist where
  "demo_list = \<lparr>lhead = 1, ltail = 2\<rparr>"

definition demo_heap :: nheap where
  "demo_heap = list_push demo_list 4 (list_push demo_list 3
     (list_init demo_list (\<lambda>_. \<lparr>nprev = 0, nnext = 0\<rparr>)))"

lemma demo_dlist: "dlist demo_heap demo_list [3, 4]"
  unfolding demo_heap_def
  by (rule dlist_push [where xs = "[3]", simplified],
      rule dlist_push [where xs = "[]", simplified], rule dlist_init)
     (simp_all add: demo_list_def node_for_def)

text \<open>
  C36. Every operation of the kernel list refines an operation on the sequence of its nodes:
  \<open>list_offer\<close> adds at the front, \<open>list_push\<close> at the back, \<open>list_poll\<close> and \<open>list_pop\<close> panic on an
  empty list and otherwise remove and return the last node, leaving it unlinked, and
  \<open>list_unlinked\<close> removes a node from the middle. All of them keep the two chains of pointers
  consistent.
\<close>

theorem list_refines_sequence:
  assumes "dlist h l xs" and "node_for l n" and "n \<notin> set xs"
  shows "dlist (list_offer l n h) l (n # xs)
    \<and> dlist (list_push l n h) l (xs @ [n])
    \<and> list_empty l h = (xs = [])
    \<and> (case list_poll l h of
         None \<Rightarrow> xs = []
       | Some (m, h') \<Rightarrow> xs \<noteq> [] \<and> m = last xs \<and> dlist h' l (butlast xs) \<and> is_unlinked_node m h')
    \<and> list_pop l h = list_poll l h
    \<and> (\<forall>ys m zs. xs = ys @ m # zs \<longrightarrow> dlist (list_unlinked m h) l (ys @ zs))"
proof -
  have "case list_poll l h of
         None \<Rightarrow> xs = []
       | Some (m, h') \<Rightarrow> xs \<noteq> [] \<and> m = last xs \<and> dlist h' l (butlast xs) \<and> is_unlinked_node m h'"
    using assms(1) dlist_poll [of h l xs] dlist_poll_empty [of h l]
    by (cases "xs = []") auto
  moreover have "\<forall>ys m zs. xs = ys @ m # zs \<longrightarrow> dlist (list_unlinked m h) l (ys @ zs)"
    using assms(1) dlist_unlinked by blast
  ultimately show ?thesis
    using assms by (simp add: dlist_offer dlist_push dlist_empty_iff list_pop_eq_poll)
qed

theorem list_refines_sequence_witness:
  "dlist (list_offer demo_list 5 demo_heap) demo_list [5, 3, 4]
     \<and> dlist (list_unlinked 3 demo_heap) demo_list [4]"
proof -
  have "node_for demo_list 5" "5 \<notin> set [3, 4 :: u32]"
    by (simp_all add: node_for_def demo_list_def)
  from list_refines_sequence [OF demo_dlist this] show ?thesis
    by (metis append_Nil)
qed

text \<open>
  The traversals of a well-formed list return, with the right answer: \<open>list_size\<close> the number
  of nodes (which always fits 32 bits), \<open>list_find\<close> membership, and \<open>list_get\<close> the node at an
  index in range.
\<close>

theorem list_traversals_return:
  assumes "dlist h l xs"
  shows "list_size l h = Some (of_nat (length xs)) \<and> length xs < 2 ^ 32
     \<and> list_find l target h = Some (target \<in> set xs)
     \<and> (\<forall>i < length xs. list_get l (of_nat i) h = Some (xs ! i))"
  using dlist_length_bound [OF assms] assms by (simp add: dlist_size dlist_find dlist_get)

theorem list_traversals_return_witness:
  "list_size demo_list demo_heap = Some 2 \<and> list_find demo_list 4 demo_heap = Some True
     \<and> list_get demo_list 1 demo_heap = Some 4"
  using list_traversals_return [OF demo_dlist, of 4] by (auto dest!: spec [of _ 1])

text \<open>
  Nodes added with \<open>list_offer\<close> come back from \<open>list_poll\<close> first in, first out; nodes added with
  \<open>list_push\<close> come back from the same \<open>list_poll\<close> last in, first out.
\<close>

theorem list_queue_orders:
  assumes "distinct [0, lhead l, ltail l]" and "distinct ns" and "\<forall>n \<in> set ns. node_for l n"
  shows "(\<exists>h'. take_n (list_poll l) (length ns) (fold (list_offer l) ns (list_init l h))
           = Some (ns, h') \<and> dlist h' l [])
    \<and> (\<exists>h'. take_n (list_poll l) (length ns) (fold (list_push l) ns (list_init l h))
           = Some (rev ns, h') \<and> dlist h' l [])"
  using kl.fifo [OF dlist_init] kl.lifo [OF dlist_init] assms by blast+

theorem list_queue_orders_witness:
  "(\<exists>h'. take_n (list_poll demo_list) 3
       (fold (list_offer demo_list) [7, 8, 9] (list_init demo_list demo_heap)) = Some ([7, 8, 9], h'))
   \<and> (\<exists>h'. take_n (list_poll demo_list) 3
       (fold (list_push demo_list) [7, 8, 9] (list_init demo_list demo_heap)) = Some ([9, 8, 7], h'))"
proof -
  have h: "distinct [0, lhead demo_list, ltail demo_list]" "distinct [7, 8, 9 :: u32]"
    "\<forall>n \<in> set [7, 8, 9]. node_for demo_list n"
    by (simp_all add: demo_list_def node_for_def)
  have len: "length [7, 8, 9 :: u32] = 3" "rev [7, 8, 9 :: u32] = [9, 8, 7]"
    by simp_all
  show ?thesis
    using list_queue_orders [OF h, of demo_heap] unfolding len by blast
qed

end
