(* ===== verification/BufCache.thy ===== *)
theory BufCache
  imports Prelude "HOL-Library.Multiset"
begin

text \<open>
  Disk input and output: the IDE driver \<open>kernel/device/ide/ide.c\<close> and the block cache
  \<open>kernel/device/ide/bio.c\<close>.

  The cache is the array \<open>bufs\<close> with the list \<open>lru\<close> of its indices, from \<open>head.next\<close> (most recently released) to
  \<open>head.prev\<close>; \<open>idequeue\<close> is the list of the queued buffers (the chain of \<open>qnext\<close>). A disk is a number, 0 for
  \<open>NULL\<close>. A buffer's semaphore starts at 1: \<open>held\<close> says that it is taken. The operations are those of one task: a
  \<open>sem_wait\<close> on a buffer that is already taken does not return (\<open>None\<close>).

  The device is the array \<open>img\<close> of its sectors, and \<open>reg\<close> the address that it decoded from the last command. A
  sector number has 28 bits. \<open>err\<close> is what the status port reports (\<open>IDE_DF\<close> or \<open>IDE_ERR\<close>).
\<close>

section \<open>The IDE driver\<close>

definition BUF_FLAGS_DIRTY :: u32 where "BUF_FLAGS_DIRTY = 2"
definition BUF_FLAGS_VALID :: u32 where "BUF_FLAGS_VALID = 4"
definition BLOCK_SIZE :: u32 where "BLOCK_SIZE = 512"
definition NBUF :: nat where "NBUF = 40"

record buf =
  flags :: u32
  bdisk :: nat
  block_no :: u32
  refcnt :: u32
  held :: bool
  data :: "u8 list"

record bcache =
  bufs :: "buf list"
  lru :: "nat list"
  idequeue :: "nat list"
  img :: "nat \<Rightarrow> u32 \<Rightarrow> u8 list"
  reg :: u32

text \<open>Port numbers are offsets from the base of the channel.\<close>

definition select_secs :: "bool \<Rightarrow> u32 \<Rightarrow> u32 \<Rightarrow> (u32 \<times> u8) list" where
  "select_secs slave lba secs =
     [(0x206, 0), (2, ucast secs), (3, ucast (lba AND 0xFF)), (4, ucast (drop_bit 8 lba AND 0xFF)),
      (5, ucast (drop_bit 16 lba AND 0xFF)),
      (6, ucast (0x40 OR 0xA0 OR (if slave then 0x10 else 0) OR (drop_bit 24 lba AND 0xF)))]"

text \<open>The sector address that a drive decodes from its registers (28-bit LBA).\<close>

definition decode_lba :: "(u32 \<times> u8) list \<Rightarrow> u32" where
  "decode_lba ws = (case (map_of ws 3, map_of ws 4, map_of ws 5, map_of ws 6) of
     (Some a, Some b, Some c, Some d) \<Rightarrow>
       ucast a OR push_bit 8 (ucast b) OR push_bit 16 (ucast c) OR push_bit 24 (ucast (d AND 0xF))
   | _ \<Rightarrow> 0)"

definition is_dirty :: "buf \<Rightarrow> bool" where "is_dirty b = (flags b AND BUF_FLAGS_DIRTY \<noteq> 0)"
definition is_valid :: "buf \<Rightarrow> bool" where "is_valid b = (flags b AND BUF_FLAGS_VALID \<noteq> 0)"
definition io_done :: "buf \<Rightarrow> bool" where
  "io_done b = (flags b AND (BUF_FLAGS_VALID OR BUF_FLAGS_DIRTY) = BUF_FLAGS_VALID)"

text \<open>
  \<open>idestart\<close>: one sector per block. A dirty buffer is sent to the drive at once; for a clean one the drive gets a
  read command. \<open>slave\<close> tells which drives are slaves on their channel.
\<close>

definition idestart :: "(nat \<Rightarrow> bool) \<Rightarrow> nat \<Rightarrow> bcache \<Rightarrow> bcache" where
  "idestart slave i s =
     (let b = bufs s ! i;
          lba = decode_lba (select_secs (slave (bdisk b)) (block_no b * 1) 1)
      in if is_dirty b
         then s\<lparr>reg := lba, img := (img s)(bdisk b := (img s (bdisk b))(lba := data b))\<rparr>
         else s\<lparr>reg := lba\<rparr>)"

definition ide_intr_handler :: "(nat \<Rightarrow> bool) \<Rightarrow> bool \<Rightarrow> bcache \<Rightarrow> bcache" where
  "ide_intr_handler slave err s =
     (case idequeue s of
        [] \<Rightarrow> s
      | i # q \<Rightarrow>
          let b = bufs s ! i;
              b1 = (if \<not> is_dirty b \<and> \<not> err then b\<lparr>data := img s (bdisk b) (reg s)\<rparr> else b);
              b2 = b1\<lparr>flags := (flags b1 OR BUF_FLAGS_VALID) AND NOT BUF_FLAGS_DIRTY\<rparr>;
              s1 = s\<lparr>bufs := (bufs s)[i := b2], idequeue := q\<rparr>
          in (if q \<noteq> [] then idestart slave (hd q) s1 else s1))"

text \<open>The first half of \<open>iderw\<close>, up to its waiting loop.\<close>

definition ide_enqueue :: "(nat \<Rightarrow> bool) \<Rightarrow> nat \<Rightarrow> bcache \<Rightarrow> bcache option" where
  "ide_enqueue slave i s = do {
     kassert (held (bufs s ! i));
     kassert (\<not> io_done (bufs s ! i));
     Some (if idequeue s = [] then idestart slave i (s\<lparr>idequeue := [i]\<rparr>)
           else s\<lparr>idequeue := idequeue s @ [i]\<rparr>)
   }"

text \<open>
  \<open>iderw\<close>: every interrupt finishes the request at the head of the queue, and the loop waits until the buffer is
  done; \<open>errs\<close> are the results that the drive reports for the interrupts to come.
\<close>

fun ide_wait :: "(nat \<Rightarrow> bool) \<Rightarrow> nat \<Rightarrow> bool list \<Rightarrow> bcache \<Rightarrow> bcache option" where
  "ide_wait slave i errs s =
     (if io_done (bufs s ! i) then Some s
      else case errs of [] \<Rightarrow> None | e # es \<Rightarrow> ide_wait slave i es (ide_intr_handler slave e s))"

declare ide_wait.simps [simp del]

definition iderw :: "(nat \<Rightarrow> bool) \<Rightarrow> bool list \<Rightarrow> nat \<Rightarrow> bcache \<Rightarrow> bcache option" where
  "iderw slave errs i s = do { s1 \<leftarrow> ide_enqueue slave i s; ide_wait slave i errs s1 }"

text \<open>\<open>get_ide_channel_cnt\<close>, from the number of drives that the BIOS found.\<close>

definition get_ide_channel_cnt :: "u8 \<Rightarrow> u8" where
  "get_ide_channel_cnt hd_cnt =
     (let n = ucast (ROUND_UP (ucast hd_cnt) 2) in if n > 2 then 2 else n)"

section \<open>The block cache\<close>

definition buf_insert_to_head :: "nat \<Rightarrow> nat list \<Rightarrow> nat list" where
  "buf_insert_to_head i l = i # l"

definition buf_unlinked :: "nat \<Rightarrow> nat list \<Rightarrow> nat list" where
  "buf_unlinked i l = remove1 i l"

definition bio_init :: "bcache \<Rightarrow> bcache" where
  "bio_init s = s\<lparr>bufs := map (\<lambda>b. b\<lparr>held := False, refcnt := 0, bdisk := 0, block_no := 0\<rparr>) (bufs s),
     lru := foldl (\<lambda>l i. buf_insert_to_head i l) [] [0..<NBUF]\<rparr>"

definition buf_match :: "nat \<Rightarrow> u32 \<Rightarrow> buf \<Rightarrow> bool" where
  "buf_match disk blk b = (bdisk b = disk \<and> block_no b = blk)"

definition upd_buf :: "nat \<Rightarrow> (buf \<Rightarrow> buf) \<Rightarrow> bcache \<Rightarrow> bcache" where
  "upd_buf i f s = s\<lparr>bufs := (bufs s)[i := f (bufs s ! i)]\<rparr>"

definition buf_get :: "nat \<Rightarrow> u32 \<Rightarrow> bcache \<Rightarrow> (nat \<times> bcache) option" where
  "buf_get disk blk s =
     (case List.find (\<lambda>i. buf_match disk blk (bufs s ! i)) (lru s) of
        Some i \<Rightarrow> do {
          kassert (\<not> held (bufs s ! i));
          Some (i, upd_buf i (\<lambda>b. b\<lparr>refcnt := refcnt b + 1, held := True\<rparr>) s)
        }
      | None \<Rightarrow> (case List.find (\<lambda>i. refcnt (bufs s ! i) = 0 \<and> \<not> is_dirty (bufs s ! i)) (rev (lru s)) of
          Some i \<Rightarrow> do {
            kassert (\<not> held (bufs s ! i));
            Some (i, upd_buf i (\<lambda>b. b\<lparr>refcnt := 1, flags := 0, bdisk := disk, block_no := blk, held := True\<rparr>) s)
          }
        | None \<Rightarrow> None))"

definition buf_read :: "(nat \<Rightarrow> bool) \<Rightarrow> bool list \<Rightarrow> nat \<Rightarrow> u32 \<Rightarrow> bcache \<Rightarrow> (nat \<times> bcache) option" where
  "buf_read slave errs disk blk s = do {
     (i, s1) \<leftarrow> buf_get disk blk s;
     if \<not> is_valid (bufs s1 ! i) then do { s2 \<leftarrow> iderw slave errs i s1; Some (i, s2) }
     else Some (i, s1)
   }"

definition buf_write :: "(nat \<Rightarrow> bool) \<Rightarrow> bool list \<Rightarrow> nat \<Rightarrow> bcache \<Rightarrow> bcache option" where
  "buf_write slave errs i s = do {
     kassert (held (bufs s ! i));
     iderw slave errs i (upd_buf i (\<lambda>b. b\<lparr>flags := flags b OR BUF_FLAGS_DIRTY\<rparr>) s)
   }"

definition buf_release :: "nat \<Rightarrow> bcache \<Rightarrow> bcache" where
  "buf_release i s =
     (let s1 = upd_buf i (\<lambda>b. b\<lparr>held := False, refcnt := refcnt b - 1\<rparr>) s
      in if refcnt (bufs s1 ! i) = 0
         then s1\<lparr>lru := buf_insert_to_head i (buf_unlinked i (lru s1))\<rparr> else s1)"

section \<open>Flags\<close>

lemma flag_simps [simp]:
  "is_dirty (b\<lparr>flags := flags b OR BUF_FLAGS_DIRTY\<rparr>)"
  "\<not> is_dirty (b\<lparr>flags := (f OR BUF_FLAGS_VALID) AND NOT BUF_FLAGS_DIRTY\<rparr>)"
  "is_valid (b\<lparr>flags := (f OR BUF_FLAGS_VALID) AND NOT BUF_FLAGS_DIRTY\<rparr>)"
  "is_valid (b\<lparr>flags := flags b OR BUF_FLAGS_DIRTY\<rparr>) = is_valid b"
  "\<not> is_valid (b\<lparr>flags := 0\<rparr>)" "\<not> is_dirty (b\<lparr>flags := 0\<rparr>)"
  by (simp_all add: is_dirty_def is_valid_def BUF_FLAGS_DIRTY_def BUF_FLAGS_VALID_def bit.conj_disj_distrib2 and.assoc)

lemma and_exp: "x AND 2 ^ n = (if bit x n then 2 ^ n else (0 :: u32))"
  by (rule bit_word_eqI) (auto simp: bit_simps)

lemma io_done_iff: "io_done b \<longleftrightarrow> is_valid b \<and> \<not> is_dirty b"
proof -
  have "flags b AND 6 = (flags b AND 4) OR (flags b AND 2)"
    using bit.conj_disj_distrib [of "flags b" 4 2] by simp
  then show ?thesis
    using and_exp [of "flags b" 1] and_exp [of "flags b" 2]
    by (simp add: io_done_def is_valid_def is_dirty_def BUF_FLAGS_DIRTY_def BUF_FLAGS_VALID_def)
qed

lemma decode_select: "decode_lba (select_secs slave lba secs) = lba AND 0x0FFFFFFF"
proof -
  have m: "(0xFF :: u32) = mask 8" "(0xF :: u32) = mask 4" "(0xF :: u8) = mask 4" "(0x0FFFFFFF :: u32) = mask 28"
      "(0x40 OR 0xA0 OR (if slave then 0x10 else 0) :: u32) = push_bit 4 (if slave then 15 else 14)"
    by (simp_all add: mask_eq_exp_minus_1)
  have regs: "decode_lba (select_secs slave lba secs) =
      ucast (ucast (lba AND mask 8) :: u8) OR push_bit 8 (ucast (ucast (drop_bit 8 lba AND mask 8) :: u8))
      OR push_bit 16 (ucast (ucast (drop_bit 16 lba AND mask 8) :: u8))
      OR push_bit 24 (ucast (ucast (push_bit 4 (if slave then 15 else 14) OR (drop_bit 24 lba AND mask 4)) AND mask 4 :: u8))"
    by (simp only: decode_lba_def select_secs_def m(1-3) m(5) flip: or.assoc) (simp add: mask_eq_exp_minus_1)
  show ?thesis
    unfolding regs m(4)
  proof (rule bit_word_eqI)
    fix n
    assume "n < LENGTH(32)"
    then consider "n < 8" | "8 \<le> n \<and> n < 16" | "16 \<le> n \<and> n < 24" | "24 \<le> n \<and> n < 28" | "28 \<le> n \<and> n < 32"
      by fastforce
    then show "bit ((ucast (ucast (lba AND mask 8) :: u8) :: u32) OR push_bit 8 (ucast (ucast (drop_bit 8 lba AND mask 8) :: u8))
      OR push_bit 16 (ucast (ucast (drop_bit 16 lba AND mask 8) :: u8))
      OR push_bit 24 (ucast (ucast (push_bit 4 (if slave then 15 else 14) OR (drop_bit 24 lba AND mask 4)) AND mask 4 :: u8))) n
      = bit (lba AND mask 28) n"
      by cases (auto simp: bit_simps)
  qed
qed

section \<open>The request queue\<close>

text \<open>A request that finds the queue empty is finished by the next interrupt.\<close>

lemma iderw_idle:
  assumes "idequeue s = []" "held (bufs s ! i)" "\<not> io_done (bufs s ! i)" "i < length (bufs s)"
    and b_def: "b = bufs s ! i" and blk: "block_no b < 2 ^ 28"
  shows "iderw slave (err # es) i s =
    Some (if is_dirty b
          then s\<lparr>reg := block_no b, img := (img s)(bdisk b := (img s (bdisk b))(block_no b := data b)),
                 bufs := (bufs s)[i := b\<lparr>flags := (flags b OR BUF_FLAGS_VALID) AND NOT BUF_FLAGS_DIRTY\<rparr>]\<rparr>
          else s\<lparr>reg := block_no b,
                 bufs := (bufs s)[i := b\<lparr>data := (if err then data b else img s (bdisk b) (block_no b)),
                                          flags := (flags b OR BUF_FLAGS_VALID) AND NOT BUF_FLAGS_DIRTY\<rparr>]\<rparr>)"
proof -
  have "block_no b AND mask 28 = block_no b"
    using blk by (simp add: less_mask_eq)
  then have dec: "decode_lba (select_secs sl (block_no b) secs) = block_no b" for sl secs
    by (simp add: decode_select mask_eq_exp_minus_1)
  show ?thesis
    using assms(1-4) unfolding b_def [symmetric]
    by (auto simp: iderw_def ide_enqueue_def idestart_def Let_def ide_wait.simps dec ide_intr_handler_def
        io_done_iff b_def [symmetric] simp flip: b_def)
qed

lemma idestart_simps [simp]:
  "bufs (idestart slave i s) = bufs s" "idequeue (idestart slave i s) = idequeue s" "lru (idestart slave i s) = lru s"
  by (simp_all add: idestart_def Let_def)

lemma intr_handler_head:
  assumes "idequeue s = i # q" "i < length (bufs s)"
  shows "idequeue (ide_intr_handler slave err s) = q" "io_done (bufs (ide_intr_handler slave err s) ! i)"
    "j \<noteq> i \<Longrightarrow> bufs (ide_intr_handler slave err s) ! j = bufs s ! j"
    "length (bufs (ide_intr_handler slave err s)) = length (bufs s)" "lru (ide_intr_handler slave err s) = lru s"
  using assms by (simp_all add: ide_intr_handler_def Let_def io_done_iff)

lemma ide_wait_returns:
  assumes "distinct (idequeue s)" "i \<in> set (idequeue s)" "length (idequeue s) \<le> length errs"
    and "\<forall>j\<in>set (idequeue s). j < length (bufs s) \<and> \<not> io_done (bufs s ! j)"
  shows "\<exists>s'. ide_wait slave i errs s = Some s' \<and> io_done (bufs s' ! i)
    \<and> idequeue s' = tl (dropWhile (\<lambda>j. j \<noteq> i) (idequeue s))
    \<and> (\<forall>j\<in>set (takeWhile (\<lambda>j. j \<noteq> i) (idequeue s)). io_done (bufs s' ! j))
    \<and> (\<forall>j. j \<noteq> i \<longrightarrow> j \<notin> set (takeWhile (\<lambda>j. j \<noteq> i) (idequeue s)) \<longrightarrow> bufs s' ! j = bufs s ! j)"
  using assms
proof (induction errs arbitrary: s)
  case Nil
  then show ?case by auto
next
  case (Cons e es)
  obtain k q where q: "idequeue s = k # q"
    using Cons.prems(2) by (cases "idequeue s") auto
  have k: "k < length (bufs s)" "\<not> io_done (bufs s ! i)"
    using Cons.prems(2,4) q by auto
  note h = intr_handler_head [OF q k(1), where slave = slave and err = e]
  have w: "ide_wait slave i (e # es) s = ide_wait slave i es (ide_intr_handler slave e s)"
    using k(2) by (simp add: ide_wait.simps [of slave i "e # es"])
  show ?case
  proof (cases "k = i")
    case True
    then have "ide_wait slave i es (ide_intr_handler slave e s) = Some (ide_intr_handler slave e s)"
      using h(2) by (simp add: ide_wait.simps)
    then show ?thesis
      using w h True q by auto
  next
    case False
    let ?s = "ide_intr_handler slave e s"
    have pre: "distinct (idequeue ?s)" "i \<in> set (idequeue ?s)" "length (idequeue ?s) \<le> length es"
      using Cons.prems q False h(1) by auto
    have "j < length (bufs ?s) \<and> \<not> io_done (bufs ?s ! j)" if "j \<in> set q" for j
    proof -
      have "j \<noteq> k"
        using Cons.prems(1) q that by auto
      then show ?thesis
        using Cons.prems(4) q that h(3) [of j] h(4) by simp
    qed
    then have pending: "\<forall>j\<in>set (idequeue ?s). j < length (bufs ?s) \<and> \<not> io_done (bufs ?s ! j)"
      unfolding h(1) by blast
    from Cons.IH [OF pre pending] obtain s' where s': "ide_wait slave i es ?s = Some s'" "io_done (bufs s' ! i)"
        "idequeue s' = tl (dropWhile (\<lambda>j. j \<noteq> i) q)" "\<forall>j\<in>set (takeWhile (\<lambda>j. j \<noteq> i) q). io_done (bufs s' ! j)"
        "\<And>j. j \<noteq> i \<Longrightarrow> j \<notin> set (takeWhile (\<lambda>j. j \<noteq> i) q) \<Longrightarrow> bufs s' ! j = bufs ?s ! j"
      by (auto simp: h(1))
    have "k \<notin> set (takeWhile (\<lambda>j. j \<noteq> i) q)"
      using Cons.prems(1) q by (auto dest: set_takeWhileD)
    then have "bufs s' ! k = bufs ?s ! k"
      using s'(5) False by auto
    then show ?thesis
      using w s' h False q by auto
  qed
qed

section \<open>Coherence of the cache\<close>

text \<open>
  The contents of a block as \<open>buf_read\<close> shows it: the cached copy when there is one, the disk otherwise. The invariant:
  the list holds every buffer once, a block of a disk is cached at most once, cached data is valid, and a buffer that
  is neither dirty nor in use agrees with the disk.
\<close>

definition view :: "bcache \<Rightarrow> nat \<Rightarrow> u32 \<Rightarrow> u8 list" where
  "view s d blk = (case List.find (buf_match d blk) (bufs s) of Some b \<Rightarrow> data b | None \<Rightarrow> img s d blk)"

definition binv :: "bcache \<Rightarrow> bool" where
  "binv s = (distinct (lru s) \<and> set (lru s) = {0..<length (bufs s)} \<and> idequeue s = []
     \<and> (\<forall>i < length (bufs s). \<forall>j < length (bufs s). bdisk (bufs s ! i) \<noteq> 0 \<longrightarrow> bdisk (bufs s ! i) = bdisk (bufs s ! j) \<longrightarrow>
          block_no (bufs s ! i) = block_no (bufs s ! j) \<longrightarrow> i = j)
     \<and> (\<forall>b \<in> set (bufs s). bdisk b \<noteq> 0 \<longrightarrow> is_valid b)
     \<and> (\<forall>b \<in> set (bufs s). bdisk b \<noteq> 0 \<longrightarrow> \<not> is_dirty b \<longrightarrow> \<not> held b \<longrightarrow> data b = img s (bdisk b) (block_no b))
     \<and> (\<forall>b \<in> set (bufs s). refcnt b = (if held b then 1 else 0)))"

lemma binv_inj:
  assumes "binv s" "i < length (bufs s)" "j < length (bufs s)" "bdisk (bufs s ! i) \<noteq> 0"
    and "bdisk (bufs s ! i) = bdisk (bufs s ! j)" "block_no (bufs s ! i) = block_no (bufs s ! j)"
  shows "i = j"
  using assms by (simp add: binv_def)

lemma find_Some_nth:
  assumes "List.find P xs = Some x"
  shows "\<exists>i < length xs. xs ! i = x \<and> P x"
  using assms by (auto simp: find_Some_iff)

lemma find_Some_set:
  assumes "List.find P xs = Some x"
  shows "x \<in> set xs" "P x"
  using assms by (auto simp: find_Some_iff)

lemma view_cached:
  assumes "binv s" "i < length (bufs s)" "buf_match d blk (bufs s ! i)" "d \<noteq> 0"
  shows "view s d blk = data (bufs s ! i)"
proof -
  have "List.find (buf_match d blk) (bufs s) \<noteq> None"
    using assms(3) nth_mem [OF assms(2)] unfolding find_None_iff by blast
  then obtain b where b: "List.find (buf_match d blk) (bufs s) = Some b"
    by blast
  then obtain j where j: "j < length (bufs s)" "bufs s ! j = b" "buf_match d blk b"
    using find_Some_nth [OF b] by blast
  then have "j = i"
    using assms(2-4) binv_inj [OF assms(1) j(1) assms(2)] by (simp add: buf_match_def)
  then show ?thesis
    using b j by (simp add: view_def)
qed

lemma view_uncached:
  assumes "\<And>i. i < length (bufs s) \<Longrightarrow> \<not> buf_match d blk (bufs s ! i)"
  shows "view s d blk = img s d blk"
proof -
  have "List.find (buf_match d blk) (bufs s) = None"
    using assms by (metis find_None_iff in_set_conv_nth)
  then show ?thesis
    by (simp add: view_def)
qed

lemma binvD:
  assumes "binv s" "i < length (bufs s)"
  shows "bdisk (bufs s ! i) \<noteq> 0 \<Longrightarrow> is_valid (bufs s ! i)"
    "bdisk (bufs s ! i) \<noteq> 0 \<Longrightarrow> \<not> is_dirty (bufs s ! i) \<Longrightarrow> \<not> held (bufs s ! i) \<Longrightarrow> data (bufs s ! i) = img s (bdisk (bufs s ! i)) (block_no (bufs s ! i))"
    "refcnt (bufs s ! i) = (if held (bufs s ! i) then 1 else 0)" "i \<in> set (lru s)"
  using assms nth_mem [OF assms(2)] by (auto simp: binv_def)

text \<open>Replacing one buffer keeps the invariant when the new buffer satisfies it.\<close>

lemma binv_upd:
  assumes inv: "binv s" and i: "i < length (bufs s)"
    and key: "\<And>j. j < length (bufs s) \<Longrightarrow> j \<noteq> i \<Longrightarrow> bdisk b \<noteq> 0 \<Longrightarrow> \<not> (bdisk (bufs s ! j) = bdisk b \<and> block_no (bufs s ! j) = block_no b)"
    and val: "bdisk b \<noteq> 0 \<Longrightarrow> is_valid b" "bdisk b \<noteq> 0 \<Longrightarrow> \<not> is_dirty b \<Longrightarrow> \<not> held b \<Longrightarrow> data b = img' (bdisk b) (block_no b)"
    and ref: "refcnt b = (if held b then 1 else 0)"
    and im: "\<And>j. j < length (bufs s) \<Longrightarrow> j \<noteq> i \<Longrightarrow> bdisk (bufs s ! j) \<noteq> 0 \<Longrightarrow>
        img' (bdisk (bufs s ! j)) (block_no (bufs s ! j)) = img s (bdisk (bufs s ! j)) (block_no (bufs s ! j))"
    and s': "bufs s' = (bufs s)[i := b]" "mset (lru s') = mset (lru s)" "idequeue s' = []" "img s' = img'"
  shows "binv s'"
  unfolding binv_def
proof (intro conjI ballI allI impI)
  show "distinct (lru s')" "set (lru s') = {0..<length (bufs s')}" "idequeue s' = []"
    using inv s' mset_eq_imp_distinct_iff [OF s'(2)] mset_eq_setD [OF s'(2)] by (auto simp: binv_def)
next
  fix j k
  assume a: "j < length (bufs s')" "k < length (bufs s')" "bdisk (bufs s' ! j) \<noteq> 0"
    "bdisk (bufs s' ! j) = bdisk (bufs s' ! k)" "block_no (bufs s' ! j) = block_no (bufs s' ! k)"
  show "j = k"
    using a key [of j] key [of k] binv_inj [OF inv, of j k] s'(1) by (cases "j = i"; cases "k = i") auto
next
  have d: "\<And>j. j < length (bufs s) \<Longrightarrow> bdisk (bufs s ! j) \<noteq> 0 \<Longrightarrow> is_valid (bufs s ! j)"
    using binvD(1) [OF inv] by blast
  fix c
  assume "c \<in> set (bufs s')"
  then obtain j where j: "j < length (bufs s)" "c = (bufs s)[i := b] ! j"
    using s'(1) by (metis in_set_conv_nth length_list_update)
  note old = binvD [OF inv j(1)] and cases = j(2) i
  show "is_valid c" if "bdisk c \<noteq> 0"
    using old(1) val(1) cases that by (cases "j = i") simp_all
  show "data c = img s' (bdisk c) (block_no c)" if "bdisk c \<noteq> 0" "\<not> is_dirty c" "\<not> held c"
    using old(2) val(2) im [OF j(1)] cases that s'(4) by (cases "j = i") simp_all
  show "refcnt c = (if held c then 1 else 0)"
    using old(3) ref cases by (cases "j = i") simp_all
qed

lemma view_eqI:
  assumes "binv s" "binv s'" "i < length (bufs s)" "bufs s' = (bufs s)[i := b]"
    and "img s' = img s" "\<And>d blk. d \<noteq> 0 \<Longrightarrow> buf_match d blk (bufs s ! i) \<longleftrightarrow> buf_match d blk b"
    and "data b = data (bufs s ! i)" "d \<noteq> 0"
  shows "view s' d blk = view s d blk"
proof (cases "\<exists>j < length (bufs s). buf_match d blk (bufs s ! j)")
  case True
  then obtain j where j: "j < length (bufs s)" "buf_match d blk (bufs s ! j)"
    by blast
  have "buf_match d blk (bufs s' ! j)" "data (bufs s' ! j) = data (bufs s ! j)"
    using j assms(3,4,6-8) by (cases "j = i"; simp)+
  then show ?thesis
    using view_cached [OF assms(1) j assms(8)] view_cached [OF assms(2) _ _ assms(8), of j blk] j(1) assms(4) by simp
next
  case False
  then have "\<not> buf_match d blk (bufs s' ! j)" if "j < length (bufs s')" for j
    using that assms(3,4,6,8) by (cases "j = i") auto
  then show ?thesis
    using False view_uncached [of s d blk] view_uncached [of s' d blk] assms(5) by auto
qed

section \<open>The operations\<close>

definition avail :: "bcache \<Rightarrow> nat \<Rightarrow> u32 \<Rightarrow> bool" where
  "avail s d blk =
     (if \<exists>i < length (bufs s). buf_match d blk (bufs s ! i)
      then \<exists>i < length (bufs s). buf_match d blk (bufs s ! i) \<and> \<not> held (bufs s ! i)
      else \<exists>i < length (bufs s). \<not> held (bufs s ! i) \<and> \<not> is_dirty (bufs s ! i))"

lemma buf_get_hit:
  assumes inv: "binv s" and d: "d \<noteq> 0" and i: "i < length (bufs s)" "buf_match d blk (bufs s ! i)" "\<not> held (bufs s ! i)"
  shows "buf_get d blk s = Some (i, upd_buf i (\<lambda>b. b\<lparr>refcnt := 1, held := True\<rparr>) s)"
proof -
  have "List.find (\<lambda>i. buf_match d blk (bufs s ! i)) (lru s) \<noteq> None"
    using i binvD(4) [OF inv i(1)] unfolding find_None_iff by blast
  then obtain j where j: "List.find (\<lambda>i. buf_match d blk (bufs s ! i)) (lru s) = Some j"
    by blast
  then have jj: "j \<in> set (lru s)" "buf_match d blk (bufs s ! j)"
    using find_Some_set [OF j] by simp_all
  then have "j < length (bufs s)"
    using inv by (auto simp: binv_def)
  then have "j = i"
    using binv_inj [OF inv _ i(1), of j] jj(2) i(2) d by (simp add: buf_match_def)
  then show ?thesis
    using j i(3) binvD(3) [OF inv i(1)] by (simp add: buf_get_def upd_buf_def)
qed

lemma buf_get_miss:
  assumes inv: "binv s" and no: "\<And>i. i < length (bufs s) \<Longrightarrow> \<not> buf_match d blk (bufs s ! i)"
    and free: "k < length (bufs s)" "\<not> held (bufs s ! k)" "\<not> is_dirty (bufs s ! k)"
  obtains i where "i < length (bufs s)" "\<not> held (bufs s ! i)" "\<not> is_dirty (bufs s ! i)"
    "buf_get d blk s = Some (i, upd_buf i (\<lambda>b. b\<lparr>refcnt := 1, flags := 0, bdisk := d, block_no := blk, held := True\<rparr>) s)"
proof -
  have l: "set (lru s) = {0..<length (bufs s)}"
    using inv by (simp add: binv_def)
  have miss: "List.find (\<lambda>i. buf_match d blk (bufs s ! i)) (lru s) = None"
    unfolding find_None_iff using no l by auto
  let ?P = "\<lambda>i. refcnt (bufs s ! i) = 0 \<and> \<not> is_dirty (bufs s ! i)"
  have "List.find ?P (rev (lru s)) \<noteq> None"
    unfolding find_None_iff using free binvD(3,4) [OF inv free(1)] by auto
  then obtain i where i: "List.find ?P (rev (lru s)) = Some i"
    by blast
  then have ii: "i \<in> set (lru s)" "?P i"
    using find_Some_set [OF i] by simp_all
  then have lt: "i < length (bufs s)"
    using l by auto
  then have "\<not> held (bufs s ! i)"
    using ii(2) binvD(3) [OF inv lt] by (auto split: if_splits)
  then show ?thesis
    using that [OF lt _ _] ii(2) miss i by (simp add: buf_get_def)
qed

lemma buf_read_ok:
  assumes inv: "binv s" and d: "d \<noteq> 0" and blk: "blk < 2 ^ 28" and av: "avail s d blk"
  shows "\<exists>i s'. buf_read slave (False # es) d blk s = Some (i, s') \<and> binv s' \<and> i < length (bufs s')
    \<and> buf_match d blk (bufs s' ! i) \<and> held (bufs s' ! i) \<and> data (bufs s' ! i) = view s d blk
    \<and> img s' = img s \<and> (\<forall>d' b'. d' \<noteq> 0 \<longrightarrow> view s' d' b' = view s d' b')
    \<and> (\<forall>j < length (bufs s). j \<noteq> i \<longrightarrow> bufs s' ! j = bufs s ! j) \<and> length (bufs s') = length (bufs s)
    \<and> (is_dirty (bufs s' ! i) \<or> data (bufs s' ! i) = img s d blk)"
proof (cases "\<exists>i < length (bufs s). buf_match d blk (bufs s ! i)")
  case True
  then obtain i where i: "i < length (bufs s)" "buf_match d blk (bufs s ! i)" "\<not> held (bufs s ! i)"
    using av unfolding avail_def if_P [OF True] by blast
  let ?b = "(bufs s ! i)\<lparr>refcnt := 1, held := True\<rparr>"
  let ?s = "upd_buf i (\<lambda>b. b\<lparr>refcnt := 1, held := True\<rparr>) s"
  have key: "bdisk (bufs s ! i) = d" "block_no (bufs s ! i) = blk"
    using i(2) by (simp_all add: buf_match_def)
  have valid: "is_valid ?b"
    using binvD(1) [OF inv i(1)] d key by (simp add: is_valid_def)
  have "binv ?s"
    by (rule binv_upd [OF inv i(1), where b = ?b and img' = "img s"])
       (use binv_inj [OF inv _ i(1)] valid inv in \<open>auto simp: upd_buf_def binv_def\<close>)
  moreover have "view ?s d' b' = view s d' b'" if "d' \<noteq> 0" for d' b'
    by (rule view_eqI [OF inv \<open>binv ?s\<close> i(1) _ _ _ _ that, where b = ?b]) (simp_all add: upd_buf_def buf_match_def)
  moreover have "buf_read slave (False # es) d blk s = Some (i, ?s)"
    using valid i(1) by (simp add: buf_read_def buf_get_hit [OF inv d i] upd_buf_def)
  moreover have "is_dirty ?b \<or> data ?b = img s d blk"
    using binvD(2) [OF inv i(1)] i(3) key d by (auto simp: is_dirty_def)
  ultimately show ?thesis
    using i(1,2) view_cached [OF inv i(1,2) d]
    by (intro exI [of _ i] exI [of _ ?s]) (simp add: upd_buf_def buf_match_def)
next
  case False
  then obtain k where k: "k < length (bufs s)" "\<not> held (bufs s ! k)" "\<not> is_dirty (bufs s ! k)"
    using av unfolding avail_def if_not_P [OF False] by blast
  have no: "\<And>i. i < length (bufs s) \<Longrightarrow> \<not> buf_match d blk (bufs s ! i)"
    using False by blast
  obtain i where i: "i < length (bufs s)" "\<not> held (bufs s ! i)" "\<not> is_dirty (bufs s ! i)"
      "buf_get d blk s = Some (i, upd_buf i (\<lambda>b. b\<lparr>refcnt := 1, flags := 0, bdisk := d, block_no := blk, held := True\<rparr>) s)"
    using buf_get_miss [OF inv no k] by blast
  let ?g = "upd_buf i (\<lambda>b. b\<lparr>refcnt := 1, flags := 0, bdisk := d, block_no := blk, held := True\<rparr>) s"
  let ?gb = "(bufs s ! i)\<lparr>refcnt := 1, flags := 0, bdisk := d, block_no := blk, held := True\<rparr>"
  let ?b = "?gb\<lparr>data := img s d blk, flags := (0 OR BUF_FLAGS_VALID) AND NOT BUF_FLAGS_DIRTY\<rparr>"
  let ?s = "s\<lparr>reg := blk, bufs := (bufs s)[i := ?b]\<rparr>"
  have gb: "bufs ?g ! i = ?gb" "bufs ?g = (bufs s)[i := ?gb]" "idequeue ?g = []"
    using i(1) inv by (simp_all add: upd_buf_def binv_def)
  have nv: "\<not> is_valid ?gb" "\<not> is_dirty ?gb"
    by (simp_all add: is_valid_def is_dirty_def)
  have "held (bufs ?g ! i)" "\<not> io_done (bufs ?g ! i)" "i < length (bufs ?g)" "block_no ?gb < 2 ^ 28"
    using nv i(1) blk by (simp_all only: gb io_done_iff length_list_update buf.simps) simp_all
  from iderw_idle [OF gb(3) this(1-3) gb(1) [symmetric] this(4), of slave False es]
  have "iderw slave (False # es) i ?g = Some ?s"
    unfolding if_not_P [OF nv(2)] by (simp add: upd_buf_def)
  then have read: "buf_read slave (False # es) d blk s = Some (i, ?s)"
    using i(4) nv gb(1) by (simp add: buf_read_def)
  have bv: "is_valid ?b" "\<not> is_dirty ?b"
    by (simp_all add: is_valid_def is_dirty_def BUF_FLAGS_VALID_def BUF_FLAGS_DIRTY_def)
  have inv': "binv ?s"
    by (rule binv_upd [OF inv i(1), where b = ?b and img' = "img s"])
       (use no bv inv in \<open>auto simp: buf_match_def binv_def\<close>)
  have "view ?s d' b' = view s d' b'" if "d' \<noteq> 0" for d' b'
  proof (cases "\<exists>j < length (bufs s). buf_match d' b' (bufs s ! j)")
    case True
    then obtain j where j: "j < length (bufs s)" "buf_match d' b' (bufs s ! j)"
      by blast
    show ?thesis
    proof (cases "j = i")
      case True
      have "view s d' b' = img s d' b'"
        using view_cached [OF inv j that] binvD(2) [OF inv i(1)] i(2,3) j(2) that True by (simp add: buf_match_def)
      moreover have "\<not> buf_match d' b' (bufs ?s ! m)" if m: "m < length (bufs ?s)" for m
      proof (cases "m = i")
        case mi: True
        have "\<not> (d' = d \<and> b' = blk)"
          using no [OF i(1)] j(2) True by auto
        then show ?thesis
          using mi i(1) by (auto simp: buf_match_def)
      next
        case False
        then show ?thesis
          using m True j \<open>d' \<noteq> 0\<close> binv_inj [OF inv j(1), of m] by (auto simp: buf_match_def)
      qed
      ultimately show ?thesis
        using view_uncached [of ?s d' b'] by simp
    next
      case False
      then show ?thesis
        using view_cached [OF inv j that] view_cached [OF inv' _ _ that, of j b'] j by simp
    qed
  next
    case False
    show ?thesis
    proof (cases "d' = d \<and> b' = blk")
      case True
      then show ?thesis
        using view_cached [OF inv' _ _ d, of i blk] view_uncached [OF no] i(1) by (simp add: buf_match_def)
    next
      case ne: False
      then have "\<not> buf_match d' b' (bufs ?s ! m)" if "m < length (bufs ?s)" for m
        using False that i(1) by (cases "m = i") (auto simp: buf_match_def)
      then show ?thesis
        using view_uncached [of ?s d' b'] view_uncached [of s d' b'] False by simp
    qed
  qed
  then show ?thesis
    using read inv' view_uncached [OF no] i(1)
    by (intro exI [of _ i] exI [of _ ?s]) (simp add: buf_match_def)
qed

text \<open>The contents of a buffer in use are those of its block.\<close>

lemma view_upd:
  assumes inv: "binv s" "binv s'" and i: "i < length (bufs s)" "buf_match d blk (bufs s ! i)" "d \<noteq> 0"
    and s': "bufs s' = (bufs s)[i := b]" "buf_match d blk b"
    and im: "\<And>d' b'. (d', b') \<noteq> (d, blk) \<Longrightarrow> img s' d' b' = img s d' b'" and d': "d' \<noteq> 0"
  shows "view s' d' b' = (if d' = d \<and> b' = blk then data b else view s d' b')"
proof (cases "d' = d \<and> b' = blk")
  case True
  then show ?thesis
    using view_cached [OF inv(2) _ _ i(3), of i blk] s' i(1) by simp
next
  case ne: False
  show ?thesis
  proof (cases "\<exists>j < length (bufs s). buf_match d' b' (bufs s ! j)")
    case True
    then obtain j where j: "j < length (bufs s)" "buf_match d' b' (bufs s ! j)"
      by blast
    then have "j \<noteq> i"
      using i(2) ne by (auto simp: buf_match_def)
    then show ?thesis
      using view_cached [OF inv(1) j d'] view_cached [OF inv(2) _ _ d', of j b'] j s'(1) ne by auto
  next
    case False
    then have "\<not> buf_match d' b' (bufs s' ! j)" if "j < length (bufs s')" for j
      using that s' i ne by (cases "j = i") (auto simp: buf_match_def)
    then show ?thesis
      using False view_uncached [of s d' b'] view_uncached [of s' d' b'] im [of d' b'] ne by auto
  qed
qed

lemma buf_write_ok:
  assumes inv: "binv s" and i: "i < length (bufs s)" "held (bufs s ! i)" "buf_match d blk (bufs s ! i)" "d \<noteq> 0"
    and blk: "blk < 2 ^ 28"
  shows "\<exists>s' b. buf_write slave (err # es) i s = Some s' \<and> binv s' \<and> bufs s' = (bufs s)[i := b] \<and> held b
    \<and> buf_match d blk b \<and> data b = data (bufs s ! i) \<and> \<not> is_dirty b
    \<and> img s' = (img s)(d := (img s d)(blk := data (bufs s ! i)))
    \<and> (\<forall>d' b'. d' \<noteq> 0 \<longrightarrow> view s' d' b' = view s d' b')"
proof -
  let ?d = "(bufs s ! i)\<lparr>flags := flags (bufs s ! i) OR BUF_FLAGS_DIRTY\<rparr>"
  let ?g = "upd_buf i (\<lambda>b. b\<lparr>flags := flags b OR BUF_FLAGS_DIRTY\<rparr>) s"
  let ?b = "?d\<lparr>flags := (flags ?d OR BUF_FLAGS_VALID) AND NOT BUF_FLAGS_DIRTY\<rparr>"
  let ?img = "(img s)(d := (img s d)(blk := data (bufs s ! i)))"
  let ?s = "s\<lparr>reg := blk, img := ?img, bufs := (bufs s)[i := ?b]\<rparr>"
  have key: "bdisk (bufs s ! i) = d" "block_no (bufs s ! i) = blk"
    using i(3) by (simp_all add: buf_match_def)
  have gb: "bufs ?g ! i = ?d" "idequeue ?g = []" "is_dirty ?d"
    using i(1) inv by (simp_all add: upd_buf_def binv_def)
  have "held (bufs ?g ! i)" "\<not> io_done (bufs ?g ! i)" "i < length (bufs ?g)" "block_no ?d < 2 ^ 28"
    using i(1,2) gb(3) blk key by (simp_all add: gb(1) io_done_iff) (simp add: upd_buf_def)
  from iderw_idle [OF gb(2) this(1-3) gb(1) [symmetric] this(4), of slave err es]
  have "iderw slave (err # es) i ?g = Some ?s"
    unfolding if_P [OF gb(3)] by (simp add: upd_buf_def key)
  then have w: "buf_write slave (err # es) i s = Some ?s"
    using i(2) by (simp add: buf_write_def)
  have bv: "is_valid ?b" "\<not> is_dirty ?b"
    by (simp_all only: flag_simps) simp_all
  have inv': "binv ?s"
  proof (rule binv_upd [OF inv i(1), where b = ?b and img' = ?img])
    show "?img (bdisk (bufs s ! j)) (block_no (bufs s ! j)) = img s (bdisk (bufs s ! j)) (block_no (bufs s ! j))"
      if "j < length (bufs s)" "j \<noteq> i" "bdisk (bufs s ! j) \<noteq> 0" for j
      using binv_inj [OF inv that(1) i(1)] that key by auto
  qed (use binv_inj [OF inv _ i(1)] bv key inv binvD(3) [OF inv i(1)] i(4) in \<open>auto simp: binv_def\<close>)
  have "buf_match d blk ?b"
    by (simp add: buf_match_def key)
  moreover have "view ?s d' b' = view s d' b'" if "d' \<noteq> 0" for d' b'
    using view_upd [OF inv inv' i(1,3,4) _ \<open>buf_match d blk ?b\<close> _ that, of b'] view_cached [OF inv i(1,3,4)]
    by (auto split: if_splits)
  ultimately show ?thesis
    using w inv' bv i(2) by (intro exI [of _ ?s] exI [of _ ?b]) simp
qed

lemma buf_release_ok:
  assumes inv: "binv s" and i: "i < length (bufs s)" "held (bufs s ! i)" "buf_match d blk (bufs s ! i)" "d \<noteq> 0"
    and ok: "is_dirty (bufs s ! i) \<or> data (bufs s ! i) = img s d blk"
  shows "binv (buf_release i s)" "img (buf_release i s) = img s"
    "d' \<noteq> 0 \<Longrightarrow> view (buf_release i s) d' b' = view s d' b'"
    "lru (buf_release i s) = i # remove1 i (lru s)"
    "bufs (buf_release i s) = (bufs s)[i := (bufs s ! i)\<lparr>held := False, refcnt := 0\<rparr>]"
proof -
  let ?b = "(bufs s ! i)\<lparr>held := False, refcnt := 0\<rparr>"
  have key: "bdisk (bufs s ! i) = d" "block_no (bufs s ! i) = blk"
    using i(3) by (simp_all add: buf_match_def)
  have "refcnt (bufs s ! i) = 1"
    using binvD(3) [OF inv i(1)] i(2) by simp
  then show r: "lru (buf_release i s) = i # remove1 i (lru s)" "bufs (buf_release i s) = (bufs s)[i := ?b]"
      "img (buf_release i s) = img s"
    using i(1) by (simp_all add: buf_release_def upd_buf_def Let_def buf_insert_to_head_def buf_unlinked_def)
  have q: "idequeue (buf_release i s) = []"
    using inv by (simp add: buf_release_def upd_buf_def Let_def binv_def)
  have m: "mset (lru (buf_release i s)) = mset (lru s)"
    using binvD(4) [OF inv i(1)] by (simp add: r)
  show inv': "binv (buf_release i s)"
    by (rule binv_upd [OF inv i(1), where b = ?b and img' = "img s"])
       (use binv_inj [OF inv _ i(1)] binvD(1) [OF inv i(1)] ok key m q in \<open>auto simp: r is_valid_def is_dirty_def\<close>)
  show "d' \<noteq> 0 \<Longrightarrow> view (buf_release i s) d' b' = view s d' b'"
    by (rule view_eqI [OF inv inv' i(1) r(2) r(3)]) (simp_all add: buf_match_def)
qed

text \<open>Storing into the buffer, with or without the mark of \<open>log_write\<close>.\<close>

lemma buf_store_ok:
  assumes inv: "binv s" and i: "i < length (bufs s)" "held (bufs s ! i)" "buf_match d blk (bufs s ! i)" "d \<noteq> 0"
    and f: "f = flags (bufs s ! i) \<or> f = flags (bufs s ! i) OR BUF_FLAGS_DIRTY"
    and s'_def: "s' = upd_buf i (\<lambda>b. b\<lparr>data := x, flags := f\<rparr>) s"
  shows "binv s'" "d' \<noteq> 0 \<Longrightarrow> view s' d' b' = (if d' = d \<and> b' = blk then x else view s d' b')" "img s' = img s"
proof -
  let ?b = "(bufs s ! i)\<lparr>data := x, flags := f\<rparr>"
  have key: "bdisk (bufs s ! i) = d" "block_no (bufs s ! i) = blk"
    using i(3) by (simp_all add: buf_match_def)
  have s': "bufs s' = (bufs s)[i := ?b]" "img s' = img s" "lru s' = lru s" "idequeue s' = []"
    using inv by (simp_all add: s'_def upd_buf_def binv_def)
  then show "img s' = img s" by simp
  have "is_valid (bufs s ! i)"
    using binvD(1) [OF inv i(1)] key i(4) by simp
  then have "is_valid ?b"
    using f flag_simps(4) [of "bufs s ! i"] by (auto simp: is_valid_def)
  then show inv': "binv s'"
    by (intro binv_upd [OF inv i(1), where b = ?b and img' = "img s"])
       (use binv_inj [OF inv _ i(1)] key s' i(2) binvD(3) [OF inv i(1)] in auto)
  show "d' \<noteq> 0 \<Longrightarrow> view s' d' b' = (if d' = d \<and> b' = blk then x else view s d' b')"
    using view_upd [OF inv inv' i(1,3,4) s'(1)] key s'(2) by (simp add: buf_match_def)
qed

section \<open>Properties\<close>

text \<open>
  C5. \<open>buf_read\<close> of a block that is cached and free, or for which there is a buffer that is neither in use nor dirty,
  returns a locked buffer of that block with the block's contents; the disk, the contents of every other block
  (dirty buffers included: none is evicted) and every other buffer stay as they were, and the cache stays coherent.
\<close>

theorem buf_read_correct:
  assumes "binv s" "d \<noteq> 0" "blk < 2 ^ 28" "avail s d blk"
  shows "\<exists>i s'. buf_read slave (False # es) d blk s = Some (i, s') \<and> binv s' \<and> i < length (bufs s')
    \<and> buf_match d blk (bufs s' ! i) \<and> held (bufs s' ! i) \<and> data (bufs s' ! i) = view s d blk
    \<and> img s' = img s \<and> (\<forall>d' b'. d' \<noteq> 0 \<longrightarrow> view s' d' b' = view s d' b')
    \<and> (\<forall>j < length (bufs s). j \<noteq> i \<longrightarrow> bufs s' ! j = bufs s ! j)"
  using buf_read_ok [OF assms] by blast

text \<open>The cache as \<open>bio_init\<close> leaves it.\<close>

definition bcache0 :: bcache where
  "bcache0 = bio_init \<lparr>bufs = replicate NBUF \<lparr>flags = 0, bdisk = 0, block_no = 0, refcnt = 0, held = False, data = []\<rparr>,
     lru = [], idequeue = [], img = (\<lambda>_ _. []), reg = 0\<rparr>"

lemma bio_init_binv:
  assumes "length (bufs s) = NBUF" "idequeue s = []"
  shows "binv (bio_init s)"
proof -
  have "foldl (\<lambda>l i. i # l) acc xs = rev xs @ acc" for acc and xs :: "nat list"
    by (induction xs arbitrary: acc) auto
  then have "lru (bio_init s) = rev [0..<NBUF]"
    by (simp add: bio_init_def buf_insert_to_head_def)
  then show ?thesis
    using assms by (auto simp: binv_def bio_init_def)
qed

lemma bcache0_facts: "binv bcache0" "avail bcache0 1 7" "length (bufs bcache0) = 40"
proof -
  show "binv bcache0"
    unfolding bcache0_def by (rule bio_init_binv) simp_all
  show l: "length (bufs bcache0) = 40"
    by (simp add: bcache0_def bio_init_def NBUF_def)
  have "bufs bcache0 ! i = \<lparr>flags = 0, bdisk = 0, block_no = 0, refcnt = 0, held = False, data = []\<rparr>" if "i < 40" for i
    using that by (simp add: bcache0_def bio_init_def NBUF_def)
  then show "avail bcache0 1 7"
    unfolding avail_def l by (auto simp: buf_match_def is_dirty_def intro: exI [of _ 0])
qed

theorem buf_read_correct_witness:
  "\<exists>i s'. buf_read (\<lambda>_. False) [False] 1 7 bcache0 = Some (i, s') \<and> binv s' \<and> held (bufs s' ! i)"
proof -
  have "(7 :: u32) < 2 ^ 28" by simp
  from buf_read_correct [OF bcache0_facts(1) _ this bcache0_facts(2), of "\<lambda>_. False" "[]"] show ?thesis
    by auto
qed

text \<open>
  C31. A task that holds the buffer of a block, stores into it, and then either calls \<open>buf_write\<close> or marks it dirty the
  way \<open>log_write\<close> does, before it calls \<open>buf_release\<close>: the cache stays coherent, the block's contents are what was
  stored and no other block changes; after \<open>buf_write\<close> they are also on the disk, after the mark the disk is as it
  was.
\<close>

theorem buf_store_release_correct:
  assumes "binv s" "i < length (bufs s)" "held (bufs s ! i)" "buf_match d blk (bufs s ! i)" "d \<noteq> 0" "blk < 2 ^ 28"
  shows "(\<exists>s1. buf_write slave (err # es) i (upd_buf i (\<lambda>b. b\<lparr>data := x\<rparr>) s) = Some s1
        \<and> binv (buf_release i s1) \<and> img (buf_release i s1) = (img s)(d := (img s d)(blk := x))
        \<and> (\<forall>d' b'. d' \<noteq> 0 \<longrightarrow> view (buf_release i s1) d' b' = (if d' = d \<and> b' = blk then x else view s d' b')))
    \<and> (let s2 = buf_release i (upd_buf i (\<lambda>b. b\<lparr>data := x, flags := flags b OR BUF_FLAGS_DIRTY\<rparr>) s) in
        binv s2 \<and> img s2 = img s
        \<and> (\<forall>d' b'. d' \<noteq> 0 \<longrightarrow> view s2 d' b' = (if d' = d \<and> b' = blk then x else view s d' b')))"
proof
  let ?t = "upd_buf i (\<lambda>b. b\<lparr>data := x\<rparr>) s"
  have eq: "?t = upd_buf i (\<lambda>b. b\<lparr>data := x, flags := flags (bufs s ! i)\<rparr>) s"
    by (simp add: upd_buf_def)
  note st = buf_store_ok [OF assms(1-5) disjI1 [OF refl] eq]
  have t: "i < length (bufs ?t)" "held (bufs ?t ! i)" "buf_match d blk (bufs ?t ! i)" "data (bufs ?t ! i) = x"
    using assms(2-4) by (simp_all add: upd_buf_def buf_match_def)
  obtain s1 b where w: "buf_write slave (err # es) i ?t = Some s1" "binv s1" "bufs s1 = (bufs ?t)[i := b]" "held b"
      "buf_match d blk b" "data b = x" "img s1 = (img s)(d := (img s d)(blk := x))"
      "\<And>d' b'. d' \<noteq> 0 \<Longrightarrow> view s1 d' b' = view ?t d' b'"
    using buf_write_ok [OF st(1) t(1-3) assms(5,6), of slave err es] t(4) st(3) by auto
  have r: "i < length (bufs s1)" "held (bufs s1 ! i)" "buf_match d blk (bufs s1 ! i)"
      "is_dirty (bufs s1 ! i) \<or> data (bufs s1 ! i) = img s1 d blk"
    using w(3-7) t(1) by simp_all
  note rel = buf_release_ok [OF w(2) r(1-3) assms(5) r(4)]
  show "\<exists>s1. buf_write slave (err # es) i ?t = Some s1 \<and> binv (buf_release i s1)
      \<and> img (buf_release i s1) = (img s)(d := (img s d)(blk := x))
      \<and> (\<forall>d' b'. d' \<noteq> 0 \<longrightarrow> view (buf_release i s1) d' b' = (if d' = d \<and> b' = blk then x else view s d' b'))"
    using w(1,7,8) rel st(2) by (intro exI [of _ s1]) simp
next
  let ?u = "upd_buf i (\<lambda>b. b\<lparr>data := x, flags := flags b OR BUF_FLAGS_DIRTY\<rparr>) s"
  have eq: "?u = upd_buf i (\<lambda>b. b\<lparr>data := x, flags := flags (bufs s ! i) OR BUF_FLAGS_DIRTY\<rparr>) s"
    by (simp add: upd_buf_def)
  note st = buf_store_ok [OF assms(1-5) disjI2 [OF refl] eq]
  have "is_dirty (bufs ?u ! i)"
    using assms(2) flag_simps(1) [of "bufs s ! i"] by (simp add: upd_buf_def is_dirty_def)
  moreover have "i < length (bufs ?u)" "held (bufs ?u ! i)" "buf_match d blk (bufs ?u ! i)"
    using assms(2-4) by (simp_all add: upd_buf_def buf_match_def)
  ultimately show "let s2 = buf_release i ?u in binv s2 \<and> img s2 = img s
      \<and> (\<forall>d' b'. d' \<noteq> 0 \<longrightarrow> view s2 d' b' = (if d' = d \<and> b' = blk then x else view s d' b'))"
    using buf_release_ok [OF st(1) _ _ _ assms(5)] st(2,3) by (simp add: Let_def)
qed

definition bcache1 :: bcache where
  "bcache1 = upd_buf 0 (\<lambda>b. b\<lparr>flags := BUF_FLAGS_VALID, bdisk := 1, block_no := 7, refcnt := 1, held := True\<rparr>) bcache0"

lemma bcache1_facts:
  "binv bcache1" "0 < length (bufs bcache1)" "held (bufs bcache1 ! 0)" "buf_match 1 7 (bufs bcache1 ! 0)"
proof -
  let ?b = "(bufs bcache0 ! 0)\<lparr>flags := BUF_FLAGS_VALID, bdisk := 1, block_no := 7, refcnt := 1, held := True\<rparr>"
  have b: "bufs bcache1 = (bufs bcache0)[0 := ?b]"
    by (simp add: bcache1_def upd_buf_def)
  then show l: "0 < length (bufs bcache1)" "held (bufs bcache1 ! 0)" "buf_match 1 7 (bufs bcache1 ! 0)"
    using bcache0_facts(3) by (simp_all add: buf_match_def)
  have "bdisk (bufs bcache0 ! j) = 0" if "j < 40" for j
    using that by (simp add: bcache0_def bio_init_def NBUF_def)
  then show "binv bcache1"
    by (intro binv_upd [OF bcache0_facts(1), of 0 ?b "img bcache0"])
       (use bcache0_facts(3) b in \<open>auto simp: is_valid_def is_dirty_def BUF_FLAGS_VALID_def BUF_FLAGS_DIRTY_def bcache1_def
          upd_buf_def bcache0_def bio_init_def\<close>)
qed

theorem buf_store_release_correct_witness:
  "\<exists>s1. buf_write (\<lambda>_. False) [False] 0 (upd_buf 0 (\<lambda>b. b\<lparr>data := [1]\<rparr>) bcache1) = Some s1
    \<and> view (buf_release 0 s1) 1 7 = [1]"
proof -
  have "(7 :: u32) < 2 ^ 28" by simp
  from buf_store_release_correct [OF bcache1_facts _ this, of "\<lambda>_. False" False "[]" "[1]"] show ?thesis
    by auto
qed



text \<open>
  The result of \<open>idewait\<close> only decides whether the sector is copied: after a read error the buffer is marked valid with
  whatever it held before.
\<close>

lemma read_error_ignored:
  assumes "idequeue s = []" "held (bufs s ! i)" "\<not> io_done (bufs s ! i)" "i < length (bufs s)"
    and "\<not> is_dirty (bufs s ! i)" "block_no (bufs s ! i) < 2 ^ 28"
  shows "\<exists>s'. iderw slave (True # es) i s = Some s' \<and> is_valid (bufs s' ! i) \<and> data (bufs s' ! i) = data (bufs s ! i)"
  using iderw_idle [OF assms(1-4) refl assms(6), of slave True es] assms(4,5) by simp

end
