(* ===== verification/Log.thy ===== *)
theory Log
  imports Prelude
begin

text \<open>
  The write-ahead log of the file system: \<open>fs/log.c\<close>.

  The block device is seen through the block cache (theory \<open>BufCache\<close>): \<open>mem\<close> is what \<open>buf_read\<close> shows (a cached block,
  dirty or not, or the disk), \<open>dsk\<close> is the disk, and \<open>trace\<close> lists the disk writes in order. \<open>buf_write\<close> stores on the
  disk; \<open>log_write\<close> keeps the block in memory only, marked dirty. A crash at any moment leaves the disk with a prefix
  of the writes, and the next start reads everything from the disk again.
\<close>

section \<open>The log\<close>

definition MAX_OPEN_BLOCKS :: int where "MAX_OPEN_BLOCKS = 10"
definition LOG_SIZE :: int where "LOG_SIZE = MAX_OPEN_BLOCKS * 3"

type_synonym blk = "u8 list"

record blkdev =
  mem :: "u32 \<Rightarrow> blk"
  dsk :: "u32 \<Rightarrow> blk"
  trace :: "(u32 \<times> blk) list"

record log =
  log_start :: u32
  outstanding :: int
  committing :: bool
  lh_n :: int
  lh_blocks :: "u32 list"
  sem_value :: nat
  sem_waiting :: nat

definition bwrite :: "u32 \<Rightarrow> blk \<Rightarrow> blkdev \<Rightarrow> blkdev" where
  "bwrite b x d = d\<lparr>mem := (mem d)(b := x), dsk := (dsk d)(b := x), trace := trace d @ [(b, x)]\<rparr>"

definition install_trans :: "log \<Rightarrow> blkdev \<Rightarrow> blkdev" where
  "install_trans l d =
     foldl (\<lambda>d i. bwrite (lh_blocks l ! i) (mem d (log_start l + of_nat i + 1)) d) d [0..<nat (lh_n l)]"

definition write_log :: "log \<Rightarrow> blkdev \<Rightarrow> blkdev" where
  "write_log l d =
     foldl (\<lambda>d i. bwrite (log_start l + of_nat i + 1) (mem d (lh_blocks l ! i)) d) d [0..<nat (lh_n l)]"

definition put_head :: "int \<Rightarrow> u32 list \<Rightarrow> blk \<Rightarrow> blk" where
  "put_head n bl b = foldl (\<lambda>b i. put32 b (i + 1) (bl ! i)) (put32 b 0 (of_int n)) [0..<nat n]"

definition write_head :: "log \<Rightarrow> blkdev \<Rightarrow> blkdev" where
  "write_head l d = bwrite (log_start l) (put_head (lh_n l) (lh_blocks l) (mem d (log_start l))) d"

text \<open>More entries in the header block than the array of the log holds would be written past its end.\<close>

definition read_head :: "log \<Rightarrow> blkdev \<Rightarrow> log option" where
  "read_head l d = do {
     let b = mem d (log_start l);
     let n = sint (get32 b 0);
     kassert (n \<le> LOG_SIZE);
     Some (l\<lparr>lh_n := n, lh_blocks := foldl (\<lambda>bl i. bl[i := get32 b (i + 1)]) (lh_blocks l) [0..<nat n]\<rparr>)
   }"

definition commit :: "log \<Rightarrow> blkdev \<Rightarrow> log \<times> blkdev" where
  "commit l d =
     (if lh_n l > 0 then
        (let d1 = write_log l d;
             d2 = write_head l d1;
             d3 = install_trans l d2;
             l1 = l\<lparr>lh_n := 0\<rparr>
         in (l1, write_head l1 d3))
      else (l, d))"

definition recover_from_log :: "log \<Rightarrow> blkdev \<Rightarrow> (log \<times> blkdev) option" where
  "recover_from_log l d = do {
     l1 \<leftarrow> read_head l d;
     let d1 = install_trans l1 d;
     let l2 = l1\<lparr>lh_n := 0\<rparr>;
     Some (l2, write_head l2 d1)
   }"

text \<open>
  One pass of the loop of \<open>log_begin_op\<close>: \<open>None\<close> when the task has to wait on the semaphore, and the log after the
  operation was admitted otherwise.
\<close>

definition log_begin_op :: "log \<Rightarrow> log option" where
  "log_begin_op l =
     (if committing l then None
      else if lh_n l + (outstanding l + 1) * MAX_OPEN_BLOCKS > LOG_SIZE then None
      else Some (l\<lparr>outstanding := outstanding l + 1\<rparr>))"

definition log_signal :: "log \<Rightarrow> log" where
  "log_signal l = (if sem_waiting l > 0 then l\<lparr>sem_waiting := sem_waiting l - 1\<rparr>
                   else l\<lparr>sem_value := sem_value l + 1\<rparr>)"

definition log_end_op :: "log \<Rightarrow> blkdev \<Rightarrow> (log \<times> blkdev) option" where
  "log_end_op l d = do {
     kassert (\<not> committing l);
     let l1 = l\<lparr>outstanding := outstanding l - 1\<rparr>;
     if outstanding l1 = 0 then
       (let (l2, d2) = commit (l1\<lparr>committing := True\<rparr>) d
        in Some (log_signal (l2\<lparr>committing := False\<rparr>), d2))
     else if sem_waiting l1 > 0 then Some (log_signal l1, d)
     else Some (l1, d)
   }"

text \<open>\<open>log_write\<close> of the buffer of block \<open>b\<close> with contents \<open>x\<close>: the first slot with that number, or a new one.\<close>

definition log_slot :: "log \<Rightarrow> u32 \<Rightarrow> nat" where
  "log_slot l b = length (takeWhile (\<lambda>c. c \<noteq> b) (take (nat (lh_n l)) (lh_blocks l)))"

definition log_write :: "log \<Rightarrow> u32 \<Rightarrow> blk \<Rightarrow> blkdev \<Rightarrow> (log \<times> blkdev) option" where
  "log_write l b x d = do {
     kassert (lh_n l < LOG_SIZE);
     kassert (outstanding l \<ge> 1);
     let i = log_slot l b;
     let l1 = l\<lparr>lh_blocks := (lh_blocks l)[i := b]\<rparr>;
     let l2 = (if int i = lh_n l then l1\<lparr>lh_n := lh_n l + 1\<rparr> else l1);
     Some (l2, d\<lparr>mem := (mem d)(b := x)\<rparr>)
   }"

definition log_init :: "u32 \<Rightarrow> log \<Rightarrow> blkdev \<Rightarrow> (log \<times> blkdev) option" where
  "log_init start l d =
     recover_from_log (l\<lparr>log_start := start, outstanding := 0, committing := False, lh_n := 0,
       sem_value := 0, sem_waiting := 0\<rparr>) d"

section \<open>The header block\<close>

lemma length_put_head [simp]: "length (put_head n bl b) = length b"
proof -
  have "length (foldl (\<lambda>b i. put32 b (i + 1) (bl ! i)) b xs) = length b" for xs :: "nat list" and b
    by (induction xs arbitrary: b) simp_all
  then show ?thesis
    by (simp add: put_head_def)
qed

lemma put_head_entries:
  assumes "4 * k + 4 \<le> length b" "j \<le> k"
  shows "get32 (foldl (\<lambda>b i. put32 b (i + 1) (bl ! i)) b [0..<k]) j = (if j = 0 then get32 b 0 else bl ! (j - 1))"
proof -
  have len: "length (foldl (\<lambda>b i. put32 b (i + 1) (bl ! i)) b xs) = length b" for xs :: "nat list"
    by (induction xs arbitrary: b) simp_all
  show ?thesis
    using assms
  proof (induction k arbitrary: j)
    case 0
    then show ?case by simp
  next
    case (Suc k)
    show ?case
    proof (cases "j = k + 1")
      case True
      then show ?thesis
        using Suc.prems(1) by (simp add: len [simplified])
    next
      case False
      then show ?thesis
        using Suc by simp
    qed
  qed
qed

lemma put_head_n:
  assumes "0 \<le> n" "n \<le> 30" "length b = 512"
  shows "sint (get32 (put_head n bl b) 0) = n"
proof -
  have "get32 (put_head n bl b) 0 = of_int n"
    unfolding put_head_def using assms by (subst put_head_entries) simp_all
  moreover have "sint (of_int n :: u32) = n"
    using assms(1,2) by (simp add: sint_u32 uint_word_of_int)
  ultimately show ?thesis
    by simp
qed

lemma put_head_blocks:
  assumes "0 \<le> n" "n \<le> 30" "length b = 512" "i < nat n"
  shows "get32 (put_head n bl b) (i + 1) = bl ! i"
  unfolding put_head_def using assms by (subst put_head_entries) auto

lemma read_blocks:
  assumes "k \<le> length bl"
  shows "foldl (\<lambda>bl i. bl[i := f i]) bl [0..<k] = map f [0..<k] @ drop k bl"
  using assms
proof (induction k)
  case (Suc k)
  then show ?case
    by (simp add: list_update_append upd_conv_take_nth_drop Cons_nth_drop_Suc [symmetric])
qed simp

section \<open>Sequences of writes\<close>

definition apply_writes :: "(u32 \<times> blk) list \<Rightarrow> (u32 \<Rightarrow> blk) \<Rightarrow> u32 \<Rightarrow> blk" where
  "apply_writes ws D = foldl (\<lambda>D (b, x). D(b := x)) D ws"

lemma apply_writes_simps [simp]:
  "apply_writes [] D = D" "apply_writes ((b, x) # ws) D = apply_writes ws (D(b := x))"
  "apply_writes (ws @ ws') D = apply_writes ws' (apply_writes ws D)"
  by (simp_all add: apply_writes_def)

lemma apply_writes_notin: "b \<notin> fst ` set ws \<Longrightarrow> apply_writes ws D b = D b"
  by (induction ws arbitrary: D) auto

lemma apply_writes_in:
  assumes "distinct (map fst ws)" "(b, x) \<in> set ws"
  shows "apply_writes ws D b = x"
  using assms
proof (induction ws arbitrary: D)
  case (Cons w ws)
  then show ?case
    by (cases w) (auto simp: apply_writes_notin image_iff)
qed simp

text \<open>Copying blocks one after the other, when no source is a destination.\<close>

definition copies :: "(nat \<Rightarrow> u32) \<Rightarrow> (nat \<Rightarrow> u32) \<Rightarrow> (u32 \<Rightarrow> blk) \<Rightarrow> nat \<Rightarrow> (u32 \<times> blk) list" where
  "copies dst src m n = map (\<lambda>i. (dst i, m (src i))) [0..<n]"

definition wrote :: "(u32 \<times> blk) list \<Rightarrow> blkdev \<Rightarrow> blkdev" where
  "wrote ws d = d\<lparr>mem := apply_writes ws (mem d), dsk := apply_writes ws (dsk d), trace := trace d @ ws\<rparr>"

lemma wrote_wrote [simp]: "wrote ws' (wrote ws d) = wrote (ws @ ws') d"
  by (simp add: wrote_def)

lemma length_copies [simp]: "length (copies dst src m n) = n"
  by (simp add: copies_def)

lemma fst_copies: "fst ` set (copies dst src m n) = dst ` {0..<n}"
  by (simp add: copies_def image_image)

lemma bwrite_wrote: "bwrite b x d = wrote [(b, x)] d"
  by (simp add: bwrite_def wrote_def)

lemma copy_blocks:
  assumes "\<And>i j. i < n \<Longrightarrow> j < n \<Longrightarrow> dst i \<noteq> src j"
  shows "foldl (\<lambda>d i. bwrite (dst i) (mem d (src i)) d) d [0..<n] = wrote (copies dst src (mem d) n) d"
  using assms
proof (induction n)
  case 0
  then show ?case
    by (simp add: copies_def wrote_def)
next
  case (Suc n)
  have "src n \<notin> fst ` set (copies dst src (mem d) n)"
    unfolding fst_copies using Suc.prems by (metis atLeastLessThan_iff imageE lessI less_SucI)
  then have "mem (wrote (copies dst src (mem d) n) d) (src n) = mem d (src n)"
    by (simp add: wrote_def apply_writes_notin)
  then show ?case
    using Suc by (simp add: bwrite_wrote copies_def)
qed

lemma copies_in:
  assumes "inj_on dst {0..<n}" "i < n"
  shows "apply_writes (copies dst src m n) D (dst i) = m (src i)"
  using assms by (intro apply_writes_in) (auto simp: copies_def distinct_map o_def)

lemma copies_notin:
  assumes "\<And>i. i < n \<Longrightarrow> dst i \<noteq> b"
  shows "apply_writes (take k (copies dst src m n)) D b = D b"
proof (rule apply_writes_notin)
  have "fst ` set (take k (copies dst src m n)) \<subseteq> dst ` {0..<n}"
    using set_take_subset [of k "copies dst src m n"] fst_copies [of dst src m n] by blast
  moreover have "b \<notin> dst ` {0..<n}"
    using assms by (metis atLeastLessThan_iff imageE)
  ultimately show "b \<notin> fst ` set (take k (copies dst src m n))"
    by blast
qed

section \<open>Committing and recovering\<close>

text \<open>The blocks of the log: the header and \<open>LOG_SIZE\<close> data blocks.\<close>

definition log_area :: "u32 \<Rightarrow> u32 \<Rightarrow> bool" where
  "log_area start b = (unat (b - start) \<le> 30)"

lemma log_slot_addr:
  fixes start :: u32
  assumes "i < 30" "j < 30"
  shows "start + of_nat i + 1 \<noteq> start" "log_area start (start + of_nat i + 1)" "log_area start start"
    "start + of_nat i + 1 = start + of_nat j + 1 \<longleftrightarrow> i = j"
proof -
  have u: "unat (of_nat i + 1 :: u32) = i + 1"
    using assms(1) by (simp add: unat_word_ariths unat_of_nat)
  then have "(of_nat i + 1 :: u32) \<noteq> 0"
    by (metis Suc_eq_plus1 nat.distinct(1) unat_0)
  then show "start + of_nat i + 1 \<noteq> start"
    by (simp add: add.assoc)
  show "log_area start (start + of_nat i + 1)"
    using u assms(1) by (simp add: log_area_def add.assoc)
  show "log_area start start"
    by (simp add: log_area_def)
  show "start + of_nat i + 1 = start + of_nat j + 1 \<longleftrightarrow> i = j"
    using assms of_nat_u32_eq_iff [of i j] by simp
qed

text \<open>
  The log between operations: the logged blocks are distinct blocks outside the log, every other block agrees with
  the disk, and the header on the disk is empty.
\<close>

definition log_ok :: "log \<Rightarrow> blkdev \<Rightarrow> bool" where
  "log_ok l d = (0 \<le> lh_n l \<and> lh_n l \<le> LOG_SIZE \<and> length (lh_blocks l) = nat LOG_SIZE
     \<and> distinct (take (nat (lh_n l)) (lh_blocks l))
     \<and> (\<forall>b \<in> set (take (nat (lh_n l)) (lh_blocks l)). \<not> log_area (log_start l) b)
     \<and> (\<forall>b. b \<notin> set (take (nat (lh_n l)) (lh_blocks l)) \<longrightarrow> mem d b = dsk d b)
     \<and> length (dsk d (log_start l)) = 512 \<and> get32 (dsk d (log_start l)) 0 = 0)"

text \<open>The disk writes of a commit.\<close>

definition commit_writes :: "log \<Rightarrow> (u32 \<Rightarrow> blk) \<Rightarrow> (u32 \<times> blk) list" where
  "commit_writes l m =
     (let st = log_start l; bl = lh_blocks l; n = lh_n l;
          h = put_head n bl (m st) in
      copies (\<lambda>i. st + of_nat i + 1) (\<lambda>i. bl ! i) m (nat n) @ [(st, h)]
      @ copies (\<lambda>i. bl ! i) (\<lambda>i. bl ! i) m (nat n) @ [(st, put_head 0 bl h)])"

lemma logged_nth:
  assumes "log_ok l d" "i < nat (lh_n l)"
  shows "\<not> log_area (log_start l) (lh_blocks l ! i)" "i < 30" "lh_blocks l ! i \<in> set (take (nat (lh_n l)) (lh_blocks l))"
proof -
  have len: "nat (lh_n l) \<le> 30" "length (lh_blocks l) = 30"
    using assms(1) by (simp_all add: log_ok_def LOG_SIZE_def MAX_OPEN_BLOCKS_def nat_le_iff)
  then show "i < 30" using assms(2) by simp
  show "lh_blocks l ! i \<in> set (take (nat (lh_n l)) (lh_blocks l))"
    using len assms(2) by (auto simp: in_set_conv_nth intro: exI [of _ i])
  then show "\<not> log_area (log_start l) (lh_blocks l ! i)"
    using assms(1) by (auto simp: log_ok_def)
qed

lemma logged_inj:
  assumes "log_ok l d"
  shows "inj_on (\<lambda>i. lh_blocks l ! i) {0..<nat (lh_n l)}"
proof -
  have "length (lh_blocks l) = 30" "nat (lh_n l) \<le> 30" "distinct (take (nat (lh_n l)) (lh_blocks l))"
    using assms by (simp_all add: log_ok_def LOG_SIZE_def MAX_OPEN_BLOCKS_def nat_le_iff)
  then show ?thesis
    unfolding inj_on_def distinct_conv_nth by (auto simp: min_def) (metis (no_types))
qed

lemma commit_effect:
  assumes ok: "log_ok l d" and n: "lh_n l > 0"
  shows "commit l d = (l\<lparr>lh_n := 0\<rparr>, wrote (commit_writes l (mem d)) d)"
proof -
  let ?st = "log_start l" and ?bl = "lh_blocks l" and ?n = "nat (lh_n l)"
  let ?W = "copies (\<lambda>i. ?st + of_nat i + 1) (\<lambda>i. ?bl ! i) (mem d) ?n"
  let ?h = "put_head (lh_n l) ?bl (mem d ?st)"
  have ne: "?st + of_nat i + 1 \<noteq> ?bl ! j" "?bl ! j \<noteq> ?st" "?st + of_nat i + 1 \<noteq> ?st" if "i < ?n" "j < ?n" for i j
    using logged_nth [OF ok that(1)] logged_nth [OF ok that(2)] log_slot_addr [of i j ?st] by auto
  have inj: "inj_on (\<lambda>i. ?st + of_nat i + 1) {0..<?n}"
    using logged_nth(2) [OF ok] log_slot_addr(4) by (auto simp: inj_on_def)
  have w: "write_log l d = wrote ?W d"
    unfolding write_log_def by (rule copy_blocks) (use ne in blast)
  have h: "mem (wrote ?W d) ?st = mem d ?st"
    using copies_notin [of ?n "\<lambda>i. ?st + of_nat i + 1" ?st ?n] ne(3)
    by (simp add: wrote_def copies_def)
  let ?d2 = "wrote (?W @ [(?st, ?h)]) d"
  have d2: "write_head l (write_log l d) = ?d2"
    by (simp add: write_head_def w h bwrite_wrote)
  have m2: "mem ?d2 (?st + of_nat i + 1) = mem d (?bl ! i)" if "i < ?n" for i
    using copies_in [OF inj that] ne(3) [OF that that] by (simp add: wrote_def)
  have "install_trans l ?d2 = wrote (copies (\<lambda>i. ?bl ! i) (\<lambda>i. ?st + of_nat i + 1) (mem ?d2) ?n) ?d2"
    unfolding install_trans_def by (rule copy_blocks) (metis ne(1))
  moreover have "copies (\<lambda>i. ?bl ! i) (\<lambda>i. ?st + of_nat i + 1) (mem ?d2) ?n = copies (\<lambda>i. ?bl ! i) (\<lambda>i. ?bl ! i) (mem d) ?n"
    using m2 by (simp add: copies_def)
  ultimately have i3: "install_trans l ?d2 = wrote (?W @ [(?st, ?h)] @ copies (\<lambda>i. ?bl ! i) (\<lambda>i. ?bl ! i) (mem d) ?n) d"
    by simp
  have "mem (install_trans l ?d2) ?st = ?h"
    using copies_notin [of ?n "\<lambda>i. ?bl ! i" ?st ?n "\<lambda>i. ?bl ! i" "mem d"] ne(2) unfolding i3
    by (simp add: wrote_def copies_def)
  then have h4: "write_head (l\<lparr>lh_n := 0\<rparr>) (install_trans l ?d2) = wrote (commit_writes l (mem d)) d"
    by (simp add: write_head_def bwrite_wrote i3 commit_writes_def Let_def)
  show ?thesis
    using n unfolding commit_def Let_def d2 h4 by simp
qed

text \<open>What recovery makes of a disk with the header \<open>n, bl\<close>.\<close>

definition fresh :: "(u32 \<Rightarrow> blk) \<Rightarrow> blkdev" where
  "fresh D = \<lparr>mem = D, dsk = D, trace = []\<rparr>"

lemma recover_disk:
  assumes hd: "length (D st) = 512" "sint (get32 (D st) 0) = int n" "n \<le> 30"
    and bl: "\<And>i. i < n \<Longrightarrow> get32 (D st) (i + 1) = bl i" "inj_on bl {0..<n}" "\<And>i. i < n \<Longrightarrow> \<not> log_area st (bl i)"
    and l: "length (lh_blocks l) = 30"
  shows "\<exists>l' d'. log_init st l (fresh D) = Some (l', d') \<and> lh_n l' = 0 \<and> length (lh_blocks l') = 30
    \<and> outstanding l' = 0 \<and> \<not> committing l' \<and> log_start l' = st
    \<and> mem d' = dsk d' \<and> length (dsk d' st) = 512 \<and> get32 (dsk d' st) 0 = 0
    \<and> (\<forall>i < n. dsk d' (bl i) = D (st + of_nat i + 1))
    \<and> (\<forall>b. \<not> log_area st b \<longrightarrow> (\<forall>i < n. b \<noteq> bl i) \<longrightarrow> dsk d' b = D b)
    \<and> trace d' = copies bl (\<lambda>i. st + of_nat i + 1) D n @ [(st, put_head 0 (lh_blocks l') (D st))]
    \<and> dsk d' = apply_writes (trace d') D"
proof -
  let ?l0 = "l\<lparr>log_start := st, outstanding := 0, committing := False, lh_n := 0, sem_value := 0, sem_waiting := 0\<rparr>"
  let ?bl = "map (\<lambda>i. get32 (D st) (Suc i)) [0..<n] @ drop n (lh_blocks l)"
  let ?l1 = "?l0\<lparr>lh_n := int n, lh_blocks := ?bl\<rparr>"
  let ?W = "copies bl (\<lambda>i. st + of_nat i + 1) D n"
  have rd: "read_head ?l0 (fresh D) = Some ?l1"
    using hd l read_blocks [of n "lh_blocks l" "\<lambda>i. get32 (D st) (i + 1)"]
    by (simp add: read_head_def fresh_def LOG_SIZE_def MAX_OPEN_BLOCKS_def Let_def)
  have nth: "?bl ! i = bl i" if "i < n" for i
    using that bl(1) by (simp add: nth_append)
  have ne: "bl i \<noteq> st + of_nat j + 1" "bl i \<noteq> st" if "i < n" "j < n" for i j
    using bl(3) [OF that(1)] log_slot_addr [of j j st] that hd(3) by auto
  have "install_trans ?l1 (fresh D) = foldl (\<lambda>d i. bwrite (bl i) (mem d (st + of_nat i + 1)) d) (fresh D) [0..<n]"
    unfolding install_trans_def using nth by (intro foldl_cong) auto
  also have "\<dots> = wrote (copies bl (\<lambda>i. st + of_nat i + 1) (mem (fresh D)) n) (fresh D)"
    by (rule copy_blocks) (use ne in blast)
  finally have inst: "install_trans ?l1 (fresh D) = wrote ?W (fresh D)"
    by (simp add: fresh_def)
  have st: "apply_writes ?W D st = D st"
    using copies_notin [of n bl st n _ D D] ne(2) by (simp add: copies_def)
  let ?d' = "wrote (?W @ [(st, put_head 0 ?bl (D st))]) (fresh D)"
  have "mem (wrote ?W (fresh D)) st = D st"
    using st by (simp add: wrote_def fresh_def)
  then have wh: "write_head (?l1\<lparr>lh_n := 0\<rparr>) (wrote ?W (fresh D)) = ?d'"
    by (simp add: write_head_def bwrite_wrote)
  have res: "log_init st l (fresh D) = Some (?l1\<lparr>lh_n := 0\<rparr>, ?d')"
    by (simp only: log_init_def recover_from_log_def rd Option.bind.bind_lunit Let_def inst wh)
  have dsk: "dsk ?d' = (apply_writes ?W D)(st := put_head 0 ?bl (D st))" "mem ?d' = dsk ?d'"
      "trace ?d' = ?W @ [(st, put_head 0 ?bl (D st))]"
    by (simp_all add: wrote_def fresh_def)
  have h0: "get32 (put_head 0 ?bl (D st)) 0 = 0"
    using hd(1) by (simp add: put_head_def)
  have inb: "dsk ?d' (bl i) = D (st + of_nat i + 1)" if "i < n" for i
    using copies_in [OF bl(2) that] ne(2) [OF that that] by (simp add: dsk(1))
  have outb: "dsk ?d' b = D b" if "\<not> log_area st b" "\<forall>i < n. b \<noteq> bl i" for b
  proof -
    have "b \<noteq> st" "\<And>i. i < n \<Longrightarrow> bl i \<noteq> b"
      using that log_slot_addr(3) [of 0 0 st] by auto
    then show ?thesis
      using copies_notin [of n bl b n "\<lambda>i. st + of_nat i + 1" D D] by (simp add: dsk(1))
  qed
  show ?thesis
    by (rule exI [of _ "?l1\<lparr>lh_n := 0\<rparr>"], rule exI [of _ ?d'])
       (use res dsk h0 hd(1,3) l inb outb in auto)
qed

text \<open>Recovery from a disk with an empty header changes nothing outside the log.\<close>

lemma recover_empty:
  assumes "length (D st) = 512" "get32 (D st) 0 = 0" "length (lh_blocks l) = 30"
  shows "\<exists>l' d'. log_init st l (fresh D) = Some (l', d') \<and> log_ok l' d' \<and> outstanding l' = 0
    \<and> (\<forall>b. \<not> log_area st b \<longrightarrow> dsk d' b = D b)"
  using recover_disk [of D st 0 "\<lambda>_. 0" l] assms
  by (auto simp: log_ok_def LOG_SIZE_def MAX_OPEN_BLOCKS_def)

lemma take_append_cases:
  assumes "k \<le> length xs"
  shows "take k (xs @ ys) = take k xs"
  using assms by simp

lemma commit_prefix:
  assumes ok: "log_ok l d" and n: "lh_n l > 0" and l0: "length (lh_blocks l0) = 30"
    and D_def: "D = apply_writes (take k (commit_writes l (mem d))) (dsk d)"
  shows "\<exists>l' d'. log_init (log_start l) l0 (fresh D) = Some (l', d') \<and> log_ok l' d' \<and> outstanding l' = 0
    \<and> (\<forall>b. \<not> log_area (log_start l) b \<longrightarrow> dsk d' b = (if k \<le> nat (lh_n l) then dsk d b else mem d b))"
proof -
  let ?st = "log_start l" and ?bl = "\<lambda>i. lh_blocks l ! i" and ?n = "nat (lh_n l)"
  let ?W = "copies (\<lambda>i. ?st + of_nat i + 1) ?bl (mem d) ?n"
  let ?h = "put_head (lh_n l) (lh_blocks l) (mem d ?st)"
  let ?I = "copies ?bl ?bl (mem d) ?n"
  let ?hz = "put_head 0 (lh_blocks l) ?h"
  let ?S = "set (take ?n (lh_blocks l))"
  have area: "log_area ?st ?st" "\<And>i. i < ?n \<Longrightarrow> log_area ?st (?st + of_nat i + 1)" "\<And>i. i < ?n \<Longrightarrow> ?st + of_nat i + 1 \<noteq> ?st"
      "\<And>i. i < ?n \<Longrightarrow> \<not> log_area ?st (?bl i)"
    subgoal using log_slot_addr(3) [of 0 0 ?st] by simp
    subgoal for i using log_slot_addr(2) [of i i ?st] logged_nth(2) [OF ok] by simp
    subgoal for i using log_slot_addr(1) [of i i ?st] logged_nth(2) [OF ok] by simp
    subgoal for i using logged_nth(1) [OF ok] by simp
    done
  have ne: "\<And>i. i < ?n \<Longrightarrow> ?bl i \<noteq> ?st" "\<And>i j. i < ?n \<Longrightarrow> j < ?n \<Longrightarrow> ?bl i \<noteq> ?st + of_nat j + 1"
    using area by metis+
  have hn: "0 \<le> lh_n l" "lh_n l \<le> 30" and len: "length (dsk d ?st) = 512" "get32 (dsk d ?st) 0 = 0"
    using ok by (simp_all add: log_ok_def LOG_SIZE_def MAX_OPEN_BLOCKS_def)
  have S: "?S = ?bl ` {0..<?n}" "?st \<notin> ?S"
  proof -
    have "length (lh_blocks l) = 30"
      using ok by (simp add: log_ok_def LOG_SIZE_def MAX_OPEN_BLOCKS_def)
    then show "?S = ?bl ` {0..<?n}"
      using hn by (simp add: nth_image [symmetric])
    then show "?st \<notin> ?S"
      using area by auto
  qed
  have same: "mem d b = dsk d b" if "b \<notin> ?S" for b
    using ok that by (simp add: log_ok_def)
  have hlen: "length (mem d ?st) = 512" "length ?h = 512" "length ?hz = 512"
    using same [OF S(2)] len by simp_all
  have hinj: "inj_on (\<lambda>i. ?st + of_nat i + 1) {0..<?n}"
    using logged_nth(2) [OF ok] log_slot_addr(4) by (auto simp: inj_on_def)
  have homeW: "apply_writes (take j ?W) D0 b = D0 b" if "\<not> log_area ?st b \<or> b = ?st" for b j D0
    by (rule copies_notin) (use that area in auto)
  have ws: "commit_writes l (mem d) = ?W @ [(?st, ?h)] @ ?I @ [(?st, ?hz)]"
    by (simp add: commit_writes_def Let_def)
  consider "k \<le> ?n" | j where "k = ?n + 1 + j" "j \<le> ?n" | "2 * ?n + 2 \<le> k"
  proof -
    have "k \<le> m \<or> (\<exists>j \<le> m. k = m + 1 + j) \<or> 2 * m + 2 \<le> k" for m
      by presburger
    from this [of ?n] show thesis
      using that by blast
  qed
  then show ?thesis
  proof cases
    case 1
    then have D: "D = apply_writes (take k ?W) (dsk d)"
      by (simp add: D_def ws)
    have "D ?st = dsk d ?st" "\<And>b. \<not> log_area ?st b \<Longrightarrow> D b = dsk d b"
      unfolding D using homeW by auto
    then show ?thesis
      using recover_empty [of D ?st l0] len l0 1 by auto
  next
    case (2 j)
    let ?D1 = "(apply_writes ?W (dsk d))(?st := ?h)"
    have D: "D = apply_writes (take j ?I) ?D1"
      using 2 by (simp add: D_def ws)
    have Dst: "D ?st = ?h"
      unfolding D by (subst copies_notin) (use ne(1) in auto)
    have Dslot: "D (?st + of_nat i + 1) = mem d (?bl i)" if "i < ?n" for i
      unfolding D by (subst copies_notin) (use ne(2) copies_in [OF hinj that] area(3) that in auto)
    have Dout: "D b = dsk d b" if "\<not> log_area ?st b" "b \<notin> ?S" for b
    proof -
      have "b \<noteq> ?st" "\<And>i. i < ?n \<Longrightarrow> ?bl i \<noteq> b"
        using that area(1) S(1) by auto
      then show ?thesis
        unfolding D using copies_notin [of ?n ?bl b j ?bl "mem d" ?D1] homeW [of b ?n "dsk d"] that(1) by simp
    qed
    have hd: "sint (get32 (D ?st) 0) = int ?n" "\<And>i. i < ?n \<Longrightarrow> get32 (D ?st) (i + 1) = ?bl i"
      unfolding Dst using put_head_n [OF hn hlen(1)] put_head_blocks [OF hn hlen(1)] hn(1) by simp_all
    have len512: "length (D ?st) = 512" "?n \<le> 30"
      using Dst hlen(2) hn(2) by simp_all
    obtain l' d' where r: "log_init ?st l0 (fresh D) = Some (l', d')" "lh_n l' = 0" "length (lh_blocks l') = 30"
        "outstanding l' = 0" "log_start l' = ?st" "mem d' = dsk d'" "length (dsk d' ?st) = 512" "get32 (dsk d' ?st) 0 = 0"
        "\<And>i. i < ?n \<Longrightarrow> dsk d' (?bl i) = D (?st + of_nat i + 1)"
        "\<And>b. \<not> log_area ?st b \<Longrightarrow> (\<forall>i < ?n. b \<noteq> ?bl i) \<Longrightarrow> dsk d' b = D b"
      using recover_disk [where D = D and st = ?st and n = ?n and bl = ?bl and l = l0, OF len512(1) hd(1) len512(2) hd(2)
          logged_inj [OF ok] area(4) l0] by blast
    have "dsk d' b = mem d b" if "\<not> log_area ?st b" for b
    proof (cases "b \<in> ?S")
      case True
      then obtain i where "i < ?n" "b = ?bl i"
        using S(1) by auto
      then show ?thesis
        using r(9) Dslot by simp
    next
      case False
      then have "\<forall>i < ?n. b \<noteq> ?bl i"
        using S(1) by auto
      then show ?thesis
        using r(10) [OF that] Dout [OF that False] same [OF False] by simp
    qed
    moreover have "log_ok l' d'"
      using r by (simp add: log_ok_def LOG_SIZE_def MAX_OPEN_BLOCKS_def)
    ultimately show ?thesis
      using r(1,4) 2 by auto
  next
    case 3
    have D: "D = (apply_writes ?I ((apply_writes ?W (dsk d))(?st := ?h)))(?st := ?hz)"
      using 3 by (simp add: D_def ws)
    have "D b = mem d b" if b: "\<not> log_area ?st b" for b
    proof (cases "b \<in> ?S")
      case True
      then obtain i where "i < ?n" "b = ?bl i"
        using S(1) by auto
      then show ?thesis
        using copies_in [OF logged_inj [OF ok]] area(1) b by (auto simp: D)
    next
      case False
      have "b \<noteq> ?st" "\<And>i. i < ?n \<Longrightarrow> ?bl i \<noteq> b"
        using b False area(1) S(1) by auto
      then show ?thesis
        using copies_notin [of ?n ?bl b ?n ?bl "mem d"] homeW [of b ?n "dsk d"] b same [OF False] by (simp add: D)
    qed
    moreover have "get32 (D ?st) 0 = 0"
      using hlen by (simp add: D put_head_def [of 0])
    ultimately show ?thesis
      using recover_empty [of D ?st l0] hlen l0 3 n by (auto simp: D)
  qed
qed

lemma commit_length:
  assumes "0 \<le> lh_n l"
  shows "length (commit_writes l m) = 2 * nat (lh_n l) + 2"
  by (simp add: commit_writes_def Let_def)

section \<open>Admission of operations\<close>

text \<open>
  The log with its operations: \<open>used\<close> lists, for every operation that was admitted and has not ended, how many blocks
  it has logged; an operation may log up to \<open>MAX_OPEN_BLOCKS\<close>. Blocks of the log area are never logged.
\<close>

inductive log_step :: "(log \<times> blkdev) \<times> nat list \<Rightarrow> (log \<times> blkdev) \<times> nat list \<Rightarrow> bool" where
  begin_step: "log_begin_op l = Some l' \<Longrightarrow> log_step ((l, d), used) ((l', d), used @ [0])"
| write_step: "k < length used \<Longrightarrow> used ! k < 10 \<Longrightarrow> \<not> log_area (log_start l) b \<Longrightarrow> log_write l b x d = Some (l', d') \<Longrightarrow>
    log_step ((l, d), used) ((l', d'), used[k := used ! k + 1])"
| end_step: "k < length used \<Longrightarrow> log_end_op l d = Some (l', d') \<Longrightarrow>
    log_step ((l, d), used) ((l', d'), take k used @ drop (Suc k) used)"

inductive_cases log_stepE: "log_step s s'"

definition reserve :: "nat list \<Rightarrow> int" where
  "reserve used = sum_list (map (\<lambda>u. 10 - int u) used)"

definition log_inv :: "(log \<times> blkdev) \<times> nat list \<Rightarrow> bool" where
  "log_inv s = (case s of ((l, d), used) \<Rightarrow>
     log_ok l d \<and> \<not> committing l \<and> outstanding l = int (length used) \<and> (\<forall>u \<in> set used. u \<le> 10)
     \<and> lh_n l + reserve used \<le> LOG_SIZE)"

lemma reserve_nonneg: "\<forall>u \<in> set used. u \<le> 10 \<Longrightarrow> 0 \<le> reserve used"
  by (induction used) (auto simp: reserve_def)

lemma reserve_le: "reserve used \<le> 10 * int (length used)"
  by (induction used) (auto simp: reserve_def)

lemma reserve_split:
  assumes "k < length used"
  shows "reserve used = reserve (take k used @ drop (Suc k) used) + (10 - int (used ! k))"
    "reserve (used[k := u]) = reserve (take k used @ drop (Suc k) used) + (10 - int u)"
  using assms id_take_nth_drop [OF assms] upd_conv_take_nth_drop [OF assms, of u]
  by (simp_all add: reserve_def take_map drop_map) (metis (no_types, lifting) id_take_nth_drop list.simps(9) map_append
      sum_list.Cons sum_list_append add.assoc add.commute)

lemma takeWhile_index:
  assumes "x \<in> set xs"
  shows "length (takeWhile (\<lambda>c. c \<noteq> x) xs) < length xs \<and> xs ! length (takeWhile (\<lambda>c. c \<noteq> x) xs) = x"
  using assms by (induction xs) auto

lemma log_slot_cases:
  assumes "log_ok l d"
  obtains "int (log_slot l b) = lh_n l" "b \<notin> set (take (nat (lh_n l)) (lh_blocks l))"
    | "log_slot l b < nat (lh_n l)" "lh_blocks l ! log_slot l b = b" "b \<in> set (take (nat (lh_n l)) (lh_blocks l))"
proof -
  let ?t = "take (nat (lh_n l)) (lh_blocks l)"
  have len: "length ?t = nat (lh_n l)" "0 \<le> lh_n l"
    using assms by (auto simp: log_ok_def LOG_SIZE_def MAX_OPEN_BLOCKS_def min_def)
  show thesis
  proof (cases "b \<in> set ?t")
    case True
    then have "log_slot l b < nat (lh_n l)" "?t ! log_slot l b = b"
      using len(1) takeWhile_index [OF True] by (simp_all add: log_slot_def)
    then show thesis
      using that(2) True by simp
  next
    case False
    then have "takeWhile (\<lambda>c. c \<noteq> b) ?t = ?t"
      by (auto simp: takeWhile_eq_all_conv)
    then have "log_slot l b = length ?t"
      by (simp only: log_slot_def)
    then have "int (log_slot l b) = lh_n l"
      using len by simp
    then show thesis
      using that(1) False by blast
  qed
qed

lemma log_write_ok:
  assumes ok: "log_ok l d" and n: "lh_n l < LOG_SIZE" and o: "1 \<le> outstanding l" and b: "\<not> log_area (log_start l) b"
  shows "\<exists>l' d'. log_write l b x d = Some (l', d') \<and> log_ok l' d' \<and> lh_n l \<le> lh_n l' \<and> lh_n l' \<le> lh_n l + 1
    \<and> outstanding l' = outstanding l \<and> committing l' = committing l \<and> log_start l' = log_start l \<and> mem d' = (mem d)(b := x) \<and> dsk d' = dsk d"
  using ok
proof (cases rule: log_slot_cases [of _ _ b])
  case 1
  let ?n = "nat (lh_n l)"
  have i: "log_slot l b = ?n" "?n < length (lh_blocks l)" "nat (lh_n l + 1) = Suc ?n"
    using 1(1) ok n by (simp_all add: log_ok_def LOG_SIZE_def MAX_OPEN_BLOCKS_def nat_add_distrib)
  have t: "take (Suc ?n) ((lh_blocks l)[?n := b]) = take ?n (lh_blocks l) @ [b]"
    using i(2) by (simp add: take_Suc_conv_app_nth)
  have w: "log_write l b x d = Some (l\<lparr>lh_blocks := (lh_blocks l)[?n := b], lh_n := lh_n l + 1\<rparr>, d\<lparr>mem := (mem d)(b := x)\<rparr>)"
    using n o 1(1) i(1) by (simp add: log_write_def Let_def)
  have "log_ok (l\<lparr>lh_blocks := (lh_blocks l)[?n := b], lh_n := lh_n l + 1\<rparr>) (d\<lparr>mem := (mem d)(b := x)\<rparr>)"
    using ok n b 1(2) i(3) t by (simp add: log_ok_def)
  then show ?thesis
    using w by simp
next
  case 2
  have "(lh_blocks l)[log_slot l b := b] = lh_blocks l"
    using 2(2) by (metis list_update_id)
  then have w: "log_write l b x d = Some (l, d\<lparr>mem := (mem d)(b := x)\<rparr>)"
    using n o 2(1) by (auto simp: log_write_def Let_def)
  have "log_ok l (d\<lparr>mem := (mem d)(b := x)\<rparr>)"
    using ok 2(3) by (auto simp: log_ok_def)
  then show ?thesis
    using w by simp
qed

lemma apply_writes_agree:
  assumes "b \<in> fst ` set ws \<or> D b = D' b"
  shows "apply_writes ws D b = apply_writes ws D' b"
  using assms
proof (induction ws arbitrary: D D')
  case (Cons w ws)
  obtain c x where "w = (c, x)" by (cases w)
  then show ?case
    using Cons.prems Cons.IH [of "D(c := x)" "D'(c := x)"] by (auto simp del: fun_upd_apply) (simp_all add: fun_upd_def)
qed simp

lemma apply_writes_const:
  assumes "\<And>y. (b, y) \<in> set ws \<Longrightarrow> y = D b"
  shows "apply_writes ws D b = D b"
  using assms
proof (induction ws rule: rev_induct)
  case (snoc w ws)
  then show ?case
    by (cases w) auto
qed simp

lemma commit_ok:
  assumes ok: "log_ok l d"
  shows "log_ok (fst (commit l d)) (snd (commit l d))" "lh_n (fst (commit l d)) = 0"
    "outstanding (fst (commit l d)) = outstanding l" "log_start (fst (commit l d)) = log_start l"
    "\<not> log_area (log_start l) b \<Longrightarrow> dsk (snd (commit l d)) b = mem d b"
    "\<not> log_area (log_start l) b \<Longrightarrow> mem (snd (commit l d)) b = mem d b"
proof -
  let ?S = "set (take (nat (lh_n l)) (lh_blocks l))"
  have "log_ok (fst (commit l d)) (snd (commit l d)) \<and> lh_n (fst (commit l d)) = 0
      \<and> outstanding (fst (commit l d)) = outstanding l \<and> log_start (fst (commit l d)) = log_start l
      \<and> (\<forall>b. \<not> log_area (log_start l) b \<longrightarrow> dsk (snd (commit l d)) b = mem d b \<and> mem (snd (commit l d)) b = mem d b)"
  proof (cases "lh_n l > 0")
    case True
    let ?ws = "commit_writes l (mem d)"
    let ?h = "put_head (lh_n l) (lh_blocks l) (mem d (log_start l))"
    obtain ws0 where ws0: "?ws = ws0 @ [(log_start l, put_head 0 (lh_blocks l) ?h)]"
      by (simp add: commit_writes_def Let_def)
    have S: "?S \<subseteq> fst ` set ?ws"
    proof -
      have "?S \<subseteq> (\<lambda>i. lh_blocks l ! i) ` {0..<nat (lh_n l)}"
        by (auto simp: in_set_conv_nth)
      also have "\<dots> \<subseteq> fst ` set ?ws"
        unfolding commit_writes_def Let_def set_append image_Un fst_copies by blast
      finally show ?thesis .
    qed
    have "mem d b = dsk d b" if "b \<notin> ?S" for b
      using ok that by (simp add: log_ok_def)
    then have agree: "apply_writes ?ws (mem d) = apply_writes ?ws (dsk d)"
      using S by (intro ext apply_writes_agree) blast
    have st: "log_start l \<notin> ?S"
      using ok log_slot_addr(3) [of 0 0 "log_start l"] by (auto simp: log_ok_def)
    then have len: "length (mem d (log_start l)) = 512"
      using ok by (simp add: log_ok_def)
    have hz: "get32 (put_head 0 (lh_blocks l) ?h) 0 = 0"
      using len by (simp add: put_head_def [of 0])
    have c: "commit l d = (l\<lparr>lh_n := 0\<rparr>, wrote ?ws d)"
      by (rule commit_effect [OF ok True])
    have slots: "log_area (log_start l) (log_start l + of_nat i + 1)" if "i < nat (lh_n l)" for i
      using log_slot_addr(2) [of i i] logged_nth(2) [OF ok that] by simp
    have home: "apply_writes ?ws (mem d) b = mem d b" if "\<not> log_area (log_start l) b" for b
    proof -
      have "(b, y) \<in> set ?ws \<Longrightarrow> y = mem d b" for y
        using that log_slot_addr(3) [of 0 0 "log_start l"] slots
        by (auto simp: commit_writes_def Let_def copies_def)
      then show ?thesis
        by (rule apply_writes_const)
    qed
    show ?thesis
      unfolding c using ok agree hz len home ws0 by (auto simp: wrote_def log_ok_def)
  next
    case False
    then have z: "lh_n l = 0"
      using ok by (simp add: log_ok_def)
    then show ?thesis
      using ok by (auto simp: commit_def log_ok_def)
  qed
  then show "log_ok (fst (commit l d)) (snd (commit l d))" "lh_n (fst (commit l d)) = 0"
    "outstanding (fst (commit l d)) = outstanding l" "log_start (fst (commit l d)) = log_start l"
    "\<not> log_area (log_start l) b \<Longrightarrow> dsk (snd (commit l d)) b = mem d b"
    "\<not> log_area (log_start l) b \<Longrightarrow> mem (snd (commit l d)) b = mem d b"
    by blast+
qed

lemma log_inv_step:
  assumes "log_step s s'" "log_inv s"
  shows "log_inv s'"
  using assms
proof (induction rule: log_step.induct)
  case (begin_step l l' d used)
  have "lh_n l + (outstanding l + 1) * 10 \<le> 30" "l' = l\<lparr>outstanding := outstanding l + 1\<rparr>" "\<not> committing l"
    using begin_step(1) by (auto simp: log_begin_op_def LOG_SIZE_def MAX_OPEN_BLOCKS_def split: if_splits)
  then show ?case
    using begin_step(2) reserve_le [of used]
    by (auto simp: log_inv_def log_ok_def reserve_def LOG_SIZE_def MAX_OPEN_BLOCKS_def)
next
  case (write_step k used l b x d l' d')
  have inv: "log_ok l d" "\<not> committing l" "outstanding l = int (length used)" "\<forall>u \<in> set used. u \<le> 10"
      "lh_n l + reserve used \<le> LOG_SIZE"
    using write_step(5) by (simp_all add: log_inv_def)
  have "lh_n l < LOG_SIZE" "outstanding l \<ge> 1"
    using write_step(4) by (auto simp: log_write_def split: if_splits)
  then have w: "log_ok l' d'" "lh_n l' \<le> lh_n l + 1" "outstanding l' = outstanding l" "committing l' = committing l"
    using log_write_ok [OF inv(1) _ _ write_step(3), of x] write_step(4) by auto
  have "reserve (used[k := used ! k + 1]) = reserve used - 1"
    using reserve_split [OF write_step(1)] by (metis (no_types, lifting) add_diff_eq diff_diff_eq of_nat_1 of_nat_add)
  moreover have "\<forall>u \<in> set (used[k := used ! k + 1]). u \<le> 10"
    using inv(4) write_step(2) set_update_subset_insert [of used k "used ! k + 1"] by auto
  ultimately show ?case
    using inv w by (simp add: log_inv_def)
next
  case (end_step k used l d l' d')
  have inv: "log_ok l d" "\<not> committing l" "outstanding l = int (length used)" "\<forall>u \<in> set used. u \<le> 10"
      "lh_n l + reserve used \<le> LOG_SIZE"
    using end_step(3) by (simp_all add: log_inv_def)
  let ?used = "take k used @ drop (Suc k) used"
  have u: "\<forall>u \<in> set ?used. u \<le> 10" "int (length ?used) = int (length used) - 1" "reserve ?used \<le> reserve used"
    using inv(4) end_step(1) reserve_split(1) [OF end_step(1)] by (auto dest: in_set_takeD in_set_dropD)
  let ?l1 = "l\<lparr>outstanding := outstanding l - 1\<rparr>"
  have sig: "log_ok (log_signal m) e = log_ok m e" "outstanding (log_signal m) = outstanding m"
      "committing (log_signal m) = committing m" "lh_n (log_signal m) = lh_n m" for m e
    by (simp_all add: log_signal_def log_ok_def)
  show ?case
  proof (cases "outstanding l = 1")
    case True
    let ?c = "commit (?l1\<lparr>committing := True\<rparr>) d"
    have "log_ok (?l1\<lparr>committing := True\<rparr>) d"
      using inv(1) by (simp add: log_ok_def)
    note c = commit_ok [OF this]
    have e: "(l', d') = (log_signal ((fst ?c)\<lparr>committing := False\<rparr>), snd ?c)"
      using end_step(2) True inv(2) by (simp add: log_end_op_def Let_def case_prod_beta)
    have "log_ok ((fst ?c)\<lparr>committing := False\<rparr>) (snd ?c)"
      using c(1) by (simp add: log_ok_def)
    moreover have un: "?used = []"
      using True inv(3) end_step(1) by (cases used) auto
    ultimately show ?thesis
      unfolding un using e c(2,3) True by (simp add: log_inv_def sig reserve_def LOG_SIZE_def MAX_OPEN_BLOCKS_def)
  next
    case False
    have "d' = d" "l' = ?l1 \<or> l' = log_signal ?l1"
      using end_step(2) False inv(2) by (auto simp: log_end_op_def Let_def split: if_splits)
    moreover have "log_ok ?l1 d"
      using inv(1) by (simp add: log_ok_def)
    ultimately show ?thesis
      using inv u by (auto simp: log_inv_def sig)
  qed
qed

section \<open>Properties\<close>

text \<open>
  C1. Commits are atomic under crashes. Let the machine stop after any number \<open>k\<close> of the disk writes of a commit.
  Then \<open>log_init\<close> on that disk succeeds, leaves an empty log, and every block outside the log holds what it held
  before the commit, when no more than the \<open>n\<close> log blocks were written, and what the file system wrote, once the
  header is on the disk; never a mixture.
\<close>

theorem commit_crash_atomic:
  assumes "log_ok l d" "lh_n l > 0" "length (lh_blocks l0) = 30"
    and "ws = drop (length (trace d)) (trace (snd (commit l d)))"
    and "D = apply_writes (take k ws) (dsk d)"
  shows "\<exists>l' d'. log_init (log_start l) l0 (fresh D) = Some (l', d') \<and> log_ok l' d' \<and> outstanding l' = 0
    \<and> (\<forall>b. \<not> log_area (log_start l) b \<longrightarrow> dsk d' b = (if k \<le> nat (lh_n l) then dsk d b else mem d b))"
proof -
  have "ws = commit_writes l (mem d)"
    using assms(4) by (simp add: commit_effect [OF assms(1,2)] wrote_def)
  then show ?thesis
    using commit_prefix [OF assms(1-3), of D k] assms(5) by blast
qed

definition log_example :: log where
  "log_example = \<lparr>log_start = 2, outstanding = 0, committing = True, lh_n = 2, lh_blocks = [100, 101] @ replicate 28 0,
     sem_value = 0, sem_waiting = 0\<rparr>"

definition dev_example :: blkdev where
  "dev_example = \<lparr>mem = (\<lambda>_. replicate 512 0)(100 := replicate 512 1, 101 := replicate 512 2),
     dsk = (\<lambda>_. replicate 512 0), trace = []\<rparr>"

lemma log_example_ok: "log_ok log_example dev_example"
  by (auto simp: log_ok_def log_example_def dev_example_def LOG_SIZE_def MAX_OPEN_BLOCKS_def log_area_def get32_def
      bytes_le32_def)

theorem commit_crash_atomic_witness:
  "\<exists>l' d'. log_init 2 log_example (fresh (apply_writes (take 4 (trace (snd (commit log_example dev_example)))) (dsk dev_example)))
      = Some (l', d') \<and> dsk d' 100 = replicate 512 1 \<and> dsk d' 101 = replicate 512 2"
proof -
  have f: "lh_n log_example > 0" "length (lh_blocks log_example) = 30" "log_start log_example = 2" "trace dev_example = []"
    "nat (lh_n log_example) = 2"
    by (simp_all add: log_example_def dev_example_def)
  obtain l' d' where "log_init 2 log_example (fresh (apply_writes (take 4 (trace (snd (commit log_example dev_example)))) (dsk dev_example)))
      = Some (l', d')" and a: "\<And>b. \<not> log_area 2 b \<Longrightarrow> dsk d' b = mem dev_example b"
    using commit_crash_atomic [OF log_example_ok f(1,2) refl refl, of 4] f by auto
  moreover have "\<not> log_area 2 100" "\<not> log_area 2 101"
    by (simp_all add: log_area_def)
  moreover have "mem dev_example 100 = replicate 512 1" "mem dev_example 101 = replicate 512 2"
    by (simp_all add: dev_example_def)
  ultimately show ?thesis
    by metis
qed

text \<open>
  C13. Recovery can itself be interrupted: when the machine stops after any number of the disk writes of \<open>log_init\<close>
  and starts again, the blocks outside the log end up as if recovery had not been interrupted.
\<close>

theorem recovery_idempotent:
  assumes "length (D st) = 512" "sint (get32 (D st) 0) = int n" "n \<le> 30"
    and "inj_on (\<lambda>i. get32 (D st) (i + 1)) {0..<n}" "\<forall>i < n. \<not> log_area st (get32 (D st) (i + 1))"
    and "length (lh_blocks l) = 30" "log_init st l (fresh D) = Some (l1, d1)"
  shows "\<exists>l2 d2. log_init st l (fresh (apply_writes (take k (trace d1)) D)) = Some (l2, d2)
    \<and> (\<forall>b. \<not> log_area st b \<longrightarrow> dsk d2 b = dsk d1 b)"
proof -
  let ?bl = "\<lambda>i. get32 (D st) (i + 1)" and ?slot = "\<lambda>i. st + of_nat i + 1"
  have bl: "\<And>i. i < n \<Longrightarrow> get32 (D st) (i + 1) = ?bl i" "\<And>i. i < n \<Longrightarrow> \<not> log_area st (?bl i)"
    using assms(5) by simp_all
  have st: "log_area st st" "\<And>i. i < n \<Longrightarrow> log_area st (?slot i)"
    using log_slot_addr(3) [of 0 0 st] log_slot_addr(2) [of _ 0 st] assms(3) by simp_all
  have d1: "mem d1 = dsk d1" "length (dsk d1 st) = 512" "get32 (dsk d1 st) 0 = 0"
      "\<And>i. i < n \<Longrightarrow> dsk d1 (?bl i) = D (?slot i)" "\<And>b. \<not> log_area st b \<Longrightarrow> (\<forall>i < n. b \<noteq> ?bl i) \<Longrightarrow> dsk d1 b = D b"
      "trace d1 = copies ?bl ?slot D n @ [(st, put_head 0 (lh_blocks l1) (D st))]" "dsk d1 = apply_writes (trace d1) D"
    using recover_disk [where D = D and st = st and n = n and bl = ?bl and l = l, OF assms(1-3) bl(1) assms(4) bl(2) assms(6)]
      assms(7) by auto
  show ?thesis
  proof (cases "k \<le> n")
    case True
    let ?D = "apply_writes (take k (copies ?bl ?slot D n)) D"
    have keep: "?D b = D b" if "log_area st b" for b
      by (rule copies_notin) (use that bl(2) in auto)
    have eq: "?D st = D st" "\<And>i. i < n \<Longrightarrow> ?D (?slot i) = D (?slot i)"
      using keep st by simp_all
    obtain l2 d2 where r: "log_init st l (fresh ?D) = Some (l2, d2)" "\<And>i. i < n \<Longrightarrow> dsk d2 (?bl i) = ?D (?slot i)"
        "\<And>b. \<not> log_area st b \<Longrightarrow> (\<forall>i < n. b \<noteq> ?bl i) \<Longrightarrow> dsk d2 b = ?D b"
      using recover_disk [of ?D st n ?bl l] assms(1-6) eq(1) bl by auto
    have "dsk d2 b = dsk d1 b" if b: "\<not> log_area st b" for b
    proof (cases "\<exists>i < n. b = ?bl i")
      case True
      then show ?thesis
        using r(2) d1(4) eq(2) by auto
    next
      case False
      then have "?D b = D b"
        by (intro copies_notin) auto
      then show ?thesis
        using r(3) [OF b] d1(5) [OF b] False by auto
    qed
    then show ?thesis
      using r(1) True d1(6) by auto
  next
    case False
    then have "take k (trace d1) = trace d1"
      by (simp add: d1(6))
    then have "apply_writes (take k (trace d1)) D = dsk d1"
      using d1(7) by simp
    then show ?thesis
      using recover_empty [of "dsk d1" st l] d1(2,3) assms(6) by auto
  qed
qed

theorem recovery_idempotent_witness:
  "\<exists>l1 d1 l2 d2. log_init 2 log_example (fresh (\<lambda>_. replicate 512 0)) = Some (l1, d1)
    \<and> log_init 2 log_example (fresh (apply_writes (take 1 (trace d1)) (\<lambda>_. replicate 512 0))) = Some (l2, d2)"
proof -
  let ?D = "\<lambda>_ :: u32. replicate 512 (0 :: u8)"
  have h: "length (?D 2) = 512" "get32 (?D 2) 0 = 0" "length (lh_blocks log_example) = 30"
    by (simp_all add: get32_def bytes_le32_def log_example_def)
  obtain l1 d1 where d1: "log_init 2 log_example (fresh ?D) = Some (l1, d1)"
    using recover_empty [of ?D 2 log_example, OF h] by auto
  have "sint (get32 (?D 2) 0) = int 0"
    using h(2) by simp
  then show ?thesis
    using recovery_idempotent [OF h(1) _ _ _ _ h(3) d1, of 0 1] d1 by auto
qed

text \<open>
  C8. However operations begin, log blocks and end, as long as each logs at most \<open>MAX_OPEN_BLOCKS\<close> blocks the log
  never overflows: in every reachable state the log invariant holds, and a running operation that has logged fewer
  than ten blocks can log another one (no assertion of \<open>log_write\<close> fails).
\<close>

theorem log_never_overflows:
  assumes "log_step\<^sup>*\<^sup>* ((l0, d0), []) ((l, d), used)" "log_ok l0 d0" "\<not> committing l0" "outstanding l0 = 0"
  shows "log_inv ((l, d), used) \<and>
    (\<forall>k < length used. used ! k < 10 \<longrightarrow> (\<forall>b x. \<not> log_area (log_start l) b \<longrightarrow> log_write l b x d \<noteq> None))"
proof -
  have "log_inv ((l0, d0), [])"
    using assms(2-4) by (simp add: log_inv_def reserve_def log_ok_def)
  with assms(1) have inv: "log_inv ((l, d), used)"
    by (induction rule: rtranclp_induct) (auto intro: log_inv_step)
  have "log_write l b x d \<noteq> None" if k: "k < length used" "used ! k < 10" and b: "\<not> log_area (log_start l) b" for k b x
  proof -
    have "0 \<le> reserve (take k used @ drop (Suc k) used)"
      using inv by (intro reserve_nonneg) (auto simp: log_inv_def dest: in_set_takeD in_set_dropD)
    then have "1 \<le> reserve used"
      using reserve_split(1) [OF k(1)] k(2) by linarith
    then have "lh_n l < LOG_SIZE" "1 \<le> outstanding l" "log_ok l d"
      using inv k(1) by (auto simp: log_inv_def)
    then show ?thesis
      using log_write_ok [OF _ _ _ b] by blast
  qed
  then show ?thesis
    using inv by blast
qed

theorem log_never_overflows_witness:
  "log_write (log_example\<lparr>lh_n := 0, committing := False, outstanding := 1\<rparr>) 200 [] (fresh (\<lambda>_. replicate 512 0)) \<noteq> None"
proof -
  let ?l = "log_example\<lparr>lh_n := 0, committing := False\<rparr>" and ?d = "fresh (\<lambda>_. replicate 512 0)"
  have ok: "log_ok ?l ?d" "\<not> committing ?l" "outstanding ?l = 0"
    by (auto simp: log_ok_def log_example_def fresh_def LOG_SIZE_def MAX_OPEN_BLOCKS_def get32_def bytes_le32_def)
  have "log_begin_op ?l = Some (?l\<lparr>outstanding := 1\<rparr>)"
    by (simp add: log_begin_op_def log_example_def LOG_SIZE_def MAX_OPEN_BLOCKS_def)
  then have "log_step ((?l, ?d), []) ((?l\<lparr>outstanding := 1\<rparr>, ?d), [] @ [0])"
    by (rule log_step.begin_step)
  then have "log_step\<^sup>*\<^sup>* ((?l, ?d), []) ((?l\<lparr>outstanding := 1\<rparr>, ?d), [0])"
    by auto
  from log_never_overflows [OF this ok] show ?thesis
    by (auto simp: log_area_def log_example_def)
qed

text \<open>
  C18. A completed operation is durable: when the last outstanding operation ends, \<open>log_end_op\<close> leaves every block
  outside the log on the disk with the contents the file system last gave it, an empty log and an empty header.
\<close>

theorem end_op_durable:
  assumes "log_ok l d" "\<not> committing l" "outstanding l = 1"
  shows "\<exists>l' d'. log_end_op l d = Some (l', d') \<and> log_ok l' d' \<and> lh_n l' = 0 \<and> outstanding l' = 0 \<and> \<not> committing l'
    \<and> (\<forall>b. \<not> log_area (log_start l) b \<longrightarrow> dsk d' b = mem d b \<and> mem d' b = mem d b)"
proof -
  let ?l = "l\<lparr>outstanding := 0, committing := True\<rparr>"
  have "log_ok ?l d"
    using assms(1) by (simp add: log_ok_def)
  note c = commit_ok [OF this]
  have "log_end_op l d = Some (log_signal ((fst (commit ?l d))\<lparr>committing := False\<rparr>), snd (commit ?l d))"
    using assms(2,3) by (simp add: log_end_op_def Let_def case_prod_beta)
  then show ?thesis
    using c by (auto simp: log_signal_def log_ok_def)
qed

theorem end_op_durable_witness:
  "\<exists>l' d'. log_end_op (log_example\<lparr>committing := False, outstanding := 1\<rparr>) dev_example = Some (l', d')
    \<and> dsk d' 100 = replicate 512 1"
proof -
  let ?l = "log_example\<lparr>committing := False, outstanding := 1\<rparr>"
  have ok: "log_ok ?l dev_example"
    using log_example_ok by (simp add: log_ok_def)
  have "\<not> log_area (log_start ?l) 100" "mem dev_example 100 = replicate 512 1"
    by (simp_all add: log_area_def log_example_def dev_example_def)
  then show ?thesis
    using end_op_durable [OF ok] by auto
qed

end
