(* ===== verification/Inode.thy ===== *)
theory Inode
  imports Log
begin

text \<open>
  Blocks and inodes of the file system: \<open>fs/balloc.c\<close>, \<open>fs/inode.c\<close> and the counters of \<open>fs/fs.c\<close>.

  A block is its 512 bytes; an inode on the disk is 17 words (68 bytes, \<open>packed\<close>), seven to a block. \<open>mem (dev s)\<close> is the
  contents of the blocks as \<open>buf_read\<close> shows them, and every change of a block goes through \<open>log_write\<close> (theory \<open>Log\<close>).
  The operations are those of one task: \<open>locked\<close> says that the task holds the inode's semaphore, and a \<open>sem_wait\<close> on a
  semaphore that is already taken does not return (\<open>None\<close>, as for a panic). An inode pointer is an index of the cache.
\<close>

section \<open>State\<close>

definition BITS_PER_BLOCK :: nat where "BITS_PER_BLOCK = 4096"
definition NDIRECT_DATA_BLOCKS :: nat where "NDIRECT_DATA_BLOCKS = 11"
definition NINDIRECT_DATA_BLOCKS :: nat where "NINDIRECT_DATA_BLOCKS = 128"
definition MAX_DATA_BLOCKS :: nat where "MAX_DATA_BLOCKS = NDIRECT_DATA_BLOCKS + NINDIRECT_DATA_BLOCKS"
definition INODES_PER_BLOCK :: nat where "INODES_PER_BLOCK = 7"
definition NINODES :: nat where "NINODES = 50"
definition ROOT_INUM :: u32 where "ROOT_INUM = 1"
definition INODE_NONE :: u32 where "INODE_NONE = 0"
definition INODE_FILE :: u32 where "INODE_FILE = 1"
definition INODE_DIRECTORY :: u32 where "INODE_DIRECTORY = 2"
definition INODE_DEVICE :: u32 where "INODE_DEVICE = 3"

record superblock =
  sb_magic :: u32
  sb_size :: u32
  nblocks :: u32
  ninodes :: u32
  inode_start :: u32
  nlog :: u32
  sb_log_start :: u32
  bmap_start :: u32
  bmap_bytes :: u32
  bdata_start :: u32

record dinode =
  dtype :: u32
  nlink :: u32
  dsize :: u32
  major :: u32
  minor :: u32
  addrs :: "u32 list"

record inode =
  inum :: u32
  iref :: int
  locked :: bool
  valid :: bool
  disk_inode :: dinode

record fs =
  lg :: log
  dev :: blkdev
  sb :: superblock
  inodes :: "inode list"

abbreviation rd :: "fs \<Rightarrow> u32 \<Rightarrow> blk" where "rd s \<equiv> mem (dev s)"

definition fs_log_write :: "u32 \<Rightarrow> blk \<Rightarrow> fs \<Rightarrow> fs option" where
  "fs_log_write b x s = do { (l, d) \<leftarrow> log_write (lg s) b x (dev s); Some (s\<lparr>lg := l, dev := d\<rparr>) }"

definition upd_inode :: "nat \<Rightarrow> (inode \<Rightarrow> inode) \<Rightarrow> fs \<Rightarrow> fs" where
  "upd_inode i f s = s\<lparr>inodes := (inodes s)[i := f (inodes s ! i)]\<rparr>"

definition upd_dinode :: "nat \<Rightarrow> (dinode \<Rightarrow> dinode) \<Rightarrow> fs \<Rightarrow> fs" where
  "upd_dinode i f = upd_inode i (\<lambda>ip. ip\<lparr>disk_inode := f (disk_inode ip)\<rparr>)"

section \<open>Data blocks (balloc.c)\<close>

definition bzero :: "u32 \<Rightarrow> fs \<Rightarrow> fs option" where
  "bzero block_no s = fs_log_write block_no (replicate 512 0) s"

definition bit_clear :: "blk \<Rightarrow> nat \<Rightarrow> bool" where
  "bit_clear data k = (data ! (k div 8) AND push_bit (k mod 8) 1 = 0)"

text \<open>The loop of \<open>balloc\<close> over the bitmap blocks.\<close>

function balloc_loop :: "u32 \<Rightarrow> nat \<Rightarrow> fs \<Rightarrow> (u32 \<times> fs) option" where
  "balloc_loop bmap_block_no bmap_bits s =
     (if bmap_bits > 0 then
        (let bits = min BITS_PER_BLOCK bmap_bits;
             data = rd s bmap_block_no in
         case List.find (bit_clear data) [0..<bits] of
           Some k \<Rightarrow> do {
             s1 \<leftarrow> fs_log_write bmap_block_no
                     (data[k div 8 := data ! (k div 8) OR push_bit (k mod 8) 1]) s;
             let block_no = bdata_start (sb s) + (bmap_block_no - bmap_start (sb s)) * of_nat BITS_PER_BLOCK + of_nat k;
             s2 \<leftarrow> bzero block_no s1;
             Some (block_no, s2)
           }
         | None \<Rightarrow> balloc_loop (bmap_block_no + 1) (bmap_bits - bits) s)
      else None)"
  by pat_completeness auto
termination
  by (relation "measure (\<lambda>(b, n, s). n)") (auto simp: BITS_PER_BLOCK_def)

declare balloc_loop.simps [simp del]

definition balloc :: "fs \<Rightarrow> (u32 \<times> fs) option" where
  "balloc s = balloc_loop (bmap_start (sb s)) (unat (bmap_bytes (sb s) * 8)) s"

definition bfree :: "u32 \<Rightarrow> fs \<Rightarrow> fs option" where
  "bfree dblock_no s = do {
     let n = dblock_no - bdata_start (sb s);
     let bblock_no = bmap_start (sb s) + n div of_nat BITS_PER_BLOCK;
     let bits = unat (n mod of_nat BITS_PER_BLOCK);
     let data = rd s bblock_no;
     kassert (\<not> bit_clear data bits);
     fs_log_write bblock_no (data[bits div 8 := data ! (bits div 8) AND NOT (push_bit (bits mod 8) 1)]) s
   }"

function free_blocks_loop :: "fs \<Rightarrow> u32 \<Rightarrow> nat \<Rightarrow> nat \<Rightarrow> nat" where
  "free_blocks_loop s bmap_block_no bmap_bits cnt =
     (if bmap_bits > 0 then
        (let bits = min BITS_PER_BLOCK bmap_bits in
         free_blocks_loop s (bmap_block_no + 1) (bmap_bits - bits)
           (cnt + length (filter (bit_clear (rd s bmap_block_no)) [0..<bits])))
      else cnt)"
  by pat_completeness auto
termination
  by (relation "measure (\<lambda>(s, b, n, c). n)") (auto simp: BITS_PER_BLOCK_def)

declare free_blocks_loop.simps [simp del]

definition get_free_data_blocks :: "fs \<Rightarrow> nat" where
  "get_free_data_blocks s = free_blocks_loop s (bmap_start (sb s)) (unat (bmap_bytes (sb s) * 8)) 0"

section \<open>Inodes on the disk\<close>

definition GET_INODE_BLOCK_NO :: "u32 \<Rightarrow> superblock \<Rightarrow> u32" where
  "GET_INODE_BLOCK_NO i b = inode_start b + i div of_nat INODES_PER_BLOCK"

text \<open>The word index of the inode in its block.\<close>

definition dip_off :: "u32 \<Rightarrow> nat" where "dip_off i = 17 * (unat i mod INODES_PER_BLOCK)"

definition get_dinode :: "blk \<Rightarrow> nat \<Rightarrow> dinode" where
  "get_dinode b w = \<lparr>dtype = get32 b w, nlink = get32 b (w + 1), dsize = get32 b (w + 2), major = get32 b (w + 3),
     minor = get32 b (w + 4), addrs = map (\<lambda>k. get32 b (w + 5 + k)) [0..<NDIRECT_DATA_BLOCKS + 1]\<rparr>"

definition put_words :: "blk \<Rightarrow> nat \<Rightarrow> u32 list \<Rightarrow> blk" where
  "put_words b w ws = foldl (\<lambda>b k. put32 b (w + k) (ws ! k)) b [0..<length ws]"

definition put_dinode :: "blk \<Rightarrow> nat \<Rightarrow> dinode \<Rightarrow> blk" where
  "put_dinode b w di = put_words b w ([dtype di, nlink di, dsize di, major di, minor di] @ addrs di)"

section \<open>The inode cache (inode.c)\<close>

definition dinode0 :: dinode where
  "dinode0 = \<lparr>dtype = INODE_NONE, nlink = 0, dsize = 0, major = 0, minor = 0, addrs = replicate (NDIRECT_DATA_BLOCKS + 1) 0\<rparr>"

definition inodes_init :: "fs \<Rightarrow> fs" where
  "inodes_init s = s\<lparr>inodes := map (\<lambda>i. if i < NINODES
       then (inodes s ! i)\<lparr>iref := 0, disk_inode := (disk_inode (inodes s ! i))\<lparr>dtype := INODE_NONE\<rparr>, valid := False,
                           inum := 0, locked := False\<rparr>
       else inodes s ! i) [0..<length (inodes s)]\<rparr>"

definition iget :: "u32 \<Rightarrow> fs \<Rightarrow> (nat \<times> fs) option" where
  "iget n s =
     (case List.find (\<lambda>i. iref (inodes s ! i) > 0 \<and> inum (inodes s ! i) = n) [0..<NINODES] of
        Some i \<Rightarrow> Some (i, upd_inode i (\<lambda>ip. ip\<lparr>iref := iref ip + 1\<rparr>) s)
      | None \<Rightarrow> (case List.find (\<lambda>i. iref (inodes s ! i) = 0) [0..<NINODES] of
          Some i \<Rightarrow> Some (i, upd_inode i (\<lambda>ip. ip\<lparr>inum := n, iref := 1, valid := False\<rparr>) s)
        | None \<Rightarrow> None))"

definition inode_update :: "nat \<Rightarrow> fs \<Rightarrow> fs option" where
  "inode_update i s =
     (let ip = inodes s ! i;
          b = GET_INODE_BLOCK_NO (inum ip) (sb s)
      in fs_log_write b (put_dinode (rd s b) (dip_off (inum ip)) (disk_inode ip)) s)"

text \<open>The two loops of \<open>itruncate\<close>; the second works on the contents of the indirect block.\<close>

fun trunc_direct :: "nat \<Rightarrow> nat list \<Rightarrow> fs \<Rightarrow> fs option" where
  "trunc_direct i [] s = Some s"
| "trunc_direct i (k # ks) s = do {
     let a = addrs (disk_inode (inodes s ! i)) ! k;
     s1 \<leftarrow> (if a \<noteq> 0 then do {
             s' \<leftarrow> bfree a s;
             Some (upd_dinode i (\<lambda>di. di\<lparr>addrs := (addrs di)[k := 0]\<rparr>) s')
           } else Some s);
     trunc_direct i ks s1
   }"

fun trunc_indirect :: "nat list \<Rightarrow> blk \<Rightarrow> fs \<Rightarrow> (blk \<times> fs) option" where
  "trunc_indirect [] b s = Some (b, s)"
| "trunc_indirect (k # ks) b s =
     (if get32 b k \<noteq> 0 then do { s1 \<leftarrow> bfree (get32 b k) s; trunc_indirect ks (put32 b k 0) s1 }
      else trunc_indirect ks b s)"

definition itruncate :: "nat \<Rightarrow> fs \<Rightarrow> fs option" where
  "itruncate i s = do {
     s1 \<leftarrow> trunc_direct i [0..<NDIRECT_DATA_BLOCKS] s;
     let a = addrs (disk_inode (inodes s1 ! i)) ! NDIRECT_DATA_BLOCKS;
     s2 \<leftarrow> (if a \<noteq> 0 then do {
             (b, s') \<leftarrow> trunc_indirect [0..<NINDIRECT_DATA_BLOCKS] (rd s1 a) s1;
             s'' \<leftarrow> fs_log_write a b s';
             bfree a s''
           } else Some s1);
     inode_update i (upd_dinode i (\<lambda>di. di\<lparr>dsize := 0\<rparr>) s2)
   }"

definition bmap :: "nat \<Rightarrow> nat \<Rightarrow> fs \<Rightarrow> (u32 \<times> fs) option" where
  "bmap i bn s = do {
     kassert (bn < MAX_DATA_BLOCKS);
     if bn < NDIRECT_DATA_BLOCKS then
       (let addr = addrs (disk_inode (inodes s ! i)) ! bn in
        if addr = 0 then do {
          (a, s1) \<leftarrow> balloc s;
          Some (a, upd_dinode i (\<lambda>di. di\<lparr>addrs := (addrs di)[bn := a]\<rparr>) s1)
        } else Some (addr, s))
     else do {
       let bn = bn - NDIRECT_DATA_BLOCKS;
       s1 \<leftarrow> (if addrs (disk_inode (inodes s ! i)) ! NDIRECT_DATA_BLOCKS = 0 then do {
               (a, s') \<leftarrow> balloc s;
               Some (upd_dinode i (\<lambda>di. di\<lparr>addrs := (addrs di)[NDIRECT_DATA_BLOCKS := a]\<rparr>) s')
             } else Some s);
       let ind = addrs (disk_inode (inodes s1 ! i)) ! NDIRECT_DATA_BLOCKS;
       let addr = get32 (rd s1 ind) bn;
       if addr = 0 then do {
         (a, s2) \<leftarrow> balloc s1;
         s3 \<leftarrow> fs_log_write ind (put32 (rd s2 ind) bn a) s2;
         Some (a, s3)
       } else Some (addr, s1)
     }
   }"

fun alloc_loop :: "u32 \<Rightarrow> nat list \<Rightarrow> fs \<Rightarrow> (nat \<times> fs) option" where
  "alloc_loop typ [] s = None"
| "alloc_loop typ (n # ns) s =
     (let i = of_nat n;
          b = GET_INODE_BLOCK_NO i (sb s) in
      if get32 (rd s b) (dip_off i) = INODE_NONE then do {
        s1 \<leftarrow> fs_log_write b (put_dinode (rd s b) (dip_off i) (dinode0\<lparr>dtype := typ\<rparr>)) s;
        iget i s1
      } else alloc_loop typ ns s)"

definition inode_alloc :: "u32 \<Rightarrow> fs \<Rightarrow> (nat \<times> fs) option" where
  "inode_alloc typ s = alloc_loop typ [1..<unat (ninodes (sb s))] s"

definition get_free_inodes :: "fs \<Rightarrow> nat" where
  "get_free_inodes s =
     length (filter (\<lambda>n. get32 (rd s (GET_INODE_BLOCK_NO (of_nat n) (sb s))) (dip_off (of_nat n)) = INODE_NONE)
       [1..<unat (ninodes (sb s))])"

definition inode_dup :: "nat \<Rightarrow> fs \<Rightarrow> nat \<times> fs" where
  "inode_dup i s = (i, upd_inode i (\<lambda>ip. ip\<lparr>iref := iref ip + 1\<rparr>) s)"

definition isem_wait :: "nat \<Rightarrow> fs \<Rightarrow> fs option" where
  "isem_wait i s = do { kassert (\<not> locked (inodes s ! i)); Some (upd_inode i (\<lambda>ip. ip\<lparr>locked := True\<rparr>) s) }"

definition isem_signal :: "nat \<Rightarrow> fs \<Rightarrow> fs" where
  "isem_signal i s = upd_inode i (\<lambda>ip. ip\<lparr>locked := False\<rparr>) s"

definition inode_lock :: "nat \<Rightarrow> fs \<Rightarrow> fs option" where
  "inode_lock i s = do {
     kassert (iref (inodes s ! i) \<ge> 1);
     s1 \<leftarrow> isem_wait i s;
     if \<not> valid (inodes s1 ! i) then do {
       let n = inum (inodes s1 ! i);
       let di = get_dinode (rd s1 (GET_INODE_BLOCK_NO n (sb s1))) (dip_off n);
       kassert (dtype di \<noteq> INODE_NONE);
       Some (upd_inode i (\<lambda>ip. ip\<lparr>disk_inode := di, valid := True\<rparr>) s1)
     } else Some s1
   }"

definition inode_unlock :: "nat \<Rightarrow> fs \<Rightarrow> fs option" where
  "inode_unlock i s = do {
     kassert (locked (inodes s ! i) \<and> iref (inodes s ! i) \<ge> 1);
     Some (isem_signal i s)
   }"

definition inode_put :: "nat \<Rightarrow> fs \<Rightarrow> fs option" where
  "inode_put i s = do {
     kassert (iref (inodes s ! i) \<ge> 1);
     s1 \<leftarrow> isem_wait i s;
     s2 \<leftarrow> (if valid (inodes s1 ! i) \<and> nlink (disk_inode (inodes s1 ! i)) = 0 then
             (if iref (inodes s1 ! i) = 1 then do {
                t1 \<leftarrow> itruncate i s1;
                t2 \<leftarrow> inode_update i (upd_dinode i (\<lambda>di. di\<lparr>dtype := INODE_NONE\<rparr>) t1);
                Some (upd_inode i (\<lambda>ip. ip\<lparr>valid := False\<rparr>) t2)
              } else Some s1)
           else Some s1);
     Some (upd_inode i (\<lambda>ip. ip\<lparr>iref := iref ip - 1\<rparr>) (isem_signal i s2))
   }"

definition inode_unlockput :: "nat \<Rightarrow> fs \<Rightarrow> fs option" where
  "inode_unlockput i s = do { s1 \<leftarrow> inode_unlock i s; inode_put i s1 }"

text \<open>
  The devices: \<open>dev_read k n\<close> is the result of \<open>devio[k].read\<close> with the bytes it stores, \<open>dev_write k src\<close> that of
  \<open>devio[k].write\<close>; \<open>None\<close> for a \<open>NULL\<close> entry. \<open>NDEVICE\<close> is 1.
\<close>

record devio =
  dev_read :: "nat \<Rightarrow> (u32 \<Rightarrow> int \<times> u8 list) option"
  dev_write :: "nat \<Rightarrow> (u8 list \<Rightarrow> int) option"

function read_loop :: "nat \<Rightarrow> nat \<Rightarrow> nat \<Rightarrow> nat \<Rightarrow> u8 list \<Rightarrow> fs \<Rightarrow> (u8 list \<times> fs) option" where
  "read_loop i offset n done acc s =
     (if done < n then do {
        (a, s1) \<leftarrow> bmap i (offset div 512) s;
        let m = min (512 - offset mod 512) (n - done);
        read_loop i (offset + m) n (done + m) (acc @ take m (drop (offset mod 512) (rd s1 a))) s1
      } else Some (acc, s))"
  by pat_completeness auto
termination
  by (relation "measure (\<lambda>(i, offset, n, done, acc, s). n - done)") auto

declare read_loop.simps [simp del]

text \<open>\<open>inode_read\<close>: the value it returns and the bytes it stores at \<open>dst\<close>.\<close>

definition inode_read :: "devio \<Rightarrow> nat \<Rightarrow> u32 \<Rightarrow> u32 \<Rightarrow> fs \<Rightarrow> (int \<times> u8 list \<times> fs) option" where
  "inode_read io i offset n s =
     (let dp = disk_inode (inodes s ! i) in
      if dtype dp = INODE_DEVICE then do {
        kassert (sint (major dp) \<ge> 1 \<and> sint (major dp) \<le> 1);
        (case dev_read io (unat (major dp)) of
           None \<Rightarrow> Some (-1, [], s)
         | Some f \<Rightarrow> (let (r, bs) = f n in Some (r, bs, s)))
      }
      else if offset > dsize dp \<or> offset + n < offset then Some (-1, [], s)
      else do {
        let n1 = (if offset + n > dsize dp then dsize dp - offset else n);
        (bs, s1) \<leftarrow> read_loop i (unat offset) (unat n1) 0 [] s;
        Some (sint n1, bs, s1)
      })"

function write_loop :: "nat \<Rightarrow> nat \<Rightarrow> u8 list \<Rightarrow> fs \<Rightarrow> (nat \<times> fs) option" where
  "write_loop i offset src s =
     (if src \<noteq> [] then do {
        (a, s1) \<leftarrow> bmap i (offset div 512) s;
        let m = min (512 - offset mod 512) (length src);
        let b = rd s1 a;
        s2 \<leftarrow> fs_log_write a (take (offset mod 512) b @ take m src @ drop (offset mod 512 + m) b) s1;
        write_loop i (offset + m) (drop m src) s2
      } else Some (offset, s))"
  by pat_completeness auto
termination
  by (relation "measure (\<lambda>(i, offset, src, s). length src)") auto

declare write_loop.simps [simp del]

text \<open>\<open>inode_write\<close> of the bytes \<open>src\<close>; their number is \<open>n\<close>.\<close>

definition inode_write :: "devio \<Rightarrow> nat \<Rightarrow> u8 list \<Rightarrow> u32 \<Rightarrow> fs \<Rightarrow> (int \<times> fs) option" where
  "inode_write io i src offset s =
     (let dp = disk_inode (inodes s ! i);
          n = of_nat (length src) in
      if dtype dp = INODE_DEVICE then do {
        kassert (sint (major dp) \<ge> 1 \<and> sint (major dp) \<le> 1);
        (case dev_write io (unat (major dp)) of
           None \<Rightarrow> Some (-1, s)
         | Some f \<Rightarrow> Some (f src, s))
      }
      else if offset > dsize dp \<or> offset + n < offset then Some (-1, s)
      else if offset + n > of_nat MAX_DATA_BLOCKS * 512 then Some (-1, s)
      else do {
        (offset1, s1) \<leftarrow> write_loop i (unat offset) src s;
        s2 \<leftarrow> (if n > 0 \<and> of_nat offset1 > dsize (disk_inode (inodes s1 ! i))
              then inode_update i (upd_dinode i (\<lambda>di. di\<lparr>dsize := of_nat offset1\<rparr>) s1)
              else Some s1);
        Some (sint n, s2)
      })"

section \<open>Writing blocks\<close>

text \<open>An operation is running and the log has room for \<open>r\<close> more blocks; all blocks have their size.\<close>

definition room :: "nat \<Rightarrow> fs \<Rightarrow> bool" where
  "room r s = (log_ok (lg s) (dev s) \<and> outstanding (lg s) \<ge> 1 \<and> lh_n (lg s) + int r \<le> LOG_SIZE
     \<and> (\<forall>b. length (rd s b) = 512))"

abbreviation in_log :: "fs \<Rightarrow> u32 \<Rightarrow> bool" where "in_log s \<equiv> log_area (log_start (lg s))"

lemma room_mono: "room r s \<Longrightarrow> r' \<le> r \<Longrightarrow> room r' s"
  by (auto simp: room_def)

lemma room_len [simp]: "room r s \<Longrightarrow> length (rd s b) = 512"
  by (simp add: room_def)

lemma room_upd [simp]: "room r (s\<lparr>inodes := x\<rparr>) = room r s" "room r (upd_inode i f s) = room r s"
  "room r (upd_dinode i g s) = room r s"
  by (simp_all add: room_def upd_inode_def upd_dinode_def)

lemma fs_log_write_ok:
  assumes "room (Suc r) s" "\<not> in_log s b" "length x = 512"
  obtains s' where "fs_log_write b x s = Some s'" "room r s'" "rd s' = (rd s)(b := x)" "sb s' = sb s"
    "inodes s' = inodes s" "log_start (lg s') = log_start (lg s)" "dsk (dev s') = dsk (dev s)"
proof -
  have "lh_n (lg s) < LOG_SIZE" "log_ok (lg s) (dev s)" "1 \<le> outstanding (lg s)"
    using assms(1) by (simp_all add: room_def)
  then obtain l d where w: "log_write (lg s) b x (dev s) = Some (l, d)" "log_ok l d" "lh_n l \<le> lh_n (lg s) + 1"
      "outstanding l = outstanding (lg s)" "log_start l = log_start (lg s)" "mem d = (mem (dev s))(b := x)" "dsk d = dsk (dev s)"
    using log_write_ok [of "lg s" "dev s" b x] assms(2) by blast
  show thesis
    by (rule that [of "s\<lparr>lg := l, dev := d\<rparr>"]) (use w assms(1,3) in \<open>auto simp: fs_log_write_def room_def\<close>)
qed

section \<open>The bitmap\<close>

lemma bit_clear_iff: "bit_clear data k \<longleftrightarrow> \<not> bit (data ! (k div 8)) (k mod 8)"
proof -
  have "x AND push_bit n 1 = 0 \<longleftrightarrow> \<not> bit x n" if "n < 8" for x :: u8 and n
    using that bit_eq_iff [of "x AND push_bit n 1" 0] by (auto simp: bit_simps)
  then show ?thesis
    by (simp add: bit_clear_def)
qed

lemma bit_set_iff:
  assumes "k div 8 < length data"
  shows "bit_clear (data[k div 8 := data ! (k div 8) OR push_bit (k mod 8) 1]) k' \<longleftrightarrow> k' \<noteq> k \<and> bit_clear data k'"
    "bit_clear (data[k div 8 := data ! (k div 8) AND NOT (push_bit (k mod 8) 1)]) k' \<longleftrightarrow> k' = k \<or> bit_clear data k'"
proof -
  have "k' div 8 = k div 8 \<and> k' mod 8 = k mod 8 \<longleftrightarrow> k' = k"
    by (metis div_mult_mod_eq)
  then show "bit_clear (data[k div 8 := data ! (k div 8) OR push_bit (k mod 8) 1]) k' \<longleftrightarrow> k' \<noteq> k \<and> bit_clear data k'"
    "bit_clear (data[k div 8 := data ! (k div 8) AND NOT (push_bit (k mod 8) 1)]) k' \<longleftrightarrow> k' = k \<or> bit_clear data k'"
    using assms by (auto simp: bit_clear_iff nth_list_update bit_simps)
qed

text \<open>
  Data block number \<open>k\<close> and its bit. The layout: the bitmap of \<open>n\<close> bits ends before the data blocks, and neither
  overlaps the log.
\<close>

definition data_block :: "fs \<Rightarrow> nat \<Rightarrow> u32" where "data_block s k = bdata_start (sb s) + of_nat k"
definition bmap_block :: "fs \<Rightarrow> nat \<Rightarrow> u32" where "bmap_block s j = bmap_start (sb s) + of_nat j"

definition used :: "fs \<Rightarrow> nat \<Rightarrow> bool" where
  "used s k = (\<not> bit_clear (rd s (bmap_block s (k div BITS_PER_BLOCK))) (k mod BITS_PER_BLOCK))"

definition layout :: "fs \<Rightarrow> nat \<Rightarrow> bool" where
  "layout s n = (n = unat (bmap_bytes (sb s) * 8) \<and> unat (bdata_start (sb s)) + n < 2 ^ 32
     \<and> unat (bmap_start (sb s)) + (n + 4095) div 4096 \<le> unat (bdata_start (sb s)) \<and> 0 < unat (bdata_start (sb s))
     \<and> (\<forall>k < n. \<not> in_log s (data_block s k)) \<and> (\<forall>j < (n + 4095) div 4096. \<not> in_log s (bmap_block s j)))"

lemma layout_addr:
  assumes "layout s n" "k < n"
  shows "unat (data_block s k) = unat (bdata_start (sb s)) + k" "k div 4096 < (n + 4095) div 4096"
    "\<not> in_log s (data_block s k)" "\<not> in_log s (bmap_block s (k div 4096))" "data_block s k \<noteq> 0"
proof -
  have b: "unat (bdata_start (sb s)) + k < 2 ^ 32" "0 < unat (bdata_start (sb s))"
    using assms by (simp_all add: layout_def)
  then show u: "unat (data_block s k) = unat (bdata_start (sb s)) + k"
    by (simp add: data_block_def unat_word_ariths unat_of_nat)
  show "data_block s k \<noteq> 0"
    using u b(2) by (metis add_is_0 less_numeral_extra(3) unat_0)
  show j: "k div 4096 < (n + 4095) div 4096"
    using assms(2) by (simp add: div_less_iff_less_mult)
  show "\<not> in_log s (data_block s k)" "\<not> in_log s (bmap_block s (k div 4096))"
    using assms j by (simp_all add: layout_def)
qed

lemma bmap_block_inj:
  assumes "layout s n" "i < (n + 4095) div 4096" "j < (n + 4095) div 4096"
  shows "bmap_block s i = bmap_block s j \<longleftrightarrow> i = j" "unat (bmap_block s i) < unat (bdata_start (sb s))"
proof -
  have u: "unat (bmap_block s i) = unat (bmap_start (sb s)) + i" if "i < (n + 4095) div 4096" for i
  proof -
    have "unat (bmap_start (sb s)) + (n + 4095) div 4096 \<le> unat (bdata_start (sb s))" "unat (bdata_start (sb s)) + n < 2 ^ 32"
      using assms(1) unfolding layout_def by blast+
    then have "unat (bmap_start (sb s)) + i < 2 ^ 32"
      using that by linarith
    then show ?thesis
      by (simp add: bmap_block_def unat_word_ariths unat_of_nat)
  qed
  show "bmap_block s i = bmap_block s j \<longleftrightarrow> i = j"
    using u [OF assms(2)] u [OF assms(3)] by (metis add_left_cancel)
  show "unat (bmap_block s i) < unat (bdata_start (sb s))"
  proof -
    have "unat (bmap_start (sb s)) + (n + 4095) div 4096 \<le> unat (bdata_start (sb s))"
      using assms(1) unfolding layout_def by blast
    then show ?thesis
      using u [OF assms(2)] assms(2) by linarith
  qed
qed

lemma data_block_inj:
  assumes "layout s n" "i < n" "j < n"
  shows "data_block s i = data_block s j \<longleftrightarrow> i = j" "k < n \<Longrightarrow> data_block s i \<noteq> bmap_block s (k div 4096)"
  using layout_addr [OF assms(1,2)] layout_addr [OF assms(1,3)] layout_addr(2) [OF assms(1), of k]
    bmap_block_inj(2) [OF assms(1), of "k div 4096" "k div 4096"]
  by (metis add_left_cancel, metis le_add1 not_less)

lemma find_append: "List.find P (xs @ ys) = (case List.find P xs of None \<Rightarrow> List.find P ys | Some x \<Rightarrow> Some x)"
  by (induction xs) auto

lemma find_map: "List.find P (map f xs) = map_option f (List.find (\<lambda>x. P (f x)) xs)"
  by (induction xs) auto

lemma find_cong_set: "(\<And>x. x \<in> set xs \<Longrightarrow> P x = Q x) \<Longrightarrow> List.find P xs = List.find Q xs"
  by (induction xs) auto

text \<open>The reference: take the first clear bit.\<close>

definition alloc_block :: "nat \<Rightarrow> fs \<Rightarrow> (u32 \<times> fs) option" where
  "alloc_block k s = do {
     let b = bmap_block s (k div 4096);
     s1 \<leftarrow> fs_log_write b ((rd s b)[k mod 4096 div 8 := rd s b ! (k mod 4096 div 8) OR push_bit (k mod 4096 mod 8) 1]) s;
     s2 \<leftarrow> bzero (data_block s k) s1;
     Some (data_block s k, s2)
   }"

lemma balloc_loop_find:
  assumes "4096 * j \<le> n"
  shows "balloc_loop (bmap_block s j) (n - 4096 * j) s =
    (case List.find (\<lambda>k. \<not> used s k) [4096 * j..<n] of None \<Rightarrow> None | Some k \<Rightarrow> alloc_block k s)"
  using assms
proof (induction "n - 4096 * j" arbitrary: j rule: less_induct)
  case less
  show ?case
  proof (cases "4096 * j < n")
    case False
    then show ?thesis
      using less.prems by (simp add: balloc_loop.simps)
  next
    case True
    let ?bits = "min 4096 (n - 4096 * j)"
    let ?data = "rd s (bmap_block s j)"
    have pos: "(4096 * j + k) div 4096 = j" "(4096 * j + k) mod 4096 = k" if "k < 4096" for k
      using that by simp_all
    have "[4096 * j..<n] = [4096 * j..<4096 * j + ?bits] @ [4096 * j + ?bits..<n]"
      using upt_add_eq_append [of "4096 * j" "4096 * j + ?bits" "n - (4096 * j + ?bits)"] True by simp
    moreover have "[4096 * j..<4096 * j + ?bits] = map (\<lambda>k. 4096 * j + k) [0..<?bits]"
      using map_add_upt [of "4096 * j" ?bits] by (simp add: add.commute)
    ultimately have "List.find (\<lambda>k. \<not> used s k) [4096 * j..<n] =
        (case map_option (\<lambda>k. 4096 * j + k) (List.find (\<lambda>k. \<not> used s (4096 * j + k)) [0..<?bits]) of
           None \<Rightarrow> List.find (\<lambda>k. \<not> used s k) [4096 * j + ?bits..<n] | Some x \<Rightarrow> Some x)"
      by (simp only: find_append find_map)
    moreover have "List.find (\<lambda>k. \<not> used s (4096 * j + k)) [0..<?bits] = List.find (bit_clear ?data) [0..<?bits]"
      by (rule find_cong_set) (simp add: used_def BITS_PER_BLOCK_def)
    ultimately have find: "List.find (\<lambda>k. \<not> used s k) [4096 * j..<n] =
        (case List.find (bit_clear ?data) [0..<?bits] of
           None \<Rightarrow> List.find (\<lambda>k. \<not> used s k) [4096 * j + ?bits..<n] | Some k \<Rightarrow> Some (4096 * j + k))"
      by (simp split: option.splits)
    show ?thesis
    proof (cases "List.find (bit_clear ?data) [0..<?bits]")
      case (Some k)
      then have k: "k < 4096"
        by (auto simp: find_Some_iff)
      have "bdata_start (sb s) + (bmap_block s j - bmap_start (sb s)) * 4096 + of_nat k = data_block s (4096 * j + k)"
        by (simp add: data_block_def bmap_block_def algebra_simps)
      then show ?thesis
        using True Some k unfolding find
        by (subst balloc_loop.simps) (simp add: Let_def alloc_block_def pos BITS_PER_BLOCK_def)
    next
      case None
      have blk: "bmap_block s j + 1 = bmap_block s (Suc j)"
        by (simp add: bmap_block_def)
      have step: "balloc_loop (bmap_block s j) (n - 4096 * j) s = balloc_loop (bmap_block s (Suc j)) (n - 4096 * j - ?bits) s"
        using True None by (subst balloc_loop.simps) (simp add: Let_def BITS_PER_BLOCK_def blk)
      show ?thesis
      proof (cases "4096 * Suc j \<le> n")
        case le: True
        then have "?bits = 4096"
          by simp
        then show ?thesis
          using less.hyps [of "Suc j"] le None True unfolding step find by (simp add: add.commute)
      next
        case False
        then have "?bits = n - 4096 * j"
          by simp
        then show ?thesis
          using None True unfolding step find by (simp add: balloc_loop.simps)
      qed
    qed
  qed
qed

lemma balloc_find:
  "balloc s = (case List.find (\<lambda>k. \<not> used s k) [0..<unat (bmap_bytes (sb s) * 8)] of
     None \<Rightarrow> None | Some k \<Rightarrow> alloc_block k s)"
  using balloc_loop_find [of 0 "unat (bmap_bytes (sb s) * 8)" s] by (simp add: balloc_def bmap_block_def)

text \<open>States with the same super block and log place the same blocks.\<close>

definition same_geo :: "fs \<Rightarrow> fs \<Rightarrow> bool" where
  "same_geo s s' = (sb s' = sb s \<and> log_start (lg s') = log_start (lg s))"

lemma same_geo_simps:
  assumes "same_geo s s'"
  shows "data_block s' = data_block s" "bmap_block s' = bmap_block s" "layout s' n = layout s n" "in_log s' = in_log s"
  using assms by (simp_all add: same_geo_def data_block_def bmap_block_def layout_def fun_eq_iff)

lemma same_geo_refl [simp]: "same_geo s s"
  by (simp add: same_geo_def)

lemma same_geo_trans: "same_geo s s' \<Longrightarrow> same_geo s' s'' \<Longrightarrow> same_geo s s''"
  by (simp add: same_geo_def)

lemma same_geo_upd [simp]: "same_geo s (upd_inode i f s') = same_geo s s'" "same_geo s (upd_dinode i g s') = same_geo s s'"
  by (simp_all add: same_geo_def upd_inode_def upd_dinode_def)

lemma used_cong: "same_geo s s' \<Longrightarrow> rd s' = rd s \<Longrightarrow> used s' = used s"
  by (simp add: used_def same_geo_def bmap_block_def fun_eq_iff)

lemma used_bitmap_write:
  assumes lay: "layout s n" and k: "k < n" "k' < n" and geo: "same_geo s s'" and len: "length (rd s (bmap_block s (k div 4096))) = 512"
    and rd': "rd s' (bmap_block s (k div 4096)) =
      (rd s (bmap_block s (k div 4096)))[k mod 4096 div 8 := f (rd s (bmap_block s (k div 4096)) ! (k mod 4096 div 8))]"
    and other: "\<And>j. j < (n + 4095) div 4096 \<Longrightarrow> j \<noteq> k div 4096 \<Longrightarrow> rd s' (bmap_block s j) = rd s (bmap_block s j)"
  shows "f = (\<lambda>x. x OR push_bit (k mod 4096 mod 8) 1) \<Longrightarrow> used s' k' = (k' = k \<or> used s k')"
    "f = (\<lambda>x. x AND NOT (push_bit (k mod 4096 mod 8) 1)) \<Longrightarrow> used s' k' = (k' \<noteq> k \<and> used s k')"
proof -
  note lt = layout_addr(2) [OF lay]
  have idx: "k mod 4096 div 8 < 512"
    by (simp add: less_mult_imp_div_less)
  have eq: "k' = k \<longleftrightarrow> k' div 4096 = k div 4096 \<and> k' mod 4096 = k mod 4096"
    by (metis div_mult_mod_eq)
  have blk: "bmap_block s' = bmap_block s"
    using same_geo_simps(2) [OF geo] .
  show "used s' k' = (k' = k \<or> used s k')" if f: "f = (\<lambda>x. x OR push_bit (k mod 4096 mod 8) 1)"
  proof (cases "k' div 4096 = k div 4096")
    case True
    then show ?thesis
      using bit_set_iff(1) [of "k mod 4096" "rd s (bmap_block s (k div 4096))" "k' mod 4096"] idx len eq
      by (simp add: used_def BITS_PER_BLOCK_def blk rd' f)
  next
    case False
    then show ?thesis
      using other [OF lt [OF k(2)]] eq by (simp add: used_def BITS_PER_BLOCK_def blk)
  qed
  show "used s' k' = (k' \<noteq> k \<and> used s k')" if f: "f = (\<lambda>x. x AND NOT (push_bit (k mod 4096 mod 8) 1))"
  proof (cases "k' div 4096 = k div 4096")
    case True
    then show ?thesis
      using bit_set_iff(2) [of "k mod 4096" "rd s (bmap_block s (k div 4096))" "k' mod 4096"] idx len eq
      by (auto simp: used_def BITS_PER_BLOCK_def blk rd' f)
  next
    case False
    then show ?thesis
      using other [OF lt [OF k(2)]] eq by (simp add: used_def BITS_PER_BLOCK_def blk)
  qed
qed

lemma alloc_block_ok:
  assumes lay: "layout s n" and k: "k < n" and room: "room (Suc (Suc r)) s"
  obtains s' where "alloc_block k s = Some (data_block s k, s')" "room r s'" "same_geo s s'" "inodes s' = inodes s"
    "\<And>k'. k' < n \<Longrightarrow> used s' k' = (k' = k \<or> used s k')" "rd s' (data_block s k) = replicate 512 0"
    "\<And>b. b \<noteq> data_block s k \<Longrightarrow> b \<noteq> bmap_block s (k div 4096) \<Longrightarrow> rd s' b = rd s b"
proof -
  note addr = layout_addr [OF lay k]
  let ?b = "bmap_block s (k div 4096)"
  let ?x = "(rd s ?b)[k mod 4096 div 8 := rd s ?b ! (k mod 4096 div 8) OR push_bit (k mod 4096 mod 8) 1]"
  have ne: "data_block s k \<noteq> bmap_block s j" if "j < (n + 4095) div 4096" for j
    using bmap_block_inj(2) [OF lay that that] addr(1) by (metis le_add1 not_less)
  obtain s1 where s1: "fs_log_write ?b ?x s = Some s1" "room (Suc r) s1" "rd s1 = (rd s)(?b := ?x)" "sb s1 = sb s"
      "inodes s1 = inodes s" "log_start (lg s1) = log_start (lg s)"
    using fs_log_write_ok [OF room addr(4), of ?x] room by auto
  have g1: "same_geo s s1"
    using s1 by (simp add: same_geo_def)
  obtain s2 where s2: "fs_log_write (data_block s k) (replicate 512 0) s1 = Some s2" "room r s2"
      "rd s2 = (rd s1)(data_block s k := replicate 512 0)" "sb s2 = sb s1" "inodes s2 = inodes s1"
      "log_start (lg s2) = log_start (lg s1)"
    using fs_log_write_ok [OF s1(2), of "data_block s k" "replicate 512 0"] addr(3) same_geo_simps(4) [OF g1] by auto
  have g2: "same_geo s s2"
    using s1 s2 by (simp add: same_geo_def)
  have "used s2 k' = (k' = k \<or> used s k')" if "k' < n" for k'
  proof (rule used_bitmap_write(1) [OF lay k that g2 _ _ _ refl])
    show "length (rd s ?b) = 512"
      using room by simp
    show "rd s2 ?b = ?x"
      using ne [OF addr(2)] s1(3) s2(3) by simp
    show "rd s2 (bmap_block s j) = rd s (bmap_block s j)" if "j < (n + 4095) div 4096" "j \<noteq> k div 4096" for j
      using ne [OF that(1)] bmap_block_inj(1) [OF lay that(1) addr(2)] that(2) s1(3) s2(3) by simp
  qed
  then show thesis
    using that [of s2] s1 s2 g2 by (simp add: alloc_block_def bzero_def Let_def)
qed

lemma balloc_ok:
  assumes lay: "layout s n" and room: "room (Suc (Suc r)) s" and free: "\<exists>k < n. \<not> used s k"
  obtains k s' where "balloc s = Some (data_block s k, s')" "k < n" "\<not> used s k" "\<And>i. i < k \<Longrightarrow> used s i" "room r s'" "same_geo s s'"
    "inodes s' = inodes s" "\<And>k'. k' < n \<Longrightarrow> used s' k' = (k' = k \<or> used s k')" "rd s' (data_block s k) = replicate 512 0"
    "\<And>b. b \<noteq> data_block s k \<Longrightarrow> b \<noteq> bmap_block s (k div 4096) \<Longrightarrow> rd s' b = rd s b"
proof -
  have n: "n = unat (bmap_bytes (sb s) * 8)"
    using lay by (simp add: layout_def)
  have "List.find (\<lambda>k. \<not> used s k) [0..<n] \<noteq> None"
    unfolding find_None_iff using free by auto
  then obtain k where f: "List.find (\<lambda>k. \<not> used s k) [0..<n] = Some k"
    by blast
  then have k: "k < n" "\<not> used s k" "\<And>i. i < k \<Longrightarrow> used s i"
    by (auto simp: find_Some_iff)
  then have "balloc s = alloc_block k s"
    using f n by (simp add: balloc_find)
  moreover obtain s' where a: "alloc_block k s = Some (data_block s k, s')" "room r s'" "same_geo s s'" "inodes s' = inodes s"
    "\<And>k'. k' < n \<Longrightarrow> used s' k' = (k' = k \<or> used s k')" "rd s' (data_block s k) = replicate 512 0"
    "\<And>b. b \<noteq> data_block s k \<Longrightarrow> b \<noteq> bmap_block s (k div 4096) \<Longrightarrow> rd s' b = rd s b"
    by (rule alloc_block_ok [OF lay k(1) room]) (rule that)
  ultimately show thesis
    by (intro that [OF _ k a(2-7)]) simp_all
qed

lemma bfree_ok:
  assumes lay: "layout s n" and k: "k < n" and room: "room (Suc r) s" and u: "used s k"
  obtains s' where "bfree (data_block s k) s = Some s'" "room r s'" "same_geo s s'" "inodes s' = inodes s"
    "\<And>k'. k' < n \<Longrightarrow> used s' k' = (k' \<noteq> k \<and> used s k')"
    "\<And>b. b \<noteq> bmap_block s (k div 4096) \<Longrightarrow> rd s' b = rd s b"
proof -
  note addr = layout_addr [OF lay k]
  let ?b = "bmap_block s (k div 4096)"
  let ?x = "(rd s ?b)[k mod 4096 div 8 := rd s ?b ! (k mod 4096 div 8) AND NOT (push_bit (k mod 4096 mod 8) 1)]"
  have "n < 2 ^ 32"
    using lay by (auto simp: layout_def)
  then have kw: "unat (of_nat k :: u32) = k"
    using k by (simp add: unat_of_nat)
  have "data_block s k - bdata_start (sb s) = of_nat k"
    by (simp add: data_block_def)
  moreover have "(of_nat k :: u32) div 4096 = of_nat (k div 4096)" "unat ((of_nat k :: u32) mod 4096) = k mod 4096"
    using kw unat_of_nat_u32 [of "k div 4096"] k \<open>n < 2 ^ 32\<close> div_le_dividend [of k 4096]
    by (simp_all add: word_unat_eq_iff unat_div unat_mod)
  ultimately have e: "bfree (data_block s k) s = fs_log_write ?b ?x s"
    using u by (simp add: bfree_def Let_def BITS_PER_BLOCK_def bmap_block_def used_def)
  obtain s1 where s1: "fs_log_write ?b ?x s = Some s1" "room r s1" "rd s1 = (rd s)(?b := ?x)" "sb s1 = sb s"
      "inodes s1 = inodes s" "log_start (lg s1) = log_start (lg s)"
    using fs_log_write_ok [OF room addr(4), of ?x] room by auto
  have g1: "same_geo s s1"
    using s1 by (simp add: same_geo_def)
  have "used s1 k' = (k' \<noteq> k \<and> used s k')" if "k' < n" for k'
  proof (rule used_bitmap_write(2) [OF lay k that g1 _ _ _ refl])
    show "length (rd s ?b) = 512"
      using room by simp
    show "rd s1 ?b = ?x"
      using s1(3) by simp
    show "rd s1 (bmap_block s j) = rd s (bmap_block s j)" if "j < (n + 4095) div 4096" "j \<noteq> k div 4096" for j
      using bmap_block_inj(1) [OF lay that(1) addr(2)] that(2) s1(3) by simp
  qed
  then show thesis
    using that [of s1] s1 g1 e by simp
qed

section \<open>The blocks of a file\<close>

text \<open>
  \<open>own s i m\<close> for \<open>m < MAX_DATA_BLOCKS\<close> is the address of the \<open>m\<close>-th block of the file without allocating, and for
  \<open>m = MAX_DATA_BLOCKS\<close> that of the indirect block; 0 where there is none.
\<close>

abbreviation iaddrs :: "fs \<Rightarrow> nat \<Rightarrow> u32 list" where "iaddrs s i \<equiv> addrs (disk_inode (inodes s ! i))"

definition own :: "fs \<Rightarrow> nat \<Rightarrow> nat \<Rightarrow> u32" where
  "own s i m = (if m < 11 then iaddrs s i ! m
     else if m = 139 \<or> iaddrs s i ! 11 = 0 then iaddrs s i ! 11
     else get32 (rd s (iaddrs s i ! 11)) (m - 11))"

definition content :: "fs \<Rightarrow> nat \<Rightarrow> nat \<Rightarrow> blk" where
  "content s i m = (if own s i m = 0 then replicate 512 0 else rd s (own s i m))"

definition ino_ok :: "fs \<Rightarrow> nat \<Rightarrow> nat \<Rightarrow> bool" where
  "ino_ok s n i = (i < length (inodes s) \<and> length (iaddrs s i) = 12
     \<and> (\<forall>m \<le> 139. own s i m \<noteq> 0 \<longrightarrow> (\<exists>k < n. own s i m = data_block s k \<and> used s k))
     \<and> (\<forall>m \<le> 139. \<forall>m' \<le> 139. own s i m \<noteq> 0 \<longrightarrow> own s i m = own s i m' \<longrightarrow> m = m'))"

definition free_cnt :: "fs \<Rightarrow> nat \<Rightarrow> nat" where
  "free_cnt s n = card {k. k < n \<and> \<not> used s k}"

lemma free_cnt_pos: "0 < free_cnt s n \<Longrightarrow> \<exists>k < n. \<not> used s k"
  by (auto simp: free_cnt_def card_gt_0_iff)

lemma free_cnt_alloc:
  assumes "k < n" "\<not> used s k" "\<And>k'. k' < n \<Longrightarrow> used s' k' = (k' = k \<or> used s k')"
  shows "free_cnt s' n = free_cnt s n - 1"
proof -
  have "{k. k < n \<and> \<not> used s' k} = {k. k < n \<and> \<not> used s k} - {k}"
    using assms by auto
  then show ?thesis
    using assms(1,2) by (simp add: free_cnt_def)
qed

lemma ino_okD:
  assumes "ino_ok s n i"
  shows "i < length (inodes s)" "length (iaddrs s i) = 12"
    "m \<le> 139 \<Longrightarrow> own s i m \<noteq> 0 \<Longrightarrow> \<exists>k < n. own s i m = data_block s k \<and> used s k"
    "m \<le> 139 \<Longrightarrow> m' \<le> 139 \<Longrightarrow> own s i m \<noteq> 0 \<Longrightarrow> own s i m = own s i m' \<Longrightarrow> m = m'"
  using assms by (auto simp: ino_ok_def)

text \<open>A change of blocks that the file does not use.\<close>

definition frame :: "nat \<Rightarrow> nat \<Rightarrow> fs \<Rightarrow> fs \<Rightarrow> bool" where
  "frame n i s s' = (same_geo s s' \<and> (\<forall>k < n. used s k \<longrightarrow> used s' k)
     \<and> (\<forall>k < n. used s k \<longrightarrow> rd s' (data_block s k) = rd s (data_block s k)) \<and> inodes s' = inodes s)"

lemma frame_own:
  assumes fr: "frame n i s s'" and ok: "ino_ok s n i"
  shows "m \<le> 139 \<Longrightarrow> own s' i m = own s i m" "ino_ok s' n i" "m \<le> 139 \<Longrightarrow> content s' i m = content s i m"
proof -
  have f: "inodes s' = inodes s" "data_block s' = data_block s"
      "\<And>k. k < n \<Longrightarrow> used s k \<Longrightarrow> rd s' (data_block s k) = rd s (data_block s k)" "\<And>k. k < n \<Longrightarrow> used s k \<Longrightarrow> used s' k"
    using fr same_geo_simps(1) by (auto simp: frame_def)
  have ind: "rd s' (own s i m) = rd s (own s i m)" if "m \<le> 139" "own s i m \<noteq> 0" for m
    using ino_okD(3) [OF ok that] f(3) by auto
  have o139: "own s i 139 = iaddrs s i ! 11"
    by (simp add: own_def)
  show own: "own s' i m = own s i m" if "m \<le> 139" for m
    using ind [of 139] o139 f(1) by (simp add: own_def)
  show "ino_ok s' n i"
    using ok own f unfolding ino_ok_def by metis
  show "m \<le> 139 \<Longrightarrow> content s' i m = content s i m"
    using own ind by (simp add: content_def)
qed

lemma balloc_frame:
  assumes lay: "layout s n" and room: "room (Suc (Suc r)) s" and free: "0 < free_cnt s n" and ok: "ino_ok s n i"
  obtains k s' where "balloc s = Some (data_block s k, s')" "k < n" "\<not> used s k" "used s' k" "room r s'" "frame n i s s'"
    "free_cnt s' n = free_cnt s n - 1" "rd s' (data_block s k) = replicate 512 0" "data_block s k \<noteq> 0"
    "\<And>m. m \<le> 139 \<Longrightarrow> own s i m \<noteq> data_block s k"
    "\<And>k'. k' < n \<Longrightarrow> used s' k' = (k' = k \<or> used s k')"
proof -
  obtain k s' where b: "balloc s = Some (data_block s k, s')" "k < n" "\<not> used s k" "\<And>i. i < k \<Longrightarrow> used s i" "room r s'"
      "same_geo s s'" "inodes s' = inodes s"
      "\<And>k'. k' < n \<Longrightarrow> used s' k' = (k' = k \<or> used s k')" "rd s' (data_block s k) = replicate 512 0"
      "\<And>b. b \<noteq> data_block s k \<Longrightarrow> b \<noteq> bmap_block s (k div 4096) \<Longrightarrow> rd s' b = rd s b"
    by (rule balloc_ok [OF lay room free_cnt_pos [OF free]]) (rule that)
  have "rd s' (data_block s j) = rd s (data_block s j)" if "j < n" "used s j" for j
  proof (rule b(10))
    show "data_block s j \<noteq> data_block s k"
      using data_block_inj(1) [OF lay that(1) b(2)] that(2) b(3) by metis
    show "data_block s j \<noteq> bmap_block s (k div 4096)"
      by (rule data_block_inj(2) [OF lay that(1) that(1) b(2)])
  qed
  then have fr: "frame n i s s'"
    using b(5-8) by (auto simp: frame_def)
  have fresh: "own s i m \<noteq> data_block s k" if m139: "m \<le> 139" for m
  proof
    assume e: "own s i m = data_block s k"
    then have "own s i m \<noteq> 0"
      using layout_addr(5) [OF lay b(2)] by simp
    then obtain j where "j < n" "own s i m = data_block s j" "used s j"
      using ino_okD(3) [OF ok m139] by blast
    then show False
      using e data_block_inj(1) [OF lay _ b(2)] b(3) by metis
  qed
  show thesis
    by (rule that [OF b(1-3) _ b(5) fr _ b(9) layout_addr(5) [OF lay b(2)] fresh b(8)])
       (use b(2,8) free_cnt_alloc [OF b(2,3,8)] in auto)
qed

text \<open>Giving the file a new block: one slot of \<open>own\<close> changes, and the new block is not one the file had.\<close>

lemma ino_ok_set:
  assumes ok: "ino_ok s n i" and geo: "same_geo s s'" and us: "\<And>j. j < n \<Longrightarrow> used s j \<Longrightarrow> used s' j"
    and len: "i < length (inodes s')" "length (iaddrs s' i) = 12"
    and bn: "own s' i bn = data_block s k" "k < n" "used s' k"
    and fresh: "\<And>m. m \<le> 139 \<Longrightarrow> own s i m \<noteq> data_block s k"
    and other: "\<And>m. m \<le> 139 \<Longrightarrow> m \<noteq> bn \<Longrightarrow> own s' i m = own s i m"
  shows "ino_ok s' n i"
  unfolding ino_ok_def
proof (intro conjI allI impI)
  show "i < length (inodes s')" "length (iaddrs s' i) = 12"
    by (rule len)+
  have d: "data_block s' = data_block s"
    by (rule same_geo_simps(1) [OF geo])
  show "\<exists>k < n. own s' i m = data_block s' k \<and> used s' k" if "m \<le> 139" "own s' i m \<noteq> 0" for m
    using bn other [OF that(1)] ino_okD(3) [OF ok that(1)] us that(2) unfolding d by (cases "m = bn") auto
  show "m = m'" if "m \<le> 139" "m' \<le> 139" "own s' i m \<noteq> 0" "own s' i m = own s' i m'" for m m'
    using that other [OF that(1)] other [OF that(2)] fresh bn(1) ino_okD(4) [OF ok that(1,2)]
    by (cases "m = bn"; cases "m' = bn") metis+
qed

lemma own_upd_addrs:
  assumes "i < length (inodes s)" "inodes s' = (inodes s)[i := (inodes s ! i)\<lparr>disk_inode := (disk_inode (inodes s ! i))\<lparr>addrs := x\<rparr>\<rparr>]"
  shows "iaddrs s' i = x"
  using assms by simp

text \<open>The results of \<open>bmap\<close>.\<close>

definition bmap_spec :: "nat \<Rightarrow> nat \<Rightarrow> nat \<Rightarrow> fs \<Rightarrow> u32 \<Rightarrow> fs \<Rightarrow> bool" where
  "bmap_spec n i bn s a s' = (same_geo s s' \<and> ino_ok s' n i \<and> own s' i bn = a \<and> a \<noteq> 0
     \<and> (\<forall>m < 139. content s' i m = content s i m) \<and> (\<forall>m < 139. m \<noteq> bn \<longrightarrow> own s' i m = own s i m)
     \<and> (\<forall>k < n. used s k \<longrightarrow> used s' k)
     \<and> (\<forall>k < n. used s k \<longrightarrow> (\<forall>m \<le> 139. data_block s k \<noteq> own s i m) \<longrightarrow>
          rd s' (data_block s k) = rd s (data_block s k) \<and> (\<forall>m \<le> 139. data_block s k \<noteq> own s' i m))
     \<and> (\<exists>x. inodes s' = (inodes s)[i := (inodes s ! i)\<lparr>disk_inode := (disk_inode (inodes s ! i))\<lparr>addrs := x\<rparr>\<rparr>]))"

lemma not_fresh:
  assumes "layout s n" "j < n" "used s j" "k < n" "\<not> used s k"
  shows "data_block s j \<noteq> data_block s k"
  using data_block_inj(1) [OF assms(1,2,4)] assms(3,5) by auto

lemma bmap_direct:
  assumes lay: "layout s n" and room: "room (r + 2) s" and free: "1 \<le> free_cnt s n" and ok: "ino_ok s n i" and bn: "bn < 11"
  shows "\<exists>a s'. bmap i bn s = Some (a, s') \<and> room r s' \<and> free_cnt s n \<le> free_cnt s' n + 1 \<and> bmap_spec n i bn s a s'"
proof (cases "iaddrs s i ! bn = 0")
  case False
  then have "bmap i bn s = Some (iaddrs s i ! bn, s)"
    using bn by (simp add: bmap_def MAX_DATA_BLOCKS_def NDIRECT_DATA_BLOCKS_def NINDIRECT_DATA_BLOCKS_def Let_def)
  moreover have "bmap_spec n i bn s (iaddrs s i ! bn) s"
    using False ok bn by (auto simp: bmap_spec_def own_def intro: exI [of _ "iaddrs s i"])
  ultimately show ?thesis
    using room_mono [OF room] by auto
next
  case True
  have rm: "room (Suc (Suc r)) s" and free: "0 < free_cnt s n"
    using room free by simp_all
  obtain k s1 where b: "balloc s = Some (data_block s k, s1)" "k < n" "\<not> used s k" "used s1 k" "room r s1" "frame n i s s1"
      "free_cnt s1 n = free_cnt s n - 1" "rd s1 (data_block s k) = replicate 512 0" "data_block s k \<noteq> 0"
      "\<And>m. m \<le> 139 \<Longrightarrow> own s i m \<noteq> data_block s k" "\<And>k'. k' < n \<Longrightarrow> used s1 k' = (k' = k \<or> used s k')"
    by (rule balloc_frame [OF lay rm free ok]) (rule that)
  let ?a = "data_block s k"
  let ?s = "upd_dinode i (\<lambda>di. di\<lparr>addrs := (addrs di)[bn := ?a]\<rparr>) s1"
  note fr = frame_own [OF b(6) ok]
  have i: "i < length (inodes s)" "length (iaddrs s i) = 12"
    using ino_okD [OF ok] by simp_all
  have s1i: "inodes s1 = inodes s" "same_geo s s1" "\<And>j. j < n \<Longrightarrow> used s j \<Longrightarrow> used s1 j"
      "\<And>j. j < n \<Longrightarrow> used s j \<Longrightarrow> rd s1 (data_block s j) = rd s (data_block s j)"
    using b(6) by (auto simp: frame_def)
  have rd: "rd ?s = rd s1" and ino: "inodes ?s = (inodes s)[i := (inodes s ! i)\<lparr>disk_inode := (disk_inode (inodes s ! i))\<lparr>addrs := (iaddrs s i)[bn := ?a]\<rparr>\<rparr>]"
    using s1i(1) by (simp_all add: upd_dinode_def upd_inode_def)
  have ad: "iaddrs ?s i = (iaddrs s i)[bn := ?a]"
    using i(1) by (simp add: ino)
  have ob: "own ?s i bn = ?a"
    using bn i by (simp add: own_def ad)
  have om: "own ?s i m = own s i m" if "m \<le> 139" "m \<noteq> bn" for m
  proof -
    have "own ?s i m = own s1 i m"
      using that(2) bn s1i(1) by (simp add: own_def ad rd)
    then show ?thesis
      using fr(1) [OF that(1)] by simp
  qed
  have us: "used ?s = used s1"
    by (rule used_cong) (simp_all add: upd_dinode_def upd_inode_def same_geo_def)
  have ok': "ino_ok ?s n i"
    by (rule ino_ok_set [OF ok _ _ _ _ ob b(2) _ b(10) om])
       (use s1i(2,3) i b(4) us ad in \<open>simp_all add: ino\<close>)
  have cont: "content ?s i m = content s i m" if "m < 139" for m
  proof (cases "m = bn")
    case True
    then show ?thesis
      using ob b(8,9) \<open>iaddrs s i ! bn = 0\<close> bn by (simp add: content_def rd own_def [of s])
  next
    case False
    then show ?thesis
      using om [of m] that fr(3) [of m] fr(1) [of m] by (simp add: content_def rd split: if_splits)
  qed
  have "bmap i bn s = Some (?a, ?s)"
    using True bn b(1) by (simp add: bmap_def MAX_DATA_BLOCKS_def NDIRECT_DATA_BLOCKS_def NINDIRECT_DATA_BLOCKS_def Let_def)
  moreover have "data_block s j \<noteq> own ?s i m" if "j < n" "used s j" "\<forall>m \<le> 139. data_block s j \<noteq> own s i m" "m \<le> 139" for j m
    using not_fresh [OF lay that(1,2) b(2,3)] ob om [OF that(4)] that(3,4) by (cases "m = bn") auto
  then have "bmap_spec n i bn s ?a ?s"
    unfolding bmap_spec_def using s1i ok' ob b(9) cont om us rd ino by auto
  moreover have "free_cnt ?s n = free_cnt s1 n"
    by (simp add: free_cnt_def us)
  ultimately show ?thesis
    using b(5,7) by auto
qed

text \<open>The indirect block, freshly allocated: no block of the file changes.\<close>

definition grow_spec :: "nat \<Rightarrow> nat \<Rightarrow> fs \<Rightarrow> fs \<Rightarrow> bool" where
  "grow_spec n i s s' = (same_geo s s' \<and> ino_ok s' n i \<and> iaddrs s' i ! 11 \<noteq> 0
     \<and> (\<forall>m < 139. content s' i m = content s i m \<and> own s' i m = own s i m)
     \<and> (\<forall>k < n. used s k \<longrightarrow> used s' k \<and> rd s' (data_block s k) = rd s (data_block s k))
     \<and> (\<forall>k < n. used s k \<longrightarrow> own s i 139 \<noteq> data_block s k \<longrightarrow> own s' i 139 \<noteq> data_block s k)
     \<and> (\<exists>x. inodes s' = (inodes s)[i := (inodes s ! i)\<lparr>disk_inode := (disk_inode (inodes s ! i))\<lparr>addrs := x\<rparr>\<rparr>]))"

lemma get32_zero [simp]: "4 * j + 3 < m \<Longrightarrow> get32 (replicate m 0) j = 0"
  by (simp add: get32_def bytes_le32_def)

lemma indirect_root:
  assumes lay: "layout s n" and room: "room (Suc (Suc r)) s" and free: "0 < free_cnt s n" and ok: "ino_ok s n i"
    and z: "iaddrs s i ! 11 = 0"
  shows "\<exists>a s1. balloc s = Some (a, s1) \<and> room r s1 \<and> free_cnt s1 n = free_cnt s n - 1
    \<and> grow_spec n i s (upd_dinode i (\<lambda>di. di\<lparr>addrs := (addrs di)[11 := a]\<rparr>) s1)"
proof -
  obtain k s1 where b: "balloc s = Some (data_block s k, s1)" "k < n" "\<not> used s k" "used s1 k" "room r s1" "frame n i s s1"
      "free_cnt s1 n = free_cnt s n - 1" "rd s1 (data_block s k) = replicate 512 0" "data_block s k \<noteq> 0"
      "\<And>m. m \<le> 139 \<Longrightarrow> own s i m \<noteq> data_block s k" "\<And>k'. k' < n \<Longrightarrow> used s1 k' = (k' = k \<or> used s k')"
    by (rule balloc_frame [OF lay room free ok]) (rule that)
  let ?a = "data_block s k"
  let ?s = "upd_dinode i (\<lambda>di. di\<lparr>addrs := (addrs di)[11 := ?a]\<rparr>) s1"
  note fr = frame_own [OF b(6) ok]
  have i: "i < length (inodes s)" "length (iaddrs s i) = 12"
    using ino_okD [OF ok] by simp_all
  have s1i: "inodes s1 = inodes s" "same_geo s s1" "\<And>j. j < n \<Longrightarrow> used s j \<Longrightarrow> used s1 j"
      "\<And>j. j < n \<Longrightarrow> used s j \<Longrightarrow> rd s1 (data_block s j) = rd s (data_block s j)"
    using b(6) by (auto simp: frame_def)
  have rd: "rd ?s = rd s1" and ino: "inodes ?s = (inodes s)[i := (inodes s ! i)\<lparr>disk_inode := (disk_inode (inodes s ! i))\<lparr>addrs := (iaddrs s i)[11 := ?a]\<rparr>\<rparr>]"
    using s1i(1) by (simp_all add: upd_dinode_def upd_inode_def)
  have ad: "iaddrs ?s i = (iaddrs s i)[11 := ?a]"
    using i(1) by (simp add: ino)
  have oi: "own ?s i 139 = ?a"
    using i by (simp add: own_def ad)
  have om: "own ?s i m = own s i m" if "m \<le> 139" "m \<noteq> 139" for m
    using that i z b(8,9) by (auto simp: own_def ad rd)
  have us: "used ?s = used s1"
    by (rule used_cong) (simp_all add: upd_dinode_def upd_inode_def same_geo_def)
  have ok': "ino_ok ?s n i"
    by (rule ino_ok_set [OF ok _ _ _ _ oi b(2) _ b(10) om])
       (use s1i(2,3) i b(4) us ad in \<open>simp_all add: ino\<close>)
  have cont: "content ?s i m = content s i m" if "m < 139" for m
    using om [of m] that fr(3) [of m] fr(1) [of m] by (simp add: content_def rd split: if_splits)
  have "own ?s i 139 \<noteq> data_block s j" if "j < n" "used s j" for j
    using oi data_block_inj(1) [OF lay that(1) b(2)] that(2) b(3) by metis
  then have "grow_spec n i s ?s"
    unfolding grow_spec_def using s1i ok' cont om us rd ino i b(9) ad by auto
  then show ?thesis
    using b(1,5,7) by blast
qed

lemma bmap_entry:
  assumes lay: "layout s n" and room: "room (Suc (Suc (Suc r))) s" and free: "0 < free_cnt s n" and ok: "ino_ok s n i"
    and ind: "iaddrs s i ! 11 \<noteq> 0" and bn: "11 \<le> bn" "bn < 139"
    and z: "own s i bn = 0"
  shows "\<exists>a s2 s3. balloc s = Some (a, s2) \<and> fs_log_write (iaddrs s i ! 11) (put32 (rd s2 (iaddrs s i ! 11)) (bn - 11) a) s2 = Some s3
    \<and> room r s3 \<and> free_cnt s3 n = free_cnt s n - 1 \<and> bmap_spec n i bn s a s3"
proof -
  obtain k s2 where b: "balloc s = Some (data_block s k, s2)" "k < n" "\<not> used s k" "used s2 k" "room (Suc r) s2" "frame n i s s2"
      "free_cnt s2 n = free_cnt s n - 1" "rd s2 (data_block s k) = replicate 512 0" "data_block s k \<noteq> 0"
      "\<And>m. m \<le> 139 \<Longrightarrow> own s i m \<noteq> data_block s k" "\<And>k'. k' < n \<Longrightarrow> used s2 k' = (k' = k \<or> used s k')"
    by (rule balloc_frame [OF lay room free ok]) (rule that)
  let ?a = "data_block s k" and ?ind = "iaddrs s i ! 11"
  note fr = frame_own [OF b(6) ok]
  have s2i: "inodes s2 = inodes s" "same_geo s s2" "\<And>j. j < n \<Longrightarrow> used s j \<Longrightarrow> used s2 j"
      "\<And>j. j < n \<Longrightarrow> used s j \<Longrightarrow> rd s2 (data_block s j) = rd s (data_block s j)"
    using b(6) by (auto simp: frame_def)
  have o139: "own s i 139 = ?ind"
    by (simp add: own_def)
  obtain q where q: "q < n" "?ind = data_block s q" "used s q"
    using ino_okD(3) [OF ok, of 139] ind o139 by auto
  have nl: "\<not> in_log s2 ?ind"
    using layout_addr(3) [OF lay q(1)] q(2) same_geo_simps(4) [OF s2i(2)] by simp
  have len: "length (put32 (rd s2 ?ind) (bn - 11) ?a) = 512"
    using b(5) by simp
  obtain s3 where s3: "fs_log_write ?ind (put32 (rd s2 ?ind) (bn - 11) ?a) s2 = Some s3" "room r s3"
      "rd s3 = (rd s2)(?ind := put32 (rd s2 ?ind) (bn - 11) ?a)" "sb s3 = sb s2" "inodes s3 = inodes s2"
      "log_start (lg s3) = log_start (lg s2)" "dsk (dev s3) = dsk (dev s2)"
    by (rule fs_log_write_ok [OF b(5) nl len]) (rule that)
  have g3: "same_geo s2 s3"
    using s3 by (simp add: same_geo_def)
  have g: "same_geo s s3"
    by (rule same_geo_trans [OF s2i(2) g3])
  have indne: "?ind \<noteq> bmap_block s (j div 4096)" if "j < n" for j
    using data_block_inj(2) [OF lay q(1) q(1) that] q(2) by simp
  have us: "used s3 j = used s2 j" if "j < n" for j
    using indne [OF that] same_geo_simps(2) [OF s2i(2)] same_geo_simps(2) [OF g3]
    by (simp add: used_def s3(3) BITS_PER_BLOCK_def)
  have ad: "iaddrs s3 i = iaddrs s i"
    using s3(5) s2i(1) by simp
  have ob: "own s3 i bn = ?a"
    using bn ind b(5) by (simp add: own_def ad s3(3))
  have om: "own s3 i m = own s i m" if "m \<le> 139" "m \<noteq> bn" for m
  proof -
    have "own s3 i m = own s2 i m"
      using that bn s2i(1) ad by (auto simp: own_def s3(3))
    then show ?thesis
      using fr(1) [OF that(1)] by simp
  qed
  have ok': "ino_ok s3 n i"
    by (rule ino_ok_set [OF ok g _ _ _ ob b(2) _ b(10) om])
       (use s2i(1,3) us b(2,4) s3(5) ino_okD(1,2) [OF ok] in auto)
  have rdo: "rd s3 c = rd s2 c" if "c \<noteq> ?ind" for c
    using that by (simp add: s3(3))
  have cont: "content s3 i m = content s i m" if "m < 139" for m
  proof (cases "m = bn")
    case True
    have "?a \<noteq> ?ind"
      using b(10) [of 139] o139 by auto
    then show ?thesis
      using True ob b(8,9) z rdo by (simp add: content_def)
  next
    case False
    then show ?thesis
      using om [of m] that fr(3) [of m] fr(1) [of m] ino_okD(4) [OF ok, of m 139] o139 ind rdo [of "own s i m"]
      by (auto simp: content_def split: if_splits)
  qed
  have keep: "rd s3 (data_block s j) = rd s (data_block s j)" if "j < n" "used s j" "\<forall>m \<le> 139. data_block s j \<noteq> own s i m" for j
    using that(3) o139 rdo s2i(4) [OF that(1,2)] by auto
  have other: "data_block s j \<noteq> own s3 i m" if "j < n" "used s j" "\<forall>m \<le> 139. data_block s j \<noteq> own s i m" "m \<le> 139" for j m
    using not_fresh [OF lay that(1,2) b(2,3)] ob om [OF that(4)] that(3,4) by (cases "m = bn") auto
  have "bmap_spec n i bn s ?a s3"
    unfolding bmap_spec_def using other g ok' ob b(9) cont om us s2i(3) keep s3(5) s2i(1)
    by (auto intro: exI [of _ "iaddrs s i"])
  moreover have "free_cnt s3 n = free_cnt s2 n"
    unfolding free_cnt_def using us by (metis (mono_tags, lifting))
  ultimately show ?thesis
    using b(1,7) s3(1,2) by auto
qed

lemma bmap_ok:
  assumes lay: "layout s n" and room: "room (r + 5) s" and free: "2 \<le> free_cnt s n" and ok: "ino_ok s n i" and bn: "bn < 139"
  shows "\<exists>a s'. bmap i bn s = Some (a, s') \<and> room r s' \<and> free_cnt s n \<le> free_cnt s' n + 2 \<and> bmap_spec n i bn s a s'"
proof (cases "bn < 11")
  case True
  have "room (r + 3 + 2) s" "1 \<le> free_cnt s n"
    using room free by (simp_all add: numeral_eq_Suc)
  from bmap_direct [OF lay this ok True] obtain a s' where b: "bmap i bn s = Some (a, s')" "room (r + 3) s'"
      "free_cnt s n \<le> free_cnt s' n + 1" "bmap_spec n i bn s a s'"
    by blast
  have "room r s'"
    by (rule room_mono [OF b(2)]) simp
  then show ?thesis
    using b by auto
next
  case False
  obtain s1 where s1: "room (Suc (Suc (Suc r))) s1" "free_cnt s n \<le> free_cnt s1 n + 1" "grow_spec n i s s1" "0 < free_cnt s1 n"
      "(if iaddrs s i ! 11 = 0 then do {
          (a, s') \<leftarrow> balloc s;
          Some (upd_dinode i (\<lambda>di. di\<lparr>addrs := (addrs di)[11 := a]\<rparr>) s')
        } else Some s) = Some s1"
  proof (cases "iaddrs s i ! 11 = 0")
    case z: True
    have "room (Suc (Suc (Suc (Suc (Suc r))))) s" "0 < free_cnt s n"
      using room free by (simp_all add: numeral_eq_Suc)
    from indirect_root [OF lay this ok z] obtain a s1 where b: "balloc s = Some (a, s1)" "room (Suc (Suc (Suc r))) s1"
        "free_cnt s1 n = free_cnt s n - 1" "grow_spec n i s (upd_dinode i (\<lambda>di. di\<lparr>addrs := (addrs di)[11 := a]\<rparr>) s1)"
      by blast
    let ?s = "upd_dinode i (\<lambda>di. di\<lparr>addrs := (addrs di)[11 := a]\<rparr>) s1"
    have "used ?s = used s1"
      by (rule used_cong) (simp_all add: upd_dinode_def upd_inode_def same_geo_def)
    then have "free_cnt ?s n = free_cnt s1 n"
      by (simp add: free_cnt_def)
    then show thesis
      by (intro that [of ?s]) (use b z free in auto)
  next
    case nz: False
    have "grow_spec n i s s"
      unfolding grow_spec_def using ok nz by (auto intro: exI [of _ "iaddrs s i"])
    then show thesis
      by (intro that [of s]) (use nz free room_mono [OF room] in auto)
  qed
  have g: "same_geo s s1" "ino_ok s1 n i" "iaddrs s1 i ! 11 \<noteq> 0"
      "\<And>m. m < 139 \<Longrightarrow> content s1 i m = content s i m" "\<And>m. m < 139 \<Longrightarrow> own s1 i m = own s i m"
      "\<And>k. k < n \<Longrightarrow> used s k \<Longrightarrow> used s1 k" "\<And>k. k < n \<Longrightarrow> used s k \<Longrightarrow> rd s1 (data_block s k) = rd s (data_block s k)"
      "\<And>k. k < n \<Longrightarrow> used s k \<Longrightarrow> own s i 139 \<noteq> data_block s k \<Longrightarrow> own s1 i 139 \<noteq> data_block s k"
      "\<exists>x. inodes s1 = (inodes s)[i := (inodes s ! i)\<lparr>disk_inode := (disk_inode (inodes s ! i))\<lparr>addrs := x\<rparr>\<rparr>]"
    using s1(3) by (auto simp: grow_spec_def)
  have lay1: "layout s1 n"
    using lay same_geo_simps(3) [OF g(1)] by simp
  have db: "data_block s1 = data_block s"
    by (rule same_geo_simps(1) [OF g(1)])
  have geteq: "own s1 i bn = get32 (rd s1 (iaddrs s1 i ! 11)) (bn - 11)"
    using False bn g(3) by (simp add: own_def)
  have step: "bmap i bn s = (if own s1 i bn = 0 then do {
         (a, s2) \<leftarrow> balloc s1;
         s3 \<leftarrow> fs_log_write (iaddrs s1 i ! 11) (put32 (rd s2 (iaddrs s1 i ! 11)) (bn - 11) a) s2;
         Some (a, s3)
       } else Some (own s1 i bn, s1))"
    unfolding bmap_def MAX_DATA_BLOCKS_def NDIRECT_DATA_BLOCKS_def NINDIRECT_DATA_BLOCKS_def Let_def s1(5)
    using False bn by (simp add: geteq)
  obtain a s3 where f: "bmap i bn s = Some (a, s3)" "room r s3" "free_cnt s1 n \<le> free_cnt s3 n + 1" "bmap_spec n i bn s1 a s3"
  proof (cases "own s1 i bn = 0")
    case True
    have "11 \<le> bn"
      using False by simp
    from bmap_entry [OF lay1 s1(1,4) g(2,3) this bn True] show thesis
      using that step True by fastforce
  next
    case nz: False
    have "bmap_spec n i bn s1 (own s1 i bn) s1"
      unfolding bmap_spec_def using nz g(2) by (auto intro: exI [of _ "iaddrs s1 i"])
    moreover have "room r s1"
      by (rule room_mono [OF s1(1)]) simp
    ultimately show thesis
      using that step nz by auto
  qed
  have sp: "same_geo s1 s3" "ino_ok s3 n i" "own s3 i bn = a" "a \<noteq> 0" "\<And>m. m < 139 \<Longrightarrow> content s3 i m = content s1 i m"
      "\<And>m. m < 139 \<Longrightarrow> m \<noteq> bn \<Longrightarrow> own s3 i m = own s1 i m" "\<And>k. k < n \<Longrightarrow> used s1 k \<Longrightarrow> used s3 k"
      "\<And>k. k < n \<Longrightarrow> used s1 k \<Longrightarrow> (\<forall>m \<le> 139. data_block s k \<noteq> own s1 i m) \<Longrightarrow>
         rd s3 (data_block s k) = rd s1 (data_block s k) \<and> (\<forall>m \<le> 139. data_block s k \<noteq> own s3 i m)"
      "\<exists>x. inodes s3 = (inodes s1)[i := (inodes s1 ! i)\<lparr>disk_inode := (disk_inode (inodes s1 ! i))\<lparr>addrs := x\<rparr>\<rparr>]"
    using f(4) unfolding bmap_spec_def db by auto
  have keep: "rd s3 (data_block s k) = rd s (data_block s k) \<and> (\<forall>m \<le> 139. data_block s k \<noteq> own s3 i m)" if "k < n" "used s k" "\<forall>m \<le> 139. data_block s k \<noteq> own s i m" for k
  proof -
    have "data_block s k \<noteq> own s1 i m" if "m \<le> 139" for m
      using g(5) [of m] g(8) [OF \<open>k < n\<close> \<open>used s k\<close>] \<open>\<forall>m \<le> 139. data_block s k \<noteq> own s i m\<close> that
      by (cases "m = 139") auto
    then show ?thesis
      using sp(8) [OF that(1) g(6) [OF that(1,2)]] g(7) [OF that(1,2)] by simp
  qed
  have ino: "\<exists>x. inodes s3 = (inodes s)[i := (inodes s ! i)\<lparr>disk_inode := (disk_inode (inodes s ! i))\<lparr>addrs := x\<rparr>\<rparr>]"
    using g(9) sp(9) ino_okD(1) [OF ok] by auto
  have "bmap_spec n i bn s a s3"
    unfolding bmap_spec_def using same_geo_trans [OF g(1) sp(1)] sp g keep ino by auto
  then show ?thesis
    using f(1-3) s1(2) by auto
qed

section \<open>Reading and writing bytes\<close>

text \<open>The bytes of the file, and the number of blocks that a range touches.\<close>

definition byte :: "fs \<Rightarrow> nat \<Rightarrow> nat \<Rightarrow> u8" where
  "byte s i p = content s i (p div 512) ! (p mod 512)"

definition nblk :: "nat \<Rightarrow> nat \<Rightarrow> nat" where
  "nblk offset len = (if len = 0 then 0 else (offset mod 512 + len + 511) div 512)"

lemma nblk_step:
  assumes "0 < len" and m: "m = min (512 - offset mod 512) len"
  shows "0 < m" "m \<le> len" "offset mod 512 + m \<le> 512" "1 + nblk (offset + m) (len - m) \<le> nblk offset len"
proof -
  have lt: "offset mod 512 < 512"
    by simp
  show "0 < m" "m \<le> len" "offset mod 512 + m \<le> 512"
    using assms lt by auto
  show "1 + nblk (offset + m) (len - m) \<le> nblk offset len"
  proof (cases "m = len")
    case True
    have "offset mod 512 + len + 511 \<ge> 512"
      using assms(1) by linarith
    then show ?thesis
      using True assms(1) by (simp add: nblk_def Suc_le_eq div_greater_zero_iff)
  next
    case False
    then have e: "m = 512 - offset mod 512"
      using m by auto
    have "(offset + m) mod 512 = (offset mod 512 + m) mod 512"
      by (rule mod_add_left_eq [symmetric])
    also have "offset mod 512 + m = 512"
      using e lt by simp
    finally have "(offset + m) mod 512 = 0"
      by simp
    moreover have "offset mod 512 + len + 511 = 512 + (len - m + 511)"
      using e m lt False by linarith
    moreover have "(512 + (len - m + 511)) div 512 = (len - m + 511) div 512 + 1"
      by (rule div_add_self1) simp
    ultimately show ?thesis
      using assms(1) unfolding nblk_def by simp
  qed
qed

lemma in_block:
  assumes "offset mod 512 + j < 512"
  shows "(offset + j) div 512 = offset div 512" "(offset + j) mod 512 = offset mod 512 + (j :: nat)"
proof -
  have "offset + j = 512 * (offset div 512) + (offset mod 512 + j)"
    by simp
  then show "(offset + j) div 512 = offset div 512" "(offset + j) mod 512 = offset mod 512 + j"
    using assms by (metis div_mult_self4 div_less add_0_right zero_neq_numeral, metis mod_mult_self4 mod_less)
qed

lemma in_chunk:
  assumes "off mod 512 + m \<le> 512" "off \<le> p" "p < off + (m :: nat)"
  shows "p div 512 = off div 512"
proof -
  obtain j where j: "p = off + j"
    using assms(2) le_Suc_ex by blast
  then show ?thesis
    using in_block(1) [of off j] assms by simp
qed

lemma bmap_present:
  assumes "own s i bn \<noteq> 0" "bn < 139"
  shows "bmap i bn s = Some (own s i bn, s)"
  using assms
  by (auto simp: bmap_def own_def MAX_DATA_BLOCKS_def NDIRECT_DATA_BLOCKS_def NINDIRECT_DATA_BLOCKS_def Let_def split: if_splits)

lemma read_loop_present:
  assumes "done \<le> n" "offset + (n - done) \<le> 139 * 512" "\<And>b. length (rd s b) = 512"
    and "\<And>p. offset \<le> p \<Longrightarrow> p < offset + (n - done) \<Longrightarrow> own s i (p div 512) \<noteq> 0"
  shows "read_loop i offset n done acc s = Some (acc @ map (byte s i) [offset..<offset + (n - done)], s)"
  using assms
proof (induction "n - done" arbitrary: offset "done" acc rule: less_induct)
  case less
  show ?case
  proof (cases "done < n")
    case False
    then show ?thesis
      using less.prems(1) by (simp add: read_loop.simps)
  next
    case True
    define m where "m = min (512 - offset mod 512) (n - done)"
    have len: "0 < n - done"
      using True by simp
    note st = nblk_step [OF len m_def]
    have own: "own s i (offset div 512) \<noteq> 0"
      using less.prems(4) [of offset] True by simp
    have bn: "offset div 512 < 139"
      using less.prems(2) True by (simp add: div_less_iff_less_mult)
    let ?blk = "rd s (own s i (offset div 512))"
    have "take m (drop (offset mod 512) ?blk) = map (byte s i) [offset..<offset + m]"
    proof (rule nth_equalityI)
      show "length (take m (drop (offset mod 512) ?blk)) = length (map (byte s i) [offset..<offset + m])"
        using less.prems(3) st(3) by simp
      fix j assume "j < length (take m (drop (offset mod 512) ?blk))"
      then have j: "j < m" by simp
      then have "offset mod 512 + j < 512"
        using st(3) by linarith
      then show "take m (drop (offset mod 512) ?blk) ! j = map (byte s i) [offset..<offset + m] ! j"
        using j in_block [of offset j] own less.prems(3) by (simp add: byte_def content_def)
    qed
    then have step: "read_loop i offset n done acc s = read_loop i (offset + m) n (done + m) (acc @ map (byte s i) [offset..<offset + m]) s"
      using True bmap_present [OF own bn] by (subst read_loop.simps) (simp add: Let_def m_def [symmetric])
    have rest: "offset + m + (n - (done + m)) = offset + (n - done)"
      using st(2) by simp
    have "read_loop i (offset + m) n (done + m) (acc @ map (byte s i) [offset..<offset + m]) s =
        Some ((acc @ map (byte s i) [offset..<offset + m]) @ map (byte s i) [offset + m..<offset + m + (n - (done + m))], s)"
      by (rule less.hyps) (use st(1,2) less.prems rest in auto)
    moreover have "map (byte s i) [offset..<offset + (n - done)] = map (byte s i) [offset..<offset + m] @ map (byte s i) [offset + m..<offset + (n - done)]"
      using upt_add_eq_append [of offset "offset + m" "n - (done + m)"] unfolding rest by simp
    ultimately show ?thesis
      unfolding step rest by simp
  qed
qed


text \<open>One block of the file is overwritten.\<close>

lemma write_block:
  assumes lay: "layout s n" and room: "room (Suc r) s" and ok: "ino_ok s n i" and bn: "bn < 139" and a: "own s i bn = a" "a \<noteq> 0"
    and x: "length x = 512"
  shows "\<exists>s'. fs_log_write a x s = Some s' \<and> room r s' \<and> same_geo s s' \<and> ino_ok s' n i \<and> inodes s' = inodes s
    \<and> (\<forall>m \<le> 139. own s' i m = own s i m) \<and> content s' i bn = x \<and> (\<forall>m < 139. m \<noteq> bn \<longrightarrow> content s' i m = content s i m)
    \<and> (\<forall>k < n. used s' k = used s k) \<and> (\<forall>b. b \<noteq> a \<longrightarrow> rd s' b = rd s b)"
proof -
  obtain k where k: "k < n" "a = data_block s k" "used s k"
    using ino_okD(3) [OF ok, of bn] a bn by auto
  obtain s' where w: "fs_log_write a x s = Some s'" "room r s'" "rd s' = (rd s)(a := x)" "sb s' = sb s"
      "inodes s' = inodes s" "log_start (lg s') = log_start (lg s)"
    using fs_log_write_ok [OF room _ x] layout_addr(3) [OF lay k(1)] k(2) by metis
  have g: "same_geo s s'"
    using w by (simp add: same_geo_def)
  have u: "used s' j = used s j" if "j < n" for j
    using data_block_inj(2) [OF lay k(1,1) that] k(2) w(3) same_geo_simps(2) [OF g] by (simp add: used_def BITS_PER_BLOCK_def)
  have "own s i 139 \<noteq> a"
    using ino_okD(4) [OF ok, of bn 139] a bn by auto
  then have own: "own s' i m = own s i m" for m
    using w(3,5) by (simp add: own_def)
  have c: "content s' i m = content s i m" if "m < 139" "m \<noteq> bn" for m
    using ino_okD(4) [OF ok, of bn m] a bn that own w(3) by (auto simp: content_def)
  have ok': "ino_ok s' n i"
    using ok own u w(5) same_geo_simps(1) [OF g] unfolding ino_ok_def by metis
  have "content s' i bn = x"
    using own a w(3) by (simp add: content_def)
  then show ?thesis
    using w g u own c ok' by auto
qed

text \<open>What writing the bytes \<open>src\<close> at \<open>off\<close> does: the bytes, the blocks that are not those of the file, the other inodes.\<close>

definition write_spec :: "nat \<Rightarrow> nat \<Rightarrow> nat \<Rightarrow> u8 list \<Rightarrow> fs \<Rightarrow> fs \<Rightarrow> bool" where
  "write_spec n i off src s s' = (same_geo s s' \<and> ino_ok s' n i
     \<and> (\<forall>p < 139 * 512. byte s' i p = (if off \<le> p \<and> p < off + length src then src ! (p - off) else byte s i p))
     \<and> (\<forall>p. off \<le> p \<longrightarrow> p < off + length src \<longrightarrow> own s' i (p div 512) \<noteq> 0)
     \<and> (\<forall>m < 139. own s i m \<noteq> 0 \<longrightarrow> own s' i m \<noteq> 0)
     \<and> (\<forall>k < n. used s k \<longrightarrow> used s' k)
     \<and> (\<forall>k < n. used s k \<longrightarrow> (\<forall>m \<le> 139. data_block s k \<noteq> own s i m) \<longrightarrow>
          rd s' (data_block s k) = rd s (data_block s k) \<and> (\<forall>m \<le> 139. data_block s k \<noteq> own s' i m))
     \<and> (\<exists>x. inodes s' = (inodes s)[i := (inodes s ! i)\<lparr>disk_inode := (disk_inode (inodes s ! i))\<lparr>addrs := x\<rparr>\<rparr>]))"


lemma write_specI_chunk:
  assumes bs: "bmap_spec n i (off div 512) s a s1" and m: "off mod 512 + m \<le> 512" "m \<le> length src" and off: "off div 512 < 139"
    and w: "same_geo s1 s2" "ino_ok s2 n i" "inodes s2 = inodes s1" "\<forall>k \<le> 139. own s2 i k = own s1 i k"
      "content s2 i (off div 512) = take (off mod 512) b @ take m src @ drop (off mod 512 + m) b"
      "\<forall>k < 139. k \<noteq> off div 512 \<longrightarrow> content s2 i k = content s1 i k" "\<forall>k < n. used s2 k = used s1 k"
      "\<forall>c. c \<noteq> a \<longrightarrow> rd s2 c = rd s1 c" and b: "b = rd s1 a" "length b = 512"
  shows "write_spec n i off (take m src) s s2"
proof -
  have sp: "same_geo s s1" "ino_ok s1 n i" "own s1 i (off div 512) = a" "a \<noteq> 0" "\<And>m. m < 139 \<Longrightarrow> content s1 i m = content s i m"
      "\<And>m. m < 139 \<Longrightarrow> m \<noteq> off div 512 \<Longrightarrow> own s1 i m = own s i m" "\<And>k. k < n \<Longrightarrow> used s k \<Longrightarrow> used s1 k"
      "\<And>k. k < n \<Longrightarrow> used s k \<Longrightarrow> (\<forall>m \<le> 139. data_block s k \<noteq> own s i m) \<Longrightarrow>
         rd s1 (data_block s k) = rd s (data_block s k) \<and> (\<forall>m \<le> 139. data_block s k \<noteq> own s1 i m)"
      "\<exists>x. inodes s1 = (inodes s)[i := (inodes s ! i)\<lparr>disk_inode := (disk_inode (inodes s ! i))\<lparr>addrs := x\<rparr>\<rparr>]"
    using bs unfolding bmap_spec_def by auto
  have b0: "b = content s i (off div 512)"
    using sp(3-5) off b(1) by (metis content_def)
  have byte: "byte s2 i p = (if off \<le> p \<and> p < off + m then src ! (p - off) else byte s i p)" if p: "p < 139 * 512" for p
  proof (cases "p div 512 = off div 512")
    case False
    have "p div 512 < 139"
      using p by (simp add: div_less_iff_less_mult)
    moreover have "\<not> (off \<le> p \<and> p < off + m)"
      using False in_chunk [OF m(1)] by auto
    ultimately show ?thesis
      using False w(6) sp(5) by (auto simp: byte_def)
  next
    case True
    have pe: "p = 512 * (off div 512) + p mod 512" and oe: "off = 512 * (off div 512) + off mod 512"
      using True by (metis mult_div_mod_eq)+
    have lt: "p mod 512 < 512"
      by simp
    have "byte s2 i p = (take (off mod 512) b @ take m src @ drop (off mod 512 + m) b) ! (p mod 512)"
      using True w(5) by (simp add: byte_def)
    moreover have "byte s i p = b ! (p mod 512)"
      using True b0 by (simp add: byte_def)
    moreover have "off \<le> p \<and> p < off + m \<longleftrightarrow> off mod 512 \<le> p mod 512 \<and> p mod 512 < off mod 512 + m" "p - off = p mod 512 - off mod 512"
      using pe oe by linarith+
    ultimately show ?thesis
      using m b(2) lt by (auto simp: nth_append min_def)
  qed
  have "own s2 i (p div 512) \<noteq> 0" if "off \<le> p" "p < off + m" for p
    using in_chunk [OF m(1) that] w(4) off sp(3,4) by simp
  moreover have "own s2 i k \<noteq> 0" if "k < 139" "own s i k \<noteq> 0" for k
    using w(4) sp(3,4,6) that by (cases "k = off div 512") auto
  moreover have "rd s2 (data_block s k) = rd s (data_block s k) \<and> (\<forall>m \<le> 139. data_block s k \<noteq> own s2 i m)"
    if "k < n" "used s k" "\<forall>m \<le> 139. data_block s k \<noteq> own s i m" for k
    using sp(8) [OF that] w(4,8) sp(3) off by (metis less_imp_le)
  ultimately show ?thesis
    unfolding write_spec_def using same_geo_trans [OF sp(1) w(1)] w(2,3,7) sp(7,9) byte m(2) by (auto simp: min_def)
qed


lemma write_spec_trans:
  assumes a: "write_spec n i off xs s s1" and b: "write_spec n i (off + length xs) ys s1 s2"
    and m: "off + length xs + length ys \<le> 139 * 512" and i: "i < length (inodes s)"
  shows "write_spec n i off (xs @ ys) s s2"
proof -
  have x: "byte s1 i p = (if off \<le> p \<and> p < off + length xs then xs ! (p - off) else byte s i p)"
     "byte s2 i p = (if off + length xs \<le> p \<and> p < off + length xs + length ys then ys ! (p - (off + length xs)) else byte s1 i p)"
    if "p < 139 * 512" for p
    using a b that by (simp_all add: write_spec_def)
  have byte: "byte s2 i p = (if off \<le> p \<and> p < off + length (xs @ ys) then (xs @ ys) ! (p - off) else byte s i p)" if "p < 139 * 512" for p
    using x [OF that] by (auto simp: nth_append diff_diff_left)
  have nz: "own s2 i (p div 512) \<noteq> 0" if "off \<le> p" "p < off + length (xs @ ys)" for p
  proof (cases "p < off + length xs")
    case True
    then have "own s1 i (p div 512) \<noteq> 0"
      using a that(1) by (simp add: write_spec_def)
    moreover have "p div 512 < 139"
      using True m by (simp add: div_less_iff_less_mult)
    ultimately show ?thesis
      using b by (simp add: write_spec_def)
  next
    case False
    then show ?thesis
      using b that(2) by (simp add: write_spec_def)
  qed
  have g: "same_geo s s1" "same_geo s1 s2" "ino_ok s2 n i"
    using a b by (simp_all add: write_spec_def)
  have keep: "rd s2 (data_block s k) = rd s (data_block s k) \<and> (\<forall>m \<le> 139. data_block s k \<noteq> own s2 i m)"
    if "k < n" "used s k" "\<forall>m \<le> 139. data_block s k \<noteq> own s i m" for k
    using a b that same_geo_simps(1) [OF g(1)] by (simp add: write_spec_def)
  have ino: "\<exists>x. inodes s2 = (inodes s)[i := (inodes s ! i)\<lparr>disk_inode := (disk_inode (inodes s ! i))\<lparr>addrs := x\<rparr>\<rparr>]"
    using a b i by (auto simp: write_spec_def)
  have "used s2 k" if "k < n" "used s k" for k
    using a b that by (simp add: write_spec_def)
  moreover have "own s2 i k \<noteq> 0" if "k < 139" "own s i k \<noteq> 0" for k
    using a b that by (simp add: write_spec_def)
  ultimately show ?thesis
    unfolding write_spec_def using same_geo_trans [OF g(1,2)] g(3) byte nz keep ino by blast
qed

text \<open>One pass of the loop.\<close>

lemma write_chunk_ok:
  assumes lay: "layout s n" and room: "room (r + 6) s" and free: "2 \<le> free_cnt s n" and ok: "ino_ok s n i"
    and bn: "off div 512 < 139" and m: "off mod 512 + m \<le> 512" "m \<le> length src"
  shows "\<exists>a s1 s2. bmap i (off div 512) s = Some (a, s1) \<and> bmap_spec n i (off div 512) s a s1
    \<and> fs_log_write a (take (off mod 512) (rd s1 a) @ take m src @ drop (off mod 512 + m) (rd s1 a)) s1 = Some s2
    \<and> room r s2 \<and> free_cnt s n \<le> free_cnt s2 n + 2 \<and> write_spec n i off (take m src) s s2"
proof -
  have "room (Suc r + 5) s"
    using room by (simp add: numeral_eq_Suc)
  then obtain a s1 where b: "bmap i (off div 512) s = Some (a, s1)" "room (Suc r) s1" "free_cnt s n \<le> free_cnt s1 n + 2"
      "bmap_spec n i (off div 512) s a s1"
    using bmap_ok [OF lay _ free ok bn] by blast
  have g: "same_geo s s1" "ino_ok s1 n i" "own s1 i (off div 512) = a" "a \<noteq> 0"
    using b(4) by (simp_all add: bmap_spec_def)
  let ?b = "rd s1 a"
  let ?x = "take (off mod 512) ?b @ take m src @ drop (off mod 512 + m) ?b"
  have len: "length ?b = 512" "length ?x = 512"
    using room_len [OF b(2)] m by (auto simp: min_def)
  have lay1: "layout s1 n"
    using lay same_geo_simps(3) [OF g(1)] by simp
  obtain s2 where w: "fs_log_write a ?x s1 = Some s2" "room r s2" "same_geo s1 s2" "ino_ok s2 n i" "inodes s2 = inodes s1"
      "\<forall>k \<le> 139. own s2 i k = own s1 i k" "content s2 i (off div 512) = ?x"
      "\<forall>k < 139. k \<noteq> off div 512 \<longrightarrow> content s2 i k = content s1 i k" "\<forall>k < n. used s2 k = used s1 k"
      "\<forall>c. c \<noteq> a \<longrightarrow> rd s2 c = rd s1 c"
    using write_block [OF lay1 b(2) g(2) bn g(3,4) len(2)] by blast
  have "write_spec n i off (take m src) s s2"
    by (rule write_specI_chunk [OF b(4) m bn w(3-10) refl len(1)])
  moreover have "free_cnt s2 n = free_cnt s1 n"
    unfolding free_cnt_def using w(9) by (metis (mono_tags, lifting))
  ultimately show ?thesis
    using b w(1,2) by auto
qed

lemma write_loop_ok:
  assumes "layout s n" "room (6 * nblk off (length src) + r) s" "2 * nblk off (length src) \<le> free_cnt s n" "ino_ok s n i"
    and "off + length src \<le> 139 * 512"
  shows "\<exists>s'. write_loop i off src s = Some (off + length src, s') \<and> room r s' \<and> write_spec n i off src s s'"
  using assms
proof (induction "length src" arbitrary: off src s rule: less_induct)
  case less
  show ?case
  proof (cases "src = []")
    case True
    have "write_spec n i off [] s s"
      using less.prems(4) by (auto simp: write_spec_def intro: exI [of _ "iaddrs s i"])
    then show ?thesis
      using True less.prems(2) by (simp add: write_loop.simps nblk_def)
  next
    case False
    define m where "m = min (512 - off mod 512) (length src)"
    have pos: "0 < length src"
      using False by simp
    note st = nblk_step [OF pos m_def]
    define c where "c = nblk (off + m) (length (drop m src))"
    have cnt: "1 + c \<le> nblk off (length src)"
      using st(4) by (simp add: c_def)
    have "off < 139 * 512"
      using less.prems(5) pos by linarith
    then have bn: "off div 512 < 139"
      by (simp add: div_less_iff_less_mult)
    have "room (6 * c + r + 6) s" "2 \<le> free_cnt s n"
      using room_mono [OF less.prems(2), of "6 * c + r + 6"] less.prems(3) cnt by linarith+
    then obtain a s1 s2 where w: "bmap i (off div 512) s = Some (a, s1)"
        "fs_log_write a (take (off mod 512) (rd s1 a) @ take m src @ drop (off mod 512 + m) (rd s1 a)) s1 = Some s2"
        "room (6 * c + r) s2" "free_cnt s n \<le> free_cnt s2 n + 2" "write_spec n i off (take m src) s s2"
      using write_chunk_ok [OF less.prems(1) _ _ less.prems(4) bn st(3,2), of "6 * c + r"] by blast
    have g: "same_geo s s2" "ino_ok s2 n i"
      using w(5) by (simp_all add: write_spec_def)
    have "\<exists>s'. write_loop i (off + m) (drop m src) s2 = Some (off + m + length (drop m src), s') \<and> room r s'
        \<and> write_spec n i (off + m) (drop m src) s2 s'"
    proof (rule less.hyps)
      show "length (drop m src) < length src"
        using st(1) pos by simp
      show "layout s2 n"
        using less.prems(1) same_geo_simps(3) [OF g(1)] by simp
      show "room (6 * nblk (off + m) (length (drop m src)) + r) s2"
        using w(3) by (simp add: c_def)
      show "2 * nblk (off + m) (length (drop m src)) \<le> free_cnt s2 n"
        using less.prems(3) cnt w(4) unfolding c_def [symmetric] by linarith
      show "ino_ok s2 n i"
        by (rule g(2))
      show "off + m + length (drop m src) \<le> 139 * 512"
        using less.prems(5) st(2) by simp
    qed
    then obtain s' where r: "write_loop i (off + m) (drop m src) s2 = Some (off + length src, s')" "room r s'"
        "write_spec n i (off + m) (drop m src) s2 s'"
      using st(2) by auto
    have "write_spec n i off (take m src @ drop m src) s s'"
      by (rule write_spec_trans [OF w(5)]) (use r(3) st(2) less.prems(4,5) ino_okD(1) in \<open>auto simp: min_def\<close>)
    moreover have "write_loop i off src s = Some (off + length src, s')"
      using False w(1,2) r(1) by (subst write_loop.simps) (simp add: Let_def m_def [symmetric])
    ultimately show ?thesis
      using r(2) by simp
  qed
qed


section \<open>The inode blocks\<close>

lemma put_words_length [simp]: "length (put_words b w ws) = length b"
proof -
  have "length (foldl (\<lambda>b k. put32 b (w + k) (ws ! k)) b xs) = length b" for xs
    by (induction xs arbitrary: b) auto
  then show ?thesis
    by (simp add: put_words_def)
qed

lemma put_dinode_length [simp]: "length (put_dinode b w di) = length b"
  by (simp add: put_dinode_def)

lemma get32_put_words:
  assumes "4 * (w + length ws) \<le> length b" "4 * j + 3 < length b"
  shows "get32 (put_words b w ws) j = (if w \<le> j \<and> j < w + length ws then ws ! (j - w) else get32 b j)"
proof -
  have "get32 (foldl (\<lambda>b k. put32 b (w + k) (ws ! k)) b [0..<n]) j = (if w \<le> j \<and> j < w + n then ws ! (j - w) else get32 b j)
      \<and> length (foldl (\<lambda>b k. put32 b (w + k) (ws ! k)) b [0..<n]) = length b" if "n \<le> length ws" for n
    using that
  proof (induction n)
    case (Suc n)
    let ?c = "foldl (\<lambda>b k. put32 b (w + k) (ws ! k)) b [0..<n]"
    have c: "get32 ?c j = (if w \<le> j \<and> j < w + n then ws ! (j - w) else get32 b j)" "length ?c = length b"
      using Suc by simp_all
    have "4 * (w + n) + 3 < length ?c"
      using c(2) Suc.prems assms(1) by simp
    then have "get32 (put32 ?c (w + n) (ws ! n)) j = (if j = w + n then ws ! n else get32 ?c j)"
      using assms(2) c(2) by auto
    then show ?case
      using c by auto
  qed auto
  then show ?thesis
    by (auto simp: put_words_def)
qed

lemma dinode_eqI:
  assumes "dtype a = dtype b" "nlink a = nlink b" "dsize a = dsize b" "major a = major b" "minor a = minor b" "addrs a = addrs b"
  shows "a = (b :: dinode)"
  using assms by simp

lemma get_put_dinode:
  assumes "length b = 512" "length (addrs di) = 12" "w + 17 \<le> 128"
  shows "get_dinode (put_dinode b w di) w = di"
    "w' + 17 \<le> w \<or> w + 17 \<le> w' \<and> w' + 17 \<le> 128 \<Longrightarrow> get_dinode (put_dinode b w di) w' = get_dinode b w'"
proof -
  let ?ws = "[dtype di, nlink di, dsize di, major di, minor di] @ addrs di"
  have g: "get32 (put_dinode b w di) j = (if w \<le> j \<and> j < w + 17 then ?ws ! (j - w) else get32 b j)" if "j < 128" for j
    unfolding put_dinode_def using get32_put_words [of w ?ws b j] assms that by simp
  have "?ws ! (5 + k) = addrs di ! k" for k
    by (simp add: numeral_eq_Suc)
  then have "map (\<lambda>k. ?ws ! (5 + k)) [0..<12] = addrs di"
    using assms(2) map_nth [of "addrs di"] by simp
  moreover have "map (\<lambda>k. get32 (put_dinode b w di) (w + 5 + k)) [0..<12] = map (\<lambda>k. ?ws ! (5 + k)) [0..<12]"
    using g assms(3) by (intro map_cong refl) (simp add: add.assoc)
  ultimately show "get_dinode (put_dinode b w di) w = di"
    using g assms(3) by (intro dinode_eqI) (simp_all add: get_dinode_def NDIRECT_DATA_BLOCKS_def)
  show "get_dinode (put_dinode b w di) w' = get_dinode b w'" if "w' + 17 \<le> w \<or> w + 17 \<le> w' \<and> w' + 17 \<le> 128"
  proof -
    have "get32 (put_dinode b w di) (w' + k) = get32 b (w' + k)" if "k < 17" for k
      using g [of "w' + k"] that \<open>w' + 17 \<le> w \<or> w + 17 \<le> w' \<and> w' + 17 \<le> 128\<close> assms(3) by auto
    from this [of 0] this [of 1] this [of 2] this [of 3] this [of 4] this [of "5 + k" for k] show ?thesis
      by (auto simp: get_dinode_def NDIRECT_DATA_BLOCKS_def add.assoc)
  qed
qed

lemma dip_off_bound: "dip_off i + 17 \<le> 128"
proof -
  have "unat i mod 7 < 7"
    by simp
  then show ?thesis
    unfolding dip_off_def INODES_PER_BLOCK_def by linarith
qed


abbreviation iblock :: "fs \<Rightarrow> nat \<Rightarrow> u32" where
  "iblock s i \<equiv> GET_INODE_BLOCK_NO (inum (inodes s ! i)) (sb s)"

text \<open>The inode's block lies before the bitmap and outside the log.\<close>

definition iblock_ok :: "fs \<Rightarrow> nat \<Rightarrow> bool" where
  "iblock_ok s i = (unat (iblock s i) < unat (bmap_start (sb s)) \<and> \<not> in_log s (iblock s i))"

lemma iblock_apart:
  assumes lay: "layout s n" and ib: "iblock_ok s i" and k: "k < n"
  shows "iblock s i \<noteq> data_block s k" "iblock s i \<noteq> bmap_block s (k div 4096)"
proof -
  have lt: "unat (iblock s i) < unat (bmap_start (sb s))"
    using ib by (simp add: iblock_ok_def)
  have j: "k div 4096 < (n + 4095) div 4096"
    by (rule layout_addr(2) [OF lay k])
  have bd: "unat (bmap_start (sb s)) + (n + 4095) div 4096 \<le> unat (bdata_start (sb s))" "unat (bdata_start (sb s)) + n < 2 ^ 32"
    using lay unfolding layout_def by blast+
  have "unat (bmap_start (sb s)) \<le> unat (data_block s k)"
    using layout_addr(1) [OF lay k] bd(1) by linarith
  then show "iblock s i \<noteq> data_block s k"
    using lt by auto
  have "unat (bmap_start (sb s)) + k div 4096 < 2 ^ 32"
    using bd j by linarith
  then have "unat (bmap_block s (k div 4096)) = unat (bmap_start (sb s)) + k div 4096"
    by (simp add: bmap_block_def unat_word_ariths unat_of_nat)
  then show "iblock s i \<noteq> bmap_block s (k div 4096)"
    using lt by auto
qed

lemma inode_update_ok:
  assumes lay: "layout s n" and room: "room (Suc r) s" and ib: "iblock_ok s i"
  obtains s' where "inode_update i s = Some s'" "room r s'" "frame n j s s'" "\<And>k. k < n \<Longrightarrow> used s' k = used s k"
    "rd s' = (rd s)(iblock s i := put_dinode (rd s (iblock s i)) (dip_off (inum (inodes s ! i))) (disk_inode (inodes s ! i)))"
proof -
  let ?x = "put_dinode (rd s (iblock s i)) (dip_off (inum (inodes s ! i))) (disk_inode (inodes s ! i))"
  have nl: "\<not> in_log s (iblock s i)" and len: "length ?x = 512"
    using ib room by (simp_all add: iblock_ok_def)
  obtain s' where w: "fs_log_write (iblock s i) ?x s = Some s'" "room r s'" "rd s' = (rd s)(iblock s i := ?x)" "sb s' = sb s"
      "inodes s' = inodes s" "log_start (lg s') = log_start (lg s)" "dsk (dev s') = dsk (dev s)"
    by (rule fs_log_write_ok [OF room nl len]) (rule that)
  have g: "same_geo s s'"
    using w by (simp add: same_geo_def)
  have u: "used s' k = used s k" if "k < n" for k
    using iblock_apart(2) [OF lay ib that] w(3) same_geo_simps(2) [OF g] by (simp add: used_def BITS_PER_BLOCK_def)
  have "frame n j s s'"
    unfolding frame_def using g u w(3,5) iblock_apart(1) [OF lay ib] by (metis fun_upd_other)
  then show thesis
    using that w(1,2,3) u by (simp add: inode_update_def Let_def)
qed

section \<open>Files as byte sequences\<close>

abbreviation isize :: "fs \<Rightarrow> nat \<Rightarrow> nat" where "isize s i \<equiv> unat (dsize (disk_inode (inodes s ! i)))"

definition fdata :: "fs \<Rightarrow> nat \<Rightarrow> u8 list" where
  "fdata s i = map (byte s i) [0..<isize s i]"

text \<open>A regular file: a block behind each of its bytes.\<close>

definition file_ok :: "fs \<Rightarrow> nat \<Rightarrow> nat \<Rightarrow> bool" where
  "file_ok s n i = (ino_ok s n i \<and> dtype (disk_inode (inodes s ! i)) \<noteq> INODE_DEVICE \<and> isize s i \<le> 139 * 512
     \<and> (\<forall>p < isize s i. own s i (p div 512) \<noteq> 0) \<and> (\<forall>b. length (rd s b) = 512))"

definition overwrite :: "nat \<Rightarrow> u8 list \<Rightarrow> u8 list \<Rightarrow> u8 list" where
  "overwrite off src xs = take off xs @ src @ drop (off + length src) xs"

lemma length_overwrite: "off \<le> length xs \<Longrightarrow> length (overwrite off src xs) = max (length xs) (off + length src)"
  by (auto simp: overwrite_def)

lemma nth_overwrite:
  assumes "off \<le> length xs" "p < max (length xs) (off + length src)"
  shows "overwrite off src xs ! p = (if off \<le> p \<and> p < off + length src then src ! (p - off) else xs ! p)"
  using assms by (auto simp: overwrite_def nth_append min_def)

lemma sint_small:
  assumes "unat (x :: u32) < 2 ^ 31"
  shows "sint x = int (unat x)"
proof -
  have "uint x = int (unat x)"
    by (rule uint_nat)
  moreover have "int (unat x) < int (2 ^ 31)"
    using assms by (simp only: of_nat_less_iff)
  then have "uint x < 2 ^ 31"
    by (simp only: uint_nat of_nat_power of_nat_numeral)
  ultimately show ?thesis
    by (simp only: sint_u32 if_True)
qed

lemma inode_read_file:
  assumes f: "file_ok s n i" and off: "unat offset \<le> isize s i" "unat offset + unat cnt < 2 ^ 32"
  shows "inode_read io i offset cnt s =
    Some (int (min (unat cnt) (isize s i - unat offset)), take (unat cnt) (drop (unat offset) (fdata s i)), s)"
proof -
  let ?d = "disk_inode (inodes s ! i)"
  have fl: "dtype ?d \<noteq> INODE_DEVICE" "isize s i \<le> 139 * 512" "\<And>p. p < isize s i \<Longrightarrow> own s i (p div 512) \<noteq> 0" "\<And>b. length (rd s b) = 512"
    using f by (auto simp: file_ok_def)
  define n1 where "n1 = (if offset + cnt > dsize ?d then dsize ?d - offset else cnt)"
  have sum: "unat (offset + cnt) = unat offset + unat cnt"
    using off(2) by (simp add: unat_word_ariths)
  have n1: "unat n1 = min (unat cnt) (isize s i - unat offset)"
  proof -
    have "unat (dsize ?d - offset) = isize s i - unat offset"
      using off(1) by (simp add: unat_sub word_le_nat_alt)
    then show ?thesis
      using sum off(1) by (auto simp: n1_def word_less_nat_alt)
  qed
  have guard: "\<not> (offset > dsize ?d \<or> offset + cnt < offset)"
    using off(1) sum by (auto simp: word_less_nat_alt)
  have bound: "unat offset + (unat n1 - 0) \<le> 139 * 512"
    using n1 off(1) fl(2) by auto
  have own: "own s i (p div 512) \<noteq> 0" if "unat offset \<le> p" "p < unat offset + (unat n1 - 0)" for p
    using fl(3) [of p] that n1 off(1) by auto
  have "read_loop i (unat offset) (unat n1) 0 [] s = Some ([] @ map (byte s i) [unat offset..<unat offset + (unat n1 - 0)], s)"
    by (rule read_loop_present [OF _ bound fl(4) own]) auto
  moreover have "map (byte s i) [unat offset..<unat offset + unat n1] = take (unat cnt) (drop (unat offset) (fdata s i))"
  proof (rule nth_equalityI)
    show len: "length (map (byte s i) [unat offset..<unat offset + unat n1]) = length (take (unat cnt) (drop (unat offset) (fdata s i)))"
      using n1 by (simp add: fdata_def min.commute)
    fix j assume "j < length (map (byte s i) [unat offset..<unat offset + unat n1])"
    then have "j < unat n1" "j < unat cnt" "unat offset + j < isize s i"
      using n1 by auto
    then show "map (byte s i) [unat offset..<unat offset + unat n1] ! j = take (unat cnt) (drop (unat offset) (fdata s i)) ! j"
      by (simp add: fdata_def)
  qed
  moreover have "sint n1 = int (min (unat cnt) (isize s i - unat offset))"
    using n1 bound sint_small [of n1] by simp
  ultimately show ?thesis
    using fl(1) guard unfolding inode_read_def Let_def n1_def [symmetric] by simp
qed


lemma own_upd_dinode:
  assumes "addrs (f (disk_inode (inodes s ! i))) = iaddrs s i"
  shows "own (upd_dinode i f s) i m = own s i m" "content (upd_dinode i f s) i m = content s i m" "byte (upd_dinode i f s) i p = byte s i p"
proof -
  have a: "iaddrs (upd_dinode i f s) i = iaddrs s i" "rd (upd_dinode i f s) = rd s"
    using assms by (cases "i < length (inodes s)"; simp add: upd_dinode_def upd_inode_def list_update_beyond)+
  show own: "own (upd_dinode i f s) i m = own s i m" for m
    unfolding own_def a by simp
  show cont: "content (upd_dinode i f s) i m = content s i m" for m
    unfolding content_def own a by simp
  show "byte (upd_dinode i f s) i p = byte s i p"
    unfolding byte_def cont ..
qed

text \<open>Storing the new size and the inode after the loop.\<close>

lemma set_size_ok:
  assumes lay: "layout s n" and room: "room (Suc r) s" and ib: "iblock_ok s i" and ok: "ino_ok s n i"
  obtains s' where "inode_update i (upd_dinode i (\<lambda>di. di\<lparr>dsize := z\<rparr>) s) = Some s'" "room r s'" "same_geo s s'" "ino_ok s' n i"
    "\<And>k. k < n \<Longrightarrow> used s' k = used s k" "\<And>k. k < n \<Longrightarrow> rd s' (data_block s k) = rd s (data_block s k)"
    "inodes s' = (inodes s)[i := (inodes s ! i)\<lparr>disk_inode := (disk_inode (inodes s ! i))\<lparr>dsize := z\<rparr>\<rparr>]"
    "\<And>m. m \<le> 139 \<Longrightarrow> own s' i m = own s i m" "\<And>p. p < 139 * 512 \<Longrightarrow> byte s' i p = byte s i p"
proof -
  let ?s = "upd_dinode i (\<lambda>di. di\<lparr>dsize := z\<rparr>) s"
  have ino: "inodes ?s = (inodes s)[i := (inodes s ! i)\<lparr>disk_inode := (disk_inode (inodes s ! i))\<lparr>dsize := z\<rparr>\<rparr>]"
    and sb: "sb ?s = sb s" "rd ?s = rd s" "same_geo s ?s"
    by (simp_all add: upd_dinode_def upd_inode_def same_geo_def)
  note own = own_upd_dinode [of "\<lambda>di. di\<lparr>dsize := z\<rparr>" s i, simplified]
  have us: "used ?s = used s"
    by (rule used_cong [OF sb(3,2)])
  have i: "i < length (inodes s)"
    by (rule ino_okD(1) [OF ok])
  have ok': "ino_ok ?s n i"
    using ok i unfolding ino_ok_def own us same_geo_simps(1) [OF sb(3)] by (simp add: ino)
  have eqs: "iblock ?s i = iblock s i" "in_log ?s = in_log s"
    using i sb(1) same_geo_simps(4) [OF sb(3)] by (simp_all add: ino)
  have pre: "layout ?s n" "room (Suc r) ?s" "iblock_ok ?s i"
    using lay room ib same_geo_simps(3) [OF sb(3)] sb(1) eqs by (simp_all add: iblock_ok_def)
  obtain s' where u: "inode_update i ?s = Some s'" "room r s'" "frame n i ?s s'" "\<And>k. k < n \<Longrightarrow> used s' k = used ?s k"
      "rd s' = (rd ?s)(iblock ?s i := put_dinode (rd ?s (iblock ?s i)) (dip_off (inum (inodes ?s ! i))) (disk_inode (inodes ?s ! i)))"
    by (rule inode_update_ok [OF pre]) (rule that)
  note fr = frame_own [OF u(3) ok']
  have g: "same_geo s s'" "inodes s' = inodes ?s"
    using u(3) same_geo_trans [OF sb(3)] by (auto simp: frame_def)
  have data: "rd s' (data_block s k) = rd s (data_block s k)" if "k < n" for k
    using iblock_apart(1) [OF pre(1,3) that] u(5) sb(2) same_geo_simps(1) [OF sb(3)] by auto
  have byte: "byte s' i p = byte s i p" if "p < 139 * 512" for p
  proof -
    have "p div 512 \<le> 139"
      using that by (simp add: less_mult_imp_div_less less_imp_le)
    then show ?thesis
      using fr(3) own(2) by (simp add: byte_def)
  qed
  show thesis
    by (rule that [of s']) (use u(1,2) g fr own us u(4) data byte ino in auto)
qed


lemma fdata_overwrite:
  assumes "off \<le> isize s i" "off + length src \<le> 139 * 512" "isize s i \<le> 139 * 512" "isize s' i = max (isize s i) (off + length src)"
    and "\<And>p. p < 139 * 512 \<Longrightarrow> byte s' i p = (if off \<le> p \<and> p < off + length src then src ! (p - off) else byte s i p)"
  shows "fdata s' i = overwrite off src (fdata s i)"
proof (rule nth_equalityI)
  have len: "length (fdata s i) = isize s i" "length (fdata s' i) = isize s' i"
    by (simp_all add: fdata_def)
  show "length (fdata s' i) = length (overwrite off src (fdata s i))"
    using len assms(1,4) by (simp add: length_overwrite)
  fix p assume "p < length (fdata s' i)"
  then have p: "p < isize s' i" "p < 139 * 512" "p < max (length (fdata s i)) (off + length src)"
    using len assms(2-4) by auto
  show "fdata s' i ! p = overwrite off src (fdata s i) ! p"
    using nth_overwrite [OF _ p(3)] p(1,2) assms(1,4,5) len by (auto simp: fdata_def)
qed

text \<open>The data blocks that are in use and not those of inode \<open>i\<close>: the contents of the other files.\<close>

definition others_kept :: "nat \<Rightarrow> nat \<Rightarrow> fs \<Rightarrow> fs \<Rightarrow> bool" where
  "others_kept n i s s' = (\<forall>k < n. used s k \<longrightarrow> (\<forall>m \<le> 139. data_block s k \<noteq> own s i m) \<longrightarrow>
     used s' k \<and> rd s' (data_block s k) = rd s (data_block s k))"

lemma inode_write_file:
  assumes lay: "layout s n" and room: "room (6 * nblk (unat offset) (length src) + Suc r) s"
    and free: "2 * nblk (unat offset) (length src) \<le> free_cnt s n"
    and f: "file_ok s n i" and ib: "iblock_ok s i"
    and off: "unat offset \<le> isize s i" "unat offset + length src \<le> 139 * 512"
  shows "\<exists>s'. inode_write io i src offset s = Some (int (length src), s') \<and> file_ok s' n i \<and> layout s' n
    \<and> fdata s' i = overwrite (unat offset) src (fdata s i) \<and> others_kept n i s s'
    \<and> same_geo s s' \<and> room r s'
    \<and> (\<exists>x z. inodes s' = (inodes s)[i := (inodes s ! i)\<lparr>disk_inode := (disk_inode (inodes s ! i))\<lparr>addrs := x, dsize := z\<rparr>\<rparr>])"
proof -
  have fl: "ino_ok s n i" "dtype (disk_inode (inodes s ! i)) \<noteq> INODE_DEVICE" "isize s i \<le> 139 * 512"
      "\<And>p. p < isize s i \<Longrightarrow> own s i (p div 512) \<noteq> 0"
    using f by (auto simp: file_ok_def)
  have i: "i < length (inodes s)"
    by (rule ino_okD(1) [OF fl(1)])
  obtain s1 where w: "write_loop i (unat offset) src s = Some (unat offset + length src, s1)" "room (Suc r) s1" "write_spec n i (unat offset) src s s1"
    using write_loop_ok [OF lay room free fl(1) off(2)] by blast
  obtain x where sp: "same_geo s s1" "ino_ok s1 n i"
      "\<And>p. p < 139 * 512 \<Longrightarrow> byte s1 i p = (if unat offset \<le> p \<and> p < unat offset + length src then src ! (p - unat offset) else byte s i p)"
      "\<And>p. unat offset \<le> p \<Longrightarrow> p < unat offset + length src \<Longrightarrow> own s1 i (p div 512) \<noteq> 0"
      "\<And>m. m < 139 \<Longrightarrow> own s i m \<noteq> 0 \<Longrightarrow> own s1 i m \<noteq> 0"
      "inodes s1 = (inodes s)[i := (inodes s ! i)\<lparr>disk_inode := (disk_inode (inodes s ! i))\<lparr>addrs := x\<rparr>\<rparr>]"
    using w(3) by (auto simp: write_spec_def)
  have oth: "others_kept n i s s1"
    using w(3) by (simp add: others_kept_def write_spec_def)
  have d1: "dsize (disk_inode (inodes s1 ! i)) = dsize (disk_inode (inodes s ! i))"
    "dtype (disk_inode (inodes s1 ! i)) = dtype (disk_inode (inodes s ! i))" "inum (inodes s1 ! i) = inum (inodes s ! i)"
    using i by (simp_all add: sp(6))
  let ?n = "of_nat (length src) :: u32" and ?stop = "of_nat (unat offset + length src) :: u32"
  have un: "unat ?n = length src" "unat ?stop = unat offset + length src" "unat (offset + ?n) = unat offset + length src"
    using off(2) by (simp_all add: unat_of_nat unat_word_ariths)
  have guards: "\<not> (offset > dsize (disk_inode (inodes s ! i)) \<or> offset + ?n < offset)" "\<not> offset + ?n > of_nat MAX_DATA_BLOCKS * 512"
    using off un by (simp_all add: word_less_nat_alt MAX_DATA_BLOCKS_def NDIRECT_DATA_BLOCKS_def NINDIRECT_DATA_BLOCKS_def)
  have sn: "sint ?n = int (length src)"
    using sint_small [of ?n] un(1) off(2) by simp
  have unf: "inode_write io i src offset s = do {
      s2 \<leftarrow> (if ?n > 0 \<and> ?stop > dsize (disk_inode (inodes s1 ! i))
            then inode_update i (upd_dinode i (\<lambda>di. di\<lparr>dsize := ?stop\<rparr>) s1) else Some s1);
      Some (int (length src), s2) }"
    unfolding inode_write_def Let_def w(1) sn using fl(2) guards by simp
  have lay1: "layout s1 n"
    using lay same_geo_simps(3) [OF sp(1)] by simp
  have present: "own s1 i (p div 512) \<noteq> 0" if "p < max (isize s i) (unat offset + length src)" for p
  proof (cases "unat offset \<le> p \<and> p < unat offset + length src")
    case False
    then have "p < isize s i"
      using that off(1) by auto
    moreover from this have "p div 512 < 139"
      using fl(3) by (simp add: div_less_iff_less_mult)
    ultimately show ?thesis
      using sp(5) fl(4) by blast
  qed (use sp(4) in blast)
  show ?thesis
  proof (cases "?n > 0 \<and> ?stop > dsize (disk_inode (inodes s1 ! i))")
    case False
    then have sz: "isize s1 i = max (isize s i) (unat offset + length src)"
      using un d1(1) off(1) by (auto simp: word_less_nat_alt)
    have "file_ok s1 n i"
      using fl(2,3) sp(2) d1(1,2) present sz room_len [OF w(2)] by (auto simp: file_ok_def)
    moreover have "fdata s1 i = overwrite (unat offset) src (fdata s i)"
      by (rule fdata_overwrite [OF off fl(3) sz sp(3)])
    moreover have "inode_write io i src offset s = Some (int (length src), s1)"
      unfolding unf using False by auto
    moreover have "room r s1"
      by (rule room_mono [OF w(2)]) simp
    moreover have "inodes s1 = (inodes s)[i := (inodes s ! i)\<lparr>disk_inode := (disk_inode (inodes s ! i))
        \<lparr>addrs := x, dsize := dsize (disk_inode (inodes s ! i))\<rparr>\<rparr>]"
      using sp(6) by simp
    ultimately show ?thesis
      using lay1 oth sp(1) by blast
  next
    case True
    have ib1: "iblock_ok s1 i"
      using ib d1(3) sp(1) unfolding iblock_ok_def by (simp add: same_geo_def)
    from set_size_ok [OF lay1 w(2) ib1 sp(2), of ?stop] obtain s' where u: "inode_update i (upd_dinode i (\<lambda>di. di\<lparr>dsize := ?stop\<rparr>) s1) = Some s'"
      "room r s'" "same_geo s1 s'" "ino_ok s' n i" "\<And>k. k < n \<Longrightarrow> used s' k = used s1 k"
      "\<And>k. k < n \<Longrightarrow> rd s' (data_block s1 k) = rd s1 (data_block s1 k)"
      "inodes s' = (inodes s1)[i := (inodes s1 ! i)\<lparr>disk_inode := (disk_inode (inodes s1 ! i))\<lparr>dsize := ?stop\<rparr>\<rparr>]"
      "\<And>m. m \<le> 139 \<Longrightarrow> own s' i m = own s1 i m" "\<And>p. p < 139 * 512 \<Longrightarrow> byte s' i p = byte s1 i p"
      by blast
    have i1: "i < length (inodes s1)"
      using i sp(6) by simp
    have "isize s' i = unat offset + length src"
      using un(2) i1 by (simp add: u(7))
    then have sz: "isize s' i = max (isize s i) (unat offset + length src)"
      using True un d1(1) by (auto simp: word_less_nat_alt)
    have "own s' i (p div 512) \<noteq> 0" if "p < isize s' i" for p
    proof -
      have "p div 512 \<le> 139"
        using that sz off(2) fl(3) by (simp add: less_mult_imp_div_less less_imp_le)
      then show ?thesis
        using present [of p] that sz u(8) by simp
    qed
    moreover have "dtype (disk_inode (inodes s' ! i)) = dtype (disk_inode (inodes s ! i))"
      using i1 d1(2) by (simp add: u(7))
    ultimately have "file_ok s' n i"
      using fl(2,3) u(4) off(2) sz room_len [OF u(2)] by (auto simp: file_ok_def)
    moreover have "fdata s' i = overwrite (unat offset) src (fdata s i)"
      by (rule fdata_overwrite [OF off fl(3) sz]) (simp add: u(9) sp(3))
    moreover have "inode_write io i src offset s = Some (int (length src), s')"
      unfolding unf using True u(1) by simp
    moreover have "layout s' n"
      using lay1 same_geo_simps(3) [OF u(3)] by simp
    moreover have "others_kept n i s s'"
      using oth u(5,6) same_geo_simps(1) [OF sp(1)] by (simp add: others_kept_def)
    moreover have "inodes s' = (inodes s)[i := (inodes s ! i)\<lparr>disk_inode := (disk_inode (inodes s ! i))\<lparr>addrs := x, dsize := ?stop\<rparr>\<rparr>]"
      using u(7) i unfolding sp(6) by simp
    ultimately show ?thesis
      using same_geo_trans [OF sp(1) u(3)] u(2) by blast
  qed
qed


section \<open>A concrete file system\<close>

definition sb_example :: superblock where
  "sb_example = \<lparr>sb_magic = 0, sb_size = 100, nblocks = 8, ninodes = 50, inode_start = 40, nlog = 31, sb_log_start = 2,
     bmap_start = 60, bmap_bytes = 1, bdata_start = 61\<rparr>"

definition file_example :: inode where
  "file_example = \<lparr>inum = 5, iref = 1, locked = True, valid = True, disk_inode = dinode0\<lparr>dtype := INODE_FILE, nlink := 1\<rparr>\<rparr>"

definition fs_example :: fs where
  "fs_example = \<lparr>lg = log_example\<lparr>lh_n := 0, outstanding := 1\<rparr>, dev = fresh (\<lambda>_. replicate 512 0), sb = sb_example,
     inodes = [file_example]\<rparr>"

lemmas example_defs = fs_example_def sb_example_def file_example_def log_example_def fresh_def dinode0_def
  NDIRECT_DATA_BLOCKS_def INODE_FILE_def INODE_DEVICE_def INODE_NONE_def

lemma fs_example_layout: "layout fs_example 8"
proof -
  have d: "\<not> in_log fs_example (data_block fs_example k)" if "k < 8" for k
  proof -
    have "k \<in> {0, 1, 2, 3, 4, 5, 6, 7}"
      using that by auto
    then show ?thesis
      by (auto simp: example_defs data_block_def log_area_def)
  qed
  have b: "\<not> in_log fs_example (bmap_block fs_example j)" if "j < 1" for j
    using that by (simp add: example_defs bmap_block_def log_area_def)
  have z: "unat (bmap_bytes (sb fs_example) * 8) = 8" "unat (bdata_start (sb fs_example)) = 61" "unat (bmap_start (sb fs_example)) = 60"
    by (simp_all add: example_defs)
  have "(8 + 4095) div 4096 = (1 :: nat)"
    by simp
  then show ?thesis
    using d b unfolding layout_def z by simp
qed

lemma fs_example_free: "free_cnt fs_example 8 = 8" "\<not> used fs_example k"
proof -
  show u: "\<not> used fs_example k" for k
    by (simp add: used_def bit_clear_def example_defs BITS_PER_BLOCK_def less_mult_imp_div_less)
  show "free_cnt fs_example 8 = 8"
    by (simp add: free_cnt_def u)
qed

lemma fs_example_room: "r \<le> 30 \<Longrightarrow> room r fs_example"
  by (simp add: room_def log_ok_def example_defs LOG_SIZE_def MAX_OPEN_BLOCKS_def get32_def bytes_le32_def)

lemma fs_example_file: "file_ok fs_example 8 0" "iblock_ok fs_example 0" "fdata fs_example 0 = []" "isize fs_example 0 = 0"
proof -
  have own: "own fs_example 0 m = 0" if "m \<le> 139" for m
    by (simp add: own_def example_defs)
  then have "ino_ok fs_example 8 0"
    by (simp add: ino_ok_def) (simp add: example_defs)
  then show "file_ok fs_example 8 0"
    by (simp add: file_ok_def) (simp add: example_defs)
  show "iblock_ok fs_example 0"
    by (simp add: iblock_ok_def GET_INODE_BLOCK_NO_def INODES_PER_BLOCK_def example_defs log_area_def)
  show "fdata fs_example 0 = []" "isize fs_example 0 = 0"
    by (simp_all add: fdata_def example_defs)
qed

section \<open>Properties\<close>

text \<open>
  C2. Writing and reading a file: with room in the log and enough free blocks, \<open>inode_write\<close> of \<open>src\<close> at an offset
  inside the file returns the number of bytes, and afterwards the file is the old byte sequence with \<open>src\<close> written over it
  (longer if \<open>src\<close> reaches past its end). Blocks are allocated on the way, directly and through the indirect block, yet no
  block of another file and no other inode changes, and every later \<open>inode_read\<close> returns that part of the new
  sequence which it asks for, cut at the end of the file.
\<close>

theorem file_write_read:
  assumes "layout s n" "room (6 * nblk (unat offset) (length src) + 1) s" "2 * nblk (unat offset) (length src) \<le> free_cnt s n"
    and "file_ok s n i" "iblock_ok s i" "unat offset \<le> isize s i" "unat offset + length src \<le> 139 * 512"
  shows "\<exists>s'. inode_write io i src offset s = Some (int (length src), s') \<and> file_ok s' n i
    \<and> fdata s' i = overwrite (unat offset) src (fdata s i) \<and> others_kept n i s s' \<and> (\<forall>j. j \<noteq> i \<longrightarrow> inodes s' ! j = inodes s ! j)
    \<and> (\<forall>ofs cnt. unat ofs \<le> isize s' i \<longrightarrow> unat ofs + unat cnt < 2 ^ 32 \<longrightarrow> inode_read io i ofs cnt s' =
         Some (int (min (unat cnt) (isize s' i - unat ofs)),
               take (unat cnt) (drop (unat ofs) (overwrite (unat offset) src (fdata s i))), s'))"
proof -
  have rm: "room (6 * nblk (unat offset) (length src) + Suc 0) s"
    using assms(2) by simp
  obtain s' where w: "inode_write io i src offset s = Some (int (length src), s')" "file_ok s' n i"
      "fdata s' i = overwrite (unat offset) src (fdata s i)" "others_kept n i s s'"
      "\<exists>x z. inodes s' = (inodes s)[i := (inodes s ! i)\<lparr>disk_inode := (disk_inode (inodes s ! i))\<lparr>addrs := x, dsize := z\<rparr>\<rparr>]"
    using inode_write_file [OF assms(1) rm assms(3-7)] by blast
  moreover have "\<forall>j. j \<noteq> i \<longrightarrow> inodes s' ! j = inodes s ! j"
    using w(5) by auto
  ultimately show ?thesis
    using inode_read_file [OF w(2)] by (intro exI [of _ s']) simp
qed

theorem file_write_read_witness:
  "\<exists>s'. inode_write \<lparr>dev_read = \<lambda>_. None, dev_write = \<lambda>_. None\<rparr> 0 [1, 2, 3] 0 fs_example = Some (3, s') \<and> fdata s' 0 = [1, 2, 3]
    \<and> inode_read \<lparr>dev_read = \<lambda>_. None, dev_write = \<lambda>_. None\<rparr> 0 1 5 s' = Some (2, [2, 3], s')"
proof -
  let ?io = "\<lparr>dev_read = \<lambda>_. None, dev_write = \<lambda>_. None\<rparr>"
  have pre: "room (6 * nblk (unat (0 :: u32)) (length [1, 2, 3 :: u8]) + 1) fs_example" "2 * nblk (unat (0 :: u32)) (length [1, 2, 3 :: u8]) \<le> free_cnt fs_example 8"
      "unat (0 :: u32) \<le> isize fs_example 0" "unat (0 :: u32) + length [1, 2, 3 :: u8] \<le> 139 * 512"
    by (simp_all add: nblk_def fs_example_room fs_example_free)
  obtain s' where w: "inode_write ?io 0 [1, 2, 3] 0 fs_example = Some (int (length [1, 2, 3 :: u8]), s')"
      "fdata s' 0 = overwrite (unat (0 :: u32)) [1, 2, 3] (fdata fs_example 0)"
      "\<forall>(ofs :: u32) (cnt :: u32). unat ofs \<le> isize s' 0 \<longrightarrow> unat ofs + unat cnt < 2 ^ 32 \<longrightarrow> inode_read ?io 0 ofs cnt s' =
         Some (int (min (unat cnt) (isize s' 0 - unat ofs)),
               take (unat cnt) (drop (unat ofs) (overwrite (unat (0 :: u32)) [1, 2, 3] (fdata fs_example 0))), s')"
    using file_write_read [OF fs_example_layout pre(1,2) fs_example_file(1,2) pre(3,4), of ?io]
    by (elim exE conjE) (rule that; assumption)
  have d: "fdata s' 0 = [1, 2, 3]"
    using w(2) fs_example_file(3) by (simp add: overwrite_def)
  then have "length (fdata s' 0) = 3"
    by simp
  then have "isize s' 0 = 3"
    by (simp add: fdata_def)
  then have "inode_read ?io 0 1 5 s' = Some (2, [2, 3], s')"
    using w(3) [rule_format, of 1 5] fs_example_file(3) by (simp add: overwrite_def)
  then show ?thesis
    using w(1) d by (intro exI [of _ s']) simp
qed


text \<open>When no block is free, \<open>balloc\<close> panics.\<close>

lemma balloc_full:
  assumes "layout s n" "\<And>k. k < n \<Longrightarrow> used s k"
  shows "balloc s = None"
proof -
  have "List.find (\<lambda>k. \<not> used s k) [0..<n] = None"
    unfolding find_None_iff using assms(2) by auto
  then show ?thesis
    using assms(1) by (simp add: balloc_find layout_def)
qed

lemma bfree_clear:
  assumes "layout s n" "k < n" "\<not> used s k"
  shows "bfree (data_block s k) s = None"
proof -
  have "n < 2 ^ 32"
    using assms(1) by (auto simp: layout_def)
  then have kw: "unat (of_nat k :: u32) = k"
    using assms(2) by (simp add: unat_of_nat)
  have d: "data_block s k - bdata_start (sb s) = of_nat k"
    by (simp add: data_block_def)
  have "unat (of_nat k mod 4096 :: u32) = k mod 4096" "of_nat k div 4096 = (of_nat (k div 4096) :: u32)"
    using kw by (simp_all add: unat_mod word_unat_eq_iff unat_div unat_of_nat)
  then show ?thesis
    using assms(3) by (simp add: bfree_def Let_def d kassert_def used_def bmap_block_def BITS_PER_BLOCK_def)
qed

text \<open>
  C19. \<open>balloc\<close> takes the first free data block and no other, fills it with zeros and leaves the contents of every
  other data block alone; \<open>bfree\<close> of that block restores the bitmap, and a second \<open>bfree\<close> of it fails its assertion.
\<close>

theorem balloc_bfree_correct:
  assumes "layout s n" "room 3 s" "k < n" "\<not> used s k" "\<forall>j < k. used s j"
  shows "\<exists>s1 s2. balloc s = Some (data_block s k, s1) \<and> rd s1 (data_block s k) = replicate 512 0
    \<and> (\<forall>j < n. used s1 j = (j = k \<or> used s j)) \<and> (\<forall>j < n. j \<noteq> k \<longrightarrow> rd s1 (data_block s j) = rd s (data_block s j))
    \<and> bfree (data_block s k) s1 = Some s2 \<and> (\<forall>j < n. used s2 j = used s j) \<and> bfree (data_block s k) s2 = None"
proof -
  have ex: "\<exists>k < n. \<not> used s k" and rm: "room (Suc (Suc 1)) s"
    using assms by (auto simp: numeral_3_eq_3)
  obtain k' s1 where b: "balloc s = Some (data_block s k', s1)" "k' < n" "\<not> used s k'" "\<And>i. i < k' \<Longrightarrow> used s i" "room 1 s1" "same_geo s s1"
      "inodes s1 = inodes s" "\<And>j. j < n \<Longrightarrow> used s1 j = (j = k' \<or> used s j)" "rd s1 (data_block s k') = replicate 512 0"
      "\<And>b. b \<noteq> data_block s k' \<Longrightarrow> b \<noteq> bmap_block s (k' div 4096) \<Longrightarrow> rd s1 b = rd s b"
    by (rule balloc_ok [OF assms(1) rm ex]) (rule that)
  have k: "k' = k"
    using b(3,4) assms(4,5) by (metis linorder_neqE_nat)
  have other: "rd s1 (data_block s j) = rd s (data_block s j)" if "j < n" "j \<noteq> k" for j
    using b(10) data_block_inj [OF assms(1) that(1) assms(3)] that assms(3) unfolding k by blast
  have lay1: "layout s1 n" and db: "data_block s1 = data_block s"
    using assms(1) same_geo_simps [OF b(6)] by simp_all
  have "room (Suc 0) s1" "used s1 k"
    using b(5,8) assms(3) k by simp_all
  from bfree_ok [OF lay1 assms(3) this] obtain s2 where f: "bfree (data_block s k) s1 = Some s2" "same_geo s1 s2"
      "\<And>j. j < n \<Longrightarrow> used s2 j = (j \<noteq> k \<and> used s1 j)"
    unfolding db by blast
  have lay2: "layout s2 n" and db2: "data_block s2 = data_block s"
    using lay1 same_geo_simps [OF f(2)] db by simp_all
  have "bfree (data_block s k) s2 = None"
    using bfree_clear [OF lay2 assms(3)] f(3) assms(3) db2 by simp
  then show ?thesis
    using b(1,8,9) f(1,3) other assms(4) unfolding k by auto
qed

theorem balloc_bfree_correct_witness:
  "\<exists>s1 s2. balloc fs_example = Some (61, s1) \<and> bfree 61 s1 = Some s2 \<and> bfree 61 s2 = None"
proof -
  have "data_block fs_example 0 = 61"
    by (simp add: data_block_def example_defs)
  then show ?thesis
    using balloc_bfree_correct [OF fs_example_layout fs_example_room, of 0] fs_example_free(2) by auto
qed

lemma same_block_other_slot:
  assumes "GET_INODE_BLOCK_NO a b = GET_INODE_BLOCK_NO c b" "a \<noteq> c"
  shows "dip_off a + 17 \<le> dip_off c \<or> dip_off c + 17 \<le> dip_off a"
proof -
  have "a div 7 = c div 7"
    using assms(1) by (simp add: GET_INODE_BLOCK_NO_def INODES_PER_BLOCK_def)
  then have "unat (a div 7) = unat (c div 7)"
    by simp
  then have "unat a div 7 = unat c div 7"
    by (simp add: unat_div)
  moreover have "unat a \<noteq> unat c"
    using assms(2) by (simp add: word_unat_eq_iff)
  ultimately have "unat a mod 7 \<noteq> unat c mod 7"
    by (metis div_mult_mod_eq)
  then show ?thesis
    unfolding dip_off_def INODES_PER_BLOCK_def by linarith
qed

text \<open>
  C22. \<open>inode_update\<close> stores the cached inode so that it can be read back: once the cache entry has been dropped
  and locked again, \<open>inode_lock\<close> finds the same inode, and no other inode on the disk changed, neither in the same block nor in
  another one.
\<close>

theorem inode_update_lock:
  assumes "layout s n" "room 1 s" "iblock_ok s i" "i < length (inodes s)" "length (iaddrs s i) = 12"
    and "dtype (disk_inode (inodes s ! i)) \<noteq> INODE_NONE" "iref (inodes s ! i) \<ge> 1"
  shows "\<exists>s1 s2. inode_update i s = Some s1
    \<and> (\<forall>m. m \<noteq> inum (inodes s ! i) \<longrightarrow> get_dinode (rd s1 (GET_INODE_BLOCK_NO m (sb s1))) (dip_off m)
         = get_dinode (rd s (GET_INODE_BLOCK_NO m (sb s))) (dip_off m))
    \<and> inode_lock i (upd_inode i (\<lambda>ip. ip\<lparr>locked := False, valid := False, disk_inode := dinode0\<rparr>) s1) = Some s2
    \<and> inodes s2 = (inodes s)[i := (inodes s ! i)\<lparr>locked := True, valid := True\<rparr>]"
proof -
  have rm: "room (Suc 0) s"
    using assms(2) by simp
  let ?ip = "inodes s ! i"
  let ?w = "dip_off (inum ?ip)"
  obtain s1 where u: "inode_update i s = Some s1" "frame n i s s1" "rd s1 = (rd s)(iblock s i := put_dinode (rd s (iblock s i)) ?w (disk_inode ?ip))"
    using inode_update_ok [OF assms(1) rm assms(3), of i] by metis
  have g: "inodes s1 = inodes s" "sb s1 = sb s"
    using u(2) by (simp_all add: frame_def same_geo_def)
  have len: "length (rd s (iblock s i)) = 512"
    using assms(2) by simp
  note gp = get_put_dinode [OF len assms(5) dip_off_bound]
  have other: "get_dinode (rd s1 (GET_INODE_BLOCK_NO m (sb s))) (dip_off m) = get_dinode (rd s (GET_INODE_BLOCK_NO m (sb s))) (dip_off m)"
    if "m \<noteq> inum ?ip" for m
  proof (cases "GET_INODE_BLOCK_NO m (sb s) = iblock s i")
    case True
    then show ?thesis
      using gp(2) [of "dip_off m"] same_block_other_slot [OF True that] dip_off_bound [of m] u(3) by auto
  qed (simp add: u(3))
  have "get_dinode (rd s1 (iblock s i)) ?w = disk_inode ?ip"
    using gp(1) u(3) by simp
  then have "inode_lock i (upd_inode i (\<lambda>ip. ip\<lparr>locked := False, valid := False, disk_inode := dinode0\<rparr>) s1) =
      Some (s1\<lparr>inodes := (inodes s)[i := (inodes s ! i)\<lparr>locked := True, valid := True\<rparr>]\<rparr>)"
    using assms(4,6,7) g by (simp add: inode_lock_def isem_wait_def upd_inode_def kassert_def Let_def)
  then show ?thesis
    using u(1) other g(2) by auto
qed

theorem inode_update_lock_witness:
  "\<exists>s1 s2. inode_update 0 fs_example = Some s1
    \<and> inode_lock 0 (upd_inode 0 (\<lambda>ip. ip\<lparr>locked := False, valid := False, disk_inode := dinode0\<rparr>) s1) = Some s2
    \<and> dtype (disk_inode (inodes s2 ! 0)) = INODE_FILE"
proof -
  have "0 < length (inodes fs_example)" "length (iaddrs fs_example 0) = 12" "dtype (disk_inode (inodes fs_example ! 0)) \<noteq> INODE_NONE"
    "iref (inodes fs_example ! 0) \<ge> 1"
    by (simp_all add: example_defs)
  from inode_update_lock [OF fs_example_layout fs_example_room fs_example_file(2) this] obtain s1 s2
    where "inode_update 0 fs_example = Some s1"
      "inode_lock 0 (upd_inode 0 (\<lambda>ip. ip\<lparr>locked := False, valid := False, disk_inode := dinode0\<rparr>) s1) = Some s2"
      "inodes s2 = (inodes fs_example)[0 := (inodes fs_example ! 0)\<lparr>locked := True, valid := True\<rparr>]"
    by auto
  then show ?thesis
    by (auto simp: fs_example_def file_example_def)
qed


section \<open>The inode cache\<close>

text \<open>At most one entry of the cache stands for an inode.\<close>

definition icache_ok :: "fs \<Rightarrow> bool" where
  "icache_ok s = (length (inodes s) = NINODES \<and> (\<forall>ip \<in> set (inodes s). iref ip \<ge> 0)
     \<and> (\<forall>a < NINODES. \<forall>b < NINODES. iref (inodes s ! a) > 0 \<longrightarrow> iref (inodes s ! b) > 0 \<longrightarrow>
          inum (inodes s ! a) = inum (inodes s ! b) \<longrightarrow> a = b))"

lemma upd_inode_nth:
  "i < length (inodes s) \<Longrightarrow> inodes (upd_inode i f s) ! j = (if j = i then f (inodes s ! i) else inodes s ! j)"
  "length (inodes (upd_inode i f s)) = length (inodes s)"
  by (simp_all add: upd_inode_def)

lemma icache_okI:
  assumes "icache_ok s" "i < NINODES" "0 \<le> iref (f (inodes s ! i))"
    and "0 < iref (f (inodes s ! i)) \<Longrightarrow> inum (f (inodes s ! i)) = inum (inodes s ! i) \<and> iref (inodes s ! i) > 0
      \<or> (\<forall>a < NINODES. iref (inodes s ! a) > 0 \<longrightarrow> inum (inodes s ! a) \<noteq> inum (f (inodes s ! i)))"
  shows "icache_ok (upd_inode i f s)"
proof -
  have l: "length (inodes s) = NINODES" "\<And>ip. ip \<in> set (inodes s) \<Longrightarrow> iref ip \<ge> 0"
     "\<And>a b. a < NINODES \<Longrightarrow> b < NINODES \<Longrightarrow> iref (inodes s ! a) > 0 \<Longrightarrow> iref (inodes s ! b) > 0 \<Longrightarrow>
        inum (inodes s ! a) = inum (inodes s ! b) \<Longrightarrow> a = b"
    using assms(1) by (auto simp: icache_ok_def)
  have "0 \<le> iref ip" if "ip \<in> set (inodes (upd_inode i f s))" for ip
    using that set_update_subset_insert [of "inodes s" i] l(2) assms(3) by (auto simp: upd_inode_def)
  moreover have "a = b" if "a < NINODES" "b < NINODES" "iref (inodes (upd_inode i f s) ! a) > 0" "iref (inodes (upd_inode i f s) ! b) > 0"
      "inum (inodes (upd_inode i f s) ! a) = inum (inodes (upd_inode i f s) ! b)" for a b
    using that assms(2,4) l(1) l(3) [of a b] l(3) [of i b] l(3) [of a i] by (auto simp: upd_inode_nth split: if_splits)
  ultimately show ?thesis
    using l(1) by (simp add: icache_ok_def upd_inode_nth(2))
qed

text \<open>
  C23. The inode cache is consistent: \<open>iget\<close> returns an entry for the inode it is asked for with its count raised by
  one; as long as the inode stays referenced, every \<open>iget\<close> of it returns the same entry, so that there are never two entries for
  one inode; \<open>inode_dup\<close> and the release of a reference keep the invariant. Only a cache whose entries are all in use
  makes \<open>iget\<close> panic.
\<close>

theorem iget_unique:
  assumes "icache_ok s"
  shows "case iget n s of
      Some (i, s') \<Rightarrow> icache_ok s' \<and> i < NINODES \<and> inum (inodes s' ! i) = n \<and> iref (inodes s' ! i) = iref (inodes s ! i) + 1
        \<and> (\<forall>j. j \<noteq> i \<longrightarrow> inodes s' ! j = inodes s ! j) \<and> fst (the (iget n s')) = i
        \<and> icache_ok (snd (inode_dup i s')) \<and> icache_ok (upd_inode i (\<lambda>ip. ip\<lparr>iref := iref ip - 1\<rparr>) s')
    | None \<Rightarrow> (\<forall>i < NINODES. iref (inodes s ! i) > 0 \<and> inum (inodes s ! i) \<noteq> n)"
proof -
  have l: "length (inodes s) = NINODES" "\<And>i. i < NINODES \<Longrightarrow> iref (inodes s ! i) \<ge> 0"
    using assms by (auto simp: icache_ok_def)
  let ?P = "\<lambda>s i. iref (inodes s ! i) > 0 \<and> inum (inodes s ! i) = n"
  have after: "icache_ok s' \<and> fst (the (iget n s')) = i \<and> icache_ok (snd (inode_dup i s')) \<and> icache_ok (upd_inode i (\<lambda>ip. ip\<lparr>iref := iref ip - 1\<rparr>) s')"
    if ok: "icache_ok s'" and p: "?P s' i" and i: "i < NINODES" for s' i
  proof -
    obtain k where k: "List.find (?P s') [0..<NINODES] = Some k"
      using find_None_iff [of "?P s'" "[0..<NINODES]"] p i by fastforce
    then have "k < NINODES" "?P s' k"
      by (auto simp: find_Some_iff)
    then have "k = i"
      using ok p i unfolding icache_ok_def by metis
    then have "fst (the (iget n s')) = i"
      using k by (simp add: iget_def)
    moreover have "icache_ok (snd (inode_dup i s'))" "icache_ok (upd_inode i (\<lambda>ip. ip\<lparr>iref := iref ip - 1\<rparr>) s')"
      unfolding inode_dup_def snd_conv by (rule icache_okI [OF ok i]; use p in simp)+
    ultimately show ?thesis
      using ok by blast
  qed
  show ?thesis
  proof (cases "List.find (?P s) [0..<NINODES]")
    case (Some i)
    then have i: "i < NINODES" "?P s i"
      by (auto simp: find_Some_iff)
    let ?s = "upd_inode i (\<lambda>ip. ip\<lparr>iref := iref ip + 1\<rparr>) s"
    have "iget n s = Some (i, ?s)"
      using Some by (simp add: iget_def)
    moreover have "icache_ok ?s"
      by (rule icache_okI [OF assms i(1)]) (use i(2) in simp_all)
    ultimately show ?thesis
      using after [of ?s i] i l(1) by (simp add: upd_inode_nth)
  next
    case None
    then have none: "\<not> ?P s a" if "a < NINODES" for a
      using that by (auto simp: find_None_iff)
    show ?thesis
    proof (cases "List.find (\<lambda>i. iref (inodes s ! i) = 0) [0..<NINODES]")
      case free: (Some i)
      then have i: "i < NINODES" "iref (inodes s ! i) = 0"
        by (auto simp: find_Some_iff)
      let ?s = "upd_inode i (\<lambda>ip. ip\<lparr>inum := n, iref := 1, valid := False\<rparr>) s"
      have "iget n s = Some (i, ?s)"
        using None free by (simp add: iget_def)
      moreover have "icache_ok ?s"
        by (rule icache_okI [OF assms i(1)]) (use none in auto)
      ultimately show ?thesis
        using after [of ?s i] i l(1) by (simp add: upd_inode_nth)
    next
      case none0: None
      then have "iref (inodes s ! i) > 0" if "i < NINODES" for i
        using that l(2) [OF that] by (auto simp: find_None_iff)
      moreover have "iget n s = None"
        using None none0 by (simp add: iget_def)
      ultimately show ?thesis
        using none by simp
    qed
  qed
qed

theorem iget_unique_witness:
  "\<exists>s'. iget 5 (fs_example\<lparr>inodes := file_example # replicate 49 (file_example\<lparr>iref := 0\<rparr>)\<rparr>) = Some (0, s') \<and> iref (inodes s' ! 0) = 2"
proof -
  let ?s = "fs_example\<lparr>inodes := file_example # replicate 49 (file_example\<lparr>iref := 0\<rparr>)\<rparr>"
  have z: "i = 0" if "i < NINODES" "iref (inodes ?s ! i) > 0" for i
    using that by (cases i) (simp_all add: NINODES_def)
  have ok: "icache_ok ?s"
    unfolding icache_ok_def
  proof (intro conjI ballI allI impI)
    show "length (inodes ?s) = NINODES"
      by (simp add: NINODES_def)
    show "iref ip \<ge> 0" if "ip \<in> set (inodes ?s)" for ip
      using that by (auto simp: file_example_def)
    show "a = b" if "a < NINODES" "b < NINODES" "iref (inodes ?s ! a) > 0" "iref (inodes ?s ! b) > 0" for a b
      using z that by blast
  qed
  have "fst (the (iget 5 ?s)) = 0" "iget 5 ?s \<noteq> None"
    by (simp_all add: iget_def file_example_def NINODES_def upt_conv_Cons)
  then show ?thesis
    using iget_unique [OF ok, of 5] by (cases "iget 5 ?s") (auto simp: file_example_def)
qed

end
