(* ===== verification/Dir.thy ===== *)
theory Dir
  imports Inode
begin

text \<open>
  Directories and path names: \<open>fs/dir.c\<close> and \<open>fs/pathname.c\<close>.

  A directory entry is 64 bytes: the inode number and a name field of 60 bytes. Path names and names are byte strings
  without their terminating zero. Storing past the end of one of the 60-byte name buffers, or comparing past the end
  of a name field that has no zero, is undefined behaviour (\<open>None\<close>).
\<close>

section \<open>Directory entries\<close>

definition DIRENT_NAME_LENGTH :: nat where "DIRENT_NAME_LENGTH = 60"
definition SIZEOF_DIRENT :: nat where "SIZEOF_DIRENT = 64"

record dirent =
  d_inum :: u32
  d_name :: "u8 list"

definition get_dirent :: "u8 list \<Rightarrow> dirent" where
  "get_dirent bs = \<lparr>d_inum = get32 bs 0, d_name = drop 4 bs\<rparr>"

definition dirent_bytes :: "dirent \<Rightarrow> u8 list" where
  "dirent_bytes de = le32_bytes (d_inum de) @ d_name de"

definition cstr :: "u8 list \<Rightarrow> u8 list" where "cstr bs = takeWhile (\<lambda>c. c \<noteq> 0) bs"

text \<open>\<open>strcmp(dirent.name, name) == 0\<close>\<close>

definition name_matches :: "u8 list \<Rightarrow> u8 list \<Rightarrow> bool option" where
  "name_matches field name = do {
     kassert (\<not> (0 \<notin> set field \<and> field = take (length field) name));
     Some (cstr field = name)
   }"

text \<open>\<open>strcpy\<close> into the 60-byte field; the bytes behind the zero stay what they were.\<close>

definition set_name :: "u8 list \<Rightarrow> u8 list \<Rightarrow> u8 list option" where
  "set_name field name = do {
     kassert (length name < length field);
     Some (name @ [0] @ drop (length name + 1) field)
   }"

section \<open>Directories (dir.c)\<close>

definition dir_offsets :: "nat \<Rightarrow> nat \<Rightarrow> nat list" where
  "dir_offsets start sz = map (\<lambda>k. start + SIZEOF_DIRENT * k) [0..<(sz - start + SIZEOF_DIRENT - 1) div SIZEOF_DIRENT]"

fun lookup_loop :: "devio \<Rightarrow> nat \<Rightarrow> u8 list \<Rightarrow> nat list \<Rightarrow> fs \<Rightarrow> ((nat \<times> nat) option \<times> fs) option" where
  "lookup_loop io dir name [] s = Some (None, s)"
| "lookup_loop io dir name (offset # os) s = do {
     (n, bs, s1) \<leftarrow> inode_read io dir (of_nat offset) (of_nat SIZEOF_DIRENT) s;
     if n < 0 then lookup_loop io dir name os s1
     else do {
       kassert (n = int SIZEOF_DIRENT);
       let de = get_dirent bs;
       hit \<leftarrow> (if d_inum de \<noteq> 0 then name_matches (d_name de) name else Some False);
       if hit then do {
         (ip, s2) \<leftarrow> iget (d_inum de) s1;
         Some (Some (ip, offset), s2)
       } else lookup_loop io dir name os s1
     }
   }"

definition dir_lookup :: "devio \<Rightarrow> nat \<Rightarrow> u8 list \<Rightarrow> fs \<Rightarrow> ((nat \<times> nat) option \<times> fs) option" where
  "dir_lookup io dir name s = do {
     let dp = disk_inode (inodes s ! dir);
     kassert (dtype dp = INODE_DIRECTORY);
     kassert (length name \<le> DIRENT_NAME_LENGTH);
     kassert (unat (dsize dp) mod SIZEOF_DIRENT = 0);
     kassert (locked (inodes s ! dir));
     lookup_loop io dir name (dir_offsets 0 (unat (dsize dp))) s
   }"

text \<open>
  The search of \<open>dir_link\<close> for an empty entry: \<open>Inl\<close> for the return \<open>-1\<close>, otherwise the offset where the loop stopped.
\<close>

fun empty_loop :: "devio \<Rightarrow> nat \<Rightarrow> nat list \<Rightarrow> nat \<Rightarrow> fs \<Rightarrow> ((unit + nat) \<times> fs) option" where
  "empty_loop io dir [] stop s = Some (Inr stop, s)"
| "empty_loop io dir (offset # os) stop s = do {
     (n, bs, s1) \<leftarrow> inode_read io dir (of_nat offset) (of_nat SIZEOF_DIRENT) s;
     if n < 0 then Some (Inl (), s1)
     else do {
       kassert (n = int SIZEOF_DIRENT);
       if d_inum (get_dirent bs) = 0 then Some (Inr offset, s1)
       else empty_loop io dir os stop s1
     }
   }"

definition dir_link :: "devio \<Rightarrow> nat \<Rightarrow> dirent \<Rightarrow> fs \<Rightarrow> (int \<times> fs) option" where
  "dir_link io dir new_dirent s = do {
     kassert (dtype (disk_inode (inodes s ! dir)) = INODE_DIRECTORY);
     kassert (d_inum new_dirent \<noteq> 0);
     kassert (length (cstr (d_name new_dirent)) \<noteq> 0);
     kassert (locked (inodes s ! dir));
     (found, s1) \<leftarrow> dir_lookup io dir (cstr (d_name new_dirent)) s;
     (case found of
        Some (ip, _) \<Rightarrow> do { s2 \<leftarrow> inode_put ip s1; Some (-1, s2) }
      | None \<Rightarrow> do {
          let sz = unat (dsize (disk_inode (inodes s1 ! dir)));
          (r, s2) \<leftarrow> empty_loop io dir (dir_offsets 0 sz) sz s1;
          (case r of
             Inl _ \<Rightarrow> Some (-1, s2)
           | Inr offset \<Rightarrow> do {
               (n, s3) \<leftarrow> inode_write io dir (dirent_bytes new_dirent) (of_nat offset) s2;
               if n < 0 then Some (-1, s3)
               else do { kassert (n = int SIZEOF_DIRENT); Some (0, s3) }
             })
        })
   }"

definition dir_unlink :: "devio \<Rightarrow> nat \<Rightarrow> u32 \<Rightarrow> fs \<Rightarrow> (int \<times> fs) option" where
  "dir_unlink io dir offset s = do {
     kassert (locked (inodes s ! dir));
     kassert (dtype (disk_inode (inodes s ! dir)) = INODE_DIRECTORY);
     kassert (dsize (disk_inode (inodes s ! dir)) > offset);
     kassert (unat offset mod SIZEOF_DIRENT = 0);
     (n, bs, s1) \<leftarrow> inode_read io dir offset (of_nat SIZEOF_DIRENT) s;
     kassert (n = int SIZEOF_DIRENT);
     kassert (d_inum (get_dirent bs) \<noteq> 0);
     (n2, s2) \<leftarrow> inode_write io dir (replicate SIZEOF_DIRENT 0) offset s1;
     Some (if n2 \<noteq> int SIZEOF_DIRENT then -1 else 0, s2)
   }"

fun isempty_loop :: "devio \<Rightarrow> nat \<Rightarrow> nat list \<Rightarrow> fs \<Rightarrow> (bool \<times> fs) option" where
  "isempty_loop io dir [] s = Some (True, s)"
| "isempty_loop io dir (offset # os) s = do {
     (n, bs, s1) \<leftarrow> inode_read io dir (of_nat offset) (of_nat SIZEOF_DIRENT) s;
     if n < 0 then Some (True, s1)
     else do {
       kassert (n = int SIZEOF_DIRENT);
       if d_inum (get_dirent bs) \<noteq> 0 then Some (False, s1) else isempty_loop io dir os s1
     }
   }"

definition dir_isempty :: "devio \<Rightarrow> nat \<Rightarrow> fs \<Rightarrow> (bool \<times> fs) option" where
  "dir_isempty io dir s = do {
     kassert (dtype (disk_inode (inodes s ! dir)) = INODE_DIRECTORY);
     kassert (locked (inodes s ! dir));
     isempty_loop io dir (dir_offsets (SIZEOF_DIRENT * 2) (unat (dsize (disk_inode (inodes s ! dir))))) s
   }"

text \<open>\<open>junk\<close> is what the uninitialised name field of the local \<open>dirent\<close> holds.\<close>

definition dir_make :: "devio \<Rightarrow> u8 list \<Rightarrow> nat \<Rightarrow> nat \<Rightarrow> fs \<Rightarrow> (int \<times> fs) option" where
  "dir_make io junk parent dir s = do {
     kassert (locked (inodes s ! parent) \<and> locked (inodes s ! dir));
     kassert (dtype (disk_inode (inodes s ! parent)) = INODE_DIRECTORY);
     kassert (dtype (disk_inode (inodes s ! dir)) = INODE_DIRECTORY);
     f1 \<leftarrow> set_name junk [46];
     (r1, s1) \<leftarrow> dir_link io dir \<lparr>d_inum = inum (inodes s ! dir), d_name = f1\<rparr> s;
     if r1 < 0 then Some (-1, s1)
     else do {
       f2 \<leftarrow> set_name f1 [46, 46];
       (r2, s2) \<leftarrow> dir_link io dir \<lparr>d_inum = inum (inodes s ! parent), d_name = f2\<rparr> s1;
       if r2 < 0 then Some (-1, s2)
       else do {
         s3 \<leftarrow> inode_update parent (upd_dinode parent (\<lambda>di. di\<lparr>nlink := nlink di + 1\<rparr>) s2);
         Some (0, s3)
       }
     }
   }"

section \<open>Path names (pathname.c)\<close>

abbreviation slash :: u8 where "slash \<equiv> 47"

definition path_skipelem :: "u8 list \<Rightarrow> (u8 list \<times> u8 list) option" where
  "path_skipelem path =
     (case dropWhile (\<lambda>c. c = slash) path of
        [] \<Rightarrow> None
      | p \<Rightarrow> Some (takeWhile (\<lambda>c. c \<noteq> slash) p, dropWhile (\<lambda>c. c \<noteq> slash) p))"

lemma elem_shorter:
  assumes "dropWhile (\<lambda>c. c = slash) path \<noteq> []"
  shows "length (dropWhile (\<lambda>c. c \<noteq> slash) (dropWhile (\<lambda>c. c = slash) path)) < length path"
proof -
  obtain c cs where p: "dropWhile (\<lambda>c. c = slash) path = c # cs"
    using assms by (cases "dropWhile (\<lambda>c. c = slash) path") auto
  then have "c \<noteq> slash"
    using hd_dropWhile [OF assms] by simp
  then have "length (dropWhile (\<lambda>c. c \<noteq> slash) (c # cs)) \<le> length cs"
    by (simp add: length_dropWhile_le)
  also have "\<dots> < length (dropWhile (\<lambda>c. c = slash) path)"
    by (simp add: p)
  finally show ?thesis
    using length_dropWhile_le [of "\<lambda>c. c = slash" path] by (simp add: p)
qed

lemma path_skipelem_shorter: "path_skipelem path = Some (name, rest) \<Longrightarrow> length rest < length path"
proof (cases "dropWhile (\<lambda>c. c = slash) path")
  case (Cons c cs)
  then have ne: "dropWhile (\<lambda>c. c = slash) path \<noteq> []"
    by (simp only: list.distinct not_False_eq_True)
  assume "path_skipelem path = Some (name, rest)"
  then have "rest = dropWhile (\<lambda>c. c \<noteq> slash) (dropWhile (\<lambda>c. c = slash) path)"
    by (simp only: path_skipelem_def Cons list.case option.inject prod.inject)
  then show ?thesis
    using elem_shorter [OF ne] by (simp only:)
qed (simp add: path_skipelem_def)

text \<open>
  The loop of \<open>path_parent\<close>: \<open>parent\<close> and \<open>name\<close> are the two output buffers, \<open>seg\<close> the text between the pointers \<open>p\<close> and
  \<open>path\<close> when an iteration starts.
\<close>

function path_parent_loop :: "u8 list \<Rightarrow> u8 list \<Rightarrow> u8 list \<Rightarrow> u8 list \<Rightarrow> u8 list \<times> u8 list" where
  "path_parent_loop parent name seg path =
     (let sl = takeWhile (\<lambda>c. c = slash) path;
          p = dropWhile (\<lambda>c. c = slash) path in
      if p = [] then (parent, name)
      else (let e = takeWhile (\<lambda>c. c \<noteq> slash) p in
            path_parent_loop (parent @ seg @ sl) e e (dropWhile (\<lambda>c. c \<noteq> slash) p)))"
  by pat_completeness auto
termination
  by (relation "measure (\<lambda>(parent, name, seg, path). length path)") (auto intro: elem_shorter)

declare path_parent_loop.simps [simp del]

text \<open>\<open>name0\<close> is what the buffer \<open>name\<close> holds before the call.\<close>

definition path_parent :: "u8 list \<Rightarrow> u8 list \<Rightarrow> u8 list \<times> u8 list" where
  "path_parent name0 path = path_parent_loop [] name0 [] path"

text \<open>The loop of \<open>path_lookup0\<close>: the inode found or \<open>None\<close>, and the name buffer.\<close>

function path_lookup_loop :: "devio \<Rightarrow> bool \<Rightarrow> nat \<Rightarrow> u8 list \<Rightarrow> u8 list \<Rightarrow> fs \<Rightarrow> (nat option \<times> u8 list \<times> fs) option" where
  "path_lookup_loop io nameiparent parent path name s =
     (case path_skipelem path of
        None \<Rightarrow> (if nameiparent then do { s1 \<leftarrow> inode_put parent s; Some (None, name, s1) }
                 else Some (Some parent, name, s))
      | Some (name1, path1) \<Rightarrow> do {
          kassert (length name1 < DIRENT_NAME_LENGTH);
          s1 \<leftarrow> inode_lock parent s;
          if dtype (disk_inode (inodes s1 ! parent)) \<noteq> INODE_DIRECTORY then do {
            s2 \<leftarrow> inode_unlockput parent s1;
            Some (None, name1, s2)
          }
          else if dropWhile (\<lambda>c. c = slash) path1 = [] \<and> nameiparent then do {
            s2 \<leftarrow> inode_unlock parent s1;
            Some (Some parent, name1, s2)
          }
          else do {
            (nxt, s2) \<leftarrow> dir_lookup io parent name1 s1;
            (case nxt of
               None \<Rightarrow> do { s3 \<leftarrow> inode_unlockput parent s2; Some (None, name1, s3) }
             | Some (ip, _) \<Rightarrow> do {
                 s3 \<leftarrow> inode_unlockput parent s2;
                 path_lookup_loop io nameiparent ip (dropWhile (\<lambda>c. c = slash) path1) name1 s3
               })
          }
        })"
  by pat_completeness auto
termination
  by (relation "measure (\<lambda>(io, ni, parent, path, name, s). length path)")
     (auto dest!: path_skipelem_shorter intro: le_less_trans [OF length_dropWhile_le])

declare path_lookup_loop.simps [simp del]

definition path_lookup0 :: "devio \<Rightarrow> nat \<Rightarrow> u8 list \<Rightarrow> bool \<Rightarrow> fs \<Rightarrow> (nat option \<times> u8 list \<times> fs) option" where
  "path_lookup0 io cwd path nameiparent s =
     (case path of
        c # cs \<Rightarrow> if c = slash then do { (r, s1) \<leftarrow> iget ROOT_INUM s; path_lookup_loop io nameiparent r cs [] s1 }
                  else (let (d, s1) = inode_dup cwd s in path_lookup_loop io nameiparent d path [] s1)
      | [] \<Rightarrow> (let (d, s1) = inode_dup cwd s in path_lookup_loop io nameiparent d path [] s1))"

definition path_lookup :: "devio \<Rightarrow> nat \<Rightarrow> u8 list \<Rightarrow> fs \<Rightarrow> (nat option \<times> fs) option" where
  "path_lookup io cwd path s = do { (r, _, s1) \<leftarrow> path_lookup0 io cwd path False s; Some (r, s1) }"

definition path_lookup_parent :: "devio \<Rightarrow> nat \<Rightarrow> u8 list \<Rightarrow> fs \<Rightarrow> (nat option \<times> u8 list \<times> fs) option" where
  "path_lookup_parent io cwd path s = path_lookup0 io cwd path True s"

definition invalid_charset :: "u8 \<Rightarrow> bool" where "invalid_charset c = (c = slash \<or> c = 0x7F)"

text \<open>\<open>char\<close> is signed: bytes from 128 are negative.\<close>

definition path_valid_name :: "u8 list \<Rightarrow> bool" where
  "path_valid_name name =
     (if length name = 0 \<or> length name > DIRENT_NAME_LENGTH then False
      else if hd name = 43 \<or> hd name = 45 \<or> hd name = 46 then False
      else list_all (\<lambda>c. \<not> sint c \<le> 31 \<and> \<not> invalid_charset c) name)"


section \<open>The elements of a path\<close>

text \<open>The reference: the non-empty parts between the slashes.\<close>

fun split_at :: "u8 list \<Rightarrow> u8 list \<Rightarrow> u8 list list" where
  "split_at acc [] = [acc]"
| "split_at acc (c # cs) = (if c = slash then acc # split_at [] cs else split_at (acc @ [c]) cs)"

definition elems :: "u8 list \<Rightarrow> u8 list list" where
  "elems path = filter (\<lambda>e. e \<noteq> []) (split_at [] path)"

lemma split_at_noslash: "slash \<notin> set e \<Longrightarrow> split_at acc e = [acc @ e]"
  by (induction e arbitrary: acc) auto

lemma split_at_append: "slash \<notin> set e \<Longrightarrow> split_at acc (e @ slash # cs) = (acc @ e) # split_at [] cs"
  by (induction e arbitrary: acc) auto

lemma elems_dropWhile: "elems (dropWhile (\<lambda>c. c = slash) path) = elems path"
  by (induction path) (auto simp: elems_def)

lemma elems_step:
  assumes "hd p \<noteq> slash" "p \<noteq> []"
  shows "elems p = takeWhile (\<lambda>c. c \<noteq> slash) p # elems (dropWhile (\<lambda>c. c \<noteq> slash) p)"
proof -
  let ?e = "takeWhile (\<lambda>c. c \<noteq> slash) p" and ?r = "dropWhile (\<lambda>c. c \<noteq> slash) p"
  have e: "slash \<notin> set ?e"
    by (auto dest: set_takeWhileD)
  have "?e \<noteq> []"
    using assms by (cases p) auto
  moreover have p: "p = ?e @ ?r"
    by simp
  ultimately show ?thesis
  proof (cases ?r)
    case Nil
    then have "p = ?e"
      using p by (metis append_Nil2)
    then have "split_at [] p = [?e]"
      using split_at_noslash [OF e, of "[]"] by simp
    then show ?thesis
      using \<open>?e \<noteq> []\<close> unfolding Nil by (simp add: elems_def)
  next
    case (Cons c cs)
    then have "c = slash"
      using hd_dropWhile [of "\<lambda>c. c \<noteq> slash" p] by simp
    then have "split_at [] p = ?e # split_at [] cs"
      using split_at_append [OF e, of "[]" cs] p Cons by simp
    then show ?thesis
      using Cons \<open>c = slash\<close> \<open>?e \<noteq> []\<close> by (simp add: elems_def)
  qed
qed

lemma hd_dropWhile_slash: "dropWhile (\<lambda>c. c = slash) path \<noteq> [] \<Longrightarrow> hd (dropWhile (\<lambda>c. c = slash) path) \<noteq> slash"
  using hd_dropWhile [of "\<lambda>c. c = slash" path] by simp

text \<open>\<open>path_skipelem\<close> takes off the first element.\<close>

lemma path_skipelem_elems:
  "(path_skipelem path = None \<longleftrightarrow> elems path = []) \<and>
   (\<forall>name rest. path_skipelem path = Some (name, rest) \<longrightarrow> elems path = name # elems rest)"
proof (cases "dropWhile (\<lambda>c. c = slash) path")
  case Nil
  then have "elems path = elems []"
    by (subst elems_dropWhile [symmetric]) (simp only:)
  then have "elems path = []"
    by (simp add: elems_def)
  moreover have "path_skipelem path = None"
    unfolding path_skipelem_def Nil by (simp only: list.case)
  ultimately show ?thesis
    by simp
next
  case (Cons c cs)
  then have "elems path = takeWhile (\<lambda>c. c \<noteq> slash) (c # cs) # elems (dropWhile (\<lambda>c. c \<noteq> slash) (c # cs))"
    using elems_step [of "c # cs"] hd_dropWhile_slash [of path] elems_dropWhile [of path] by simp
  moreover have "path_skipelem path = Some (takeWhile (\<lambda>c. c \<noteq> slash) (c # cs), dropWhile (\<lambda>c. c \<noteq> slash) (c # cs))"
    unfolding path_skipelem_def Cons by (simp only: list.case)
  ultimately show ?thesis
    by simp
qed

lemma elems_append_slashes:
  assumes "\<forall>c \<in> set sl. c = slash" "sl \<noteq> [] \<or> xs = [] \<or> e = []" "slash \<notin> set e"
  shows "elems (xs @ sl @ e) = elems xs @ (if e = [] then [] else [e])"
proof -
  have sp: "filter (\<lambda>e. e \<noteq> []) (split_at acc (xs @ slash # ys)) = filter (\<lambda>e. e \<noteq> []) (split_at acc xs) @ elems ys" for acc ys
    by (induction xs arbitrary: acc) (auto simp: elems_def)
  have only: "elems (sl @ e) = (if e = [] then [] else [e])" if "\<forall>c \<in> set sl. c = slash" for sl
    using that assms(3) by (induction sl) (auto simp: elems_def split_at_noslash)
  show ?thesis
  proof (cases sl)
    case Nil
    then show ?thesis
      using assms only [of "[]"] by (auto simp: elems_def)
  next
    case (Cons c cs)
    then have "xs @ sl @ e = xs @ slash # (cs @ e)" "\<forall>c \<in> set cs. c = slash"
      using assms(1) by auto
    then show ?thesis
      using sp [of "[]" "cs @ e"] only [of cs] by (simp add: elems_def)
  qed
qed


lemma path_parent_loop_elems:
  assumes "parent @ seg = [] \<or> path = [] \<or> hd path = slash"
  shows "case path_parent_loop parent name seg path of (par, n) \<Rightarrow>
    if elems path = [] then par = parent \<and> n = name
    else n = last (elems path) \<and> elems par = elems (parent @ seg) @ butlast (elems path)"
  using assms
proof (induction "length path" arbitrary: parent name seg path rule: less_induct)
  case less
  let ?sl = "takeWhile (\<lambda>c. c = slash) path" and ?p = "dropWhile (\<lambda>c. c = slash) path"
  have el: "elems ?p = elems path"
    by (rule elems_dropWhile)
  show ?case
  proof (cases "?p = []")
    case True
    then have "elems path = []"
      using el unfolding True by (simp add: elems_def)
    then show ?thesis
      using True by (subst path_parent_loop.simps) (simp only: Let_def if_True case_prod_conv simp_thms)
  next
    case False
    let ?e = "takeWhile (\<lambda>c. c \<noteq> slash) ?p" and ?r = "dropWhile (\<lambda>c. c \<noteq> slash) ?p"
    have es: "elems path = ?e # elems ?r"
      using elems_step [OF hd_dropWhile_slash [OF False] False] el by simp
    have step: "path_parent_loop parent name seg path = path_parent_loop (parent @ seg @ ?sl) ?e ?e ?r"
      using False by (subst path_parent_loop.simps) (simp only: Let_def if_False)
    have ne: "slash \<notin> set ?e" "?e \<noteq> []"
      using False hd_dropWhile_slash [OF False] by (auto dest: set_takeWhileD simp only: takeWhile_eq_Nil_iff)
    have sls: "\<forall>c \<in> set ?sl. c = slash"
      by (auto dest: set_takeWhileD)
    have "?sl \<noteq> [] \<or> parent @ seg = []"
      using less.prems False by (cases path) auto
    then have ap: "elems (parent @ seg @ ?sl) = elems (parent @ seg)" "elems ((parent @ seg @ ?sl) @ ?e) = elems (parent @ seg) @ [?e]"
      using elems_append_slashes [OF sls, of "parent @ seg" "[]"] elems_append_slashes [OF sls _ ne(1), of "parent @ seg"] ne(2) by auto
    have pre: "(parent @ seg @ ?sl) @ ?e = [] \<or> ?r = [] \<or> hd ?r = slash"
      using hd_dropWhile [of "\<lambda>c. c \<noteq> slash" ?p] by blast
    note IH = less.hyps [OF elem_shorter [OF False] pre, of ?e]
    show ?thesis
      using IH ap unfolding step es append_assoc by (auto split: if_splits prod.splits)
  qed
qed

text \<open>
  C33. \<open>path_parent\<close> and \<open>path_skipelem\<close> agree with splitting a path at its slashes, where repeated, leading and trailing
  slashes do not count: \<open>path_skipelem\<close> takes off the first element, or reports that there is none; \<open>path_parent\<close> gives the
  last element and a path with all the others.
\<close>

theorem path_parent_correct:
  "(path_skipelem path = None \<longleftrightarrow> elems path = []) \<and>
   (\<forall>name rest. path_skipelem path = Some (name, rest) \<longrightarrow> elems path = name # elems rest) \<and>
   (elems path = [] \<longrightarrow> path_parent name0 path = ([], name0)) \<and>
   (elems path \<noteq> [] \<longrightarrow> (\<exists>parent. path_parent name0 path = (parent, last (elems path)) \<and> elems parent = butlast (elems path)))"
proof -
  obtain par n where p: "path_parent name0 path = (par, n)"
    by fastforce
  have "if elems path = [] then par = [] \<and> n = name0 else n = last (elems path) \<and> elems par = elems ([] @ []) @ butlast (elems path)"
    using path_parent_loop_elems [of "[]" "[]" path name0] p by (simp add: path_parent_def)
  moreover have "elems [] = []"
    by (simp add: elems_def)
  ultimately show ?thesis
    using path_skipelem_elems [of path] p by (auto split: if_splits)
qed

theorem path_parent_correct_witness:
  "\<exists>parent. path_parent [] [47, 97, 47, 47, 98, 99, 47] = (parent, [98, 99]) \<and> elems parent = [[97]]"
proof -
  have "elems [47, 97, 47, 47, 98, 99, 47] = [[97], [98, 99]]"
    by (simp add: elems_def)
  then show ?thesis
    using path_parent_correct [of "[47, 97, 47, 47, 98, 99, 47]" "[]"] by simp
qed


section \<open>A directory as a list of entries\<close>

definition entry_at :: "u8 list \<Rightarrow> nat \<Rightarrow> dirent" where
  "entry_at bs k = get_dirent (take 64 (drop (64 * k) bs))"

definition entries :: "fs \<Rightarrow> nat \<Rightarrow> dirent list" where
  "entries s dir = map (entry_at (fdata s dir)) [0..<isize s dir div 64]"

text \<open>A locked directory whose size is a multiple of the entry size and whose names are terminated.\<close>

definition dir_ok :: "fs \<Rightarrow> nat \<Rightarrow> nat \<Rightarrow> bool" where
  "dir_ok s n dir = (file_ok s n dir \<and> dtype (disk_inode (inodes s ! dir)) = INODE_DIRECTORY \<and> locked (inodes s ! dir)
     \<and> isize s dir mod 64 = 0 \<and> (\<forall>e \<in> set (entries s dir). 0 \<in> set (d_name e)))"

text \<open>The index of the first entry that a predicate holds of; the entry of a name; an empty entry.\<close>

definition find_idx :: "('a \<Rightarrow> bool) \<Rightarrow> 'a list \<Rightarrow> nat option" where
  "find_idx P xs = List.find (\<lambda>k. P (xs ! k)) [0..<length xs]"

definition is_name :: "u8 list \<Rightarrow> dirent \<Rightarrow> bool" where
  "is_name name e = (d_inum e \<noteq> 0 \<and> cstr (d_name e) = name)"

definition is_empty_entry :: "dirent \<Rightarrow> bool" where "is_empty_entry e = (d_inum e = 0)"

lemma entries_nth: "k < isize s dir div 64 \<Longrightarrow> entries s dir ! k = entry_at (fdata s dir) k"
  by (simp add: entries_def)

lemma length_entries [simp]: "length (entries s dir) = isize s dir div 64"
  by (simp add: entries_def)

lemma length_fdata [simp]: "length (fdata s i) = isize s i"
  by (simp add: fdata_def)

lemma dir_okD:
  assumes "dir_ok s n dir"
  shows "file_ok s n dir" "dtype (disk_inode (inodes s ! dir)) = INODE_DIRECTORY" "locked (inodes s ! dir)" "isize s dir mod 64 = 0"
    "\<And>k. k < isize s dir div 64 \<Longrightarrow> 0 \<in> set (d_name (entries s dir ! k))" "isize s dir \<le> 139 * 512" "dir < length (inodes s)"
  using assms by (auto simp: dir_ok_def file_ok_def ino_ok_def)

lemma dir_offsets_eq:
  assumes "sz mod 64 = 0" "start \<le> sz" "start mod 64 = 0"
  shows "dir_offsets start sz = map (\<lambda>k. 64 * k) [start div 64..<sz div 64]"
proof -
  obtain a b where ab: "sz = 64 * a" "start = 64 * b"
    using assms by (metis mod_eq_0_iff_dvd dvd_def)
  then have "(sz - start + 64 - 1) div 64 = a - b"
    using assms(2) by (simp add: diff_mult_distrib2 [symmetric])
  then have "dir_offsets start sz = map (\<lambda>k. 64 * b + 64 * k) [0..<a - b]"
    by (simp add: dir_offsets_def SIZEOF_DIRENT_def ab)
  also have "\<dots> = map (\<lambda>k. 64 * k) (map (\<lambda>k. b + k) [0..<a - b])"
    by (simp add: algebra_simps)
  also have "map (\<lambda>k. b + k) [0..<a - b] = [b..<a]"
    using assms(2) ab map_add_upt [of b "a - b"] by (simp add: add.commute)
  finally show ?thesis
    using ab by simp
qed

lemma read_entry:
  assumes "dir_ok s n dir" "k < isize s dir div 64"
  shows "inode_read io dir (of_nat (64 * k)) (of_nat SIZEOF_DIRENT) s = Some (64, take 64 (drop (64 * k) (fdata s dir)), s)"
proof -
  note d = dir_okD [OF assms(1)]
  have le: "64 * k + 64 \<le> isize s dir"
    using assms(2) by (metis Suc_leI mult_Suc_right add.commute le_trans mult_le_mono2 times_div_less_eq_dividend)
  then have "k < 2000"
    using d(6) by linarith
  then have u: "unat (of_nat (64 * k) :: u32) = 64 * k" "unat (of_nat SIZEOF_DIRENT :: u32) = 64"
    by (subst unat_of_nat; simp) (simp add: SIZEOF_DIRENT_def)
  show ?thesis
    using inode_read_file [OF d(1), of "of_nat (64 * k)" "of_nat SIZEOF_DIRENT" io] u le d(6) by simp
qed

lemma name_matches_terminated: "0 \<in> set field \<Longrightarrow> name_matches field name = Some (cstr field = name)"
  by (simp add: name_matches_def)

text \<open>The two search loops find the first entry.\<close>

lemma lookup_loop_find:
  assumes "dir_ok s n dir" "set ks \<subseteq> {0..<isize s dir div 64}"
  shows "lookup_loop io dir name (map (\<lambda>k. 64 * k) ks) s =
    (case List.find (\<lambda>k. is_name name (entries s dir ! k)) ks of
       None \<Rightarrow> Some (None, s)
     | Some k \<Rightarrow> do { (ip, s2) \<leftarrow> iget (d_inum (entries s dir ! k)) s; Some (Some (ip, 64 * k), s2) })"
  using assms(2)
proof (induction ks)
  case (Cons k ks)
  then have k: "k < isize s dir div 64"
    by simp
  have e: "get_dirent (take 64 (drop (64 * k) (fdata s dir))) = entries s dir ! k"
    using k by (simp add: entries_nth entry_at_def)
  show ?case
    using read_entry [OF assms(1) k, of io] dir_okD(5) [OF assms(1) k] Cons
    by (auto simp: e Let_def name_matches_terminated is_name_def SIZEOF_DIRENT_def)
qed simp

lemma empty_loop_find:
  assumes "dir_ok s n dir" "set ks \<subseteq> {0..<isize s dir div 64}"
  shows "empty_loop io dir (map (\<lambda>k. 64 * k) ks) stop s =
    Some (Inr (case List.find (\<lambda>k. is_empty_entry (entries s dir ! k)) ks of None \<Rightarrow> stop | Some k \<Rightarrow> 64 * k), s)"
  using assms(2)
proof (induction ks)
  case (Cons k ks)
  then have k: "k < isize s dir div 64"
    by simp
  have e: "get_dirent (take 64 (drop (64 * k) (fdata s dir))) = entries s dir ! k"
    using k by (simp add: entries_nth entry_at_def)
  show ?case
    using read_entry [OF assms(1) k, of io] Cons by (auto simp: e is_empty_entry_def SIZEOF_DIRENT_def)
qed simp

lemma isempty_loop_find:
  assumes "dir_ok s n dir" "set ks \<subseteq> {0..<isize s dir div 64}"
  shows "isempty_loop io dir (map (\<lambda>k. 64 * k) ks) s = Some (\<forall>k \<in> set ks. is_empty_entry (entries s dir ! k), s)"
  using assms(2)
proof (induction ks)
  case (Cons k ks)
  then have k: "k < isize s dir div 64"
    by simp
  have e: "get_dirent (take 64 (drop (64 * k) (fdata s dir))) = entries s dir ! k"
    using k by (simp add: entries_nth entry_at_def)
  show ?case
    using read_entry [OF assms(1) k, of io] Cons by (auto simp: e is_empty_entry_def SIZEOF_DIRENT_def)
qed simp

lemma dir_lookup_find:
  assumes "dir_ok s n dir" "length name \<le> 60"
  shows "dir_lookup io dir name s =
    (case find_idx (is_name name) (entries s dir) of
       None \<Rightarrow> Some (None, s)
     | Some k \<Rightarrow> do { (ip, s2) \<leftarrow> iget (d_inum (entries s dir ! k)) s; Some (Some (ip, 64 * k), s2) })"
proof -
  note d = dir_okD [OF assms(1)]
  have "dir_offsets 0 (isize s dir) = map (\<lambda>k. 64 * k) [0..<isize s dir div 64]"
    using dir_offsets_eq [OF d(4), of 0] by simp
  then show ?thesis
    using lookup_loop_find [OF assms(1), of "[0..<isize s dir div 64]" io name] d(2-4) assms(2)
    by (simp add: dir_lookup_def Let_def DIRENT_NAME_LENGTH_def SIZEOF_DIRENT_def find_idx_def)
qed


text \<open>Overwriting or appending one entry.\<close>

definition put_entry :: "nat \<Rightarrow> dirent \<Rightarrow> dirent list \<Rightarrow> dirent list" where
  "put_entry k e es = (if k < length es then es[k := e] else es @ [e])"

lemma get_dirent_bytes: "length (d_name e) = 60 \<Longrightarrow> get_dirent (dirent_bytes e) = e"
  by (simp add: get_dirent_def dirent_bytes_def get32_def le32_bytes_def)

lemma length_dirent_bytes: "length (d_name e) = 60 \<Longrightarrow> length (dirent_bytes e) = 64"
  by (simp add: dirent_bytes_def le32_bytes_def)

lemma take_drop_overwrite:
  assumes "length src = 64" "64 * k \<le> length xs" "length xs mod 64 = 0" "j < max (length xs div 64) (k + 1)"
  shows "take 64 (drop (64 * j) (overwrite (64 * k) src xs)) = (if j = k then src else take 64 (drop (64 * j) xs))"
proof (rule nth_equalityI)
  obtain a where a: "length xs = 64 * a"
    using assms(3) by (metis mod_eq_0_iff_dvd dvd_def)
  have len: "length (overwrite (64 * k) src xs) = max (length xs) (64 * k + 64)"
    using assms(1,2) by (simp add: length_overwrite)
  have jb: "64 * j + 64 \<le> max (length xs) (64 * k + 64)" "j \<noteq> k \<Longrightarrow> 64 * j + 64 \<le> length xs"
    using assms(2,4) a by (auto simp: max_def split: if_splits)
  show "length (take 64 (drop (64 * j) (overwrite (64 * k) src xs))) = length (if j = k then src else take 64 (drop (64 * j) xs))"
    using jb assms(1) len by (auto simp: min_def)
  fix i assume "i < length (take 64 (drop (64 * j) (overwrite (64 * k) src xs)))"
  then have i: "i < 64" "64 * j + i < max (length xs) (64 * k + length src)"
    using jb(1) len assms(1) by auto
  have "64 * k \<le> 64 * j + i \<and> 64 * j + i < 64 * k + 64 \<longleftrightarrow> j = k"
    using i(1) by auto
  then show "take 64 (drop (64 * j) (overwrite (64 * k) src xs)) ! i = (if j = k then src else take 64 (drop (64 * j) xs)) ! i"
    using nth_overwrite [OF assms(2) i(2)] i(1) jb len assms(1) by auto
qed

lemma entries_overwrite:
  assumes "fdata s' dir = overwrite (64 * k) (dirent_bytes e) (fdata s dir)" "length (d_name e) = 60" "k \<le> length (entries s dir)"
    and "isize s dir mod 64 = 0"
  shows "entries s' dir = put_entry k e (entries s dir)" "isize s' dir mod 64 = 0"
proof -
  have sz: "isize s dir = 64 * (isize s dir div 64)"
    using assms(4) by auto
  then have le: "64 * k \<le> length (fdata s dir)"
    using assms(3) by simp
  note lb = length_dirent_bytes [OF assms(2)]
  have "length (fdata s' dir) = max (isize s dir) (64 * k + 64)"
    using assms(1) lb length_overwrite [OF le, of "dirent_bytes e"] by simp
  then have sz': "isize s' dir = 64 * max (isize s dir div 64) (k + 1)"
    using sz by (auto simp: max_def)
  then show "isize s' dir mod 64 = 0"
    by simp
  show "entries s' dir = put_entry k e (entries s dir)"
  proof (rule nth_equalityI)
    show len: "length (entries s' dir) = length (put_entry k e (entries s dir))"
      using sz' assms(3) by (auto simp: put_entry_def max_def)
    fix j assume "j < length (entries s' dir)"
    then have j: "j < isize s' dir div 64" "j < max (isize s dir div 64) (k + 1)"
      using sz' by auto
    have "entries s' dir ! j = get_dirent (if j = k then dirent_bytes e else take 64 (drop (64 * j) (fdata s dir)))"
      using take_drop_overwrite [OF lb le, of j] j assms(1,4) by (simp add: entries_nth entry_at_def)
    then show "entries s' dir ! j = put_entry k e (entries s dir) ! j"
      using get_dirent_bytes [OF assms(2)] j(2) assms(3)
      by (auto simp: put_entry_def nth_append entries_nth entry_at_def max_def split: if_splits)
  qed
qed


lemma nblk_entry: "nblk (64 * k) 64 = 1"
proof -
  have "64 * k mod 512 = 64 * (k mod 8)"
    by (simp add: mult_mod_right)
  moreover have "k mod 8 < 8"
    by simp
  ultimately show ?thesis
    by (simp add: nblk_def)
qed

text \<open>Writing an entry over an old one or behind the last one.\<close>

lemma write_entry:
  assumes lay: "layout s n" and room: "room (7 + r) s" and free: "2 \<le> free_cnt s n" and d: "dir_ok s n dir" and ib: "iblock_ok s dir"
    and e: "length (d_name e) = 60" "0 \<in> set (d_name e)" and k: "k \<le> length (entries s dir)" "64 * k + 64 \<le> 139 * 512"
  shows "\<exists>s'. inode_write io dir (dirent_bytes e) (of_nat (64 * k)) s = Some (64, s') \<and> dir_ok s' n dir
    \<and> entries s' dir = put_entry k e (entries s dir) \<and> others_kept n dir s s' \<and> same_geo s s' \<and> room r s'
    \<and> (\<exists>x z. inodes s' = (inodes s)[dir := (inodes s ! dir)\<lparr>disk_inode := (disk_inode (inodes s ! dir))\<lparr>addrs := x, dsize := z\<rparr>\<rparr>])"
proof -
  note o = dir_okD [OF d]
  have "k < 2000"
    using k(2) by linarith
  then have u: "unat (of_nat (64 * k) :: u32) = 64 * k"
    by (subst unat_of_nat; simp)
  note lb = length_dirent_bytes [OF e(1)]
  have kle: "64 * k \<le> isize s dir"
    using k(1) o(4) by auto
  obtain s' where w: "inode_write io dir (dirent_bytes e) (of_nat (64 * k)) s = Some (64, s')" "file_ok s' n dir"
      "fdata s' dir = overwrite (64 * k) (dirent_bytes e) (fdata s dir)" "others_kept n dir s s'" "same_geo s s'" "room r s'"
      "\<exists>x z. inodes s' = (inodes s)[dir := (inodes s ! dir)\<lparr>disk_inode := (disk_inode (inodes s ! dir))\<lparr>addrs := x, dsize := z\<rparr>\<rparr>]"
    using inode_write_file [OF lay _ _ o(1) ib, of "of_nat (64 * k)" "dirent_bytes e" r io] room free u lb k(2) kle nblk_entry by auto
  note en = entries_overwrite [OF w(3) e(1) k(1) o(4)]
  have keep: "dtype (disk_inode (inodes s' ! dir)) = dtype (disk_inode (inodes s ! dir)) \<and> locked (inodes s' ! dir) = locked (inodes s ! dir)"
    using w(7) o(7) by auto
  have "0 \<in> set (d_name x)" if "x \<in> set (entries s' dir)" for x
    using that d e(2) set_update_subset_insert [of "entries s dir" k e] unfolding en(1)
    by (auto simp: put_entry_def dir_ok_def split: if_splits)
  then have "dir_ok s' n dir"
    using w(2) keep o(2,3) en(2) by (simp add: dir_ok_def)
  then show ?thesis
    using w en(1) by blast
qed


lemma find_idx_iff:
  "find_idx P xs = Some k \<longleftrightarrow> k < length xs \<and> P (xs ! k) \<and> (\<forall>j < k. \<not> P (xs ! j))"
  "find_idx P xs = None \<longleftrightarrow> (\<forall>j < length xs. \<not> P (xs ! j))"
  unfolding find_idx_def find_Some_iff find_None_iff by auto

text \<open>The inode number that a directory gives to a name.\<close>

definition dir_find :: "u8 list \<Rightarrow> dirent list \<Rightarrow> u32 option" where
  "dir_find name es = map_option (\<lambda>k. d_inum (es ! k)) (find_idx (is_name name) es)"

lemma put_entry_nth:
  assumes "k \<le> length es"
  shows "length (put_entry k e es) = max (length es) (k + 1)" "j < max (length es) (k + 1) \<Longrightarrow> put_entry k e es ! j = (if j = k then e else es ! j)"
  using assms by (auto simp: put_entry_def nth_append max_def split: if_splits)

lemma dir_find_put:
  assumes "k \<le> length es" "k < length es \<Longrightarrow> \<not> is_name name (es ! k)" "\<not> is_name name e"
  shows "dir_find name (put_entry k e es) = dir_find name es"
proof -
  let ?es = "put_entry k e es"
  note n = put_entry_nth [OF assms(1), where e = e]
  have eq: "j < length ?es \<and> is_name name (?es ! j) \<longleftrightarrow> j < length es \<and> is_name name (es ! j)" for j
    using n assms by (cases "j = k") auto
  have same: "?es ! j = es ! j" if "j < length es" "is_name name (es ! j)" for j
    using n(2) [of j] assms(2) that by (cases "j = k") auto
  have fe: "find_idx (is_name name) ?es = find_idx (is_name name) es"
  proof (cases "find_idx (is_name name) es")
    case None
    then show ?thesis
      using eq by (metis find_idx_iff(2))
  next
    case (Some j)
    then have j: "j < length es" "is_name name (es ! j)" "\<And>i. i < j \<Longrightarrow> \<not> is_name name (es ! i)"
      by (auto simp: find_idx_iff)
    have "\<not> is_name name (?es ! i)" if "i < j" for i
      using eq [of i] eq [of j] j that by auto
    then have "find_idx (is_name name) ?es = Some j"
      using eq [of j] j unfolding find_idx_iff by blast
    then show ?thesis
      using Some by simp
  qed
  show ?thesis
  proof (cases "find_idx (is_name name) es")
    case (Some j)
    then have "?es ! j = es ! j"
      using same by (simp add: find_idx_iff)
    then show ?thesis
      by (simp add: dir_find_def fe Some)
  qed (simp add: dir_find_def fe)
qed

lemma dir_find_new:
  assumes "k \<le> length es" "find_idx (is_name name) es = None" "is_name name e"
  shows "dir_find name (put_entry k e es) = Some (d_inum e)"
proof -
  note n = put_entry_nth [OF assms(1), where e = e]
  have "\<not> is_name name (put_entry k e es ! j)" if "j < k" for j
    using that n assms(1,2) by (auto simp: find_idx_iff)
  then have "find_idx (is_name name) (put_entry k e es) = Some k"
    using n assms(3) by (auto simp: find_idx_iff)
  then show ?thesis
    using n by (simp add: dir_find_def)
qed



definition dirfs_example :: fs where
  "dirfs_example = fs_example\<lparr>inodes := [file_example\<lparr>disk_inode := dinode0\<lparr>dtype := INODE_DIRECTORY, nlink := 1\<rparr>\<rparr>]\<rparr>"

lemma dirfs_example_ok:
  "layout dirfs_example 8" "r \<le> 30 \<Longrightarrow> room r dirfs_example" "free_cnt dirfs_example 8 = 8" "dir_ok dirfs_example 8 0"
  "iblock_ok dirfs_example 0" "entries dirfs_example 0 = []" "isize dirfs_example 0 = 0"
proof -
  have g: "same_geo fs_example dirfs_example" "rd dirfs_example = rd fs_example"
    by (simp_all add: same_geo_def dirfs_example_def)
  show "layout dirfs_example 8"
    using same_geo_simps(3) [OF g(1)] fs_example_layout by simp
  show "room r dirfs_example" if "r \<le> 30"
    using fs_example_room [OF that] by (simp add: dirfs_example_def)
  show "free_cnt dirfs_example 8 = 8"
    using fs_example_free(1) used_cong [OF g] by (simp add: free_cnt_def)
  show z: "isize dirfs_example 0 = 0" "entries dirfs_example 0 = []"
    by (simp_all add: dirfs_example_def dinode0_def entries_def)
  have own: "own dirfs_example 0 m = 0" if "m \<le> 139" for m
    by (simp add: own_def dirfs_example_def example_defs)
  have len: "length (iaddrs dirfs_example 0) = 12" "length (inodes dirfs_example) = 1"
      "dtype (disk_inode (inodes dirfs_example ! 0)) = INODE_DIRECTORY" "locked (inodes dirfs_example ! 0)" "\<And>b. length (rd dirfs_example b) = 512"
    by (simp_all add: dirfs_example_def example_defs)
  have "ino_ok dirfs_example 8 0"
    unfolding ino_ok_def using len own by simp
  moreover have "INODE_DIRECTORY \<noteq> INODE_DEVICE"
    by (simp add: INODE_DIRECTORY_def INODE_DEVICE_def)
  ultimately show "dir_ok dirfs_example 8 0"
    using len z by (simp add: dir_ok_def file_ok_def)
  show "iblock_ok dirfs_example 0"
    using fs_example_file(2) by (simp add: iblock_ok_def dirfs_example_def fs_example_def file_example_def)
qed


text \<open>
  Removing an entry: \<open>dir_unlink\<close> at the offset of an entry in use returns 0 and clears exactly this entry, so that
  every other name keeps its meaning and a name that occurs only there is gone; no other file and no other inode changes.
\<close>

lemma dir_unlink_correct:
  assumes lay: "layout s n" and room: "room 7 s" and free: "2 \<le> free_cnt s n" and d: "dir_ok s n dir" and ib: "iblock_ok s dir"
    and k: "k < length (entries s dir)" "d_inum (entries s dir ! k) \<noteq> 0"
  shows "\<exists>s'. dir_unlink io dir (of_nat (64 * k)) s = Some (0, s') \<and> dir_ok s' n dir \<and> others_kept n dir s s'
    \<and> (\<forall>j. j \<noteq> dir \<longrightarrow> inodes s' ! j = inodes s ! j)
    \<and> entries s' dir = (entries s dir)[k := \<lparr>d_inum = 0, d_name = replicate 60 0\<rparr>]
    \<and> (\<forall>name. name \<noteq> cstr (d_name (entries s dir ! k)) \<longrightarrow> dir_find name (entries s' dir) = dir_find name (entries s dir))"
proof -
  note o = dir_okD [OF d]
  let ?e = "\<lparr>d_inum = 0, d_name = replicate 60 0\<rparr> :: dirent"
  have z: "dirent_bytes ?e = replicate SIZEOF_DIRENT 0"
    by (simp add: dirent_bytes_def le32_bytes_def SIZEOF_DIRENT_def numeral_eq_Suc)
  have kk: "k < isize s dir div 64"
    using k(1) by simp
  then have kb: "64 * k + 64 \<le> isize s dir" "64 * k + 64 \<le> 139 * 512"
    using o(4,6) by auto
  then have "k < 2000"
    by linarith
  then have u: "unat (of_nat (64 * k) :: u32) = 64 * k"
    by (subst unat_of_nat; simp)
  have rm: "room (7 + 0) s" "k \<le> length (entries s dir)" "length (d_name ?e) = 60" "0 \<in> set (d_name ?e)"
    using room k(1) by simp_all
  obtain s' where w: "inode_write io dir (dirent_bytes ?e) (of_nat (64 * k)) s = Some (64, s')" "dir_ok s' n dir"
      "entries s' dir = put_entry k ?e (entries s dir)" "others_kept n dir s s'"
      "\<exists>x z. inodes s' = (inodes s)[dir := (inodes s ! dir)\<lparr>disk_inode := (disk_inode (inodes s ! dir))\<lparr>addrs := x, dsize := z\<rparr>\<rparr>]"
    using write_entry [OF lay rm(1) free d ib rm(3,4,2) kb(2), of io] by blast
  have e: "get_dirent (take 64 (drop (64 * k) (fdata s dir))) = entries s dir ! k"
    using kk by (simp add: entries_nth entry_at_def)
  have lt: "of_nat (64 * k) < dsize (disk_inode (inodes s ! dir))"
    using u kb(1) by (simp add: word_less_nat_alt)
  have md: "unat (of_nat (64 * k) :: u32) mod SIZEOF_DIRENT = 0"
    unfolding u by (simp add: SIZEOF_DIRENT_def)
  have "dir_unlink io dir (of_nat (64 * k)) s = Some (0, s')"
    unfolding dir_unlink_def read_entry [OF d kk] using w(1) o(2,3) lt md e k(2) unfolding z
    by (simp only: kassert_bind if_True Option.bind.simps case_prod_conv SIZEOF_DIRENT_def) simp
  moreover have "entries s' dir = (entries s dir)[k := ?e]"
    using w(3) k(1) by (simp add: put_entry_def)
  moreover have "dir_find name (entries s' dir) = dir_find name (entries s dir)" if "name \<noteq> cstr (d_name (entries s dir ! k))" for name
    unfolding w(3) by (rule dir_find_put) (use that k(1) in \<open>auto simp: is_name_def\<close>)
  ultimately show ?thesis
    using w(2,4,5) by auto
qed


text \<open>
  A name of 60 characters passes the check, but does not fit with its zero into the 60 bytes of a name field; names with a byte
  from 128 on are refused, since \<open>char\<close> is signed.
\<close>

lemma long_name_overflows:
  assumes "length field = 60"
  shows "path_valid_name (replicate 60 97) \<and> set_name field (replicate 60 97) = None"
proof
  have "sint (97 :: u8) = 97"
    by simp
  then have "list_all (\<lambda>c. \<not> sint c \<le> 31 \<and> \<not> invalid_charset c) (replicate 60 (97 :: u8))"
    by (simp add: list_all_iff invalid_charset_def)
  moreover have "hd (replicate 60 (97 :: u8)) = 97"
    by (simp add: hd_replicate)
  ultimately show "path_valid_name (replicate 60 97)"
    by (simp add: path_valid_name_def DIRENT_NAME_LENGTH_def)
  show "set_name field (replicate 60 97) = None"
    using assms by (simp add: set_name_def)
qed

lemma high_byte_refused:
  assumes "sint c < 0" "c \<in> set name"
  shows "\<not> path_valid_name name"
proof -
  have "sint c \<le> 31"
    using assms(1) by linarith
  then show ?thesis
    using assms(2) by (auto simp: path_valid_name_def list_all_iff)
qed

end
