(* ===== verification/MkFs.thy ===== *)
theory MkFs
  imports Dir
begin

text \<open>
  The program that makes the file system: \<open>mkfs/superblock.c\<close>, \<open>mkfs/fs.c\<close> and \<open>mkfs/mkfs.c\<close>.

  The image file is its sectors of 512 bytes, \<open>nsec\<close> of them; \<open>sector_cnt\<close> is the number that \<open>main\<close> computed from its size. Reading a sector behind the end makes \<open>mkfs\<close> exit (the result
  \<open>None\<close>, as for every other exit); writing one makes the file longer, with zeros in between. Offsets are computed in a signed 32-bit integer, so that sectors from
  number \<open>2^22\<close> on cannot be reached. The layout of super block, inodes and directory entries is that of the kernel, whose types are used.
\<close>

section \<open>The super block (superblock.c)\<close>

definition NFILES_PER_DISK :: u32 where "NFILES_PER_DISK = 4096 * 4"
definition SUPER_BLOCK_MAGIC :: u32 where "SUPER_BLOCK_MAGIC = 0xF2E3EACF"

definition superblock_init :: "u32 \<Rightarrow> superblock option" where
  "superblock_init sector_cnt =
     (let inode_blocks = ROUND_UP NFILES_PER_DISK (of_nat INODES_PER_BLOCK);
          log_start = 2 + inode_blocks + 1;
          nlog = of_int LOG_SIZE + 1;
          data_blocks = sector_cnt - inode_blocks - nlog - 2 - 1
      in if data_blocks > sector_cnt then None
      else
        let bmap_blocks = ROUND_UP (data_blocks div 8) 512 in
        if data_blocks - bmap_blocks > data_blocks then None
        else
          let data_blocks1 = data_blocks - bmap_blocks;
              bmap_bytes = data_blocks1 div 8;
              bmap_blocks1 = ROUND_UP bmap_bytes 512;
              bmap_start = log_start + nlog + 1
          in if data_blocks1 \<ge> 100 then
               Some \<lparr>sb_magic = SUPER_BLOCK_MAGIC, sb_size = sector_cnt, nblocks = data_blocks1, ninodes = NFILES_PER_DISK,
                 inode_start = 2, nlog = nlog, sb_log_start = log_start, bmap_start = bmap_start, bmap_bytes = bmap_bytes,
                 bdata_start = bmap_start + bmap_blocks1 + 1\<rparr>
             else None)"

section \<open>Blocks and inodes (fs.c)\<close>

record image =
  sec :: "u32 \<Rightarrow> blk"
  nsec :: nat
  isb :: superblock
  sector_cnt :: u32

definition bread :: "image \<Rightarrow> u32 \<Rightarrow> blk option" where
  "bread d b = (if unat b < 2 ^ 22 \<and> unat b < nsec d then Some (sec d b) else None)"

definition img_write :: "u32 \<Rightarrow> blk \<Rightarrow> image \<Rightarrow> image option" where
  "img_write b x d =
     (if unat b < 2 ^ 22 then
        Some (d\<lparr>sec := (\<lambda>k. if nsec d \<le> unat k \<and> unat k < unat b then replicate 512 0 else sec d k)(b := x),
                nsec := max (nsec d) (unat b + 1)\<rparr>)
      else None)"

definition blockzero :: "u32 \<Rightarrow> image \<Rightarrow> image option" where
  "blockzero b d = img_write b (replicate 512 0) d"

function mk_balloc_loop :: "u32 \<Rightarrow> nat \<Rightarrow> image \<Rightarrow> (u32 \<times> image) option" where
  "mk_balloc_loop bmap_block_no bmap_bits d =
     (if bmap_bits > 0 then do {
        let bits = min BITS_PER_BLOCK bmap_bits;
        buf \<leftarrow> bread d bmap_block_no;
        (case List.find (bit_clear buf) [0..<bits] of
           Some k \<Rightarrow> do {
             d1 \<leftarrow> img_write bmap_block_no (buf[k div 8 := buf ! (k div 8) OR push_bit (k mod 8) 1]) d;
             let dblock_no = bdata_start (isb d) + (bmap_block_no - bmap_start (isb d)) * of_nat BITS_PER_BLOCK + of_nat k;
             d2 \<leftarrow> blockzero dblock_no d1;
             Some (dblock_no, d2)
           }
         | None \<Rightarrow> mk_balloc_loop (bmap_block_no + 1) (bmap_bits - bits) d)
      } else None)"
  by pat_completeness auto
termination
  by (relation "measure (\<lambda>(b, n, d). n)") (auto simp: BITS_PER_BLOCK_def)

declare mk_balloc_loop.simps [simp del]

definition mk_balloc :: "image \<Rightarrow> (u32 \<times> image) option" where
  "mk_balloc d = mk_balloc_loop (bmap_start (isb d)) (unat (bmap_bytes (isb d) * 8)) d"

definition iread :: "image \<Rightarrow> u32 \<Rightarrow> dinode option" where
  "iread d i = do { buf \<leftarrow> bread d (GET_INODE_BLOCK_NO i (isb d)); Some (get_dinode buf (dip_off i)) }"

definition iwrite :: "dinode \<Rightarrow> u32 \<Rightarrow> image \<Rightarrow> image option" where
  "iwrite di i d = do {
     let bno = GET_INODE_BLOCK_NO i (isb d);
     buf \<leftarrow> bread d bno;
     img_write bno (put_dinode buf (dip_off i) di) d
   }"

fun ialloc_loop :: "u32 \<Rightarrow> nat list \<Rightarrow> image \<Rightarrow> (u32 \<times> image) option" where
  "ialloc_loop typ [] d = None"
| "ialloc_loop typ (n # ns) d = do {
     di \<leftarrow> iread d (of_nat n);
     if dtype di = INODE_NONE then do {
       d1 \<leftarrow> iwrite (dinode0\<lparr>dtype := typ\<rparr>) (of_nat n) d;
       Some (of_nat n, d1)
     } else ialloc_loop typ ns d
   }"

definition ialloc :: "u32 \<Rightarrow> image \<Rightarrow> (u32 \<times> image) option" where
  "ialloc typ d = ialloc_loop typ [1..<unat (ninodes (isb d))] d"

text \<open>
  \<open>bmap\<close> on the local copy of the inode. The code does not compare \<open>bn\<close> with the number of entries of the indirect block; a larger
  number reads behind the buffer (\<open>None\<close>).
\<close>

definition mk_bmap :: "dinode \<Rightarrow> nat \<Rightarrow> image \<Rightarrow> (u32 \<times> dinode \<times> image) option" where
  "mk_bmap ip bn d =
     (if bn < NDIRECT_DATA_BLOCKS then
        (let addr = addrs ip ! bn in
         if addr = 0 then do {
           (a, d1) \<leftarrow> mk_balloc d;
           Some (a, ip\<lparr>addrs := (addrs ip)[bn := a]\<rparr>, d1)
         } else Some (addr, ip, d))
      else do {
        let bn = bn - NDIRECT_DATA_BLOCKS;
        kassert (bn < NINDIRECT_DATA_BLOCKS);
        (ip1, d1) \<leftarrow> (if addrs ip ! NDIRECT_DATA_BLOCKS = 0 then do {
              (a, d') \<leftarrow> mk_balloc d;
              Some (ip\<lparr>addrs := (addrs ip)[NDIRECT_DATA_BLOCKS := a]\<rparr>, d')
            } else Some (ip, d));
        let ind = addrs ip1 ! NDIRECT_DATA_BLOCKS;
        buf \<leftarrow> bread d1 ind;
        if get32 buf bn = 0 then do {
          (a, d2) \<leftarrow> mk_balloc d1;
          d3 \<leftarrow> img_write ind (put32 buf bn a) d2;
          Some (a, ip1, d3)
        } else Some (get32 buf bn, ip1, d1)
      })"

function append_loop :: "dinode \<Rightarrow> nat \<Rightarrow> u8 list \<Rightarrow> image \<Rightarrow> (dinode \<times> nat \<times> image) option" where
  "append_loop ip offset src d =
     (if src \<noteq> [] then do {
        (a, ip1, d1) \<leftarrow> mk_bmap ip (offset div 512) d;
        buf \<leftarrow> bread d1 a;
        let m = min (512 - offset mod 512) (length src);
        d2 \<leftarrow> img_write a (take (offset mod 512) buf @ take m src @ drop (offset mod 512 + m) buf) d1;
        append_loop ip1 (offset + m) (drop m src) d2
      } else Some (ip, offset, d))"
  by pat_completeness auto
termination
  by (relation "measure (\<lambda>(ip, offset, src, d). length src)") auto

declare append_loop.simps [simp del]

definition iappend :: "u32 \<Rightarrow> u8 list \<Rightarrow> image \<Rightarrow> image option" where
  "iappend i src d = do {
     ip \<leftarrow> iread d i;
     (ip1, offset, d1) \<leftarrow> append_loop ip (unat (dsize ip)) src d;
     iwrite (ip1\<lparr>dsize := of_nat offset\<rparr>) i d1
   }"

section \<open>Files (fs.c)\<close>

text \<open>\<open>field\<close> is what the uninitialised name field of the entry holds.\<close>

definition mk_dir_link :: "u8 list \<Rightarrow> u32 \<Rightarrow> u8 list \<Rightarrow> u32 \<Rightarrow> image \<Rightarrow> image option" where
  "mk_dir_link field dirinum name child_inum d =
     (if length name \<ge> DIRENT_NAME_LENGTH then Some d
      else do {
        nm \<leftarrow> set_name field name;
        iappend dirinum (dirent_bytes \<lparr>d_inum = child_inum, d_name = nm\<rparr>) d
      })"

definition mk_dir_make :: "u8 list \<Rightarrow> u32 \<Rightarrow> u32 \<Rightarrow> image \<Rightarrow> image option" where
  "mk_dir_make field parentinum childinum d = do {
     d1 \<leftarrow> mk_dir_link field childinum [46] childinum d;
     d2 \<leftarrow> mk_dir_link field childinum [46, 46] parentinum d1;
     di \<leftarrow> iread d2 parentinum;
     iwrite (di\<lparr>nlink := nlink di + 1\<rparr>) parentinum d2
   }"

definition mk_create_file :: "u8 list \<Rightarrow> u32 \<Rightarrow> u32 \<Rightarrow> u32 \<Rightarrow> u32 \<Rightarrow> u8 list \<Rightarrow> image \<Rightarrow> (u32 \<times> image) option" where
  "mk_create_file field mj mn typ pinum name d = do {
     (i, d1) \<leftarrow> ialloc typ d;
     di \<leftarrow> iread d1 i;
     d2 \<leftarrow> iwrite (di\<lparr>nlink := 1, major := mj, minor := mn, dsize := 0\<rparr>) i d1;
     d3 \<leftarrow> (if pinum \<noteq> 0 then mk_dir_link field pinum name i d2 else Some d2);
     d4 \<leftarrow> (if typ = INODE_DIRECTORY then mk_dir_make field (if pinum = 0 then i else pinum) i d3 else Some d3);
     Some (i, d4)
   }"

section \<open>The program (mkfs.c)\<close>

text \<open>\<open>createfs\<close> of the image file: \<open>None\<close> inside for a disk that already has a file system.\<close>

definition sb_words :: "superblock \<Rightarrow> u32 list" where
  "sb_words b = [sb_magic b, sb_size b, nblocks b, ninodes b, inode_start b, nlog b, sb_log_start b, bmap_start b, bmap_bytes b,
     bdata_start b]"

definition createfs :: "image \<Rightarrow> image option option" where
  "createfs d = do {
     buf \<leftarrow> bread d 1;
     if get32 buf 0 = SUPER_BLOCK_MAGIC then Some None
     else do {
       b \<leftarrow> superblock_init (sector_cnt d);
       d1 \<leftarrow> img_write 1 (put_words buf 0 (sb_words b)) d;
       Some (Some (d1\<lparr>isb := b\<rparr>))
     }
   }"

text \<open>\<open>nameptr\<close>: the part of the path behind its last slash.\<close>

fun nameptr_back :: "u8 list \<Rightarrow> nat \<Rightarrow> u8 list" where
  "nameptr_back path 0 = (case path of c # cs \<Rightarrow> if c = slash then cs else path | [] \<Rightarrow> [])"
| "nameptr_back path (Suc k) = (if Suc k < length path \<and> path ! Suc k = slash then drop (Suc (Suc k)) path else nameptr_back path k)"

definition nameptr :: "u8 list \<Rightarrow> u8 list" where "nameptr path = nameptr_back path (length path)"

text \<open>A file of the host is its bytes; \<open>ckfread\<close> of no bytes counts as a failed read.\<close>

definition write_to_fsfile :: "u8 list \<Rightarrow> u32 \<Rightarrow> u8 list option \<Rightarrow> u8 list \<Rightarrow> image \<Rightarrow> image option" where
  "write_to_fsfile field parent_inum fp name d = do {
     bytes \<leftarrow> fp;
     kassert (bytes \<noteq> []);
     (i, d1) \<leftarrow> mk_create_file field 0 0 INODE_FILE parent_inum name d;
     iappend i bytes d1
   }"

definition create_root_file :: "u8 list \<Rightarrow> image \<Rightarrow> (u32 \<times> image) option" where
  "create_root_file field d = do {
     (i, d1) \<leftarrow> mk_create_file field 0 0 INODE_DIRECTORY 0 [slash] d;
     kassert (i = ROOT_INUM);
     Some (i, d1)
   }"

record mkfs_flags =
  img_file :: "u8 list option"
  initsh_file :: "u8 list option"
  binfiles :: "u8 list list"

fun write_binfiles :: "u8 list \<Rightarrow> (u8 list \<Rightarrow> u8 list option) \<Rightarrow> u32 \<Rightarrow> u8 list list \<Rightarrow> image \<Rightarrow> image option" where
  "write_binfiles field host bindir [] d = Some d"
| "write_binfiles field host bindir (f # fs) d = do {
     d1 \<leftarrow> write_to_fsfile field bindir (host f) (nameptr f) d;
     write_binfiles field host bindir fs d1
   }"

definition create_initial_files :: "u8 list \<Rightarrow> (u8 list \<Rightarrow> u8 list option) \<Rightarrow> mkfs_flags \<Rightarrow> image \<Rightarrow> image option" where
  "create_initial_files field host flags d = do {
     (root, d1) \<leftarrow> create_root_file field d;
     (bindir, d2) \<leftarrow> mk_create_file field 0 0 INODE_DIRECTORY root [98, 105, 110] d1;
     (devdir, d3) \<leftarrow> mk_create_file field 0 0 INODE_DIRECTORY root [100, 101, 118] d2;
     (etcdir, d4) \<leftarrow> mk_create_file field 0 0 INODE_DIRECTORY root [101, 116, 99] d3;
     (home, d5) \<leftarrow> mk_create_file field 0 0 INODE_DIRECTORY root [104, 111, 109, 101] d4;
     (console, d6) \<leftarrow> mk_create_file field 1 0 INODE_DEVICE devdir [99, 111, 110, 115, 111, 108, 101] d5;
     d7 \<leftarrow> (case initsh_file flags of
             None \<Rightarrow> Some d6
           | Some f \<Rightarrow> write_to_fsfile field etcdir (host f) [105, 110, 105, 116, 46, 115, 104] d6);
     write_binfiles field host bindir (binfiles flags) d7
   }"

text \<open>
  The arguments behind the name of the program. \<open>Inl\<close> is the exit code with which the program stops. \<open>imgs\<close> are the image files of the host: size and contents.
\<close>

fun parse_loop :: "u8 list list \<Rightarrow> mkfs_flags \<Rightarrow> nat + mkfs_flags" where
  "parse_loop [] flags = Inr flags"
| "parse_loop (arg # args) flags =
     (if arg = [45, 104] \<or> arg = [45, 45, 104, 101, 108, 112] then Inl 0
      else if arg = [45, 105] \<or> arg = [45, 45, 105, 109, 103, 102, 105, 108, 101] then
        (case args of [] \<Rightarrow> Inl 1 | f # rest \<Rightarrow> parse_loop rest (flags\<lparr>img_file := Some f\<rparr>))
      else if arg = [45, 45, 105, 115, 104] then
        (case args of [] \<Rightarrow> Inl 1 | f # rest \<Rightarrow> parse_loop rest (flags\<lparr>initsh_file := Some f\<rparr>))
      else Inr (flags\<lparr>binfiles := arg # args\<rparr>))"

definition parse_flags :: "u8 list list \<Rightarrow> nat + mkfs_flags" where
  "parse_flags args =
     (if args = [] then Inl 0
      else case parse_loop args \<lparr>img_file = None, initsh_file = None, binfiles = []\<rparr> of
        Inl code \<Rightarrow> Inl code
      | Inr flags \<Rightarrow> if img_file flags = None then Inl 1 else Inr flags)"

definition mkfs_main :: "u8 list \<Rightarrow> (u8 list \<Rightarrow> u8 list option) \<Rightarrow> (u8 list \<Rightarrow> (nat \<times> image) option) \<Rightarrow> u8 list list \<Rightarrow> nat + image" where
  "mkfs_main field host imgs args =
     (case parse_flags args of
        Inl code \<Rightarrow> Inl code
      | Inr flags \<Rightarrow>
          (case imgs (the (img_file flags)) of
             None \<Rightarrow> Inl 1
           | Some (sz, d) \<Rightarrow>
               (let file_size = sz mod 2 ^ 32 in
                if file_size mod 512 \<noteq> 0 \<or> file_size < 512 * 40 then Inl 1
                else
                  let d0 = d\<lparr>nsec := sz div 512, sector_cnt := of_nat (file_size div 512)\<rparr> in
                  case createfs d0 of
                    None \<Rightarrow> Inl 1
                  | Some None \<Rightarrow> Inr d0
                  | Some (Some d1) \<Rightarrow> (case create_initial_files field host flags d1 of None \<Rightarrow> Inl 1 | Some d2 \<Rightarrow> Inr d2))))"

section \<open>The layout of the disk\<close>

lemma inode_blocks_val: "ROUND_UP NFILES_PER_DISK (of_nat INODES_PER_BLOCK) = 2341"
  by (simp add: ROUND_UP_def NFILES_PER_DISK_def INODES_PER_BLOCK_def)

lemma unat_ROUND_UP: "unat x \<le> 2 ^ 31 \<Longrightarrow> unat (ROUND_UP x 512) = (unat x + 511) div 512"
  by (simp add: ROUND_UP_def unat_div unat_word_ariths)

text \<open>The numbers that \<open>superblock_init\<close> computes.\<close>

lemma superblock_init_values:
  assumes "superblock_init sc = Some b"
  defines "D \<equiv> unat sc - 2375"
  shows "2375 \<le> unat sc" "unat (nblocks b) = D - (D div 8 + 511) div 512" "100 \<le> unat (nblocks b)"
    "unat (bmap_bytes b) = unat (nblocks b) div 8" "unat (bdata_start b) = 2377 + (unat (bmap_bytes b) + 511) div 512"
    "inode_start b = 2" "ninodes b = 16384" "sb_log_start b = 2344" "bmap_start b = 2376" "nlog b = 31" "sb_size b = sc"
    "sb_magic b = SUPER_BLOCK_MAGIC"
proof -
  let ?d = "sc - 2341 - 31 - 2 - 1"
  have d: "?d = sc - 2375"
    by simp
  let ?bb = "ROUND_UP (?d div 8) 512"
  let ?d1 = "?d - ?bb"
  have nl: "of_int LOG_SIZE + 1 = (31 :: u32)"
    by (simp add: LOG_SIZE_def MAX_OPEN_BLOCKS_def)
  have le: "\<not> ?d > sc" "\<not> ?d1 > ?d" "?d1 \<ge> 100"
    and b: "b = \<lparr>sb_magic = SUPER_BLOCK_MAGIC, sb_size = sc, nblocks = ?d1, ninodes = NFILES_PER_DISK,
                 inode_start = 2, nlog = 31, sb_log_start = 2344, bmap_start = 2376, bmap_bytes = ?d1 div 8,
                 bdata_start = 2376 + ROUND_UP (?d1 div 8) 512 + 1\<rparr>"
    using assms(1) unfolding superblock_init_def inode_blocks_val nl Let_def by (simp_all split: if_splits)
  show c: "2375 \<le> unat sc"
  proof (rule ccontr)
    assume "\<not> ?thesis"
    then have "unat ?d = unat sc + (2 ^ 32 - 2375)"
      unfolding d by (simp add: unat_sub_if' word_less_nat_alt)
    then show False
      using le(1) by (simp add: word_less_nat_alt)
  qed
  have ud: "unat ?d = D"
    unfolding d D_def using c by (simp add: unat_sub word_le_nat_alt)
  have bb: "unat ?bb = (D div 8 + 511) div 512"
    using ud unsigned_less [where 'a = nat, of ?d] by (simp add: unat_ROUND_UP unat_div)
  have "(D div 8 + 511) div 512 \<le> D"
    by linarith
  then have ud1: "unat ?d1 = D - (D div 8 + 511) div 512"
    using ud bb by (simp add: unat_sub word_le_nat_alt)
  then show "unat (nblocks b) = D - (D div 8 + 511) div 512"
    by (simp add: b)
  show "100 \<le> unat (nblocks b)"
    using le(3) by (simp add: b word_le_nat_alt)
  show bytes: "unat (bmap_bytes b) = unat (nblocks b) div 8"
    by (simp add: b unat_div)
  have "unat (bmap_bytes b) < 2 ^ 29"
    using bytes unsigned_less [where 'a = nat, of "nblocks b"] by simp
  then show "unat (bdata_start b) = 2377 + (unat (bmap_bytes b) + 511) div 512"
    unfolding b by (simp add: unat_word_ariths unat_ROUND_UP)
  show "inode_start b = 2" "ninodes b = 16384" "sb_log_start b = 2344" "bmap_start b = 2376" "nlog b = 31" "sb_size b = sc"
    "sb_magic b = SUPER_BLOCK_MAGIC"
    by (simp_all add: b NFILES_PER_DISK_def)
qed


text \<open>The data blocks: their number, and where they end.\<close>

lemma superblock_init_data:
  assumes "superblock_init sc = Some b" "unat sc < 2 ^ 31"
  shows "unat (bmap_bytes b * 8) = 8 * (unat (nblocks b) div 8)" "unat (bdata_start b) + unat (nblocks b) \<le> unat sc + 2"
    "2376 + (unat (bmap_bytes b * 8) + 4095) div 4096 < unat (bdata_start b)"
proof -
  note v = superblock_init_values [OF assms(1)]
  let ?D = "unat sc - 2375" and ?B = "unat (bmap_bytes b)"
  have lt: "unat (nblocks b) < 2 ^ 31"
    using v(1,2) assms(2) by linarith
  then show n: "unat (bmap_bytes b * 8) = 8 * (unat (nblocks b) div 8)"
    using v(4) by (simp add: unat_word_ariths)
  have "?B \<le> ?D div 8"
    unfolding v(4) by (rule div_le_mono) (use v(2) in simp)
  then have "(?B + 511) div 512 \<le> (?D div 8 + 511) div 512"
    by (intro div_le_mono) simp
  moreover have "(?D div 8 + 511) div 512 \<le> ?D"
    by linarith
  ultimately show "unat (bdata_start b) + unat (nblocks b) \<le> unat sc + 2"
    using v(1,2,5) by linarith
  have "(8 * ?B + 4095) div 4096 = (?B + 511) div 512"
  proof -
    have "(8 * ?B + 4095) div 4096 = ((8 * ?B + 4095) div 8) div 512"
      by (simp add: div_mult2_eq [symmetric])
    also have "(8 * ?B + 4095) div 8 = ?B + 511"
      by simp
    finally show ?thesis .
  qed
  then show "2376 + (unat (bmap_bytes b * 8) + 4095) div 4096 < unat (bdata_start b)"
    using v(4,5) n by simp
qed

lemma log_area_2344: "2375 \<le> unat x \<Longrightarrow> \<not> log_area 2344 x" "unat x < 2344 \<Longrightarrow> \<not> log_area 2344 x"
  by (simp_all add: log_area_def unat_sub_if' word_le_nat_alt)

text \<open>The layout invariant of the kernel's file system, for every mounted state of the new disk.\<close>

lemma superblock_layout:
  assumes "superblock_init sc = Some b" "unat sc < 2 ^ 31" "sb s = b" "log_start (lg s) = sb_log_start b"
  defines "n \<equiv> unat (bmap_bytes b * 8)"
  shows "n \<le> unat (nblocks b)" "96 \<le> n" "unat (bdata_start b) + n \<le> unat sc + 2" "layout s n" "inum (inodes s ! i) < ninodes b \<Longrightarrow> iblock_ok s i"
proof -
  note v = superblock_init_values [OF assms(1)] and w = superblock_init_data [OF assms(1,2)]
  show n: "n \<le> unat (nblocks b)" "96 \<le> n"
    using w(1) v(3) unfolding n_def by (simp_all add: div_le_mono)
  show fin: "unat (bdata_start b) + n \<le> unat sc + 2"
    using n(1) w(2) by linarith
  have data: "unat (data_block s k) = unat (bdata_start b) + k" if "k < n" for k
    using fin that assms(2,3) by (simp add: data_block_def unat_word_ariths unat_of_nat)
  have bm: "unat (bmap_block s j) = 2376 + j" if "j < (n + 4095) div 4096" for j
  proof -
    have "j < 2 ^ 31"
      using that fin assms(2) by linarith
    then show ?thesis
      using v(9) assms(3) by (simp add: bmap_block_def unat_word_ariths unat_of_nat)
  qed
  have "\<not> in_log s (data_block s k)" if "k < n" for k
    using data [OF that] v(5,8) assms(4) log_area_2344(1) by simp
  moreover have "\<not> in_log s (bmap_block s j)" if "j < (n + 4095) div 4096" for j
    using bm [OF that] v(8) assms(4) log_area_2344(1) by simp
  moreover have "unat (bdata_start b) + n < 2 ^ 32" "unat (bmap_start b) + (n + 4095) div 4096 \<le> unat (bdata_start b)"
    using fin assms(2) w(3) v(9) unfolding n_def by simp_all
  ultimately show "layout s n"
    unfolding layout_def assms(3) n_def [symmetric] using v(5) by simp
  show "iblock_ok s i" if "inum (inodes s ! i) < ninodes b"
  proof -
    have "unat (inum (inodes s ! i)) < 16384"
      using that v(7) by (simp add: word_less_nat_alt)
    then have "unat (inum (inodes s ! i)) div 7 < 2341"
      by (simp add: less_mult_imp_div_less)
    then have "unat (iblock s i) < 2343"
      using v(6) assms(3) by (simp add: GET_INODE_BLOCK_NO_def INODES_PER_BLOCK_def unat_word_ariths unat_div)
    then show "iblock_ok s i"
      using v(8,9) assms(3,4) log_area_2344(2) by (simp add: iblock_ok_def)
  qed
qed

text \<open>
  C28. The super block that \<open>mkfs\<close> writes to an image of fewer than \<open>2^31\<close> sectors is one that the kernel's file system can work with: inodes, log,
  bitmap and data blocks do not overlap, the blocks of all inodes lie before the bitmap and outside the log, there are at least 96 data blocks with a
  bit in the bitmap. The data blocks end at most two blocks behind the end of the disk.
\<close>

theorem superblock_init_layout:
  assumes "superblock_init sc = Some b" "unat sc < 2 ^ 31" "sb s = b" "log_start (lg s) = sb_log_start b"
  defines "n \<equiv> unat (bmap_bytes b * 8)"
  shows "layout s n \<and> (inum (inodes s ! i) < ninodes b \<longrightarrow> iblock_ok s i) \<and> 96 \<le> n \<and> n \<le> unat (nblocks b)
    \<and> unat (bdata_start b) + n \<le> unat sc + 2"
  using superblock_layout [OF assms(1-4)] unfolding n_def by blast

definition sb_4000 :: superblock where
  "sb_4000 = \<lparr>sb_magic = 0xF2E3EACF, sb_size = 4000, nblocks = 1624, ninodes = 16384, inode_start = 2, nlog = 31, sb_log_start = 2344,
     bmap_start = 2376, bmap_bytes = 203, bdata_start = 2378\<rparr>"

lemma superblock_init_4000: "superblock_init 4000 = Some sb_4000"
  by code_simp

theorem superblock_init_layout_witness:
  "layout (fs_example\<lparr>sb := sb_4000, lg := (lg fs_example)\<lparr>log_start := 2344\<rparr>\<rparr>) 1624"
  using superblock_init_layout [OF superblock_init_4000, of "fs_example\<lparr>sb := sb_4000, lg := (lg fs_example)\<lparr>log_start := 2344\<rparr>\<rparr>"]
  by (simp add: sb_4000_def)

text \<open>
  On the 80 MB image that the build makes, the last data block with a bit in the bitmap is the first one behind the end of the disk.
\<close>

lemma last_block_behind_disk:
  "map_option (\<lambda>b. bdata_start b + bmap_bytes b * 8 - 1) (superblock_init 163840) = Some 163840"
  by code_simp

section \<open>Names and arguments\<close>

text \<open>\<open>nameptr\<close> against its specification: what is behind the last slash of the path.\<close>

lemma nameptr_back_eq:
  "k \<le> length path \<Longrightarrow> slash \<notin> set (drop (Suc k) path) \<Longrightarrow> nameptr_back path k = rev (takeWhile (\<lambda>c. c \<noteq> slash) (rev path))"
proof (induction k)
  case 0
  then show ?case
    by (cases path) (auto simp: takeWhile_append takeWhile_eq_all_conv)
next
  case (Suc k)
  show ?case
  proof (cases "Suc k < length path \<and> path ! Suc k = slash")
    case True
    then have "path = take (Suc k) path @ slash # drop (Suc (Suc k)) path"
      by (metis id_take_nth_drop)
    then have "rev path = rev (drop (Suc (Suc k)) path) @ slash # rev (take (Suc k) path)"
      by (metis append.assoc append_Cons append_Nil rev.simps(2) rev_append)
    then have "takeWhile (\<lambda>c. c \<noteq> slash) (rev path) = rev (drop (Suc (Suc k)) path)"
      using Suc.prems(2) by (simp add: takeWhile_append takeWhile_eq_all_conv)
    then show ?thesis
      using True by simp
  next
    case False
    then have "slash \<notin> set (drop (Suc k) path)"
      using Suc.prems(2) by (cases "Suc k < length path") (auto simp: Cons_nth_drop_Suc [symmetric])
    then show ?thesis
      using Suc False by auto
  qed
qed

lemma nameptr_eq: "nameptr path = rev (takeWhile (\<lambda>c. c \<noteq> slash) (rev path))"
  unfolding nameptr_def by (rule nameptr_back_eq) simp_all

text \<open>A command line with an image, maybe a script, and programs gives these flags.\<close>

lemma parse_flags_line:
  assumes "bins \<noteq> [] \<Longrightarrow> hd bins \<notin> {[45, 104], [45, 45, 104, 101, 108, 112], [45, 105], [45, 45, 105, 109, 103, 102, 105, 108, 101], [45, 45, 105, 115, 104]}"
  shows "parse_flags ([[45, 105], img] @ (case ish of None \<Rightarrow> [] | Some f \<Rightarrow> [[45, 45, 105, 115, 104], f]) @ bins)
    = Inr \<lparr>img_file = Some img, initsh_file = ish, binfiles = bins\<rparr>"
  using assms by (cases bins) (auto simp: parse_flags_def split: option.splits)

end
