(* ===== verification/MkAppend.thy ===== *)
theory MkAppend
  imports MkFs
begin

text \<open>
  Appending to a file with \<open>mkfs\<close>, seen by the kernel. Every pass of the loop of \<open>iappend\<close> does to the blocks what a pass of
  the kernel's loop (theory \<open>Inode\<close>) does with an empty log, so that the results on the kernel's routines carry over
  to images of any size: \<open>kview\<close> is the state of a kernel that has mounted the image.
\<close>

section \<open>The operations of mkfs and those of the kernel\<close>

lemma fs_log_write_sel:
  assumes "fs_log_write b x s = Some s'"
  shows "rd s' = (rd s)(b := x)" "sb s' = sb s" "inodes s' = inodes s" "log_start (lg s') = log_start (lg s)"
  using assms by (auto simp: fs_log_write_def log_write_def Let_def split: if_splits)

text \<open>
  The sectors of the image: \<open>superblock_init\<close> places the data blocks so that up to two of them lie behind its end, but none in use does.
\<close>

definition fits :: "image \<Rightarrow> nat \<Rightarrow> bool" where
  "fits d n = (unat (bdata_start (isb d)) + n \<le> nsec d + 2 \<and> 3 \<le> n \<and> nsec d \<le> 2 ^ 22
     \<and> (\<forall>k < n. \<not> bit_clear (sec d (bmap_start (isb d) + of_nat (k div BITS_PER_BLOCK))) (k mod BITS_PER_BLOCK) \<longrightarrow>
           unat (bdata_start (isb d) + of_nat k) < nsec d))"

lemma fits_iff:
  assumes "rd s = sec d" "sb s = isb d"
  shows "fits d n \<longleftrightarrow> unat (bdata_start (isb d)) + n \<le> nsec d + 2 \<and> 3 \<le> n \<and> nsec d \<le> 2 ^ 22 \<and> (\<forall>k < n. used s k \<longrightarrow> unat (data_block s k) < nsec d)"
  by (simp add: fits_def used_def data_block_def bmap_block_def assms)

lemma fits_write:
  assumes "fits d n" "layout s n" "rd s = sec d" "sb s = isb d" "j < n"
  shows "fits (d\<lparr>sec := (sec d)(data_block s j := x)\<rparr>) n"
proof -
  have "bmap_start (isb d) + of_nat (k div 4096) \<noteq> data_block s j" if "k < n" for k
    using data_block_inj(2) [OF assms(2,5,5) that] assms(4) by (simp add: bmap_block_def)
  then show ?thesis
    using assms(1) by (simp add: fits_def BITS_PER_BLOCK_def)
qed

text \<open>While three blocks are free, the first free block is not one of the last two.\<close>

lemma first_free_in:
  assumes "k < n" "\<And>j. j < k \<Longrightarrow> used s j" "3 \<le> free_cnt s n"
  shows "k + 3 \<le> n"
proof -
  have "{j. j < n \<and> \<not> used s j} \<subseteq> {k..<n}"
    using assms(2) by (auto simp: not_less [symmetric])
  then have "free_cnt s n \<le> n - k"
    unfolding free_cnt_def using card_mono [of "{k..<n}"] by simp
  then show ?thesis
    using assms(1,3) by simp
qed

lemma bread_in: "nsec d \<le> 2 ^ 22 \<Longrightarrow> unat b < nsec d \<Longrightarrow> bread d b = Some (sec d b)"
  by (simp add: bread_def)

lemma img_write_in: "nsec d \<le> 2 ^ 22 \<Longrightarrow> unat b < nsec d \<Longrightarrow> img_write b x d = Some (d\<lparr>sec := (sec d)(b := x)\<rparr>)"
proof -
  assume b: "nsec d \<le> 2 ^ 22" "unat b < nsec d"
  then have "(\<lambda>k. if nsec d \<le> unat k \<and> unat k < unat b then replicate 512 0 else sec d k) = sec d"
    by (intro ext) auto
  then show ?thesis
    using b by (simp add: img_write_def max_def)
qed

lemma balloc_loop_sim:
  assumes "balloc_loop b k s = Some (a, s')" "rd s = sec d" "sb s = isb d" "nsec d \<le> 2 ^ 22" "unat a < nsec d"
    "unat b + (k + 4095) div 4096 \<le> nsec d"
  shows "mk_balloc_loop b k d = Some (a, d\<lparr>sec := rd s'\<rparr>)"
  using assms
proof (induction b k s rule: balloc_loop.induct)
  case (1 b k s)
  let ?bits = "min BITS_PER_BLOCK k"
  have k: "0 < k"
    using "1.prems"(1) by (subst (asm) balloc_loop.simps) (simp split: if_splits)
  then have pos: "1 \<le> (k + 4095) div 4096"
    by (simp add: Suc_le_eq div_greater_zero_iff)
  then have b: "unat b < nsec d"
    using "1.prems"(6) by linarith
  note rb = bread_in [OF "1.prems"(4) b] img_write_in [OF "1.prems"(4) b]
  show ?case
  proof (cases "List.find (bit_clear (rd s b)) [0..<?bits]")
    case None
    have l: "balloc_loop (b + 1) (k - ?bits) s = Some (a, s')"
      using "1.prems"(1) k None by (subst (asm) balloc_loop.simps) (simp add: Let_def)
    have "unat (b + 1) = unat b + 1"
      using b "1.prems"(4) by (simp add: unat_word_ariths)
    moreover have "(k - ?bits + 4095) div 4096 + 1 \<le> (k + 4095) div 4096"
    proof (cases "4096 < k")
      case True
      then have "k + 4095 = (k - ?bits + 4095) + 4096"
        by (simp add: BITS_PER_BLOCK_def)
      then show ?thesis
        by (metis div_add_self2 zero_neq_numeral order_refl)
    next
      case False
      then show ?thesis
        using pos by (simp add: BITS_PER_BLOCK_def)
    qed
    ultimately have "unat (b + 1) + (k - ?bits + 4095) div 4096 \<le> nsec d"
      using "1.prems"(6) by linarith
    then have "mk_balloc_loop (b + 1) (k - ?bits) d = Some (a, d\<lparr>sec := rd s'\<rparr>)"
      using "1.IH" [OF k refl refl None l "1.prems"(2-5)] by blast
    then show ?thesis
      using k rb(1) None "1.prems"(2) by (subst mk_balloc_loop.simps) (simp add: Let_def)
  next
    case (Some j)
    let ?x = "(rd s b)[j div 8 := rd s b ! (j div 8) OR push_bit (j mod 8) 1]"
    obtain s1 where s1: "fs_log_write b ?x s = Some s1" "bzero a s1 = Some s'"
        "a = bdata_start (sb s) + (b - bmap_start (sb s)) * of_nat BITS_PER_BLOCK + of_nat j"
      using "1.prems"(1) k Some by (subst (asm) balloc_loop.simps) (auto simp: Let_def split: bind_splits)
    have "rd s' = ((sec d)(b := ?x))(a := replicate 512 0)"
      using fs_log_write_sel(1) [OF s1(1)] fs_log_write_sel(1) [of a _ s1 s'] s1(2) "1.prems"(2) by (simp add: bzero_def)
    then show ?thesis
      using k rb Some "1.prems"(2-5) s1(3)
      by (subst mk_balloc_loop.simps) (simp add: Let_def blockzero_def img_write_in)
  qed
qed

text \<open>
  \<open>balloc\<close> of \<open>mkfs\<close> takes the block that the kernel's \<open>balloc\<close> takes and leaves the same blocks; the blocks before the bitmap do not change.
\<close>

lemma balloc_sim:
  assumes lay: "layout s n" and room: "room (Suc (Suc r)) s" and free: "3 \<le> free_cnt s n" and b: "balloc s = Some (a, s')"
    and sim: "rd s = sec d" "sb s = isb d" and fits: "fits d n"
  shows "mk_balloc d = Some (a, d\<lparr>sec := rd s'\<rparr>)" "unat a < nsec d" "same_geo s s'" "inodes s' = inodes s"
    "unat c < unat (bmap_start (isb d)) \<Longrightarrow> rd s' c = rd s c" "fits (d\<lparr>sec := rd s'\<rparr>) n"
proof -
  have "\<exists>k < n. \<not> used s k"
    using free by (intro free_cnt_pos) simp
  then obtain k s'' where "balloc s = Some (data_block s k, s'')" and k: "k < n" "\<not> used s k" "\<And>i. i < k \<Longrightarrow> used s i" and q: "room r s''"
      "same_geo s s''" "inodes s'' = inodes s" "\<And>k'. k' < n \<Longrightarrow> used s'' k' = (k' = k \<or> used s k')" "rd s'' (data_block s k) = replicate 512 0"
      "\<And>b. b \<noteq> data_block s k \<Longrightarrow> b \<noteq> bmap_block s (k div 4096) \<Longrightarrow> rd s'' b = rd s b"
    by (rule balloc_ok [OF lay room]) (rule that)
  then have e: "a = data_block s k" "s'' = s'"
    using b by simp_all
  note q = q [unfolded e(2)]
  note addr = layout_addr [OF lay k(1)]
  have f: "unat (bdata_start (sb s)) + n \<le> nsec d + 2" "3 \<le> n" "nsec d \<le> 2 ^ 22" "\<And>k. k < n \<Longrightarrow> used s k \<Longrightarrow> unat (data_block s k) < nsec d"
    using fits sim(2) unfolding fits_iff [OF sim] by auto
  have "k + 3 \<le> n"
    by (rule first_free_in [OF k(1) _ free]) (rule k(3))
  then show ua: "unat a < nsec d"
    using addr(1) f(1) unfolding e(1) by linarith
  show "same_geo s s'" "inodes s' = inodes s"
    by (rule q)+
  have bd: "unat (bmap_start (sb s)) + (n + 4095) div 4096 \<le> unat (bdata_start (sb s))"
    using lay unfolding layout_def by blast
  then have "unat (bmap_start (isb d)) + (n + 4095) div 4096 \<le> nsec d"
    using f(1,2) sim(2) by simp
  moreover have "n = unat (bmap_bytes (sb s) * 8)"
    using lay by (simp add: layout_def)
  ultimately show "mk_balloc d = Some (a, d\<lparr>sec := rd s'\<rparr>)"
    unfolding mk_balloc_def using balloc_loop_sim [OF _ sim f(3) ua, of "bmap_start (isb d)" "unat (bmap_bytes (isb d) * 8)"] b sim(2)
    by (simp add: balloc_def)
  have s2: "rd s' = sec (d\<lparr>sec := rd s'\<rparr>)" "sb s' = isb (d\<lparr>sec := rd s'\<rparr>)"
    using q(2) sim(2) by (simp_all add: same_geo_def)
  show "fits (d\<lparr>sec := rd s'\<rparr>) n"
    unfolding fits_iff [OF s2] using f q(4) ua e(1) same_geo_simps(1) [OF q(2)] sim(2) by auto
  assume c: "unat c < unat (bmap_start (isb d))"
  have "c \<noteq> a"
    using c addr(1) e(1) bd sim(2) by auto
  moreover have "c \<noteq> bmap_block s (k div 4096)"
  proof -
    have "unat (bmap_start (sb s)) + k div 4096 < 2 ^ 32"
      using bd addr(2) lay unfolding layout_def by linarith
    then have "unat (bmap_block s (k div 4096)) = unat (bmap_start (sb s)) + k div 4096"
      by (simp add: bmap_block_def unat_word_ariths unat_of_nat)
    then show ?thesis
      using c sim(2) by auto
  qed
  ultimately show "rd s' c = rd s c"
    using q(6) e(1) by simp
qed

lemma own_in:
  assumes "ino_ok s n i" "m \<le> 139" "own s i m \<noteq> 0" "fits d n" "rd s = sec d" "sb s = isb d"
  shows "unat (own s i m) < nsec d"
  using ino_okD(3) [OF assms(1-3)] assms(4) unfolding fits_iff [OF assms(5,6)] by auto

lemmas block_numbers = NDIRECT_DATA_BLOCKS_def NINDIRECT_DATA_BLOCKS_def MAX_DATA_BLOCKS_def

lemma bmap_direct_sim:
  assumes lay: "layout s n" and room: "room (Suc (Suc r)) s" and free: "3 \<le> free_cnt s n" and i: "i < length (inodes s)" and bn: "bn < 11"
    and b: "bmap i bn s = Some (a, s1)" and sim: "rd s = sec d" "sb s = isb d" and fits: "fits d n"
  shows "mk_bmap (disk_inode (inodes s ! i)) bn d = Some (a, disk_inode (inodes s1 ! i), d\<lparr>sec := rd s1\<rparr>)"
    "unat c < unat (bmap_start (isb d)) \<Longrightarrow> rd s1 c = rd s c" "fits (d\<lparr>sec := rd s1\<rparr>) n"
proof -
  let ?ip = "disk_inode (inodes s ! i)"
  have "mk_bmap ?ip bn d = Some (a, disk_inode (inodes s1 ! i), d\<lparr>sec := rd s1\<rparr>)
      \<and> (unat c < unat (bmap_start (isb d)) \<longrightarrow> rd s1 c = rd s c) \<and> fits (d\<lparr>sec := rd s1\<rparr>) n"
  proof (cases "addrs ?ip ! bn = 0")
    case False
    then show ?thesis
      using b bn sim fits by (auto simp: bmap_def mk_bmap_def block_numbers Let_def)
  next
    case True
    then obtain s' where s': "balloc s = Some (a, s')" "s1 = upd_dinode i (\<lambda>di. di\<lparr>addrs := (addrs di)[bn := a]\<rparr>) s'"
      using b bn by (auto simp: bmap_def block_numbers Let_def elim!: bind_SomeE)
    note bs = balloc_sim [OF lay room free s'(1) sim fits]
    show ?thesis
      using True bn i bs by (simp add: mk_bmap_def block_numbers Let_def s'(2) upd_dinode_def upd_inode_def)
  qed
  then show "mk_bmap ?ip bn d = Some (a, disk_inode (inodes s1 ! i), d\<lparr>sec := rd s1\<rparr>)"
    "unat c < unat (bmap_start (isb d)) \<Longrightarrow> rd s1 c = rd s c" "fits (d\<lparr>sec := rd s1\<rparr>) n"
    by blast+
qed

text \<open>The indirect block is there, or allocated by both.\<close>

lemma root_sim:
  assumes lay: "layout s n" and room: "room (r + 5) s" and free: "4 \<le> free_cnt s n" and ok: "ino_ok s n i"
    and sim: "rd s = sec d" "sb s = isb d" and fits: "fits d n"
    and b: "(if iaddrs s i ! 11 = 0 then do {
          (a, s') \<leftarrow> balloc s;
          Some (upd_dinode i (\<lambda>di. di\<lparr>addrs := (addrs di)[11 := a]\<rparr>) s')
        } else Some s) = Some s0"
  defines "ip \<equiv> disk_inode (inodes s ! i)"
  shows "(if addrs ip ! 11 = 0 then do {
          (a, d') \<leftarrow> mk_balloc d;
          Some (ip\<lparr>addrs := (addrs ip)[11 := a]\<rparr>, d')
        } else Some (ip, d)) = Some (disk_inode (inodes s0 ! i), d\<lparr>sec := rd s0\<rparr>)"
    "same_geo s s0" "room (r + 3) s0" "3 \<le> free_cnt s0 n" "ino_ok s0 n i" "iaddrs s0 i ! 11 \<noteq> 0" "fits (d\<lparr>sec := rd s0\<rparr>) n"
    "unat c < unat (bmap_start (isb d)) \<Longrightarrow> rd s0 c = rd s c"
proof -
  have "(if addrs ip ! 11 = 0 then do {
          (a, d') \<leftarrow> mk_balloc d;
          Some (ip\<lparr>addrs := (addrs ip)[11 := a]\<rparr>, d')
        } else Some (ip, d)) = Some (disk_inode (inodes s0 ! i), d\<lparr>sec := rd s0\<rparr>)
    \<and> same_geo s s0 \<and> room (r + 3) s0 \<and> 3 \<le> free_cnt s0 n \<and> ino_ok s0 n i \<and> iaddrs s0 i ! 11 \<noteq> 0 \<and> fits (d\<lparr>sec := rd s0\<rparr>) n
    \<and> (unat c < unat (bmap_start (isb d)) \<longrightarrow> rd s0 c = rd s c)"
  proof (cases "iaddrs s i ! 11 = 0")
    case False
    then show ?thesis
      using b sim free ok fits room_mono [OF room, of "r + 3"] by (simp add: ip_def)
  next
    case True
    have rm: "room (Suc (Suc (r + 3))) s" "0 < free_cnt s n"
      using room free by (simp_all add: numeral_eq_Suc)
    obtain a s' where s': "balloc s = Some (a, s')" "room (r + 3) s'" "free_cnt s' n = free_cnt s n - 1"
        "grow_spec n i s (upd_dinode i (\<lambda>di. di\<lparr>addrs := (addrs di)[11 := a]\<rparr>) s')"
      using indirect_root [OF lay rm ok True] by blast
    have s0: "s0 = upd_dinode i (\<lambda>di. di\<lparr>addrs := (addrs di)[11 := a]\<rparr>) s'"
      using b True s'(1) by simp
    have "3 \<le> free_cnt s n"
      using free by simp
    note bs = balloc_sim [OF lay rm(1) this s'(1) sim fits]
    have i: "i < length (inodes s)"
      by (rule ino_okD(1) [OF ok])
    have "used s0 = used s'"
      unfolding s0 by (rule used_cong) (simp_all add: upd_dinode_def upd_inode_def same_geo_def)
    then have "3 \<le> free_cnt s0 n"
      using s'(3) free by (simp add: free_cnt_def)
    moreover have "same_geo s s0" "ino_ok s0 n i" "iaddrs s0 i ! 11 \<noteq> 0"
      using s'(4) unfolding s0 by (simp_all add: grow_spec_def)
    ultimately show ?thesis
      using True i bs s'(2) by (simp add: ip_def s0 upd_dinode_def upd_inode_def)
  qed
  then show "(if addrs ip ! 11 = 0 then do {
          (a, d') \<leftarrow> mk_balloc d;
          Some (ip\<lparr>addrs := (addrs ip)[11 := a]\<rparr>, d')
        } else Some (ip, d)) = Some (disk_inode (inodes s0 ! i), d\<lparr>sec := rd s0\<rparr>)"
    "same_geo s s0" "room (r + 3) s0" "3 \<le> free_cnt s0 n" "ino_ok s0 n i" "iaddrs s0 i ! 11 \<noteq> 0" "fits (d\<lparr>sec := rd s0\<rparr>) n"
    "unat c < unat (bmap_start (isb d)) \<Longrightarrow> rd s0 c = rd s c"
    by blast+
qed

lemma bmap_sim:
  assumes lay: "layout s n" and room: "room (r + 5) s" and free: "4 \<le> free_cnt s n" and ok: "ino_ok s n i" and bn: "bn < 139"
    and b: "bmap i bn s = Some (a, s1)" and sim: "rd s = sec d" "sb s = isb d" and fits: "fits d n"
  shows "mk_bmap (disk_inode (inodes s ! i)) bn d = Some (a, disk_inode (inodes s1 ! i), d\<lparr>sec := rd s1\<rparr>)"
    "unat c < unat (bmap_start (isb d)) \<Longrightarrow> rd s1 c = rd s c" "fits (d\<lparr>sec := rd s1\<rparr>) n"
proof -
  have "mk_bmap (disk_inode (inodes s ! i)) bn d = Some (a, disk_inode (inodes s1 ! i), d\<lparr>sec := rd s1\<rparr>)
      \<and> (unat c < unat (bmap_start (isb d)) \<longrightarrow> rd s1 c = rd s c) \<and> fits (d\<lparr>sec := rd s1\<rparr>) n"
  proof (cases "bn < 11")
    case True
    have "room (Suc (Suc (r + 3))) s" "3 \<le> free_cnt s n"
      using room free by (simp_all add: numeral_eq_Suc)
    from bmap_direct_sim [OF lay this ino_okD(1) [OF ok] True b sim fits] show ?thesis
      by blast
  next
    case False
    let ?root = "if iaddrs s i ! 11 = 0 then do {
          (a, s') \<leftarrow> balloc s;
          Some (upd_dinode i (\<lambda>di. di\<lparr>addrs := (addrs di)[11 := a]\<rparr>) s')
        } else Some s"
    obtain s0 where s0: "?root = Some s0" and rest: "(let ind = iaddrs s0 i ! 11; addr = get32 (rd s0 ind) (bn - 11) in
        if addr = 0 then do {
          (a, s2) \<leftarrow> balloc s0;
          s3 \<leftarrow> fs_log_write ind (put32 (rd s2 ind) (bn - 11) a) s2;
          Some (a, s3)
        } else Some (addr, s0)) = Some (a, s1)"
      using b bn False unfolding bmap_def block_numbers Let_def by (auto elim!: bind_SomeE)
    note rs = root_sim [OF lay room free ok sim fits s0]
    let ?ind = "iaddrs s0 i ! 11" and ?d0 = "d\<lparr>sec := rd s0\<rparr>"
    have lay0: "layout s0 n" and sb0: "sb s0 = isb ?d0" and sim0: "rd s0 = sec ?d0" and f22: "nsec d \<le> 2 ^ 22"
      using lay same_geo_simps(3) [OF rs(2)] rs(2) sim(2) fits by (simp_all add: same_geo_def fits_def)
    have o139: "own s0 i 139 = ?ind"
      by (simp add: own_def)
    have ind: "unat ?ind < nsec d"
      using own_in [OF rs(5) _ _ rs(7) sim0 sb0, of 139] rs(6) o139 by simp
    have mk: "mk_bmap (disk_inode (inodes s ! i)) bn d =
        (if get32 (rd s0 ?ind) (bn - 11) = 0 then do {
          (a, d2) \<leftarrow> mk_balloc ?d0;
          d3 \<leftarrow> img_write ?ind (put32 (rd s0 ?ind) (bn - 11) a) d2;
          Some (a, disk_inode (inodes s0 ! i), d3)
        } else Some (get32 (rd s0 ?ind) (bn - 11), disk_inode (inodes s0 ! i), ?d0))"
    proof -
      have "bn - 11 < 128"
        using bn by simp
      then show ?thesis
        using False rs(1) ind f22 bread_in [of ?d0 ?ind] unfolding mk_bmap_def block_numbers Let_def by simp
    qed
    show ?thesis
    proof (cases "get32 (rd s0 ?ind) (bn - 11) = 0")
      case no: False
      then show ?thesis
        using rest mk rs(7,8) by (auto simp: Let_def)
    next
      case z: True
      have rm: "room (Suc (Suc (r + 1))) s0" and "0 < free_cnt s0 n"
        using room_mono [OF rs(3), of "Suc (Suc (r + 1))"] rs(4) by simp_all
      then obtain k s2 where s2: "balloc s0 = Some (data_block s0 k, s2)" "frame n i s0 s2"
        using balloc_frame [OF lay0 _ _ rs(5)] by metis
      obtain j where "j < n" "?ind = data_block s0 j" "used s0 j"
        using ino_okD(3) [OF rs(5), of 139] rs(6) o139 by auto
      then have keep: "rd s2 ?ind = rd s0 ?ind"
        using s2(2) by (simp add: frame_def)
      have s1: "a = data_block s0 k" "fs_log_write ?ind (put32 (rd s2 ?ind) (bn - 11) a) s2 = Some s1"
        using rest z s2(1) by (auto simp: Let_def elim!: bind_SomeE)
      note bs = balloc_sim [OF lay0 rm rs(4) s2(1) sim0 sb0 rs(7)]
      note w = fs_log_write_sel [OF s1(2)]
      have low: "c \<noteq> ?ind" if "unat c < unat (bmap_start (isb d))"
      proof -
        have "unat (bmap_start (sb s0)) \<le> unat (bdata_start (sb s0))"
          using lay0 unfolding layout_def by linarith
        then show ?thesis
          using that layout_addr(1) [OF lay0 \<open>j < n\<close>] \<open>?ind = data_block s0 j\<close> sb0 by auto
      qed
      have "fits (d\<lparr>sec := rd s1\<rparr>) n"
        using fits_write [OF bs(6) _ _ _ \<open>j < n\<close>, of s2 "put32 (rd s2 ?ind) (bn - 11) a"] lay0 sb0 w(1) same_geo_simps(1,3) [OF bs(3)] bs(3)
          \<open>?ind = data_block s0 j\<close> by (simp add: same_geo_def)
      then show ?thesis
        using mk z bs rs(8) w keep s1(1) ind f22 low img_write_in [of "d\<lparr>sec := rd s2\<rparr>" ?ind]
        by simp
    qed
  qed
  then show "mk_bmap (disk_inode (inodes s ! i)) bn d = Some (a, disk_inode (inodes s1 ! i), d\<lparr>sec := rd s1\<rparr>)"
    "unat c < unat (bmap_start (isb d)) \<Longrightarrow> rd s1 c = rd s c" "fits (d\<lparr>sec := rd s1\<rparr>) n"
    by blast+
qed


section \<open>What the kernel sees of the image\<close>

text \<open>
  The state of the kernel that has mounted the image, has begun an operation and holds inode \<open>i\<close> with the contents \<open>di\<close>; \<open>stored\<close> is the inode on
  the disk.
\<close>

definition kview :: "image \<Rightarrow> u32 \<Rightarrow> dinode \<Rightarrow> fs" where
  "kview d i di =
     \<lparr>lg = \<lparr>log_start = sb_log_start (isb d), outstanding = 1, committing = False, lh_n = 0, lh_blocks = replicate (nat LOG_SIZE) 0,
        sem_value = 0, sem_waiting = 0\<rparr>,
      dev = fresh (sec d), sb = isb d,
      inodes = [\<lparr>inum = i, iref = 1, locked = True, valid = True, disk_inode = di\<rparr>]\<rparr>"

definition stored :: "image \<Rightarrow> u32 \<Rightarrow> dinode" where
  "stored d i = get_dinode (sec d (GET_INODE_BLOCK_NO i (isb d))) (dip_off i)"

abbreviation mounted :: "image \<Rightarrow> u32 \<Rightarrow> fs" where "mounted d i \<equiv> kview d i (stored d i)"

text \<open>An image with \<open>n\<close> data blocks that the kernel can mount: the header of the log is empty.\<close>

definition image_ok :: "image \<Rightarrow> nat \<Rightarrow> bool" where
  "image_ok d n = (fits d n \<and> (\<forall>b. length (sec d b) = 512) \<and> get32 (sec d (sb_log_start (isb d))) 0 = 0
     \<and> layout (kview d 0 dinode0) n
     \<and> (\<forall>i. i < ninodes (isb d) \<longrightarrow> unat (GET_INODE_BLOCK_NO i (isb d)) < unat (bmap_start (isb d))
           \<and> \<not> log_area (sb_log_start (isb d)) (GET_INODE_BLOCK_NO i (isb d))))"

lemma kview_sel [simp]: "rd (kview d i di) = sec d" "sb (kview d i di) = isb d" "log_start (lg (kview d i di)) = sb_log_start (isb d)"
  "inodes (kview d i di) = [\<lparr>inum = i, iref = 1, locked = True, valid = True, disk_inode = di\<rparr>]"
  by (simp_all add: kview_def fresh_def)

lemma image_okD:
  assumes "image_ok d n"
  shows "fits d n" "length (sec d b) = 512" "layout (kview d i di) n" "r \<le> 30 \<Longrightarrow> room r (kview d i di)"
    "i < ninodes (isb d) \<Longrightarrow> iblock_ok (kview d i di) 0"
proof -
  have o: "fits d n" "\<And>b. length (sec d b) = 512" "get32 (sec d (sb_log_start (isb d))) 0 = 0" "layout (kview d 0 dinode0) n"
      "\<And>i. i < ninodes (isb d) \<Longrightarrow> unat (GET_INODE_BLOCK_NO i (isb d)) < unat (bmap_start (isb d))
           \<and> \<not> log_area (sb_log_start (isb d)) (GET_INODE_BLOCK_NO i (isb d))"
    using assms by (simp_all add: image_ok_def)
  show "fits d n" "length (sec d b) = 512"
    by (rule o)+
  have "same_geo (kview d 0 dinode0) (kview d i di)"
    by (simp add: same_geo_def)
  then show "layout (kview d i di) n"
    using o(4) same_geo_simps(3) by blast
  show "r \<le> 30 \<Longrightarrow> room r (kview d i di)"
    using o(2,3) by (simp add: room_def log_ok_def kview_def fresh_def LOG_SIZE_def MAX_OPEN_BLOCKS_def)
  show "i < ninodes (isb d) \<Longrightarrow> iblock_ok (kview d i di) 0"
    using o(5) by (simp add: iblock_ok_def)
qed

text \<open>A state of the kernel in which only blocks and the inode's contents have changed, as an image again.\<close>

lemma kview_again:
  assumes "image_ok d n" "fits (d\<lparr>sec := rd s\<rparr>) n" "room r s" "same_geo (kview d i di) s"
    "inodes s = [\<lparr>inum = i, iref = 1, locked = True, valid = True, disk_inode = di'\<rparr>]"
  defines "d' \<equiv> d\<lparr>sec := rd s\<rparr>"
  shows "image_ok d' n" "used (kview d' i di') = used s" "own (kview d' i di') 0 m = own s 0 m" "byte (kview d' i di') 0 p = byte s 0 p"
    "ino_ok (kview d' i di') n 0 = ino_ok s n 0" "free_cnt (kview d' i di') n = free_cnt s n"
proof -
  have g: "sb s = isb d" "log_start (lg s) = sb_log_start (isb d)"
    using assms(4) by (simp_all add: same_geo_def)
  have lk: "log_ok (lg s) (dev s)" "\<And>b. length (rd s b) = 512"
    using assms(3) by (simp_all add: room_def)
  have "log_area (sb_log_start (isb d)) (sb_log_start (isb d))"
    by (simp add: log_area_def)
  then have "rd s (sb_log_start (isb d)) = dsk (dev s) (sb_log_start (isb d))"
    using lk(1) g(2) unfolding log_ok_def by metis
  then have hd: "get32 (rd s (sb_log_start (isb d))) 0 = 0"
    using lk(1) g(2) unfolding log_ok_def by metis
  have "same_geo (kview d 0 dinode0) (kview d' 0 dinode0)"
    by (simp add: same_geo_def d'_def)
  then have "layout (kview d' 0 dinode0) n"
    using image_okD(3) [OF assms(1)] same_geo_simps(3) by blast
  then show "image_ok d' n"
    using assms(1,2) hd lk(2) by (simp add: image_ok_def d'_def)
  have sg: "same_geo s (kview d' i di')" "rd (kview d' i di') = rd s" "inodes (kview d' i di') = inodes s"
    using g assms(5) by (simp_all add: same_geo_def d'_def)
  show us: "used (kview d' i di') = used s"
    by (rule used_cong [OF sg(1,2)])
  show own: "own (kview d' i di') 0 m = own s 0 m" for m
    unfolding own_def sg(2,3) ..
  show "byte (kview d' i di') 0 p = byte s 0 p"
    unfolding byte_def content_def own sg(2) ..
  show "ino_ok (kview d' i di') n 0 = ino_ok s n 0"
    unfolding ino_ok_def own sg(3) us same_geo_simps(1) [OF sg(1)] ..
  show "free_cnt (kview d' i di') n = free_cnt s n"
    unfolding free_cnt_def us ..
qed

lemma write_spec_view:
  assumes "write_spec n 0 off src s0 s" "image_ok d n" "fits (d\<lparr>sec := rd s\<rparr>) n" "room r s" "same_geo (kview d i di) s"
    "inodes s = [\<lparr>inum = i, iref = 1, locked = True, valid = True, disk_inode = di'\<rparr>]"
  shows "write_spec n 0 off src s0 (kview (d\<lparr>sec := rd s\<rparr>) i di')"
proof -
  note k = kview_again [OF assms(2-6)]
  have g: "same_geo s0 (kview (d\<lparr>sec := rd s\<rparr>) i di')"
    using assms(1,5) by (simp add: write_spec_def same_geo_def)
  show ?thesis
    using assms(1,6) g unfolding write_spec_def k by simp
qed


section \<open>Appending to a file\<close>

text \<open>One pass of the loop of \<open>iappend\<close>, against one pass of the kernel's loop with an empty log.\<close>

lemma append_chunk_ok:
  assumes img: "image_ok d n" and ok: "ino_ok (kview d i di) n 0" and free: "4 \<le> free_cnt (kview d i di) n"
    and bn: "off div 512 < 139" and m: "off mod 512 + m \<le> 512" "m \<le> length src"
  shows "\<exists>a di' d1 d2. mk_bmap di (off div 512) d = Some (a, di', d1) \<and> bread d1 a = Some (sec d1 a)
    \<and> img_write a (take (off mod 512) (sec d1 a) @ take m src @ drop (off mod 512 + m) (sec d1 a)) d1 = Some d2
    \<and> image_ok d2 n \<and> free_cnt (kview d i di) n \<le> free_cnt (kview d2 i di') n + 2
    \<and> write_spec n 0 off (take m src) (kview d i di) (kview d2 i di') \<and> d2 = d\<lparr>sec := sec d2\<rparr>
    \<and> (\<forall>c. unat c < unat (bmap_start (isb d)) \<longrightarrow> sec d2 c = sec d c)"
proof -
  let ?s = "kview d i di" and ?bn = "off div 512"
  note o = image_okD [OF img]
  have room: "room (0 + 6) ?s" "room (1 + 5) ?s"
    by (simp_all add: o(4))
  obtain a s1 s2 where w: "bmap 0 ?bn ?s = Some (a, s1)" "bmap_spec n 0 ?bn ?s a s1"
      "fs_log_write a (take (off mod 512) (rd s1 a) @ take m src @ drop (off mod 512 + m) (rd s1 a)) s1 = Some s2"
      "room 0 s2" "free_cnt ?s n \<le> free_cnt s2 n + 2" "write_spec n 0 off (take m src) ?s s2"
    using write_chunk_ok [OF o(3) room(1) _ ok bn m] free by auto
  note bs = bmap_sim [OF o(3) room(2) free ok bn w(1) kview_sel(1,2) o(1), simplified]
  let ?d1 = "d\<lparr>sec := rd s1\<rparr>" and ?di = "disk_inode (inodes s1 ! 0)"
  have sp: "same_geo ?s s1" "ino_ok s1 n 0" "own s1 0 ?bn = a" "a \<noteq> 0"
    using w(2) by (simp_all add: bmap_spec_def)
  obtain x where ino1: "inodes s1 = [\<lparr>inum = i, iref = 1, locked = True, valid = True, disk_inode = di\<lparr>addrs := x\<rparr>\<rparr>]"
    using w(2) by (auto simp: bmap_spec_def)
  note ws = fs_log_write_sel [OF w(3)]
  have lay1: "layout s1 n" and sim1: "rd s1 = sec ?d1" and sb1: "sb s1 = isb ?d1"
    using o(3) same_geo_simps(3) [OF sp(1)] sp(1) by (simp_all add: same_geo_def)
  have a: "unat a < nsec ?d1" "nsec ?d1 \<le> 2 ^ 22"
    using own_in [OF sp(2) _ _ bs(3) sim1 sb1, of ?bn] sp(3,4) bn bs(3) by (simp_all add: fits_def)
  obtain j where j: "j < n" "a = data_block s1 j"
    using ino_okD(3) [OF sp(2), of ?bn] sp(3,4) bn by auto
  have f2: "fits (d\<lparr>sec := rd s2\<rparr>) n"
    using fits_write [OF bs(3) lay1 sim1 sb1 j(1)] ws(1) j(2) by simp
  have g2: "same_geo ?s s2" "inodes s2 = [\<lparr>inum = i, iref = 1, locked = True, valid = True, disk_inode = ?di\<rparr>]"
    using sp(1) ws ino1 by (simp_all add: same_geo_def)
  let ?d2 = "d\<lparr>sec := rd s2\<rparr>"
  note k = kview_again [OF img f2 w(4) g2]
  have "bread ?d1 a = Some (rd s1 a)"
      "img_write a (take (off mod 512) (rd s1 a) @ take m src @ drop (off mod 512 + m) (rd s1 a)) ?d1 = Some ?d2"
    using bread_in [OF a(2,1)] img_write_in [OF a(2,1)] ws(1) by simp_all
  moreover have "rd s2 c = sec d c" if "unat c < unat (bmap_start (isb d))" for c
  proof -
    have "unat (bmap_start (sb s1)) \<le> unat (bdata_start (sb s1))"
      using lay1 unfolding layout_def by linarith
    then have "c \<noteq> a"
      using that layout_addr(1) [OF lay1 j(1)] j(2) sb1 by auto
    then show ?thesis
      using ws(1) bs(2) [OF that] by simp
  qed
  ultimately show ?thesis
    using bs(1) k(1,6) w(5) write_spec_view [OF w(6) img f2 w(4) g2] by (intro exI [of _ a] exI [of _ ?di] exI [of _ ?d1] exI [of _ ?d2]) simp
qed

lemma append_loop_ok:
  assumes "image_ok d n" "ino_ok (kview d i di) n 0" "2 * nblk off (length src) + 2 \<le> free_cnt (kview d i di) n"
    and "off + length src \<le> 139 * 512"
  shows "\<exists>di' d'. append_loop di off src d = Some (di', off + length src, d') \<and> image_ok d' n
    \<and> write_spec n 0 off src (kview d i di) (kview d' i di') \<and> d' = d\<lparr>sec := sec d'\<rparr>
    \<and> free_cnt (kview d i di) n \<le> free_cnt (kview d' i di') n + 2 * nblk off (length src)
    \<and> (\<forall>c. unat c < unat (bmap_start (isb d)) \<longrightarrow> sec d' c = sec d c)"
  using assms
proof (induction "length src" arbitrary: off src d di rule: less_induct)
  case less
  show ?case
  proof (cases "src = []")
    case True
    have "write_spec n 0 off [] (kview d i di) (kview d i di)"
      using less.prems(2) by (auto simp: write_spec_def intro: exI [of _ "addrs di"])
    then show ?thesis
      using True less.prems(1) by (simp add: append_loop.simps)
  next
    case False
    define m where "m = min (512 - off mod 512) (length src)"
    have pos: "0 < length src"
      using False by simp
    note st = nblk_step [OF pos m_def]
    have cnt: "1 + nblk (off + m) (length (drop m src)) \<le> nblk off (length src)"
      using st(4) by simp
    have "off < 139 * 512"
      using less.prems(4) pos by linarith
    then have bn: "off div 512 < 139"
      by (simp add: div_less_iff_less_mult)
    have "4 \<le> free_cnt (kview d i di) n"
      using less.prems(3) cnt by linarith
    from append_chunk_ok [OF less.prems(1,2) this bn st(3,2)] obtain a di1 d1 d2
      where c: "mk_bmap di (off div 512) d = Some (a, di1, d1)" "bread d1 a = Some (sec d1 a)"
        "img_write a (take (off mod 512) (sec d1 a) @ take m src @ drop (off mod 512 + m) (sec d1 a)) d1 = Some d2"
        "image_ok d2 n" "free_cnt (kview d i di) n \<le> free_cnt (kview d2 i di1) n + 2"
        "write_spec n 0 off (take m src) (kview d i di) (kview d2 i di1)" "d2 = d\<lparr>sec := sec d2\<rparr>"
        "\<And>c. unat c < unat (bmap_start (isb d)) \<Longrightarrow> sec d2 c = sec d c"
      by blast
    have isb2: "isb d2 = isb d"
      using c(7) by (metis image.ext_inject image.surjective image.update_convs(1))
    have "\<exists>di' d'. append_loop di1 (off + m) (drop m src) d2 = Some (di', off + m + length (drop m src), d') \<and> image_ok d' n
        \<and> write_spec n 0 (off + m) (drop m src) (kview d2 i di1) (kview d' i di') \<and> d' = d2\<lparr>sec := sec d'\<rparr>
        \<and> free_cnt (kview d2 i di1) n \<le> free_cnt (kview d' i di') n + 2 * nblk (off + m) (length (drop m src))
        \<and> (\<forall>c. unat c < unat (bmap_start (isb d2)) \<longrightarrow> sec d' c = sec d2 c)"
    proof (rule less.hyps)
      show "length (drop m src) < length src"
        using st(1) pos by simp
      show "image_ok d2 n" "ino_ok (kview d2 i di1) n 0"
        using c(4,6) by (simp_all add: write_spec_def)
      show "2 * nblk (off + m) (length (drop m src)) + 2 \<le> free_cnt (kview d2 i di1) n"
        using less.prems(3) cnt c(5) by linarith
      show "off + m + length (drop m src) \<le> 139 * 512"
        using less.prems(4) st(2) by simp
    qed
    then obtain di' d' where r: "append_loop di1 (off + m) (drop m src) d2 = Some (di', off + length src, d')" "image_ok d' n"
        "write_spec n 0 (off + m) (drop m src) (kview d2 i di1) (kview d' i di')" "d' = d2\<lparr>sec := sec d'\<rparr>"
        "free_cnt (kview d2 i di1) n \<le> free_cnt (kview d' i di') n + 2 * nblk (off + m) (length (drop m src))"
        "\<And>c. unat c < unat (bmap_start (isb d)) \<Longrightarrow> sec d' c = sec d2 c"
      using st(2) isb2 by auto
    have "write_spec n 0 off (take m src @ drop m src) (kview d i di) (kview d' i di')"
      by (rule write_spec_trans [OF c(6)]) (use r(3) st(2) less.prems(4) in \<open>auto simp: min_def\<close>)
    moreover have "append_loop di off src d = Some (di', off + length src, d')"
      using False c(1-3) r(1) by (subst append_loop.simps) (simp add: Let_def m_def [symmetric])
    moreover have "d' = d\<lparr>sec := sec d'\<rparr>"
      by (subst r(4), subst c(7)) simp
    moreover have "free_cnt (kview d i di) n \<le> free_cnt (kview d' i di') n + 2 * nblk off (length src)"
      using c(5) r(5) cnt by linarith
    ultimately show ?thesis
      using r(2,6) c(8) by auto
  qed
qed


lemma inode_block_in:
  assumes "image_ok d n" "i < ninodes (isb d)"
  shows "unat (GET_INODE_BLOCK_NO i (isb d)) < nsec d" "unat (GET_INODE_BLOCK_NO i (isb d)) < unat (bmap_start (isb d))" "nsec d \<le> 2 ^ 22"
proof -
  have "unat (bmap_start (isb d)) \<le> unat (bdata_start (isb d))"
    using image_okD(3) [OF assms(1), of 0 dinode0] unfolding layout_def by simp
  moreover have "unat (GET_INODE_BLOCK_NO i (isb d)) < unat (bmap_start (isb d))"
    using assms by (simp add: image_ok_def)
  ultimately show "unat (GET_INODE_BLOCK_NO i (isb d)) < nsec d" "unat (GET_INODE_BLOCK_NO i (isb d)) < unat (bmap_start (isb d))" "nsec d \<le> 2 ^ 22"
    using image_okD(1) [OF assms(1)] by (auto simp: fits_def)
qed

lemma iread_stored: "image_ok d n \<Longrightarrow> i < ninodes (isb d) \<Longrightarrow> iread d i = Some (stored d i)"
  using bread_in [OF inode_block_in(3,1)] by (simp add: iread_def stored_def)

lemma iwrite_stored:
  assumes "image_ok d n" "i < ninodes (isb d)" "length (addrs di) = 12"
  obtains d' where "iwrite di i d = Some d'" "isb d' = isb d" "stored d' i = di" "\<And>j. j \<noteq> i \<Longrightarrow> stored d' j = stored d j" "image_ok d' n"
    "\<And>j dj k. k < n \<Longrightarrow> sec d' (data_block (kview d j dj) k) = sec d (data_block (kview d j dj) k)"
    "\<And>j dj k. k < n \<Longrightarrow> used (kview d' j dj) k = used (kview d j dj) k"
proof -
  let ?b = "GET_INODE_BLOCK_NO i (isb d)"
  let ?x = "put_dinode (sec d ?b) (dip_off i) di"
  let ?d = "d\<lparr>sec := (sec d)(?b := ?x)\<rparr>"
  note inb = inode_block_in [OF assms(1,2)] and o = image_okD [OF assms(1)]
  have w: "iwrite di i d = Some ?d"
    using bread_in [OF inb(3,1)] img_write_in [OF inb(3,1)] by (simp add: iwrite_def Let_def)
  note gp = get_put_dinode [OF o(2) [of ?b] assms(3) dip_off_bound]
  have st: "stored ?d i = di"
    using gp(1) by (simp add: stored_def)
  have other: "stored ?d j = stored d j" if "j \<noteq> i" for j
  proof (cases "GET_INODE_BLOCK_NO j (isb d) = ?b")
    case True
    then show ?thesis
      using gp(2) [of "dip_off j"] same_block_other_slot [OF True that] dip_off_bound [of j] by (auto simp: stored_def)
  qed (simp add: stored_def)
  have ib: "iblock_ok (kview d i di) 0" and r1: "room (Suc 0) (kview d i di)"
    using o(4,5) assms(2) by simp_all
  obtain s' where s': "inode_update 0 (kview d i di) = Some s'" "room 0 s'" "frame n 0 (kview d i di) s'"
      "\<And>k. k < n \<Longrightarrow> used s' k = used (kview d i di) k" "rd s' = (sec d)(?b := ?x)"
    using inode_update_ok [OF o(3) r1 ib, of 0] by (metis kview_sel(1,2,4) inode.select_convs(1,5) nth_Cons_0)
  have g: "same_geo (kview d i di) s'" "inodes s' = [\<lparr>inum = i, iref = 1, locked = True, valid = True, disk_inode = di\<rparr>]"
    using s'(3) by (simp_all add: frame_def)
  have s1: "rd s' = sec (d\<lparr>sec := rd s'\<rparr>)" "sb s' = isb (d\<lparr>sec := rd s'\<rparr>)"
    using g(1) by (simp_all add: same_geo_def)
  have "fits (d\<lparr>sec := rd s'\<rparr>) n"
    using o(1) s'(4) same_geo_simps(1) [OF g(1)] unfolding fits_iff [OF s1] fits_iff [OF kview_sel(1,2), of d n i di] by simp
  note k = kview_again [OF assms(1) this s'(2) g, unfolded s'(5)]
  have us: "used (kview e j dj) = used (kview e i di)" for e j dj
    by (rule used_cong) (simp_all add: same_geo_def)
  have db: "data_block (kview d j dj) = data_block (kview d i di)" for j dj
    by (rule same_geo_simps(1)) (simp add: same_geo_def)
  have "sec ?d (data_block (kview d j dj) k) = sec d (data_block (kview d j dj) k)" if "k < n" for j dj k
    using iblock_apart(1) [OF o(3) ib that] unfolding db [of j dj] by simp
  moreover have "used (kview ?d j dj) k = used (kview d j dj) k" if "k < n" for j dj k
    using k(2) s'(4) [OF that] us [of ?d j dj] us [of d j dj] by simp
  ultimately show thesis
    by (intro that [OF w _ st other k(1)]) simp_all
qed

text \<open>A file or device on an image, and the free blocks; neither depends on the kernel's table of inodes.\<close>

definition fok :: "image \<Rightarrow> nat \<Rightarrow> u32 \<Rightarrow> bool" where
  "fok d n i = (ino_ok (mounted d i) n 0 \<and> isize (mounted d i) 0 \<le> 139 * 512 \<and> (\<forall>p < isize (mounted d i) 0. own (mounted d i) 0 (p div 512) \<noteq> 0))"

definition dused :: "image \<Rightarrow> nat \<Rightarrow> bool" where "dused d = used (kview d 0 dinode0)"

definition dblk :: "image \<Rightarrow> nat \<Rightarrow> u32" where "dblk d = data_block (kview d 0 dinode0)"

definition unused :: "image \<Rightarrow> nat \<Rightarrow> nat" where "unused d n = card {k. k < n \<and> \<not> dused d k}"

lemma kview_used [simp]: "used (kview d i di) = dused d"
  unfolding dused_def by (rule used_cong) (simp_all add: same_geo_def)

lemma kview_data_block [simp]: "data_block (kview d i di) = dblk d"
  unfolding dblk_def by (rule same_geo_simps(1)) (simp add: same_geo_def)

lemma dblk_cong: "isb d' = isb d \<Longrightarrow> dblk d' = dblk d"
  unfolding dblk_def by (rule same_geo_simps(1)) (simp add: same_geo_def)

lemma kview_free [simp]: "free_cnt (kview d i di) n = unused d n"
  by (simp add: unused_def free_cnt_def)

lemma fok_file: "image_ok d n \<Longrightarrow> file_ok (mounted d i) n 0 = (fok d n i \<and> dtype (stored d i) \<noteq> INODE_DEVICE)"
  using image_okD(2) by (auto simp: file_ok_def fok_def)

text \<open>The blocks in use that do not belong to inode \<open>i\<close> keep their contents and do not come to belong to it.\<close>

definition foreign_kept :: "nat \<Rightarrow> u32 \<Rightarrow> image \<Rightarrow> image \<Rightarrow> bool" where
  "foreign_kept n i d d' = (\<forall>k < n. dused d k \<longrightarrow> (\<forall>m \<le> 139. dblk d k \<noteq> own (mounted d i) 0 m) \<longrightarrow>
     sec d' (dblk d k) = sec d (dblk d k) \<and> (\<forall>m \<le> 139. dblk d k \<noteq> own (mounted d' i) 0 m))"

text \<open>The new inode is stored after the loop.\<close>

lemma store_inode_ok:
  assumes img: "image_ok d1 n" and i: "i < ninodes (isb d1)" and ok: "ino_ok (kview d1 i di1) n 0" and ad: "addrs di2 = addrs di1"
  obtains d2 where "iwrite di2 i d1 = Some d2" "isb d2 = isb d1" "stored d2 i = di2" "\<And>j. j \<noteq> i \<Longrightarrow> stored d2 j = stored d1 j" "image_ok d2 n"
    "ino_ok (kview d2 i di2) n 0" "\<And>m. m \<le> 139 \<Longrightarrow> own (kview d2 i di2) 0 m = own (kview d1 i di1) 0 m"
    "\<And>p. p < 139 * 512 \<Longrightarrow> byte (kview d2 i di2) 0 p = byte (kview d1 i di1) 0 p"
    "\<And>k. k < n \<Longrightarrow> sec d2 (dblk d1 k) = sec d1 (dblk d1 k)"
    "\<And>k. k < n \<Longrightarrow> dused d2 k = dused d1 k" "unused d2 n = unused d1 n"
proof -
  have len: "length (addrs di2) = 12"
    using ino_okD(2) [OF ok] ad by simp
  obtain d2 where w: "iwrite di2 i d1 = Some d2" "isb d2 = isb d1" "stored d2 i = di2" "\<And>j. j \<noteq> i \<Longrightarrow> stored d2 j = stored d1 j" "image_ok d2 n"
      "\<And>j dj k. k < n \<Longrightarrow> sec d2 (data_block (kview d1 j dj) k) = sec d1 (data_block (kview d1 j dj) k)"
      "\<And>j dj k. k < n \<Longrightarrow> used (kview d2 j dj) k = used (kview d1 j dj) k"
    by (rule iwrite_stored [OF img i len]) (rule that)
  have fr: "frame n 0 (kview d1 i di1) (kview d2 i di1)"
    using w(2,6,7) by (simp add: frame_def same_geo_def)
  note fo = frame_own [OF fr ok]
  have own2: "own (kview d2 i di2) 0 m = own (kview d2 i di1) 0 m" "content (kview d2 i di2) 0 m = content (kview d2 i di1) 0 m" for m
    by (simp_all add: own_def content_def ad)
  have ok2: "ino_ok (kview d2 i di2) n 0"
    using fo(2) len unfolding ino_ok_def own2 by simp
  have "{k. k < n \<and> \<not> dused d2 k} = {k. k < n \<and> \<not> dused d1 k}"
    using w(7) by auto
  then have av: "unused d2 n = unused d1 n"
    by (simp add: unused_def)
  have "byte (kview d2 i di2) 0 p = byte (kview d1 i di1) 0 p" if "p < 139 * 512" for p
    using fo(3) [of "p div 512"] that own2(2) by (simp add: byte_def less_mult_imp_div_less less_imp_le)
  then show thesis
    using that [OF w(1-5) ok2 _ _ _ _ av] fo(1) own2(1) w(6,7) by simp
qed

lemma iappend_ok:
  assumes img: "image_ok d n" and i: "i < ninodes (isb d)" and f: "fok d n i"
    and free: "2 * nblk (isize (mounted d i) 0) (length src) + 2 \<le> unused d n" and fits: "isize (mounted d i) 0 + length src \<le> 139 * 512"
  obtains d' x where "iappend i src d = Some d'" "image_ok d' n" "isb d' = isb d" "fok d' n i" "fdata (mounted d' i) 0 = fdata (mounted d i) 0 @ src"
    "stored d' i = (stored d i)\<lparr>addrs := x, dsize := of_nat (isize (mounted d i) 0 + length src)\<rparr>"
    "\<And>j. j < ninodes (isb d) \<Longrightarrow> j \<noteq> i \<Longrightarrow> stored d' j = stored d j" "foreign_kept n i d d'"
    "\<And>k. k < n \<Longrightarrow> dused d k \<Longrightarrow> dused d' k"
    "unused d n \<le> unused d' n + 2 * nblk (isize (mounted d i) 0) (length src)"
proof -
  let ?s = "mounted d i" and ?di = "stored d i"
  let ?off = "isize ?s 0" and ?stop = "of_nat (isize ?s 0 + length src) :: u32"
  have fl: "ino_ok ?s n 0" "?off \<le> 139 * 512" "\<And>p. p < ?off \<Longrightarrow> own ?s 0 (p div 512) \<noteq> 0"
    using f by (auto simp: fok_def)
  obtain di1 d1 where a: "append_loop ?di ?off src d = Some (di1, ?off + length src, d1)" "image_ok d1 n"
      "write_spec n 0 ?off src ?s (kview d1 i di1)" "d1 = d\<lparr>sec := sec d1\<rparr>" "free_cnt ?s n \<le> free_cnt (kview d1 i di1) n + 2 * nblk ?off (length src)"
      "\<And>c. unat c < unat (bmap_start (isb d)) \<Longrightarrow> sec d1 c = sec d c"
    using append_loop_ok [OF img fl(1) _ fits] free by (metis kview_free)
  have isb1: "isb d1 = isb d"
    using a(4) by (metis image.ext_inject image.surjective image.update_convs(1))
  obtain x where di1: "di1 = ?di\<lparr>addrs := x\<rparr>"
    using a(3) by (auto simp: write_spec_def)
  have sp: "ino_ok (kview d1 i di1) n 0"
      "\<And>p. p < 139 * 512 \<Longrightarrow> byte (kview d1 i di1) 0 p = (if ?off \<le> p \<and> p < ?off + length src then src ! (p - ?off) else byte ?s 0 p)"
      "\<And>p. ?off \<le> p \<Longrightarrow> p < ?off + length src \<Longrightarrow> own (kview d1 i di1) 0 (p div 512) \<noteq> 0"
      "\<And>m. m < 139 \<Longrightarrow> own ?s 0 m \<noteq> 0 \<Longrightarrow> own (kview d1 i di1) 0 m \<noteq> 0" "\<And>k. k < n \<Longrightarrow> used ?s k \<Longrightarrow> used (kview d1 i di1) k"
      "\<And>k. k < n \<Longrightarrow> used ?s k \<Longrightarrow> (\<forall>m \<le> 139. data_block ?s k \<noteq> own ?s 0 m) \<Longrightarrow>
          sec d1 (data_block ?s k) = sec d (data_block ?s k) \<and> (\<forall>m \<le> 139. data_block ?s k \<noteq> own (kview d1 i di1) 0 m)"
    using a(3) by (auto simp: write_spec_def)
  have i1: "i < ninodes (isb d1)"
    using i isb1 by simp
  let ?di2 = "di1\<lparr>dsize := ?stop\<rparr>"
  obtain d2 where w: "iwrite ?di2 i d1 = Some d2" "isb d2 = isb d1" "stored d2 i = ?di2" "\<And>j. j \<noteq> i \<Longrightarrow> stored d2 j = stored d1 j" "image_ok d2 n"
      "ino_ok (kview d2 i ?di2) n 0" "\<And>m. m \<le> 139 \<Longrightarrow> own (kview d2 i ?di2) 0 m = own (kview d1 i di1) 0 m"
      "\<And>p. p < 139 * 512 \<Longrightarrow> byte (kview d2 i ?di2) 0 p = byte (kview d1 i di1) 0 p"
      "\<And>k. k < n \<Longrightarrow> sec d2 (dblk d1 k) = sec d1 (dblk d1 k)"
      "\<And>k. k < n \<Longrightarrow> dused d2 k = dused d1 k" "unused d2 n = unused d1 n"
    by (rule store_inode_ok [OF a(2) i1 sp(1), of ?di2]) (simp, rule that)
  have sz: "isize (kview d2 i ?di2) 0 = ?off + length src"
    using fits by (simp add: unat_of_nat unat_word_ariths)
  have present: "own (kview d2 i ?di2) 0 (p div 512) \<noteq> 0" if "p < ?off + length src" for p
  proof -
    have p: "p div 512 < 139"
      using that fits by (simp add: less_mult_imp_div_less)
    have "own (kview d1 i di1) 0 (p div 512) \<noteq> 0"
      using sp(3) [of p] sp(4) [OF p fl(3)] that by (cases "p < ?off") auto
    then show ?thesis
      using w(7) [of "p div 512"] p by simp
  qed
  have "fok d2 n i"
    unfolding fok_def w(3) using w(6) sz fits present by simp
  moreover have "fdata (mounted d2 i) 0 = fdata ?s 0 @ src"
    using fdata_overwrite [OF order_refl fits fl(2), of "mounted d2 i"] sp(2) w(3,8) sz by (simp add: overwrite_def)
  moreover have "foreign_kept n i d d2"
    unfolding foreign_kept_def w(3) using sp(6) w(7,9) dblk_cong [OF isb1] by simp
  moreover have "stored d2 j = stored d j" if "j < ninodes (isb d)" "j \<noteq> i" for j
    using w(4) [OF that(2)] a(6) inode_block_in(2) [OF img that(1)] isb1 by (simp add: stored_def)
  moreover have "iappend i src d = Some d2"
    using a(1) w(1) iread_stored [OF img i] by (simp add: iappend_def)
  moreover have "dused d2 k" if "k < n" "dused d k" for k
    using sp(5) [OF that(1)] that w(10) by simp
  ultimately show thesis
    using that [of d2 x] w(2,3,5,11) di1 isb1 a(5) by simp
qed

end
