(* ===== verification/MkTree.thy ===== *)
theory MkTree
  imports MkAppend
begin

text \<open>
  The files of an image as a map from inode numbers to files, and the operations of \<open>mkfs\<close> on it: the abstract specification of \<open>mkfs/fs.c\<close> and
  \<open>mkfs/mkfs.c\<close>. The kernel that mounts the image finds exactly the files of the map.
\<close>

section \<open>The files of an image\<close>

record afile =
  ftype :: u32
  flink :: u32
  fmajor :: u32
  fminor :: u32
  fbytes :: "u8 list"

definition live :: "image \<Rightarrow> u32 \<Rightarrow> bool" where
  "live d i = (0 < i \<and> i < ninodes (isb d) \<and> dtype (stored d i) \<noteq> INODE_NONE)"

definition absfile :: "image \<Rightarrow> u32 \<Rightarrow> afile" where
  "absfile d i = \<lparr>ftype = dtype (stored d i), flink = nlink (stored d i), fmajor = major (stored d i), fminor = minor (stored d i),
     fbytes = fdata (mounted d i) 0\<rparr>"

definition files :: "image \<Rightarrow> u32 \<rightharpoonup> afile" where
  "files d i = (if live d i then Some (absfile d i) else None)"

text \<open>Every file is well formed, and no two files share a block.\<close>

definition files_ok :: "image \<Rightarrow> nat \<Rightarrow> bool" where
  "files_ok d n = (image_ok d n \<and> (\<forall>i. live d i \<longrightarrow> fok d n i)
     \<and> (\<forall>i j m m'. live d i \<longrightarrow> live d j \<longrightarrow> i \<noteq> j \<longrightarrow> m \<le> 139 \<longrightarrow> m' \<le> 139 \<longrightarrow> own (mounted d i) 0 m \<noteq> 0 \<longrightarrow>
          own (mounted d i) 0 m \<noteq> own (mounted d j) 0 m'))"

lemma files_okD:
  assumes "files_ok d n"
  shows "image_ok d n" "live d i \<Longrightarrow> fok d n i"
    "live d i \<Longrightarrow> live d j \<Longrightarrow> i \<noteq> j \<Longrightarrow> m \<le> 139 \<Longrightarrow> m' \<le> 139 \<Longrightarrow> own (mounted d i) 0 m \<noteq> 0 \<Longrightarrow>
       own (mounted d i) 0 m \<noteq> own (mounted d j) 0 m'"
  using assms unfolding files_ok_def by blast+

lemma fokD:
  assumes "fok d n i"
  shows "ino_ok (mounted d i) n 0" "isize (mounted d i) 0 \<le> 139 * 512" "p < isize (mounted d i) 0 \<Longrightarrow> own (mounted d i) 0 (p div 512) \<noteq> 0"
    "m \<le> 139 \<Longrightarrow> own (mounted d i) 0 m \<noteq> 0 \<Longrightarrow> \<exists>k < n. own (mounted d i) 0 m = dblk d k \<and> dused d k"
  using assms ino_okD(3) [of "mounted d i" n 0 m] by (auto simp: fok_def)

text \<open>A file whose inode and whose blocks do not change is the same file.\<close>

lemma same_file:
  assumes f: "fok d n j" and st: "stored d' j = stored d j" and isb: "isb d' = isb d"
    and us: "\<And>k. k < n \<Longrightarrow> dused d k \<Longrightarrow> dused d' k"
    and blk: "\<And>m. m \<le> 139 \<Longrightarrow> own (mounted d j) 0 m \<noteq> 0 \<Longrightarrow> sec d' (own (mounted d j) 0 m) = sec d (own (mounted d j) 0 m)"
  shows "m \<le> 139 \<Longrightarrow> own (mounted d' j) 0 m = own (mounted d j) 0 m" "fok d' n j" "absfile d' j = absfile d j"
proof -
  have own: "own (mounted d' j) 0 m = own (mounted d j) 0 m" if "m \<le> 139" for m
    using blk [of 139] that st by (auto simp: own_def)
  then show "m \<le> 139 \<Longrightarrow> own (mounted d' j) 0 m = own (mounted d j) 0 m" .
  have sz: "isize (mounted d' j) 0 = isize (mounted d j) 0"
    using st by simp
  have small: "p div 512 \<le> 139" if "p < isize (mounted d j) 0" for p
    using that fokD(2) [OF f] by (simp add: less_mult_imp_div_less less_imp_le)
  have "byte (mounted d' j) 0 p = byte (mounted d j) 0 p" if "p < isize (mounted d j) 0" for p
    using own [OF small [OF that]] blk [OF small [OF that]] by (simp add: byte_def content_def)
  then show "absfile d' j = absfile d j"
    using st sz by (simp add: absfile_def fdata_def)
  have "ino_ok (mounted d' j) n 0"
    using fokD(1) [OF f] own us dblk_cong [OF isb] st unfolding ino_ok_def by simp metis
  then show "fok d' n j"
    using fokD(2,3) [OF f] own small sz unfolding fok_def by simp
qed

section \<open>The operations on the files\<close>

lemma files_okI:
  assumes t: "files_ok d n" and img: "image_ok d' n" and isb: "isb d' = isb d" and i: "0 < i" "i < ninodes (isb d)" "dtype (stored d' i) \<noteq> INODE_NONE"
    and f: "fok d' n i" and st: "\<And>j. j < ninodes (isb d) \<Longrightarrow> j \<noteq> i \<Longrightarrow> stored d' j = stored d j"
    and us: "\<And>k. k < n \<Longrightarrow> dused d k \<Longrightarrow> dused d' k"
    and keep: "\<And>k j m. k < n \<Longrightarrow> dused d k \<Longrightarrow> live d j \<Longrightarrow> j \<noteq> i \<Longrightarrow> m \<le> 139 \<Longrightarrow> own (mounted d j) 0 m = dblk d k \<Longrightarrow>
      sec d' (dblk d k) = sec d (dblk d k) \<and> (\<forall>m \<le> 139. dblk d k \<noteq> own (mounted d' i) 0 m)"
  shows "files_ok d' n" "files d' = (files d)(i \<mapsto> absfile d' i)"
proof -
  have lv: "live d' j = (j = i \<or> live d j)" for j
    using i isb st [of j] by (cases "j = i") (auto simp: live_def)
  have fj: "fok d n j" if "live d j" for j
    by (rule files_okD(2) [OF t that])
  have sj: "fok d' n j \<and> absfile d' j = absfile d j \<and> (\<forall>m \<le> 139. own (mounted d' j) 0 m = own (mounted d j) 0 m)"
    if "live d j" "j \<noteq> i" for j
  proof -
    have "stored d' j = stored d j"
      using that st by (simp add: live_def)
    moreover have "sec d' (own (mounted d j) 0 m) = sec d (own (mounted d j) 0 m)" if "m \<le> 139" "own (mounted d j) 0 m \<noteq> 0" for m
      using fokD(4) [OF fj [OF \<open>live d j\<close>] that] keep [OF _ _ \<open>live d j\<close> \<open>j \<noteq> i\<close> that(1)] by auto
    ultimately show ?thesis
      using same_file [OF fj [OF that(1)] _ isb us] by blast
  qed
  have ij: "own (mounted d' i) 0 m \<noteq> own (mounted d' j) 0 m'"
    if a: "live d j" "j \<noteq> i" "m \<le> 139" "m' \<le> 139" "own (mounted d' j) 0 m' \<noteq> 0" for j m m'
  proof -
    have e: "own (mounted d' j) 0 m' = own (mounted d j) 0 m'"
      using sj [OF a(1,2)] a(4) by simp
    then obtain k where "k < n" "own (mounted d j) 0 m' = dblk d k" "dused d k"
      using fokD(4) [OF fj [OF a(1)] a(4)] a(5) by auto
    then show ?thesis
      using keep [OF _ _ a(1,2,4)] a(3) e by metis
  qed
  show "files d' = (files d)(i \<mapsto> absfile d' i)"
    using lv sj by (auto simp: files_def fun_eq_iff)
  show "files_ok d' n"
    unfolding files_ok_def
  proof (intro conjI allI impI)
    show "image_ok d' n"
      by (rule img)
    show "fok d' n j" if "live d' j" for j
      using that lv f sj by auto
    show "own (mounted d' a) 0 m \<noteq> own (mounted d' b) 0 m'"
      if "live d' a" "live d' b" "a \<noteq> b" "m \<le> 139" "m' \<le> 139" "own (mounted d' a) 0 m \<noteq> 0" for a b m m'
      using that lv ij [of b m m'] ij [of a m' m] sj [of a] sj [of b] files_okD(3) [OF t, of a b m m'] by (metis (no_types, lifting))
  qed
qed

lemma files_Some: "files d i = Some f \<longleftrightarrow> live d i \<and> f = absfile d i"
  by (auto simp: files_def)

lemma iappend_files:
  assumes t: "files_ok d n" and f: "files d i = Some f" and free: "2 * nblk (length (fbytes f)) (length src) + 2 \<le> unused d n"
    and fits: "length (fbytes f) + length src \<le> 139 * 512"
  obtains d' where "iappend i src d = Some d'" "files_ok d' n" "isb d' = isb d" "files d' = (files d)(i \<mapsto> f\<lparr>fbytes := fbytes f @ src\<rparr>)"
    "unused d n \<le> unused d' n + 2 * nblk (length (fbytes f)) (length src)"
proof -
  have lv: "live d i" "0 < i" "i < ninodes (isb d)" "f = absfile d i"
    using f by (auto simp: files_Some live_def)
  have len: "length (fbytes f) = isize (mounted d i) 0"
    by (simp add: lv(4) absfile_def)
  note fr = free [unfolded len] and ft = fits [unfolded len]
  obtain d' x where a: "iappend i src d = Some d'" "image_ok d' n" "isb d' = isb d" "fok d' n i" "fdata (mounted d' i) 0 = fdata (mounted d i) 0 @ src"
    "stored d' i = (stored d i)\<lparr>addrs := x, dsize := of_nat (isize (mounted d i) 0 + length src)\<rparr>"
    "\<And>j. j < ninodes (isb d) \<Longrightarrow> j \<noteq> i \<Longrightarrow> stored d' j = stored d j" "foreign_kept n i d d'"
    "\<And>k. k < n \<Longrightarrow> dused d k \<Longrightarrow> dused d' k"
    "unused d n \<le> unused d' n + 2 * nblk (isize (mounted d i) 0) (length src)"
    by (rule iappend_ok [OF files_okD(1) [OF t] lv(3) files_okD(2) [OF t lv(1)] fr ft]) (rule that)
  have ty: "dtype (stored d' i) \<noteq> INODE_NONE"
    using lv(1) a(6) by (simp add: live_def)
  have keep: "sec d' (dblk d k) = sec d (dblk d k) \<and> (\<forall>m \<le> 139. dblk d k \<noteq> own (mounted d' i) 0 m)"
    if "k < n" "dused d k" "live d j" "j \<noteq> i" "m \<le> 139" "own (mounted d j) 0 m = dblk d k" for k j m
  proof -
    have "dblk d k \<noteq> 0"
      using layout_addr(5) [OF image_okD(3) [OF files_okD(1) [OF t]] that(1), of 0 dinode0] by simp
    then have "\<forall>m' \<le> 139. dblk d k \<noteq> own (mounted d i) 0 m'"
      using files_okD(3) [OF t that(3) lv(1) that(4,5)] that(6) by metis
    then show ?thesis
      using a(8) that(1,2) by (simp add: foreign_kept_def)
  qed
  note tr = files_okI [OF t a(2,3) lv(2,3) ty a(4,7,9) keep]
  have "absfile d' i = f\<lparr>fbytes := fbytes f @ src\<rparr>"
    using a(5,6) by (simp add: lv(4) absfile_def)
  then show thesis
    using that [OF a(1) _ a(3)] tr a(10) len by simp
qed


lemma iwrite_files:
  assumes t: "files_ok d n" and i: "0 < i" "i < ninodes (isb d)" and ty: "dtype di \<noteq> INODE_NONE"
    and ab: "live d i \<and> addrs di = addrs (stored d i) \<and> dsize di = dsize (stored d i) \<and> bs = fbytes (absfile d i)
       \<or> addrs di = replicate 12 0 \<and> dsize di = 0 \<and> bs = []"
  obtains d' where "iwrite di i d = Some d'" "files_ok d' n" "isb d' = isb d" "stored d' i = di" "unused d' n = unused d n"
    "files d' = (files d)(i \<mapsto> \<lparr>ftype = dtype di, flink = nlink di, fmajor = major di, fminor = minor di, fbytes = bs\<rparr>)"
proof -
  note img = files_okD(1) [OF t]
  have own: "own (kview d i di) 0 m = (if addrs di = addrs (stored d i) then own (mounted d i) 0 m else own (kview d i di) 0 m)" for m
    by (simp add: own_def)
  have ok: "ino_ok (kview d i di) n 0 \<and> (\<forall>p < unat (dsize di). own (kview d i di) 0 (p div 512) \<noteq> 0) \<and> unat (dsize di) \<le> 139 * 512
      \<and> (\<forall>m \<le> 139. own (kview d i di) 0 m \<noteq> 0 \<longrightarrow> live d i \<and> own (kview d i di) 0 m = own (mounted d i) 0 m)"
    using ab
  proof
    assume a: "live d i \<and> addrs di = addrs (stored d i) \<and> dsize di = dsize (stored d i) \<and> bs = fbytes (absfile d i)"
    then have o: "own (kview d i di) 0 m = own (mounted d i) 0 m" for m
      by (simp add: own_def)
    note f = fokD [OF files_okD(2) [OF t, of i]]
    have "ino_ok (kview d i di) n 0"
      using f(1) a unfolding ino_ok_def o by simp
    then show ?thesis
      using f(2,3) a o by simp
  next
    assume a: "addrs di = replicate 12 0 \<and> dsize di = 0 \<and> bs = []"
    then have "own (kview d i di) 0 m = 0" if "m \<le> 139" for m
      by (simp add: own_def)
    then show ?thesis
      using a by (simp add: ino_ok_def)
  qed
  obtain d' where w: "iwrite di i d = Some d'" "isb d' = isb d" "stored d' i = di" "\<And>j. j \<noteq> i \<Longrightarrow> stored d' j = stored d j" "image_ok d' n"
    "ino_ok (kview d' i di) n 0" "\<And>m. m \<le> 139 \<Longrightarrow> own (kview d' i di) 0 m = own (kview d i di) 0 m"
    "\<And>p. p < 139 * 512 \<Longrightarrow> byte (kview d' i di) 0 p = byte (kview d i di) 0 p"
    "\<And>k. k < n \<Longrightarrow> sec d' (dblk d k) = sec d (dblk d k)" "\<And>k. k < n \<Longrightarrow> dused d' k = dused d k" "unused d' n = unused d n"
    by (rule store_inode_ok [OF img i(2) conjunct1 [OF ok] refl]) (rule that)
  have small: "p div 512 \<le> 139" if "p < unat (dsize di)" for p
    using that ok by (simp add: less_mult_imp_div_less less_imp_le)
  have f': "fok d' n i"
    unfolding fok_def w(3) using w(6,7) ok small by simp
  have us: "dused d' k" if "k < n" "dused d k" for k
    using w(10) that by simp
  have keep: "sec d' (dblk d k) = sec d (dblk d k) \<and> (\<forall>m \<le> 139. dblk d k \<noteq> own (mounted d' i) 0 m)"
    if h: "k < n" "dused d k" "live d j" "j \<noteq> i" "m \<le> 139" "own (mounted d j) 0 m = dblk d k" for k j m
  proof -
    have nz: "dblk d k \<noteq> 0"
      using layout_addr(5) [OF image_okD(3) [OF img] h(1), of 0 dinode0] by simp
    have "dblk d k \<noteq> own (kview d' i di) 0 m'" if "m' \<le> 139" for m'
    proof
      assume e: "dblk d k = own (kview d' i di) 0 m'"
      then have "live d i" "dblk d k = own (mounted d i) 0 m'"
        using ok that nz w(7) by auto
      then show False
        using files_okD(3) [OF t h(3) _ h(4,5) that] h(6) nz by simp
    qed
    then show ?thesis
      using w(3,9) h(1) by simp
  qed
  have st: "stored d' j = stored d j" if "j < ninodes (isb d)" "j \<noteq> i" for j
    using w(4) that by simp
  note tr = files_okI [OF t w(5,2) i _ f' st us keep]
  have "fdata (kview d' i di) 0 = bs"
    using ab
  proof
    assume a: "live d i \<and> addrs di = addrs (stored d i) \<and> dsize di = dsize (stored d i) \<and> bs = fbytes (absfile d i)"
    have "byte (kview d i di) 0 p = byte (mounted d i) 0 p" for p
      using a by (simp add: byte_def content_def own_def)
    then show ?thesis
      using a w(8) ok by (simp add: fdata_def absfile_def)
  qed (simp add: fdata_def)
  then have "absfile d' i = \<lparr>ftype = dtype di, flink = nlink di, fmajor = major di, fminor = minor di, fbytes = bs\<rparr>"
    using w(3) by (simp add: absfile_def)
  then show thesis
    using that [OF w(1) _ w(2,3,11)] tr w(3) ty by simp
qed

section \<open>Creating files: the abstract operations\<close>

text \<open>The first free inode number, a directory entry, the two entries of a new directory, a new file.\<close>

definition next_inum :: "u32 \<Rightarrow> (u32 \<rightharpoonup> afile) \<Rightarrow> u32 option" where
  "next_inum N t = map_option of_nat (List.find (\<lambda>k. t (of_nat k) = None) [1..<unat N])"

definition a_append :: "u32 \<Rightarrow> u8 list \<Rightarrow> (u32 \<rightharpoonup> afile) \<Rightarrow> (u32 \<rightharpoonup> afile) option" where
  "a_append i src t = do { f \<leftarrow> t i; Some (t(i \<mapsto> f\<lparr>fbytes := fbytes f @ src\<rparr>)) }"

definition new_entry :: "u8 list \<Rightarrow> u8 list \<Rightarrow> u32 \<Rightarrow> dirent" where
  "new_entry field name child = \<lparr>d_inum = child, d_name = name @ [0] @ drop (length name + 1) field\<rparr>"

definition a_link :: "u8 list \<Rightarrow> u32 \<Rightarrow> u8 list \<Rightarrow> u32 \<Rightarrow> (u32 \<rightharpoonup> afile) \<Rightarrow> (u32 \<rightharpoonup> afile) option" where
  "a_link field dir name child t =
     (if length name \<ge> DIRENT_NAME_LENGTH then Some t else a_append dir (dirent_bytes (new_entry field name child)) t)"

definition a_make :: "u8 list \<Rightarrow> u32 \<Rightarrow> u32 \<Rightarrow> (u32 \<rightharpoonup> afile) \<Rightarrow> (u32 \<rightharpoonup> afile) option" where
  "a_make field parent child t = do {
     t1 \<leftarrow> a_link field child [46] child t;
     t2 \<leftarrow> a_link field child [46, 46] parent t1;
     f \<leftarrow> t2 parent;
     Some (t2(parent \<mapsto> f\<lparr>flink := flink f + 1\<rparr>))
   }"

definition a_create :: "u8 list \<Rightarrow> u32 \<Rightarrow> u32 \<Rightarrow> u32 \<Rightarrow> u32 \<Rightarrow> u32 \<Rightarrow> u8 list \<Rightarrow> (u32 \<rightharpoonup> afile) \<Rightarrow> (u32 \<times> (u32 \<rightharpoonup> afile)) option" where
  "a_create field N mj mn typ parent name t = do {
     i \<leftarrow> next_inum N t;
     let t1 = t(i \<mapsto> \<lparr>ftype = typ, flink = 1, fmajor = mj, fminor = mn, fbytes = []\<rparr>);
     t2 \<leftarrow> (if parent \<noteq> 0 then a_link field parent name i t1 else Some t1);
     t3 \<leftarrow> (if typ = INODE_DIRECTORY then a_make field (if parent = 0 then i else parent) i t2 else Some t2);
     Some (i, t3)
   }"

lemma ialloc_loop_files:
  assumes t: "files_ok d n" and ty: "typ \<noteq> INODE_NONE" and ks: "\<And>k. k \<in> set ks \<Longrightarrow> 0 < k \<and> k < unat (ninodes (isb d))"
    and fk: "List.find (\<lambda>k. files d (of_nat k) = None) ks = Some k"
  shows "\<exists>d'. ialloc_loop typ ks d = Some (of_nat k, d') \<and> files_ok d' n \<and> isb d' = isb d \<and> unused d' n = unused d n
    \<and> stored d' (of_nat k) = dinode0\<lparr>dtype := typ\<rparr>
    \<and> files d' = (files d)(of_nat k \<mapsto> \<lparr>ftype = typ, flink = 0, fmajor = 0, fminor = 0, fbytes = []\<rparr>)"
  using ks fk
proof (induction ks)
  case (Cons a ks)
  let ?i = "of_nat a :: u32"
  have a: "0 < a" "a < unat (ninodes (isb d))"
    using Cons.prems(1) [of a] by simp_all
  then have "a < 2 ^ 32"
    using unsigned_less [where 'a = nat, of "ninodes (isb d)"] by simp
  then have u: "unat ?i = a"
    by (simp add: unat_of_nat)
  have i: "0 < ?i" "?i < ninodes (isb d)"
    using a u by (simp_all add: word_less_nat_alt)
  have rd: "iread d ?i = Some (stored d ?i)"
    by (rule iread_stored [OF files_okD(1) [OF t] i(2)])
  have fl: "files d ?i = None \<longleftrightarrow> dtype (stored d ?i) = INODE_NONE"
    using i by (simp add: files_def live_def)
  show ?case
  proof (cases "files d ?i = None")
    case True
    then have k: "k = a"
      using Cons.prems(2) by simp
    have ty0: "dtype (dinode0\<lparr>dtype := typ\<rparr>) \<noteq> INODE_NONE"
      using ty by simp
    have z: "addrs (dinode0\<lparr>dtype := typ\<rparr>) = replicate 12 0 \<and> dsize (dinode0\<lparr>dtype := typ\<rparr>) = 0 \<and> [] = []"
      by (simp add: dinode0_def NDIRECT_DATA_BLOCKS_def)
    obtain d' where "iwrite (dinode0\<lparr>dtype := typ\<rparr>) ?i d = Some d'" "files_ok d' n" "isb d' = isb d" "stored d' ?i = dinode0\<lparr>dtype := typ\<rparr>"
        "unused d' n = unused d n"
        "files d' = (files d)(?i \<mapsto> \<lparr>ftype = typ, flink = 0, fmajor = 0, fminor = 0, fbytes = []\<rparr>)"
      by (rule iwrite_files [OF t i ty0 disjI2 [OF z]]) (simp add: dinode0_def)
    then show ?thesis
      using k rd fl True by (simp add: fun_upd_def)
  next
    case False
    then show ?thesis
      using Cons rd fl by simp
  qed
qed simp


section \<open>Creating files: the refinement\<close>

text \<open>The image \<open>d\<close> holds the files \<open>t\<close> and has at least \<open>c + 2\<close> free blocks.\<close>

definition rep :: "superblock \<Rightarrow> nat \<Rightarrow> nat \<Rightarrow> image \<Rightarrow> (u32 \<rightharpoonup> afile) \<Rightarrow> bool" where
  "rep b n c d t = (files_ok d n \<and> isb d = b \<and> files d = t \<and> c + 2 \<le> unused d n)"

lemma rep_mono: "rep b n c d t \<Longrightarrow> c' \<le> c \<Longrightarrow> rep b n c' d t"
  by (simp add: rep_def)

lemma append_refines:
  assumes "rep b n (c + 2 * nblk (length (fbytes f)) (length src)) d t" "t i = Some f" "length (fbytes f) + length src \<le> 139 * 512"
  obtains d' t' where "iappend i src d = Some d'" "a_append i src t = Some t'" "rep b n c d' t'" "t' = t(i \<mapsto> f\<lparr>fbytes := fbytes f @ src\<rparr>)"
proof -
  have r: "files_ok d n" "files d i = Some f" "2 * nblk (length (fbytes f)) (length src) + 2 \<le> unused d n"
    using assms(1,2) by (auto simp: rep_def)
  obtain d' where "iappend i src d = Some d'" "files_ok d' n" "isb d' = isb d" "files d' = (files d)(i \<mapsto> f\<lparr>fbytes := fbytes f @ src\<rparr>)"
      "unused d n \<le> unused d' n + 2 * nblk (length (fbytes f)) (length src)"
    by (rule iappend_files [OF r assms(3)]) (rule that)
  then show thesis
    using that [of d'] assms(1,2) by (auto simp: rep_def a_append_def)
qed

lemma nblk_64: "nblk off 64 \<le> 2"
proof -
  have "off mod 512 + 64 + 511 < 3 * 512"
    using mod_less_divisor [of 512 off] by linarith
  then have "(off mod 512 + 64 + 511) div 512 < 3"
    by (rule less_mult_imp_div_less)
  then show ?thesis
    by (simp add: nblk_def)
qed

lemma link_refines:
  assumes r: "rep b n (c + 4) d t" and f: "t dir = Some f" "length (fbytes f) + 64 \<le> 139 * 512" and fld: "length field = 60"
  obtains d' t' f' where "mk_dir_link field dir name child d = Some d'" "a_link field dir name child t = Some t'" "rep b n c d' t'"
    "t' = t(dir \<mapsto> f')" "length (fbytes f') \<le> length (fbytes f) + 64" "ftype f' = ftype f" "flink f' = flink f"
proof (cases "length name \<ge> 60")
  case True
  then show thesis
    using that [of d t f] f r rep_mono [OF r, of c] by (simp add: mk_dir_link_def a_link_def DIRENT_NAME_LENGTH_def fun_upd_idem)
next
  case False
  let ?e = "dirent_bytes (new_entry field name child)"
  have "set_name field name = Some (d_name (new_entry field name child))"
    using False fld by (simp add: set_name_def new_entry_def)
  then have l: "mk_dir_link field dir name child d = iappend dir ?e d"
    using False by (simp add: mk_dir_link_def DIRENT_NAME_LENGTH_def new_entry_def)
  have e: "length ?e = 64"
    using False fld by (intro length_dirent_bytes) (simp add: new_entry_def)
  have "rep b n (c + 2 * nblk (length (fbytes f)) (length ?e)) d t"
    using rep_mono [OF r] nblk_64 [of "length (fbytes f)"] e by simp
  then obtain d' t' where "iappend dir ?e d = Some d'" "a_append dir ?e t = Some t'" "rep b n c d' t'" "t' = t(dir \<mapsto> f\<lparr>fbytes := fbytes f @ ?e\<rparr>)"
    by (rule append_refines) (use f e in auto)
  then show thesis
    using that [of d' t' "f\<lparr>fbytes := fbytes f @ ?e\<rparr>"] l e False by (simp add: a_link_def DIRENT_NAME_LENGTH_def)
qed

lemma make_refines:
  assumes r: "rep b n (c + 8) d t" and c: "t child = Some fc" "length (fbytes fc) + 128 \<le> 139 * 512" and p: "t parent \<noteq> None" and fld: "length field = 60"
  obtains d' t' where "mk_dir_make field parent child d = Some d'" "a_make field parent child t = Some t'" "rep b n c d' t'" "dom t' = dom t"
    "\<And>j f'. t' j = Some f' \<Longrightarrow> \<exists>f. t j = Some f \<and> length (fbytes f') \<le> length (fbytes f) + (if j = child then 128 else 0)"
proof -
  have r4: "rep b n (c + 4 + 4) d t" "length (fbytes fc) + 64 \<le> 139 * 512"
    using r c(2) by (simp_all add: add.commute)
  obtain d1 t1 f1 where l1: "mk_dir_link field child [46] child d = Some d1" "a_link field child [46] child t = Some t1" "rep b n (c + 4) d1 t1"
      "t1 = t(child \<mapsto> f1)" "length (fbytes f1) \<le> length (fbytes fc) + 64"
    by (rule link_refines [OF r4(1) c(1) r4(2) fld, where name = "[46]" and child = child]) (rule that)
  have f1: "t1 child = Some f1" "length (fbytes f1) + 64 \<le> 139 * 512"
    using l1(4,5) c(2) by simp_all
  obtain d2 t2 f2 where l2: "mk_dir_link field child [46, 46] parent d1 = Some d2" "a_link field child [46, 46] parent t1 = Some t2" "rep b n c d2 t2"
      "t2 = t1(child \<mapsto> f2)" "length (fbytes f2) \<le> length (fbytes f1) + 64"
    by (rule link_refines [OF l1(3) f1 fld, where name = "[46, 46]" and child = parent]) (rule that)
  obtain fp where fp: "t2 parent = Some fp"
    using p l1(4) l2(4) by (cases "parent = child") auto
  have r2: "files_ok d2 n" "isb d2 = b" "files d2 = t2" "c + 2 \<le> unused d2 n"
    using l2(3) by (simp_all add: rep_def)
  have lv: "live d2 parent" "fp = absfile d2 parent"
    using fp r2(3) files_Some by auto
  then have i: "0 < parent" "parent < ninodes (isb d2)" "dtype ((stored d2 parent)\<lparr>nlink := nlink (stored d2 parent) + 1\<rparr>) \<noteq> INODE_NONE"
    by (simp_all add: live_def)
  let ?di = "(stored d2 parent)\<lparr>nlink := nlink (stored d2 parent) + 1\<rparr>"
  have ab: "live d2 parent \<and> addrs ?di = addrs (stored d2 parent) \<and> dsize ?di = dsize (stored d2 parent) \<and> fbytes fp = fbytes (absfile d2 parent)
      \<or> addrs ?di = replicate 12 0 \<and> dsize ?di = 0 \<and> fbytes fp = []"
    using lv by simp
  obtain d3 where d3: "iwrite ?di parent d2 = Some d3" "files_ok d3 n" "isb d3 = isb d2" "unused d3 n = unused d2 n"
      "files d3 = (files d2)(parent \<mapsto> \<lparr>ftype = dtype ?di, flink = nlink ?di, fmajor = major ?di, fminor = minor ?di, fbytes = fbytes fp\<rparr>)"
    by (rule iwrite_files [OF r2(1) i ab]) (rule that)
  have e: "\<lparr>ftype = dtype ?di, flink = nlink ?di, fmajor = major ?di, fminor = minor ?di, fbytes = fbytes fp\<rparr> = fp\<lparr>flink := flink fp + 1\<rparr>"
    using lv(2) by (simp add: absfile_def)
  let ?t = "t2(parent \<mapsto> fp\<lparr>flink := flink fp + 1\<rparr>)"
  show thesis
  proof (rule that [of d3 ?t])
    show "mk_dir_make field parent child d = Some d3"
      using l1(1) l2(1) d3(1) iread_stored [OF files_okD(1) [OF r2(1)] i(2)] by (simp add: mk_dir_make_def)
    show "a_make field parent child t = Some ?t"
      using l1(2) l2(2) fp by (simp add: a_make_def)
    show "rep b n c d3 ?t"
      using d3 r2 e by (simp add: rep_def)
    show "dom ?t = dom t"
      using c(1) p l1(4) l2(4) by auto
    show "\<exists>f. t j = Some f \<and> length (fbytes f') \<le> length (fbytes f) + (if j = child then 128 else 0)" if "?t j = Some f'" for j f'
      using that fp c(1) l1(4,5) l2(4,5) by (auto split: if_splits)
  qed
qed


lemma next_inum_Some:
  assumes "next_inum N t = Some i"
  obtains k where "List.find (\<lambda>k. t (of_nat k) = None) [1..<unat N] = Some k" "i = of_nat k" "t i = None" "0 < i" "i < N"
proof -
  obtain k where k: "List.find (\<lambda>k. t (of_nat k) = None) [1..<unat N] = Some k" "i = of_nat k"
    using assms by (auto simp: next_inum_def)
  then have l: "k \<in> set [1..<unat N]" "t (of_nat k) = None"
    by (auto simp: find_Some_iff)
  then have "k < 2 ^ 32"
    using unsigned_less [where 'a = nat, of N] by simp
  then have "unat i = k"
    using k(2) by (simp add: unat_of_nat)
  then show thesis
    using that [OF k] l k(2) by (simp add: word_less_nat_alt)
qed

text \<open>The new inode of \<open>create_file\<close>.\<close>

lemma new_inode_refines:
  assumes r: "rep b n c d t" and ty: "typ \<noteq> INODE_NONE" and i: "next_inum (ninodes b) t = Some i"
  obtains d1 d2 where "ialloc typ d = Some (i, d1)" "iread d1 i = Some (stored d1 i)"
    "iwrite ((stored d1 i)\<lparr>nlink := 1, major := mj, minor := mn, dsize := 0\<rparr>) i d1 = Some d2"
    "rep b n c d2 (t(i \<mapsto> \<lparr>ftype = typ, flink = 1, fmajor = mj, fminor = mn, fbytes = []\<rparr>))"
proof -
  have rr: "files_ok d n" "isb d = b" "files d = t" "c + 2 \<le> unused d n"
    using r by (simp_all add: rep_def)
  obtain k where k: "List.find (\<lambda>k. t (of_nat k) = None) [1..<unat (ninodes b)] = Some k" "i = of_nat k" "0 < i" "i < ninodes b"
    by (rule next_inum_Some [OF i]) (rule that)
  obtain d1 where d1: "ialloc_loop typ [1..<unat (ninodes b)] d = Some (i, d1)" "files_ok d1 n" "isb d1 = b" "unused d1 n = unused d n"
      "stored d1 i = dinode0\<lparr>dtype := typ\<rparr>" "files d1 = t(i \<mapsto> \<lparr>ftype = typ, flink = 0, fmajor = 0, fminor = 0, fbytes = []\<rparr>)"
    using ialloc_loop_files [OF rr(1) ty, of "[1..<unat (ninodes b)]" k] k(1,2) rr(2,3) by auto
  let ?di = "(stored d1 i)\<lparr>nlink := 1, major := mj, minor := mn, dsize := 0\<rparr>"
  have i1: "0 < i" "i < ninodes (isb d1)" "dtype ?di \<noteq> INODE_NONE"
    using k(3,4) d1(3,5) ty by simp_all
  have z: "addrs ?di = replicate 12 0 \<and> dsize ?di = 0 \<and> [] = []"
    by (simp add: d1(5) dinode0_def NDIRECT_DATA_BLOCKS_def)
  obtain d2 where d2: "iwrite ?di i d1 = Some d2" "files_ok d2 n" "isb d2 = isb d1" "unused d2 n = unused d1 n"
      "files d2 = (files d1)(i \<mapsto> \<lparr>ftype = dtype ?di, flink = nlink ?di, fmajor = major ?di, fminor = minor ?di, fbytes = []\<rparr>)"
    by (rule iwrite_files [OF d1(2) i1 disjI2 [OF z]]) (rule that)
  have "files d2 = t(i \<mapsto> \<lparr>ftype = typ, flink = 1, fmajor = mj, fminor = mn, fbytes = []\<rparr>)"
    using d2(5) d1(5,6) by (simp add: dinode0_def)
  then have "rep b n c d2 (t(i \<mapsto> \<lparr>ftype = typ, flink = 1, fmajor = mj, fminor = mn, fbytes = []\<rparr>))"
    using d2(2-4) d1(3,4) rr(4) by (simp add: rep_def)
  then show thesis
    using that [of d1 d2] d1(1,3) d2(1) rr(2) iread_stored [OF files_okD(1) [OF d1(2)] i1(2)] by (simp add: ialloc_def)
qed

lemma create_refines:
  assumes r: "rep b n (c + 12) d t" and ty: "typ \<noteq> INODE_NONE" and i: "next_inum (ninodes b) t = Some i"
    and p: "parent = 0 \<or> (\<exists>f. t parent = Some f \<and> length (fbytes f) + 64 \<le> 139 * 512)" and fld: "length field = 60"
  obtains d' t' where "mk_create_file field mj mn typ parent name d = Some (i, d')" "a_create field (ninodes b) mj mn typ parent name t = Some (i, t')"
    "rep b n c d' t'" "dom t' = insert i (dom t)" "t i = None" "i \<noteq> 0"
    "\<And>j f'. t' j = Some f' \<Longrightarrow> (if j = i then length (fbytes f') \<le> (if typ = INODE_DIRECTORY then 128 else 0)
       else \<exists>f. t j = Some f \<and> length (fbytes f') \<le> length (fbytes f) + 64)"
proof -
  let ?f = "\<lparr>ftype = typ, flink = 1, fmajor = mj, fminor = mn, fbytes = []\<rparr>" and ?t1 = "t(i \<mapsto> \<lparr>ftype = typ, flink = 1, fmajor = mj, fminor = mn, fbytes = []\<rparr>)"
  have ni: "t i = None" "0 < i"
    by (rule next_inum_Some [OF i], assumption)+
  obtain d1 d2 where a: "ialloc typ d = Some (i, d1)" "iread d1 i = Some (stored d1 i)"
      "iwrite ((stored d1 i)\<lparr>nlink := 1, major := mj, minor := mn, dsize := 0\<rparr>) i d1 = Some d2" "rep b n (c + 12) d2 ?t1"
    by (rule new_inode_refines [OF r ty i]) (rule that)
  obtain d3 t3 where l: "(if parent \<noteq> 0 then mk_dir_link field parent name i d2 else Some d2) = Some d3"
      "(if parent \<noteq> 0 then a_link field parent name i ?t1 else Some ?t1) = Some t3" "rep b n (c + 8) d3 t3"
      "dom t3 = insert i (dom t)" "t3 i = Some ?f"
      "\<And>j f'. t3 j = Some f' \<Longrightarrow> j \<noteq> i \<Longrightarrow> \<exists>f. t j = Some f \<and> length (fbytes f') \<le> length (fbytes f) + 64"
  proof (cases "parent = 0")
    case True
    have "rep b n (c + 8) d2 ?t1"
      by (rule rep_mono [OF a(4)]) simp
    then show thesis
      using True by (intro that [of d2 ?t1]) auto
  next
    case False
    then obtain pf where pf: "t parent = Some pf" "length (fbytes pf) + 64 \<le> 139 * 512"
      using p by blast
    have ne: "parent \<noteq> i"
      using pf(1) ni(1) by auto
    have r8: "rep b n (c + 8 + 4) d2 ?t1" "?t1 parent = Some pf"
      using a(4) pf(1) ne by (simp_all add: add.commute)
    obtain d3 t3 f3 where "mk_dir_link field parent name i d2 = Some d3" "a_link field parent name i ?t1 = Some t3" "rep b n (c + 8) d3 t3"
        "t3 = ?t1(parent \<mapsto> f3)" "length (fbytes f3) \<le> length (fbytes pf) + 64"
      by (rule link_refines [OF r8 pf(2) fld]) (rule that)
    then show thesis
      using False ne pf(1) by (intro that [of d3 t3]) (auto split: if_splits)
  qed
  obtain d4 t4 where m: "(if typ = INODE_DIRECTORY then mk_dir_make field (if parent = 0 then i else parent) i d3 else Some d3) = Some d4"
      "(if typ = INODE_DIRECTORY then a_make field (if parent = 0 then i else parent) i t3 else Some t3) = Some t4" "rep b n c d4 t4"
      "dom t4 = dom t3" "\<And>j f'. t4 j = Some f' \<Longrightarrow> \<exists>f. t3 j = Some f \<and> length (fbytes f') \<le> length (fbytes f) + (if j = i \<and> typ = INODE_DIRECTORY then 128 else 0)"
  proof (cases "typ = INODE_DIRECTORY")
    case False
    have "rep b n c d3 t3"
      by (rule rep_mono [OF l(3)]) simp
    then show thesis
      using False by (intro that [of d3 t3]) auto
  next
    case True
    have "parent \<in> dom t3" if "parent \<noteq> 0"
      using that p l(4) by auto
    then have pp: "t3 (if parent = 0 then i else parent) \<noteq> None"
      using l(5) by auto
    obtain d4 t4 where "mk_dir_make field (if parent = 0 then i else parent) i d3 = Some d4" "a_make field (if parent = 0 then i else parent) i t3 = Some t4"
        "rep b n c d4 t4" "dom t4 = dom t3" "\<And>j f'. t4 j = Some f' \<Longrightarrow> \<exists>f. t3 j = Some f \<and> length (fbytes f') \<le> length (fbytes f) + (if j = i then 128 else 0)"
      by (rule make_refines [OF l(3,5) _ pp fld]) (simp, rule that)
    then show thesis
      using True by (intro that [of d4 t4]) simp_all
  qed
  show thesis
  proof (rule that [of d4 t4])
    show "mk_create_file field mj mn typ parent name d = Some (i, d4)"
      using a(1-3) l(1) m(1) by (simp add: mk_create_file_def)
    show "a_create field (ninodes b) mj mn typ parent name t = Some (i, t4)"
      using i l(2) m(2) by (simp add: a_create_def Let_def)
    show "if j = i then length (fbytes f') \<le> (if typ = INODE_DIRECTORY then 128 else 0)
       else \<exists>f. t j = Some f \<and> length (fbytes f') \<le> length (fbytes f) + 64" if "t4 j = Some f'" for j f'
      using m(5) [OF that] l(5) l(6) [of j] by (cases "j = i") (fastforce dest: le_trans)+
  qed (use m(3,4) l(4) ni in auto)
qed

end
