(* ===== verification/MkImage.thy ===== *)
theory MkImage
  imports MkTree
begin

text \<open>
  The whole of \<open>mkfs\<close>: a blank image becomes a file system with the initial directories, the console and the files of the host,
  and the kernel finds exactly these files on it.
\<close>

section \<open>The initial files, abstractly\<close>

definition a_write_file :: "u8 list \<Rightarrow> u32 \<Rightarrow> u32 \<Rightarrow> u8 list option \<Rightarrow> u8 list \<Rightarrow> (u32 \<rightharpoonup> afile) \<Rightarrow> (u32 \<rightharpoonup> afile) option" where
  "a_write_file field N parent fp name t = do {
     bytes \<leftarrow> fp;
     kassert (bytes \<noteq> []);
     (i, t1) \<leftarrow> a_create field N 0 0 INODE_FILE parent name t;
     a_append i bytes t1
   }"

fun a_binfiles :: "u8 list \<Rightarrow> u32 \<Rightarrow> (u8 list \<Rightarrow> u8 list option) \<Rightarrow> u32 \<Rightarrow> u8 list list \<Rightarrow> (u32 \<rightharpoonup> afile) \<Rightarrow> (u32 \<rightharpoonup> afile) option" where
  "a_binfiles field N host bindir [] t = Some t"
| "a_binfiles field N host bindir (f # fs) t = do {
     t1 \<leftarrow> a_write_file field N bindir (host f) (nameptr f) t;
     a_binfiles field N host bindir fs t1
   }"

definition a_initial :: "u8 list \<Rightarrow> u32 \<Rightarrow> (u8 list \<Rightarrow> u8 list option) \<Rightarrow> mkfs_flags \<Rightarrow> (u32 \<rightharpoonup> afile) \<Rightarrow> (u32 \<rightharpoonup> afile) option" where
  "a_initial field N host flags t = do {
     (root, t1) \<leftarrow> a_create field N 0 0 INODE_DIRECTORY 0 [slash] t;
     kassert (root = ROOT_INUM);
     (bindir, t2) \<leftarrow> a_create field N 0 0 INODE_DIRECTORY root [98, 105, 110] t1;
     (devdir, t3) \<leftarrow> a_create field N 0 0 INODE_DIRECTORY root [100, 101, 118] t2;
     (etcdir, t4) \<leftarrow> a_create field N 0 0 INODE_DIRECTORY root [101, 116, 99] t3;
     (home, t5) \<leftarrow> a_create field N 0 0 INODE_DIRECTORY root [104, 111, 109, 101] t4;
     (console, t6) \<leftarrow> a_create field N 1 0 INODE_DEVICE devdir [99, 111, 110, 115, 111, 108, 101] t5;
     t7 \<leftarrow> (case initsh_file flags of
             None \<Rightarrow> Some t6
           | Some f \<Rightarrow> a_write_file field N etcdir (host f) [105, 110, 105, 116, 46, 115, 104] t6);
     a_binfiles field N host bindir (binfiles flags) t7
   }"

section \<open>The refinement\<close>

lemma next_inum_exists:
  assumes "card (dom t) + 1 < unat N"
  shows "\<exists>i. next_inum N t = Some i"
proof (rule ccontr)
  assume "\<not> ?thesis"
  then have "List.find (\<lambda>k. t (of_nat k) = None) [1..<unat N] = None"
    by (auto simp: next_inum_def)
  then have "t (of_nat k) \<noteq> None" if "1 \<le> k" "k < unat N" for k
    using that by (auto simp: find_None_iff)
  then have "(of_nat :: nat \<Rightarrow> u32) ` {1..<unat N} \<subseteq> dom t"
    by auto
  moreover have "inj_on (of_nat :: nat \<Rightarrow> u32) {1..<unat N}"
  proof (rule inj_onI)
    fix x y assume a: "x \<in> {1..<unat N}" "y \<in> {1..<unat N}" "(of_nat x :: u32) = of_nat y"
    have "x < 2 ^ 32" "y < 2 ^ 32"
      using a(1,2) unsigned_less [where 'a = nat, of N] by auto
    then show "x = y"
      using arg_cong [OF a(3), of unat] by (simp add: unat_of_nat)
  qed
  ultimately have "unat N - 1 \<le> card (dom t)"
    by (metis card_atLeastLessThan card_image card_mono finite)
  then show False
    using assms by linarith
qed

text \<open>The blocks that a file of the host may need.\<close>

definition file_cost :: "(u8 list \<Rightarrow> u8 list option) \<Rightarrow> u8 list \<Rightarrow> nat" where
  "file_cost host f = 12 + 2 * nblk 0 (length (the (host f)))"

definition host_ok :: "(u8 list \<Rightarrow> u8 list option) \<Rightarrow> u8 list \<Rightarrow> bool" where
  "host_ok host f = (\<exists>bs. host f = Some bs \<and> bs \<noteq> [] \<and> length bs \<le> 139 * 512)"

lemma write_file_refines:
  assumes r: "rep b n (c + file_cost host f) d t" and h: "host_ok host f" and p: "t parent = Some pf" "length (fbytes pf) + 64 \<le> 139 * 512"
    and fld: "length field = 60" and N: "card (dom t) + 1 < unat (ninodes b)"
  obtains d' t' where "write_to_fsfile field parent (host f) name d = Some d'" "a_write_file field (ninodes b) parent (host f) name t = Some t'"
    "rep b n c d' t'" "card (dom t') = card (dom t) + 1"
    "\<And>j g. t j = Some g \<Longrightarrow> \<exists>g'. t' j = Some g' \<and> length (fbytes g') \<le> length (fbytes g) + 64"
proof -
  obtain bs where bs: "host f = Some bs" "bs \<noteq> []" "length bs \<le> 139 * 512"
    using h by (auto simp: host_ok_def)
  obtain i where i: "next_inum (ninodes b) t = Some i"
    using next_inum_exists [OF N] by blast
  have r1: "rep b n (c + 2 * nblk 0 (length bs) + 12) d t" and ty: "INODE_FILE \<noteq> INODE_NONE" "INODE_FILE \<noteq> INODE_DIRECTORY"
    using r bs(1) by (simp_all add: file_cost_def add_ac INODE_FILE_def INODE_NONE_def INODE_DIRECTORY_def)
  have pp: "parent = 0 \<or> (\<exists>f. t parent = Some f \<and> length (fbytes f) + 64 \<le> 139 * 512)"
    using p by blast
  obtain d1 t1 where c: "mk_create_file field 0 0 INODE_FILE parent name d = Some (i, d1)"
      "a_create field (ninodes b) 0 0 INODE_FILE parent name t = Some (i, t1)"
      "rep b n (c + 2 * nblk 0 (length bs)) d1 t1" "dom t1 = insert i (dom t)" "t i = None" "i \<noteq> 0"
      "\<And>j f'. t1 j = Some f' \<Longrightarrow> (if j = i then length (fbytes f') \<le> (if INODE_FILE = INODE_DIRECTORY then 128 else 0)
         else \<exists>f. t j = Some f \<and> length (fbytes f') \<le> length (fbytes f) + 64)"
    by (rule create_refines [OF r1 ty(1) i pp fld]) (rule that)
  obtain fi where fi: "t1 i = Some fi" "fbytes fi = []"
    using c(4) c(7) [of i] ty(2) by (cases "t1 i") auto
  have r2: "rep b n (c + 2 * nblk (length (fbytes fi)) (length bs)) d1 t1" "length (fbytes fi) + length bs \<le> 139 * 512"
    using c(3) fi(2) bs(3) by simp_all
  obtain d2 t2 where a: "iappend i bs d1 = Some d2" "a_append i bs t1 = Some t2" "rep b n c d2 t2" "t2 = t1(i \<mapsto> fi\<lparr>fbytes := fbytes fi @ bs\<rparr>)"
    by (rule append_refines [OF r2(1) fi(1) r2(2)]) (rule that)
  have "card (dom t2) = card (dom t) + 1"
    using a(4) c(4,5) fi(1) by (simp add: insert_absorb domI domIff)
  moreover have "\<exists>g'. t2 j = Some g' \<and> length (fbytes g') \<le> length (fbytes g) + 64" if g: "t j = Some g" for j g
  proof -
    have ne: "j \<noteq> i"
      using g c(5) by auto
    obtain g' where "t1 j = Some g'"
      using g c(4) by blast
    then show ?thesis
      using c(7) [of j g'] ne g a(4) by auto
  qed
  ultimately show thesis
    using that [of d2 t2] bs c(1,2) a(1-3) by (simp add: write_to_fsfile_def a_write_file_def)
qed

lemma binfiles_refines:
  assumes "rep b n (c + sum_list (map (file_cost host) fs)) d t" "\<forall>f \<in> set fs. host_ok host f" "t bindir = Some g"
    "length (fbytes g) + 64 * length fs \<le> 139 * 512" "length field = 60" "card (dom t) + length fs < unat (ninodes b)"
  shows "\<exists>d' t'. write_binfiles field host bindir fs d = Some d' \<and> a_binfiles field (ninodes b) host bindir fs t = Some t' \<and> rep b n c d' t'"
  using assms
proof (induction fs arbitrary: d t g)
  case (Cons f fs)
  have pre: "rep b n (c + sum_list (map (file_cost host) fs) + file_cost host f) d t" "host_ok host f" "length (fbytes g) + 64 \<le> 139 * 512"
      "card (dom t) + 1 < unat (ninodes b)"
    using Cons.prems(1,2,4,6) by (simp_all add: add_ac)
  obtain d1 t1 where w: "write_to_fsfile field bindir (host f) (nameptr f) d = Some d1"
      "a_write_file field (ninodes b) bindir (host f) (nameptr f) t = Some t1"
      "rep b n (c + sum_list (map (file_cost host) fs)) d1 t1" "card (dom t1) = card (dom t) + 1"
      "\<And>j g. t j = Some g \<Longrightarrow> \<exists>g'. t1 j = Some g' \<and> length (fbytes g') \<le> length (fbytes g) + 64"
    by (rule write_file_refines [OF pre(1,2) Cons.prems(3) pre(3) Cons.prems(5) pre(4)]) (rule that)
  obtain g1 where g1: "t1 bindir = Some g1" "length (fbytes g1) \<le> length (fbytes g) + 64"
    using w(5) [OF Cons.prems(3)] by blast
  have "\<exists>d' t'. write_binfiles field host bindir fs d1 = Some d' \<and> a_binfiles field (ninodes b) host bindir fs t1 = Some t' \<and> rep b n c d' t'"
    by (rule Cons.IH [OF w(3) _ g1(1)]) (use Cons.prems(2,4-6) g1(2) w(4) in auto)
  then show ?case
    using w(1,2) by auto
qed simp


text \<open>No file is longer than \<open>L\<close>: creating another one lets the directories grow by one entry.\<close>

definition lens :: "nat \<Rightarrow> (u32 \<rightharpoonup> afile) \<Rightarrow> bool" where
  "lens L t = (\<forall>j f. t j = Some f \<longrightarrow> length (fbytes f) \<le> L)"

lemma create_step:
  assumes r: "rep b n (c + 12) d t" and L: "lens L t" "64 \<le> L" "L + 64 \<le> 139 * 512" and N: "card (dom t) + 1 < unat (ninodes b)"
    and ty: "typ \<noteq> INODE_NONE" and p: "parent = 0 \<or> parent \<in> dom t" and fld: "length field = 60"
  obtains i d' t' where "mk_create_file field mj mn typ parent name d = Some (i, d')" "a_create field (ninodes b) mj mn typ parent name t = Some (i, t')"
    "rep b n c d' t'" "lens (L + 64) t'" "dom t' = insert i (dom t)" "card (dom t') = card (dom t) + 1" "next_inum (ninodes b) t = Some i"
proof -
  obtain i where i: "next_inum (ninodes b) t = Some i"
    using next_inum_exists [OF N] by blast
  have pp: "parent = 0 \<or> (\<exists>f. t parent = Some f \<and> length (fbytes f) + 64 \<le> 139 * 512)"
    using p L(1,3) by (fastforce simp: lens_def)
  obtain d' t' where c: "mk_create_file field mj mn typ parent name d = Some (i, d')" "a_create field (ninodes b) mj mn typ parent name t = Some (i, t')"
      "rep b n c d' t'" "dom t' = insert i (dom t)" "t i = None"
      "\<And>j f'. t' j = Some f' \<Longrightarrow> (if j = i then length (fbytes f') \<le> (if typ = INODE_DIRECTORY then 128 else 0)
         else \<exists>f. t j = Some f \<and> length (fbytes f') \<le> length (fbytes f) + 64)"
    by (rule create_refines [OF r ty i pp fld]) (rule that)
  have "length (fbytes f') \<le> L + 64" if "t' j = Some f'" for j f'
    using c(6) [OF that] L(1,2) by (fastforce simp: lens_def split: if_splits)
  then have "lens (L + 64) t'"
    by (simp add: lens_def)
  moreover have "card (dom t') = card (dom t) + 1"
    using c(4,5) by (simp add: card_insert_if domIff)
  ultimately show thesis
    using that c(1-4) i by blast
qed

definition mkfs_cost :: "(u8 list \<Rightarrow> u8 list option) \<Rightarrow> mkfs_flags \<Rightarrow> nat" where
  "mkfs_cost host flags = 72 + (case initsh_file flags of None \<Rightarrow> 0 | Some f \<Rightarrow> file_cost host f) + sum_list (map (file_cost host) (binfiles flags))"

definition flags_ok :: "(u8 list \<Rightarrow> u8 list option) \<Rightarrow> mkfs_flags \<Rightarrow> bool" where
  "flags_ok host flags = ((\<forall>f. initsh_file flags = Some f \<longrightarrow> host_ok host f) \<and> (\<forall>f \<in> set (binfiles flags). host_ok host f)
     \<and> length (binfiles flags) \<le> 1000)"

lemma inode_types: "INODE_DIRECTORY \<noteq> INODE_NONE" "INODE_DEVICE \<noteq> INODE_NONE" "INODE_FILE \<noteq> INODE_NONE"
  by (simp_all add: INODE_DIRECTORY_def INODE_DEVICE_def INODE_FILE_def INODE_NONE_def)

lemma initsh_refines:
  assumes r: "rep b n (c + (case initsh_file flags of None \<Rightarrow> 0 | Some f \<Rightarrow> file_cost host f)) d t" and fl: "flags_ok host flags"
    and p: "t etcdir = Some pf" "length (fbytes pf) + 64 \<le> 139 * 512" and fld: "length field = 60" and N: "card (dom t) + 1 < unat (ninodes b)"
  obtains d' t' where "(case initsh_file flags of None \<Rightarrow> Some d | Some f \<Rightarrow> write_to_fsfile field etcdir (host f) name d) = Some d'"
    "(case initsh_file flags of None \<Rightarrow> Some t | Some f \<Rightarrow> a_write_file field (ninodes b) etcdir (host f) name t) = Some t'"
    "rep b n c d' t'" "card (dom t') \<le> card (dom t) + 1"
    "\<And>j g. t j = Some g \<Longrightarrow> \<exists>g'. t' j = Some g' \<and> length (fbytes g') \<le> length (fbytes g) + 64"
proof (cases "initsh_file flags")
  case None
  show thesis
    by (rule that [of d t]) (use None r in auto)
next
  case (Some f)
  have h: "host_ok host f" and r1: "rep b n (c + file_cost host f) d t"
    using fl r Some by (simp_all add: flags_ok_def)
  obtain d' t' where w: "write_to_fsfile field etcdir (host f) name d = Some d'" "a_write_file field (ninodes b) etcdir (host f) name t = Some t'"
    "rep b n c d' t'" "card (dom t') = card (dom t) + 1"
    "\<And>j g. t j = Some g \<Longrightarrow> \<exists>g'. t' j = Some g' \<and> length (fbytes g') \<le> length (fbytes g) + 64"
    by (rule write_file_refines [OF r1 h p fld N]) (rule that)
  show thesis
    by (rule that [of d' t']) (use Some w in auto)
qed

lemma first_inum:
  assumes "1 < unat N"
  shows "next_inum N Map.empty = Some ROOT_INUM"
proof -
  have "[1..<unat N] = 1 # [2..<unat N]"
    using assms upt_conv_Cons [of 1 "unat N"] by (simp add: numeral_2_eq_2)
  then show ?thesis
    by (simp add: next_inum_def ROOT_INUM_def)
qed

lemma create_stage:
  assumes fld: "length field = 60" and N: "unat (ninodes b) = 16384" and r: "rep b n (m + c) d t" and L: "lens L t" and k: "card (dom t) = k"
    and p: "parent = 0 \<or> parent \<in> dom t" and ty: "ity \<noteq> INODE_NONE" and num: "c = c' + 12" "64 \<le> L" "L \<le> 1000" "k < 1000" "L' = L + 64" "k' = k + 1"
  obtains i d' t' where "mk_create_file field mj mn ity parent name d = Some (i, d')" "a_create field (ninodes b) mj mn ity parent name t = Some (i, t')"
    "rep b n (m + c') d' t'" "lens L' t'" "dom t' = insert i (dom t)" "card (dom t') = k'" "next_inum (ninodes b) t = Some i"
proof -
  have q: "rep b n (m + c' + 12) d t" "L + 64 \<le> 139 * 512" "card (dom t) + 1 < unat (ninodes b)"
    using r k num N by (simp_all add: add.assoc)
  obtain i d' t' where c: "mk_create_file field mj mn ity parent name d = Some (i, d')" "a_create field (ninodes b) mj mn ity parent name t = Some (i, t')"
    "rep b n (m + c') d' t'" "lens (L + 64) t'" "dom t' = insert i (dom t)" "card (dom t') = card (dom t) + 1" "next_inum (ninodes b) t = Some i"
    by (rule create_step [OF q(1) L num(2) q(2,3) ty p fld]) (rule that)
  show thesis
    by (rule that [of i d' t']) (use c num k in simp_all)
qed

lemma initial_refines:
  assumes r: "rep b n (mkfs_cost host flags) d Map.empty" and fl: "flags_ok host flags" and fld: "length field = 60" and N: "ninodes b = 16384"
  shows "\<exists>d' t'. create_initial_files field host flags d = Some d' \<and> a_initial field (ninodes b) host flags Map.empty = Some t' \<and> rep b n 0 d' t'"
proof -
  let ?c = "sum_list (map (file_cost host) (binfiles flags))"
  let ?e = "case initsh_file flags of None \<Rightarrow> 0 | Some f \<Rightarrow> file_cost host f"
  have N': "unat (ninodes b) = 16384"
    using N by simp
  have r0: "rep b n (?c + ?e + 72) d Map.empty" "lens 64 Map.empty"
    using r by (simp_all add: mkfs_cost_def lens_def add_ac)
  note st = create_stage [OF fld N']
  obtain root d1 t1 where s1: "mk_create_file field 0 0 INODE_DIRECTORY 0 [slash] d = Some (root, d1)"
      "a_create field (ninodes b) 0 0 INODE_DIRECTORY 0 [slash] Map.empty = Some (root, t1)" "rep b n (?c + ?e + 60) d1 t1" "lens 128 t1"
      "dom t1 = insert root (dom Map.empty)" "card (dom t1) = 1" "next_inum (ninodes b) Map.empty = Some root"
    by (rule st [OF r0, where parent = 0 and ity = INODE_DIRECTORY and c' = 60 and k = 0 and k' = 1 and L' = 128 and mj = 0 and mn = 0 and name = "[slash]"])
      ((rule that, assumption+) | simp add: inode_types)+
  have root: "root = ROOT_INUM"
    using s1(7) N' first_inum [of "ninodes b"] by simp
  obtain bin d2 t2 where s2: "mk_create_file field 0 0 INODE_DIRECTORY root [98, 105, 110] d1 = Some (bin, d2)"
      "a_create field (ninodes b) 0 0 INODE_DIRECTORY root [98, 105, 110] t1 = Some (bin, t2)" "rep b n (?c + ?e + 48) d2 t2" "lens 192 t2"
      "dom t2 = insert bin (dom t1)" "card (dom t2) = 2"
    by (rule st [OF s1(3,4,6), where parent = root and ity = INODE_DIRECTORY and mj = 0 and mn = 0 and name = "[98, 105, 110]"])
      ((rule that, assumption+) | simp add: inode_types s1(5))+
  obtain dev d3 t3 where s3: "mk_create_file field 0 0 INODE_DIRECTORY root [100, 101, 118] d2 = Some (dev, d3)"
      "a_create field (ninodes b) 0 0 INODE_DIRECTORY root [100, 101, 118] t2 = Some (dev, t3)" "rep b n (?c + ?e + 36) d3 t3" "lens 256 t3"
      "dom t3 = insert dev (dom t2)" "card (dom t3) = 3"
    by (rule st [OF s2(3,4,6), where parent = root and ity = INODE_DIRECTORY and mj = 0 and mn = 0 and name = "[100, 101, 118]"])
      ((rule that, assumption+) | simp add: inode_types s1(5) s2(5))+
  obtain etc d4 t4 where s4: "mk_create_file field 0 0 INODE_DIRECTORY root [101, 116, 99] d3 = Some (etc, d4)"
      "a_create field (ninodes b) 0 0 INODE_DIRECTORY root [101, 116, 99] t3 = Some (etc, t4)" "rep b n (?c + ?e + 24) d4 t4" "lens 320 t4"
      "dom t4 = insert etc (dom t3)" "card (dom t4) = 4"
    by (rule st [OF s3(3,4,6), where parent = root and ity = INODE_DIRECTORY and mj = 0 and mn = 0 and name = "[101, 116, 99]"])
      ((rule that, assumption+) | simp add: inode_types s1(5) s2(5) s3(5))+
  obtain home d5 t5 where s5: "mk_create_file field 0 0 INODE_DIRECTORY root [104, 111, 109, 101] d4 = Some (home, d5)"
      "a_create field (ninodes b) 0 0 INODE_DIRECTORY root [104, 111, 109, 101] t4 = Some (home, t5)" "rep b n (?c + ?e + 12) d5 t5" "lens 384 t5"
      "dom t5 = insert home (dom t4)" "card (dom t5) = 5"
    by (rule st [OF s4(3,4,6), where parent = root and ity = INODE_DIRECTORY and mj = 0 and mn = 0 and name = "[104, 111, 109, 101]"])
      ((rule that, assumption+) | simp add: inode_types s1(5) s2(5) s3(5) s4(5))+
  obtain con d6 t6 where s6: "mk_create_file field 1 0 INODE_DEVICE dev [99, 111, 110, 115, 111, 108, 101] d5 = Some (con, d6)"
      "a_create field (ninodes b) 1 0 INODE_DEVICE dev [99, 111, 110, 115, 111, 108, 101] t5 = Some (con, t6)" "rep b n (?c + ?e + 0) d6 t6" "lens 448 t6"
      "dom t6 = insert con (dom t5)" "card (dom t6) = 6"
    by (rule st [OF s5(3,4,6), where parent = dev and ity = INODE_DEVICE and mj = 1 and mn = 0 and name = "[99, 111, 110, 115, 111, 108, 101]"])
      ((rule that, assumption+) | simp add: inode_types s1(5) s2(5) s3(5) s4(5) s5(5))+
  obtain fe fb where f: "t6 etc = Some fe" "t6 bin = Some fb" "length (fbytes fe) \<le> 448" "length (fbytes fb) \<le> 448"
    using s2(5) s4(5) s5(5) s3(5) s6(4,5) by (metis domD insertCI lens_def)
  have pre: "length (fbytes fe) + 64 \<le> 139 * 512" "card (dom t6) + 1 < unat (ninodes b)"
    using f s6(6) N' by simp_all
  obtain d7 t7 where s7: "(case initsh_file flags of None \<Rightarrow> Some d6 | Some f \<Rightarrow> write_to_fsfile field etc (host f) [105, 110, 105, 116, 46, 115, 104] d6) = Some d7"
      "(case initsh_file flags of None \<Rightarrow> Some t6 | Some f \<Rightarrow> a_write_file field (ninodes b) etc (host f) [105, 110, 105, 116, 46, 115, 104] t6) = Some t7"
      "rep b n ?c d7 t7" "card (dom t7) \<le> card (dom t6) + 1"
      "\<And>j g. t6 j = Some g \<Longrightarrow> \<exists>g'. t7 j = Some g' \<and> length (fbytes g') \<le> length (fbytes g) + 64"
    by (rule initsh_refines [OF s6(3) [simplified] fl f(1) pre(1) fld pre(2)]) (rule that)
  obtain gb where gb: "t7 bin = Some gb" "length (fbytes gb) \<le> 512"
    using s7(5) [OF f(2)] f(4) by fastforce
  have "\<exists>d' t'. write_binfiles field host bin (binfiles flags) d7 = Some d' \<and> a_binfiles field (ninodes b) host bin (binfiles flags) t7 = Some t' \<and> rep b n 0 d' t'"
    by (rule binfiles_refines [where g = gb]) (use s7(3,4) s6(6) fl gb fld N' in \<open>auto simp: flags_ok_def\<close>)
  then show ?thesis
    using s1(1,2) s2(1,2) s3(1,2) s4(1,2) s5(1,2) s6(1,2) s7(1,2) root
    unfolding create_initial_files_def a_initial_def create_root_file_def by auto
qed

section \<open>A blank image\<close>

definition blank :: "nat \<Rightarrow> superblock \<Rightarrow> image" where
  "blank sc b = \<lparr>sec = \<lambda>_. replicate 512 0, nsec = sc, isb = b, sector_cnt = of_nat sc\<rparr>"

lemma get32_zeros: "4 * w + 3 < 512 \<Longrightarrow> get32 (replicate 512 0) w = 0"
  by (simp add: get32_def bytes_le32_def)

lemma bit_clear_zeros: "k < 4096 \<Longrightarrow> bit_clear (replicate 512 0) k"
  by (simp add: bit_clear_def less_mult_imp_div_less)

lemma createfs_blank:
  assumes b: "superblock_init (of_nat sc) = Some b" and sc: "sc \<le> 2 ^ 22"
  defines "n \<equiv> unat (bmap_bytes b * 8)"
  obtains d where "createfs (blank sc b0) = Some (Some d)" "rep b n (n - 2) d Map.empty" "nsec d = sc"
proof -
  have usc: "unat (of_nat sc :: u32) = sc"
    using sc by (simp add: unat_of_nat)
  then have lt: "unat (of_nat sc :: u32) < 2 ^ 31"
    using sc by simp
  note v = superblock_init_values [OF b, unfolded usc] and lay = superblock_layout [OF b lt, unfolded usc, folded n_def]
  define d where "d = \<lparr>sec = (\<lambda>_. replicate 512 0)(1 := put_words (replicate 512 0) 0 (sb_words b)), nsec = sc, isb = b, sector_cnt = of_nat sc\<rparr>"
  have sec: "sec d x = replicate 512 0" if "2 \<le> unat x" for x
    using that by (auto simp: d_def)
  have len: "length (sec d x) = 512" for x
    by (simp add: d_def)
  have "get32 (replicate 512 0) 0 \<noteq> SUPER_BLOCK_MAGIC"
    by (simp add: get32_zeros SUPER_BLOCK_MAGIC_def)
  then have c: "createfs (blank sc b0) = Some (Some d)"
    using b v(1) sc by (simp add: createfs_def blank_def bread_def img_write_in d_def)
  have n: "96 \<le> n" "unat (bdata_start b) + n \<le> sc + 2"
    using lay(2,3) [of "kview d 0 dinode0"] by (simp_all add: d_def)
  have L: "layout (kview d i di) n" for i di
    by (rule lay(4)) (simp_all add: d_def)
  have iblk: "2 \<le> unat (GET_INODE_BLOCK_NO i b)" "unat (GET_INODE_BLOCK_NO i b) < unat (bmap_start b)" "\<not> log_area (sb_log_start b) (GET_INODE_BLOCK_NO i b)"
    if "i < ninodes b" for i
  proof -
    have "iblock_ok (kview d i dinode0) 0"
      by (rule lay(5)) (use that in \<open>simp_all add: d_def\<close>)
    then show "unat (GET_INODE_BLOCK_NO i b) < unat (bmap_start b)" "\<not> log_area (sb_log_start b) (GET_INODE_BLOCK_NO i b)"
      by (simp_all add: iblock_ok_def d_def)
    have "unat i div 7 < 2 ^ 31"
      using unsigned_less [where 'a = nat, of i] by simp
    then show "2 \<le> unat (GET_INODE_BLOCK_NO i b)"
      using v(6) by (simp add: GET_INODE_BLOCK_NO_def INODES_PER_BLOCK_def unat_word_ariths unat_div)
  qed
  have us: "\<not> dused d k" if "k < n" for k
  proof -
    have "k div 4096 < 2 ^ 31"
      using that n(2) sc div_le_dividend [of k 4096] by simp
    then have "2 \<le> unat (bmap_block (kview d 0 dinode0) (k div 4096))"
      using v(9) by (simp add: bmap_block_def unat_word_ariths unat_of_nat d_def)
    then have "sec d (bmap_block (kview d 0 dinode0) (k div 4096)) = replicate 512 0"
      by (rule sec)
    then show ?thesis
      unfolding dused_def used_def BITS_PER_BLOCK_def kview_sel by (simp only: bit_clear_zeros [OF mod_less_divisor] zero_less_numeral simp_thms)
  qed
  have "fits d n"
    using n sc us fits_iff [of "kview d 0 dinode0" d n] by (simp add: d_def)
  then have img: "image_ok d n"
    using L iblk len sec [of "sb_log_start b"] v(8) by (simp add: image_ok_def d_def get32_zeros)
  have nl: "\<not> live d i" for i
  proof
    assume "live d i"
    then have i: "i < ninodes b" "dtype (stored d i) \<noteq> 0"
      by (simp_all add: live_def d_def INODE_NONE_def)
    have "unat i mod 7 < 7"
      by simp
    then have "get32 (replicate 512 0) (dip_off i) = 0"
      by (intro get32_zeros) (simp add: dip_off_def INODES_PER_BLOCK_def)
    then show False
      using i(2) sec [OF iblk(1) [OF i(1)]] by (simp add: stored_def get_dinode_def d_def split: if_splits)
  qed
  have "{k. k < n \<and> \<not> dused d k} = {..<n}"
    using us by auto
  then have "unused d n = n"
    by (simp add: unused_def)
  then have "rep b n (n - 2) d Map.empty"
    using img nl n(1) by (auto simp: rep_def files_ok_def files_def d_def)
  then show thesis
    by (rule that [OF c]) (simp add: d_def)
qed

section \<open>The contents of the initial files\<close>

abbreviation dots :: "u8 list \<Rightarrow> u32 \<Rightarrow> u32 \<Rightarrow> u8 list" where
  "dots field i parent \<equiv> dirent_bytes (new_entry field [46] i) @ dirent_bytes (new_entry field [46, 46] parent)"

abbreviation dir_file :: "u32 \<Rightarrow> u8 list \<Rightarrow> afile" where
  "dir_file links bs \<equiv> \<lparr>ftype = INODE_DIRECTORY, flink = links, fmajor = 0, fminor = 0, fbytes = bs\<rparr>"

abbreviation host_file :: "u8 list \<Rightarrow> afile" where
  "host_file bs \<equiv> \<lparr>ftype = INODE_FILE, flink = 1, fmajor = 0, fminor = 0, fbytes = bs\<rparr>"

lemma a_write_file_eq:
  assumes w: "a_write_file field N parent (fp) name t = Some t'" and p: "t parent = Some g" "parent \<noteq> 0" and nm: "length name < 60"
  obtains i bs where "fp = Some bs" "t i = None" "i \<noteq> parent"
    "t' = t(parent \<mapsto> g\<lparr>fbytes := fbytes g @ dirent_bytes (new_entry field name i)\<rparr>, i \<mapsto> host_file bs)"
proof -
  obtain bs i where h: "fp = Some bs" and i: "next_inum N t = Some i"
    using w by (auto simp: a_write_file_def a_create_def split: bind_splits)
  have n: "t i = None"
    by (rule next_inum_Some [OF i]) simp
  then have ip: "i \<noteq> parent"
    using p(1) by auto
  have "t' = t(parent \<mapsto> g\<lparr>fbytes := fbytes g @ dirent_bytes (new_entry field name i)\<rparr>, i \<mapsto> host_file bs)"
    using w h i p nm ip inode_types
    by (auto simp: a_write_file_def a_create_def a_link_def a_append_def DIRENT_NAME_LENGTH_def kassert_def INODE_FILE_def INODE_DIRECTORY_def fun_upd_twist split: if_splits)
  then show thesis
    using that h n ip by blast
qed

lemma a_binfiles_eq:
  assumes "a_binfiles field N host bindir fs t = Some t'" "t bindir = Some g" "bindir \<noteq> 0" "\<forall>f \<in> set fs. length (nameptr f) < 60"
  shows "\<exists>is. length is = length fs \<and> distinct is \<and> set is \<inter> dom t = {}
    \<and> t' bindir = Some (g\<lparr>fbytes := fbytes g @ concat (map2 (\<lambda>f i. dirent_bytes (new_entry field (nameptr f) i)) fs is)\<rparr>)
    \<and> (\<forall>k < length fs. t' (is ! k) = map_option host_file (host (fs ! k))) \<and> (\<forall>j. j \<noteq> bindir \<longrightarrow> j \<in> dom t \<longrightarrow> t' j = t j)"
  using assms
proof (induction fs arbitrary: t g)
  case Nil
  then show ?case
    by simp
next
  case (Cons f fs)
  obtain t1 where t1: "a_write_file field N bindir (host f) (nameptr f) t = Some t1" "a_binfiles field N host bindir fs t1 = Some t'"
    using Cons.prems(1) by (auto split: bind_splits)
  obtain i bs where w: "host f = Some bs" "t i = None" "i \<noteq> bindir"
      "t1 = t(bindir \<mapsto> g\<lparr>fbytes := fbytes g @ dirent_bytes (new_entry field (nameptr f) i)\<rparr>, i \<mapsto> host_file bs)"
    by (rule a_write_file_eq [OF t1(1) Cons.prems(2,3)]) (use Cons.prems(4) that in auto)
  let ?g = "g\<lparr>fbytes := fbytes g @ dirent_bytes (new_entry field (nameptr f) i)\<rparr>"
  have b1: "t1 bindir = Some ?g"
    using w(3,4) by simp
  obtain iis where iis: "length iis = length fs" "distinct iis" "set iis \<inter> dom t1 = {}"
      "t' bindir = Some (?g\<lparr>fbytes := fbytes ?g @ concat (map2 (\<lambda>f i. dirent_bytes (new_entry field (nameptr f) i)) fs iis)\<rparr>)"
      "\<forall>k < length fs. t' (iis ! k) = map_option host_file (host (fs ! k))" "\<forall>j. j \<noteq> bindir \<longrightarrow> j \<in> dom t1 \<longrightarrow> t' j = t1 j"
    using Cons.IH [OF t1(2) b1 Cons.prems(3)] Cons.prems(4) by auto
  have ti: "t' i = Some (host_file bs)" "i \<in> dom t1" "dom t \<subseteq> dom t1"
    using iis(6) w(3,4) by auto
  have "t' ((i # iis) ! k) = map_option host_file (host ((f # fs) ! k))" if "k < length (f # fs)" for k
    using that iis(5) ti(1) w(1) by (cases k) simp_all
  moreover have "t' j = t j" if "j \<noteq> bindir" "j \<in> dom t" for j
    using that iis(6) ti(3) w(2,4) by auto
  moreover have "set (i # iis) \<inter> dom t = {}" "distinct (i # iis)"
    using iis(2,3) ti(2,3) w(2) by auto
  ultimately show ?case
    using iis(1,4) by (intro exI [of _ "i # iis"]) simp
qed

lemma next_inum_at:
  assumes "t (of_nat k) = None" "list_all (\<lambda>j. t (of_nat j) \<noteq> None) [1..<k]" "1 \<le> k" "k < unat N"
  shows "next_inum N t = Some (of_nat k)"
proof -
  have "[1..<unat N] = [1..<k] @ [k..<unat N]"
    using assms(3,4) upt_add_eq_append [of 1 k "unat N - k"] by simp
  also have "[k..<unat N] = k # [Suc k..<unat N]"
    using assms(4) by (rule upt_conv_Cons)
  finally have u: "[1..<unat N] = [1..<k] @ k # [Suc k..<unat N]" .
  have "List.find (\<lambda>k. t (of_nat k) = None) [1..<k] = None"
    using assms(2) by (auto simp: find_None_iff list_all_iff)
  then show ?thesis
    unfolding next_inum_def u find_append using assms(1) by simp
qed

lemma a_create_dir:
  assumes "next_inum N t = Some i" "t parent = Some g" "parent \<noteq> 0" "i \<noteq> parent" "length name < 60"
  shows "a_create field N 0 0 INODE_DIRECTORY parent name t = Some (i,
    t(parent \<mapsto> g\<lparr>fbytes := fbytes g @ dirent_bytes (new_entry field name i), flink := flink g + 1\<rparr>, i \<mapsto> dir_file 1 (dots field i parent)))"
  using assms by (simp add: a_create_def a_make_def a_link_def a_append_def DIRENT_NAME_LENGTH_def fun_upd_twist Let_def)

lemma a_create_device:
  assumes "next_inum N t = Some i" "t parent = Some g" "parent \<noteq> 0" "i \<noteq> parent" "length name < 60"
  shows "a_create field N mj mn INODE_DEVICE parent name t = Some (i,
    t(parent \<mapsto> g\<lparr>fbytes := fbytes g @ dirent_bytes (new_entry field name i)\<rparr>, i \<mapsto> \<lparr>ftype = INODE_DEVICE, flink = 1, fmajor = mj, fminor = mn, fbytes = []\<rparr>))"
  using assms by (simp add: a_create_def a_link_def a_append_def DIRENT_NAME_LENGTH_def fun_upd_twist Let_def INODE_DEVICE_def INODE_DIRECTORY_def)

lemma a_create_root:
  assumes "next_inum N t = Some i" 
  shows "a_create field N 0 0 INODE_DIRECTORY 0 name t = Some (i, t(i \<mapsto> dir_file 2 (dots field i i)))"
  using assms by (simp add: a_create_def a_make_def a_link_def a_append_def DIRENT_NAME_LENGTH_def Let_def)

text \<open>The directories and the console, before the files of the host.\<close>

definition skeleton :: "u8 list \<Rightarrow> u32 \<rightharpoonup> afile" where
  "skeleton field =
     [1 \<mapsto> dir_file 6 (dots field 1 1 @ dirent_bytes (new_entry field [98, 105, 110] 2) @ dirent_bytes (new_entry field [100, 101, 118] 3)
          @ dirent_bytes (new_entry field [101, 116, 99] 4) @ dirent_bytes (new_entry field [104, 111, 109, 101] 5)),
      2 \<mapsto> dir_file 1 (dots field 2 1),
      3 \<mapsto> dir_file 1 (dots field 3 1 @ dirent_bytes (new_entry field [99, 111, 110, 115, 111, 108, 101] 6)),
      4 \<mapsto> dir_file 1 (dots field 4 1),
      5 \<mapsto> dir_file 1 (dots field 5 1),
      6 \<mapsto> \<lparr>ftype = INODE_DEVICE, flink = 1, fmajor = 1, fminor = 0, fbytes = []\<rparr>]"

lemma initial_skeleton:
  assumes N: "6 < unat N"
  shows "a_initial field N host flags Map.empty = do {
    t7 \<leftarrow> (case initsh_file flags of None \<Rightarrow> Some (skeleton field)
           | Some f \<Rightarrow> a_write_file field N 4 (host f) [105, 110, 105, 116, 46, 115, 104] (skeleton field));
    a_binfiles field N host 2 (binfiles flags) t7 }"
proof -
  let ?e = "\<lambda>nm i. dirent_bytes (new_entry field nm i)"
  let ?bin = "?e [98, 105, 110] 2" and ?dev = "?e [100, 101, 118] 3" and ?etc = "?e [101, 116, 99] 4" and ?home = "?e [104, 111, 109, 101] 5"
  define t1 :: "u32 \<rightharpoonup> afile" where "t1 = [1 \<mapsto> dir_file 2 (dots field 1 1)]"
  define t2 where "t2 = t1(1 \<mapsto> dir_file 3 (dots field 1 1 @ ?bin), 2 \<mapsto> dir_file 1 (dots field 2 1))"
  define t3 where "t3 = t2(1 \<mapsto> dir_file 4 (dots field 1 1 @ ?bin @ ?dev), 3 \<mapsto> dir_file 1 (dots field 3 1))"
  define t4 where "t4 = t3(1 \<mapsto> dir_file 5 (dots field 1 1 @ ?bin @ ?dev @ ?etc), 4 \<mapsto> dir_file 1 (dots field 4 1))"
  define t5 where "t5 = t4(1 \<mapsto> dir_file 6 (dots field 1 1 @ ?bin @ ?dev @ ?etc @ ?home), 5 \<mapsto> dir_file 1 (dots field 5 1))"
  note T = t1_def t2_def t3_def t4_def t5_def
  have i: "next_inum N Map.empty = Some 1" "next_inum N t1 = Some 2" "next_inum N t2 = Some 3" "next_inum N t3 = Some 4" "next_inum N t4 = Some 5"
      "next_inum N t5 = Some 6"
    using next_inum_at [of Map.empty 1 N] next_inum_at [of t1 2 N] next_inum_at [of t2 3 N] next_inum_at [of t3 4 N] next_inum_at [of t4 5 N]
      next_inum_at [of t5 6 N] N
    by (simp_all add: T upt_conv_Cons)
  have c: "a_create field N 0 0 INODE_DIRECTORY 0 [slash] Map.empty = Some (1, t1)"
    "a_create field N 0 0 INODE_DIRECTORY 1 [98, 105, 110] t1 = Some (2, t2)"
    "a_create field N 0 0 INODE_DIRECTORY 1 [100, 101, 118] t2 = Some (3, t3)"
    "a_create field N 0 0 INODE_DIRECTORY 1 [101, 116, 99] t3 = Some (4, t4)"
    "a_create field N 0 0 INODE_DIRECTORY 1 [104, 111, 109, 101] t4 = Some (5, t5)"
    using a_create_root [OF i(1)] a_create_dir [OF i(2), of 1] a_create_dir [OF i(3), of 1] a_create_dir [OF i(4), of 1] a_create_dir [OF i(5), of 1]
    by (simp_all add: T)
  have "a_create field N 1 0 INODE_DEVICE 3 [99, 111, 110, 115, 111, 108, 101] t5 = Some (6, skeleton field)"
    by (subst a_create_device, rule i(6)) (auto simp: T skeleton_def)
  then show ?thesis
    by (simp add: a_initial_def c ROOT_INUM_def)
qed

text \<open>
  The files of the finished image: the skeleton, \<open>/etc/init.sh\<close> if it was given, and in \<open>/bin\<close> one entry and one file for every program.
\<close>

definition tree_spec :: "u8 list \<Rightarrow> (u8 list \<Rightarrow> u8 list option) \<Rightarrow> mkfs_flags \<Rightarrow> (u32 \<rightharpoonup> afile) \<Rightarrow> bool" where
  "tree_spec field host flags t =
     (t 1 = skeleton field 1 \<and> t 3 = skeleton field 3 \<and> t 5 = skeleton field 5 \<and> t 6 = skeleton field 6
      \<and> (case initsh_file flags of
           None \<Rightarrow> t 4 = skeleton field 4
         | Some f \<Rightarrow> \<exists>i. t i = map_option host_file (host f)
             \<and> t 4 = Some (dir_file 1 (dots field 4 1 @ dirent_bytes (new_entry field [105, 110, 105, 116, 46, 115, 104] i))))
      \<and> (\<exists>is. length is = length (binfiles flags) \<and> distinct is
           \<and> t 2 = Some (dir_file 1 (dots field 2 1 @ concat (map2 (\<lambda>f i. dirent_bytes (new_entry field (nameptr f) i)) (binfiles flags) is)))
           \<and> (\<forall>k < length is. t (is ! k) = map_option host_file (host (binfiles flags ! k)))))"

lemma initial_tree:
  assumes t: "a_initial field N host flags Map.empty = Some t" and N: "6 < unat N" and nm: "\<forall>f \<in> set (binfiles flags). length (nameptr f) < 60"
  shows "tree_spec field host flags t"
proof -
  let ?sk = "skeleton field" and ?init = "[105, 110, 105, 116, 46, 115, 104] :: u8 list"
  obtain t7 where t7: "(case initsh_file flags of None \<Rightarrow> Some ?sk | Some f \<Rightarrow> a_write_file field N 4 (host f) ?init ?sk) = Some t7"
      "a_binfiles field N host 2 (binfiles flags) t7 = Some t"
    using t unfolding initial_skeleton [OF N] by (auto split: bind_splits)
  have sk: "?sk 2 = Some (dir_file 1 (dots field 2 1))" "?sk 4 = Some (dir_file 1 (dots field 4 1))" "{1, 2, 3, 4, 5, 6} \<subseteq> dom ?sk"
    by (auto simp: skeleton_def)
  have a: "t7 2 = ?sk 2 \<and> {1, 3, 4, 5, 6} \<subseteq> dom t7 \<and> t7 1 = ?sk 1 \<and> t7 3 = ?sk 3 \<and> t7 5 = ?sk 5 \<and> t7 6 = ?sk 6
    \<and> (case initsh_file flags of None \<Rightarrow> t7 4 = ?sk 4
       | Some f \<Rightarrow> \<exists>i. i \<noteq> 2 \<and> t7 i \<noteq> None \<and> t7 i = map_option host_file (host f) \<and> t7 4 = Some (dir_file 1 (dots field 4 1 @ dirent_bytes (new_entry field ?init i))))"
  proof (cases "initsh_file flags")
    case None
    then show ?thesis
      using t7(1) sk by simp
  next
    case (Some f)
    then have w: "a_write_file field N 4 (host f) ?init ?sk = Some t7"
      using t7(1) by simp
    have pre: "(4 :: u32) \<noteq> 0" "length ?init < 60"
      by simp_all
    obtain i bs where i: "host f = Some bs" "?sk i = None" "i \<noteq> 4"
        "t7 = ?sk(4 \<mapsto> dir_file 1 (dots field 4 1)\<lparr>fbytes := fbytes (dir_file 1 (dots field 4 1)) @ dirent_bytes (new_entry field ?init i)\<rparr>, i \<mapsto> host_file bs)"
      by (rule a_write_file_eq [OF w sk(2) pre]) (rule that)
    have "i \<notin> {1, 2, 3, 4, 5, 6}"
    proof
      assume "i \<in> {1, 2, 3, 4, 5, 6}"
      then have "i \<in> dom ?sk"
        using sk(3) by (rule set_mp [rotated])
      then show False
        using i(2) by (simp add: domIff)
    qed
    then have "t7 2 = ?sk 2" "t7 1 = ?sk 1" "t7 3 = ?sk 3" "t7 5 = ?sk 5" "t7 6 = ?sk 6" "i \<noteq> 2" "t7 i = Some (host_file bs)"
        "t7 4 = Some (dir_file 1 (dots field 4 1 @ dirent_bytes (new_entry field ?init i)))"
      unfolding i(4) by simp_all
    moreover have "dom ?sk \<subseteq> dom t7"
      unfolding i(4) by auto
    then have "{1, 3, 4, 5, 6} \<subseteq> dom t7"
      using sk(3) by (simp add: subsetD)
    ultimately show ?thesis
      unfolding Some using i(1) by simp blast
  qed
  then have b: "t7 2 = Some (dir_file 1 (dots field 2 1))"
    using sk(1) by simp
  obtain iis where bf: "length iis = length (binfiles flags)" "distinct iis"
      "t 2 = Some (dir_file 1 (dots field 2 1)\<lparr>fbytes := fbytes (dir_file 1 (dots field 2 1)) @ concat (map2 (\<lambda>f i. dirent_bytes (new_entry field (nameptr f) i)) (binfiles flags) iis)\<rparr>)"
      "\<forall>k < length (binfiles flags). t (iis ! k) = map_option host_file (host (binfiles flags ! k))" "\<forall>j. j \<noteq> 2 \<longrightarrow> j \<in> dom t7 \<longrightarrow> t j = t7 j"
    using a_binfiles_eq [OF t7(2) b _ nm] by auto
  have k: "t 1 = ?sk 1" "t 3 = ?sk 3" "t 5 = ?sk 5" "t 6 = ?sk 6" "t 4 = t7 4"
    using a bf(5) [rule_format, of 1] bf(5) [rule_format, of 3] bf(5) [rule_format, of 4] bf(5) [rule_format, of 5] bf(5) [rule_format, of 6]
    by simp_all
  have "case initsh_file flags of None \<Rightarrow> t 4 = ?sk 4
       | Some f \<Rightarrow> \<exists>i. t i = map_option host_file (host f) \<and> t 4 = Some (dir_file 1 (dots field 4 1 @ dirent_bytes (new_entry field ?init i)))"
  proof (cases "initsh_file flags")
    case None
    then show ?thesis
      using a k(5) by simp
  next
    case (Some f)
    then obtain i where i: "i \<noteq> 2" "t7 i \<noteq> None" "t7 i = map_option host_file (host f)"
        "t7 4 = Some (dir_file 1 (dots field 4 1 @ dirent_bytes (new_entry field ?init i)))"
      using a by auto
    then have "t i = t7 i"
      using bf(5) by blast
    then show ?thesis
      unfolding Some option.case using i(3,4) k(5) by metis
  qed
  then show ?thesis
    unfolding tree_spec_def using k bf(1-4) by (intro conjI exI [of _ iis]) simp_all
qed

section \<open>The finished image\<close>

lemma kernel_reads:
  assumes r: "rep b n c d t" and f: "t i = Some f" "ftype f \<noteq> INODE_DEVICE" and off: "unat off \<le> length (fbytes f)" "unat off + unat cnt < 2 ^ 32"
  shows "inode_read io 0 off cnt (mounted d i) =
    Some (int (min (unat cnt) (length (fbytes f) - unat off)), take (unat cnt) (drop (unat off) (fbytes f)), mounted d i)"
proof -
  have t: "files_ok d n" "files d i = Some f"
    using r f(1) by (auto simp: rep_def)
  then have lv: "live d i" and fa: "f = absfile d i"
    by (simp_all add: files_Some)
  have "file_ok (mounted d i) n 0"
    using fok_file [OF files_okD(1) [OF t(1)]] files_okD(2) [OF t(1) lv] f(2) by (simp add: fa absfile_def)
  moreover have "length (fbytes f) = isize (mounted d i) 0"
    by (simp add: fa absfile_def fdata_def)
  ultimately show ?thesis
    using inode_read_file [of "mounted d i" n 0 off cnt io] off by (simp add: fa absfile_def)
qed

text \<open>
  C4. The whole program, on a blank image of at most \<open>2^22\<close> sectors and with readable files of the host that are not empty, not larger than the largest
  file and with names shorter than 60 characters: \<open>mkfs\<close> finishes and leaves a file system in which every file is well formed and no two files share a
  block. The files are exactly the directories, the console, \<open>init.sh\<close> and the programs in \<open>/bin\<close>, and the kernel reads from each of
  them, through \<open>inode_read\<close>, the bytes it should have.
\<close>

theorem mkfs_correct:
  assumes "parse_flags args = Inr flags" "imgs (the (img_file flags)) = Some (512 * sc, blank sc b0)" "superblock_init (of_nat sc) = Some b" "sc \<le> 2 ^ 22"
    "flags_ok host flags" "length field = 60" "mkfs_cost host flags + 2 \<le> unat (bmap_bytes b * 8)" "\<forall>f \<in> set (binfiles flags). length (nameptr f) < 60"
  shows "\<exists>d. mkfs_main field host imgs args = Inr d \<and> tree_spec field host flags (files d) \<and> files_ok d (unat (bmap_bytes b * 8)) \<and> isb d = b
    \<and> (\<forall>i f off cnt io. files d i = Some f \<longrightarrow> ftype f \<noteq> INODE_DEVICE \<longrightarrow> unat off \<le> length (fbytes f) \<longrightarrow> unat off + unat cnt < 2 ^ 32 \<longrightarrow>
         inode_read io 0 off cnt (mounted d i) =
           Some (int (min (unat cnt) (length (fbytes f) - unat off)), take (unat cnt) (drop (unat off) (fbytes f)), mounted d i))"
proof -
  let ?n = "unat (bmap_bytes b * 8)"
  have N: "ninodes b = 16384"
    by (rule superblock_init_values(7) [OF assms(3)])
  obtain d1 where d1: "createfs (blank sc b0) = Some (Some d1)" "rep b ?n (?n - 2) d1 Map.empty"
    by (rule createfs_blank [OF assms(3,4)]) (rule that)
  have "rep b ?n (mkfs_cost host flags) d1 Map.empty"
    by (rule rep_mono [OF d1(2)]) (use assms(7) in linarith)
  then obtain d2 t where d2: "create_initial_files field host flags d1 = Some d2" "a_initial field (ninodes b) host flags Map.empty = Some t" "rep b ?n 0 d2 t"
    using initial_refines [OF _ assms(5,6) N] by blast
  have t: "tree_spec field host flags t" "files d2 = t" "files_ok d2 ?n" "isb d2 = b"
    using initial_tree [OF d2(2) _ assms(8)] d2(3) by (simp_all add: N rep_def)
  have "2375 \<le> sc"
    using superblock_init_values(1) [OF assms(3)] assms(4) by (simp add: unat_of_nat)
  moreover have "(512 * sc) mod 4294967296 = 512 * sc"
    using assms(4) by simp
  moreover have "(blank sc b0)\<lparr>nsec := sc, sector_cnt := of_nat sc\<rparr> = blank sc b0"
    by (simp add: blank_def)
  ultimately have "mkfs_main field host imgs args = Inr d2"
    using d1(1) d2(1) by (simp add: mkfs_main_def assms(1,2))
  then show ?thesis
    using t kernel_reads [OF d2(3)] by (intro exI [of _ d2]) simp
qed

theorem mkfs_correct_witness:
  "\<exists>d. mkfs_main (replicate 60 0) (\<lambda>_. Some [1, 2, 3]) (\<lambda>_. Some (2048000, blank 4000 sb_4000)) [[45, 105], [97], [45, 45, 105, 115, 104], [115], [98, 47, 108, 115]] = Inr d
    \<and> files d 1 = skeleton (replicate 60 0) 1"
proof -
  let ?flags = "\<lparr>img_file = Some [97], initsh_file = Some [115], binfiles = [[98, 47, 108, 115]]\<rparr> :: mkfs_flags"
  let ?args = "[[45, 105], [97], [45, 45, 105, 115, 104], [115], [98, 47, 108, 115]] :: u8 list list"
  let ?host = "\<lambda>_ :: u8 list. Some [1, 2, 3 :: u8]" and ?imgs = "\<lambda>_ :: u8 list. Some (2048000 :: nat, blank 4000 sb_4000)"
  have "parse_flags ?args = Inr ?flags"
    by code_simp
  moreover have "?imgs (the (img_file ?flags)) = Some (512 * 4000, blank 4000 sb_4000)"
    by simp
  moreover have "superblock_init (of_nat 4000) = Some sb_4000"
    using superblock_init_4000 by simp
  moreover have "flags_ok ?host ?flags" "mkfs_cost ?host ?flags + 2 \<le> unat (bmap_bytes sb_4000 * 8)"
    by (simp_all add: flags_ok_def host_ok_def mkfs_cost_def file_cost_def nblk_def sb_4000_def)
  moreover have "\<forall>f \<in> set (binfiles ?flags). length (nameptr f) < 60"
    by (simp add: nameptr_eq)
  ultimately show ?thesis
    using mkfs_correct [of ?args ?flags ?imgs 4000 sb_4000 sb_4000 ?host "replicate 60 0"] by (simp only: tree_spec_def length_replicate) auto
qed

end
