(* ===== verification/Printf.thy ===== *)
theory Printf
  imports Prelude
begin

text \<open>
  Number and text formatting: \<open>itoa\<close> of \<open>lib/src/stdlib.c\<close> and \<open>vsprintf\<close> of \<open>lib/src/stdio.c\<close>, the
  routines behind \<open>printf\<close>, \<open>printk\<close> and \<open>cprintf\<close>. The output buffer is the list of the bytes
  written before the terminating 0, and the returned pointer or count is its length.
\<close>

section \<open>itoa\<close>

definition digit_char :: "u8 \<Rightarrow> u8" where
  "digit_char digit = (if digit < 10 then 48 + digit else 65 + (digit - 10))"

text \<open>
  The loop \<open>while (n != 0)\<close>. A radix of 0 is a division by zero (the call does not return), and with
  radix 1 the loop does not end; the callers pass 8, 10 and 16.
\<close>

partial_function (option) itoa_digits :: "u32 \<Rightarrow> u32 \<Rightarrow> u8 list option" where
  "itoa_digits n radix =
     (if n = 0 then Some []
      else if radix = 0 then None
      else do {
        ds \<leftarrow> itoa_digits (n div radix) radix;
        Some (digit_char (ucast (n mod radix)) # ds)
      })"

text \<open>The in-place reversal, \<open>len / 2\<close> swaps of \<open>s[i]\<close> and \<open>s[len - i - 1]\<close>.\<close>

fun swap_loop :: "nat \<Rightarrow> nat \<Rightarrow> 'a list \<Rightarrow> 'a list" where
  "swap_loop 0 i s = s"
| "swap_loop (Suc k) i s =
     (let len = length s in
      swap_loop k (Suc i) (s[i := s ! (len - i - 1), len - i - 1 := s ! i]))"

definition itoa :: "u32 \<Rightarrow> u32 \<Rightarrow> u8 list option" where
  "itoa num radix =
     (if num = 0 then Some [48]
      else if sint num < 0 \<and> radix = 10 then do {
        ds \<leftarrow> itoa_digits (0 - num) radix;
        Some (45 # swap_loop (length ds div 2) 0 ds)
      }
      else do {
        ds \<leftarrow> itoa_digits num radix;
        Some (swap_loop (length ds div 2) 0 ds)
      })"

section \<open>vsprintf\<close>

text \<open>
  The arguments of a variadic call: an \<open>int\<close>-sized word or a string. Reading an argument that is
  not there, or of the other kind, is undefined behaviour in C; the model does not return then.
\<close>

datatype varg = VInt u32 | VStr "u8 list"

fun va_int :: "varg list \<Rightarrow> (u32 \<times> varg list) option" where
  "va_int (VInt v # args) = Some (v, args)"
| "va_int _ = None"

fun va_str :: "varg list \<Rightarrow> (u8 list \<times> varg list) option" where
  "va_str (VStr s # args) = Some (s, args)"
| "va_str _ = None"

text \<open>Characters: 37 \<open>%\<close>, 120 \<open>x\<close>, 112 \<open>p\<close>, 111 \<open>o\<close>, 100 \<open>d\<close>, 115 \<open>s\<close>, 99 \<open>c\<close>.\<close>

fun vsprintf :: "u8 list \<Rightarrow> varg list \<Rightarrow> u8 list option" where
  "vsprintf [] args = Some []"
| "vsprintf [ch] args = Some [ch]"
| "vsprintf (ch # ch2 # format) args =
     (if ch \<noteq> 37 then do { out \<leftarrow> vsprintf (ch2 # format) args; Some (ch # out) }
      else if ch2 = 120 \<or> ch2 = 112 then do {
        (v, args1) \<leftarrow> va_int args; t \<leftarrow> itoa v 16;
        out \<leftarrow> vsprintf format args1; Some (t @ out) }
      else if ch2 = 111 then do {
        (v, args1) \<leftarrow> va_int args; t \<leftarrow> itoa v 8;
        out \<leftarrow> vsprintf format args1; Some (t @ out) }
      else if ch2 = 100 then do {
        (v, args1) \<leftarrow> va_int args; t \<leftarrow> itoa v 10;
        out \<leftarrow> vsprintf format args1; Some (t @ out) }
      else if ch2 = 115 then do {
        (t, args1) \<leftarrow> va_str args;
        out \<leftarrow> vsprintf format args1; Some (t @ out) }
      else if ch2 = 99 then do {
        (v, args1) \<leftarrow> va_int args;
        out \<leftarrow> vsprintf format args1; Some (ucast v # out) }
      else vsprintf format args)"

section \<open>Reading numbers back\<close>

definition digit_val :: "u8 \<Rightarrow> nat" where
  "digit_val c = (if c < 58 then unat c - 48 else unat c - 55)"

definition num_val :: "nat \<Rightarrow> u8 list \<Rightarrow> nat" where
  "num_val radix cs = foldl (\<lambda>v c. v * radix + digit_val c) 0 cs"

definition int_val :: "u8 list \<Rightarrow> int" where
  "int_val cs =
     (case cs of [] \<Rightarrow> 0 | c # ds \<Rightarrow>
        if c = 45 then - int (num_val 10 ds) else int (num_val 10 cs))"

lemma digit_val_char:
  assumes "d < 36"
  shows "digit_val (digit_char (of_nat d)) = d" and "digit_char (of_nat d) \<noteq> 45"
  using assms by (auto simp: digit_val_def digit_char_def word_less_nat_alt unat_word_ariths
      unat_of_nat unat_sub_if' word_unat_eq_iff)

fun nat_digits :: "nat \<Rightarrow> nat \<Rightarrow> nat list" where
  "nat_digits radix n =
     (if n = 0 \<or> radix < 2 then [] else n mod radix # nat_digits radix (n div radix))"

declare nat_digits.simps [simp del]

lemma nat_digits_small: "2 \<le> radix \<Longrightarrow> d \<in> set (nat_digits radix n) \<Longrightarrow> d < radix"
proof (induction radix n rule: nat_digits.induct)
  case (1 radix n)
  then show ?case
    by (auto simp: nat_digits.simps [of radix n] split: if_splits)
qed

lemma itoa_digits_eq:
  assumes "2 \<le> radix" and "radix \<le> 36"
  shows "itoa_digits n radix =
    Some (map (\<lambda>d. digit_char (of_nat d)) (nat_digits (unat radix) (unat n)))"
proof (induction "unat n" arbitrary: n rule: less_induct)
  case less
  have r: "2 \<le> unat radix" "unat radix \<le> 36"
    using assms by (simp_all add: word_le_nat_alt)
  show ?case
  proof (cases "n = 0")
    case True
    then show ?thesis
      by (subst itoa_digits.simps) (simp add: nat_digits.simps)
  next
    case False
    then have pos: "0 < unat n" by (simp add: unat_gt_0)
    have "unat (n div radix) < unat n"
      using pos r by (simp add: unat_div)
    then have IH: "itoa_digits (n div radix) radix =
        Some (map (\<lambda>d. digit_char (of_nat d)) (nat_digits (unat radix) (unat n div unat radix)))"
      using less.hyps [of "n div radix"] by (simp add: unat_div)
    have "(ucast (n mod radix) :: u8) = of_nat (unat n mod unat radix)"
      by (simp add: word_unat_eq_iff unsigned_ucast_eq take_bit_eq_mod unat_of_nat unat_mod)
    with IH False pos r show ?thesis
      by (simp add: itoa_digits.simps [of n] nat_digits.simps [of _ "unat n"])
         (metis unat_0 not_numeral_le_zero)
  qed
qed

lemma length_swap_loop [simp]: "length (swap_loop k i s) = length s"
  by (induction k arbitrary: i s) (simp_all add: Let_def)

lemma swap_loop_nth:
  assumes "2 * (i + k) \<le> length s" and "j < length s"
  shows "swap_loop k i s ! j =
    (if (i \<le> j \<and> j < i + k) \<or> (i + j < length s \<and> length s \<le> i + j + k) then s ! (length s - 1 - j) else s ! j)"
  using assms
proof (induction k arbitrary: i s)
  case (Suc k)
  let ?len = "length s"
  let ?s = "s[i := s ! (?len - i - 1), ?len - i - 1 := s ! i]"
  have "swap_loop k (Suc i) ?s ! j =
    (if (Suc i \<le> j \<and> j < Suc i + k) \<or> (Suc i + j < ?len \<and> ?len \<le> Suc i + j + k)
     then ?s ! (?len - 1 - j) else ?s ! j)"
    using Suc.IH [of "Suc i" ?s] Suc.prems by simp
  moreover have "i \<noteq> ?len - i - 1" "i < ?len" "?len - i - 1 < ?len"
    using Suc.prems(1) by auto
  ultimately show ?case
    using Suc.prems by (auto simp: Let_def nth_list_update)
qed auto

lemma swap_loop_rev: "swap_loop (length s div 2) 0 s = rev s"
proof (rule nth_equalityI)
  fix j assume "j < length (swap_loop (length s div 2) 0 s)"
  then have j: "j < length s" by simp
  show "swap_loop (length s div 2) 0 s ! j = rev s ! j"
  proof (cases "j < length s div 2 \<or> length s \<le> j + length s div 2")
    case True
    with j show ?thesis by (simp add: swap_loop_nth rev_nth)
  next
    case False
    with j have "length s - 1 - j = j" by linarith
    with j False show ?thesis by (simp add: swap_loop_nth rev_nth)
  qed
qed simp

lemma num_val_snoc: "num_val radix (cs @ [c]) = num_val radix cs * radix + digit_val c"
  by (simp add: num_val_def)

lemma num_val_digits:
  assumes "2 \<le> radix" and "radix \<le> 36"
  shows "num_val radix (rev (map (\<lambda>d. digit_char (of_nat d)) (nat_digits radix n))) = n"
  using assms
proof (induction radix n rule: nat_digits.induct)
  case (1 radix n)
  show ?case
  proof (cases "n = 0")
    case True
    then show ?thesis by (simp add: nat_digits.simps num_val_def)
  next
    case False
    have "n mod radix < radix"
      using "1.prems" by simp
    then have "n mod radix < 36"
      using "1.prems" by linarith
    with False 1 show ?thesis
      by (simp add: nat_digits.simps [of radix n] num_val_snoc digit_val_char)
  qed
qed

lemma digits_hd:
  assumes "2 \<le> radix" and "radix \<le> 36" and "n \<noteq> 0"
  shows "\<exists>c cs. rev (map (\<lambda>d. digit_char (of_nat d)) (nat_digits radix n)) = c # cs \<and> c \<noteq> 45"
proof -
  let ?ds = "rev (map (\<lambda>d. digit_char (of_nat d)) (nat_digits radix n))"
  have "?ds \<noteq> []"
    using assms by (simp add: nat_digits.simps [of radix n])
  then obtain c cs where cs: "?ds = c # cs"
    by (cases ?ds) auto
  then have "c \<in> set ?ds" by simp
  then obtain d where d: "d \<in> set (nat_digits radix n)" and c: "c = digit_char (of_nat d)"
    by auto
  have "d < 36"
    using d assms nat_digits_small [of radix d n] by linarith
  then have "c \<noteq> 45"
    unfolding c by (rule digit_val_char(2))
  with cs show ?thesis by blast
qed

lemma uint_neg_u32:
  assumes "sint (num :: u32) < 0"
  shows "uint (- num) = - sint num"
proof -
  have s: "sint num = uint num - 2 ^ 32" and "0 < uint num"
    using assms uint_ge_0 [of num] by (auto simp: sint_u32 split: if_splits)
  moreover have "uint num < 2 ^ 32"
    using uint_lt2p [of num] by simp
  ultimately show ?thesis
    by (simp add: uint_word_ariths zmod_zminus1_eq_if mod_pos_pos_trivial)
qed

lemma itoa_decimal:
  "\<exists>cs. itoa num 10 = Some cs \<and> int_val cs = sint num"
proof (cases "sint num < 0")
  case True
  then have "num \<noteq> 0" by auto
  with True show ?thesis
    by (simp add: itoa_def itoa_digits_eq swap_loop_rev int_val_def num_val_digits uint_neg_u32)
next
  case False
  show ?thesis
  proof (cases "num = 0")
    case True
    then show ?thesis by (simp add: itoa_def int_val_def num_val_def digit_val_def)
  next
    case nz: False
    let ?ds = "rev (map (\<lambda>d. digit_char (of_nat d)) (nat_digits 10 (unat num)))"
    have "sint num = int (unat num)"
      using False uint_lt2p [of num] by (auto simp: sint_u32 split: if_splits)
    moreover obtain c cs where "?ds = c # cs" and "c \<noteq> 45"
      using digits_hd [of 10 "unat num"] nz by (auto simp: unat_eq_0)
    ultimately have "int_val ?ds = sint num"
      using num_val_digits [of 10 "unat num"] by (simp add: int_val_def)
    then show ?thesis
      using nz False by (simp add: itoa_def itoa_digits_eq swap_loop_rev)
  qed
qed

lemma itoa_unsigned:
  assumes "radix = 8 \<or> radix = 16"
  shows "\<exists>cs. itoa num radix = Some cs \<and> num_val (unat radix) cs = unat num"
proof (cases "num = 0")
  case True
  then show ?thesis by (simp add: itoa_def num_val_def digit_val_def)
next
  case False
  with assms show ?thesis
    by (auto simp: itoa_def itoa_digits_eq swap_loop_rev num_val_digits)
qed

section \<open>Formats as pieces\<close>

text \<open>
  A format string is a sequence of literal texts and conversions. \<open>piece_format\<close> and \<open>piece_args\<close>
  give the format string and the arguments of such a sequence, \<open>piece_text\<close> what each piece
  prints.
\<close>

datatype piece = Lit "u8 list" | Hex u32 | Oct u32 | Dec u32 | Str "u8 list" | Chr u8

fun piece_ok :: "piece \<Rightarrow> bool" where
  "piece_ok (Lit s) = (37 \<notin> set s)"
| "piece_ok _ = True"

fun piece_format :: "piece \<Rightarrow> u8 list" where
  "piece_format (Lit s) = s"
| "piece_format (Hex _) = [37, 120]"
| "piece_format (Oct _) = [37, 111]"
| "piece_format (Dec _) = [37, 100]"
| "piece_format (Str _) = [37, 115]"
| "piece_format (Chr _) = [37, 99]"

fun piece_args :: "piece \<Rightarrow> varg list" where
  "piece_args (Lit s) = []"
| "piece_args (Hex v) = [VInt v]"
| "piece_args (Oct v) = [VInt v]"
| "piece_args (Dec v) = [VInt v]"
| "piece_args (Str s) = [VStr s]"
| "piece_args (Chr c) = [VInt (ucast c)]"

fun piece_text :: "piece \<Rightarrow> u8 list" where
  "piece_text (Lit s) = s"
| "piece_text (Hex v) = the (itoa v 16)"
| "piece_text (Oct v) = the (itoa v 8)"
| "piece_text (Dec v) = the (itoa v 10)"
| "piece_text (Str s) = s"
| "piece_text (Chr c) = [c]"

lemma vsprintf_literal:
  assumes "37 \<notin> set s"
  shows "vsprintf (s @ format) args = do { out \<leftarrow> vsprintf format args; Some (s @ out) }"
  using assms
proof (induction s)
  case (Cons c s)
  then have "vsprintf ((c # s) @ format) args = do { out \<leftarrow> vsprintf (s @ format) args; Some (c # out) }"
    by (cases "s @ format") auto
  with Cons show ?case by (cases "vsprintf format args") auto
qed (cases "vsprintf format args", auto)

lemma vsprintf_piece:
  assumes "piece_ok p"
  shows "vsprintf (piece_format p @ format) (piece_args p @ args) =
    do { out \<leftarrow> vsprintf format args; Some (piece_text p @ out) }"
proof (cases p)
  case (Lit s)
  with assms show ?thesis by (simp add: vsprintf_literal)
next
  case (Chr c)
  have "ucast (ucast c :: u32) = c"
    by (rule bit_word_eqI) (auto simp: bit_simps)
  with Chr show ?thesis by simp
next
  case (Hex v)
  with itoa_unsigned [of 16 v] show ?thesis by auto
next
  case (Oct v)
  with itoa_unsigned [of 8 v] show ?thesis by auto
next
  case (Dec v)
  with itoa_decimal [of v] show ?thesis by auto
qed simp

lemma vsprintf_pieces:
  assumes "\<forall>p \<in> set ps. piece_ok p"
  shows "vsprintf (concat (map piece_format ps)) (concat (map piece_args ps)) =
    Some (concat (map piece_text ps))"
  using assms by (induction ps) (simp_all add: vsprintf_piece)

section \<open>Properties\<close>

text \<open>
  C40. \<open>itoa\<close> returns for every \<open>int\<close> in the radices its callers use, and loses nothing: the decimal
  text reads back as the signed value (the most negative one included), and the octal and
  hexadecimal texts as the unsigned one. Its in-place swaps reverse the digits.
\<close>

theorem itoa_roundtrip:
  "(\<exists>cs. itoa num 10 = Some cs \<and> int_val cs = sint num)
   \<and> (\<exists>cs. itoa num 16 = Some cs \<and> num_val 16 cs = unat num)
   \<and> (\<exists>cs. itoa num 8 = Some cs \<and> num_val 8 cs = unat num)
   \<and> swap_loop (length s div 2) 0 s = rev s"
  using itoa_decimal [of num] itoa_unsigned [of 16 num] itoa_unsigned [of 8 num]
  by (simp add: swap_loop_rev)

text \<open>
  \<open>vsprintf\<close> on a format made of literal text and the conversions \<open>%x %o %d %s %c\<close>, with the
  matching arguments, returns and prints each piece in order: literals and strings verbatim,
  characters as they are, numbers as \<open>itoa\<close> writes them.
\<close>

theorem vsprintf_renders:
  assumes "\<forall>p \<in> set ps. piece_ok p"
  shows "vsprintf (concat (map piece_format ps)) (concat (map piece_args ps)) =
    Some (concat (map piece_text ps))"
  using assms by (rule vsprintf_pieces)

theorem vsprintf_renders_witness:
  "vsprintf [110, 61, 37, 100, 33] [VInt (- 42)] = Some ([110, 61] @ the (itoa (- 42) 10) @ [33])
     \<and> (\<exists>cs. itoa (- 42) 10 = Some cs \<and> int_val cs = - 42)"
  using vsprintf_renders [of "[Lit [110, 61], Dec (- 42), Lit [33]]"] itoa_decimal [of "- 42"]
  by simp

end
