(* ===== verification/Sched.thy ===== *)
theory Sched
  imports Printf
begin

text \<open>
  Tasks and schedulers: \<open>struct task_struct\<close> (\<open>include/kernel/task.h\<close>), the scheduler-independent
  part \<open>kernel/sched/sched.c\<close>, and the two schedulers the build selects from,
  \<open>kernel/sched/rr/round_robin.c\<close> and \<open>kernel/sched/linux0.11/linux0.11.c\<close>.

  The task table has \<open>NTASK\<close> entries; a \<open>struct task_struct *\<close> is an index into it. The ready queue
  is the node sequence of the kernel list, in the order from \<open>head\<close> to \<open>tail\<close>; theory \<open>CList\<close> shows
  that \<open>list_push\<close>, \<open>list_offer\<close>, \<open>list_poll\<close> and \<open>list_unlinked\<close> act on it as \<open>q_push\<close>, \<open>q_offer\<close>,
  \<open>q_poll\<close> and \<open>q_unlink\<close> below. All of this code runs with interrupts off on one processor, so
  each function is one atomic step; the interrupt flag itself is not part of the state.

  \<open>struct schedular\<close> is a record of functions, as in the source. The locale \<open>scheduler\<close> is the
  contract that \<open>schedule\<close> relies on; both schedulers are interpreted in it, and the invariant of
  the task states is proved once for any scheduler that keeps the contract.
\<close>

section \<open>Tasks and the kernel state\<close>

definition NTASK :: nat where "NTASK = 128"
definition NOFILE :: nat where "NOFILE = 16"
definition KILLED_TASK_EXITSTATUS :: int where "KILLED_TASK_EXITSTATUS = 100"

datatype task_status =
    TASK_UNUSED
  | TASK_ALLOCATED
  | TASK_READY
  | TASK_RUNNING
  | TASK_BLOCKED
  | TASK_WAITING
  | TASK_ZOMBIE

text \<open>
  \<open>t_vm\<close>: \<open>None\<close> is \<open>NULL\<close> and \<open>Some 0\<close> is \<open>&kvm\<close>, the memory of the kernel threads. \<open>t_ofiles\<close> and
  \<open>t_cwd\<close> name open files and the inode of the current directory.
\<close>

record task_struct =
  t_pid :: int
  t_name :: "u8 list"
  t_state :: task_status
  t_time_slice :: u32
  t_priority :: u32
  t_tf :: u32
  t_context :: u32
  t_kstack_ptr :: u32
  t_vm :: "nat option"
  t_parent :: "nat option"
  t_killed :: bool
  t_exit_status :: int
  t_ofiles :: "nat option list"
  t_cwd :: "nat option"

record trap_frame =
  tf_edi :: u32
  tf_esi :: u32
  tf_ebp :: u32
  tf_esp :: u32
  tf_ebx :: u32
  tf_edx :: u32
  tf_ecx :: u32
  tf_eax :: u32
  tf_gs :: u32
  tf_fs :: u32
  tf_es :: u32
  tf_ds :: u32
  tf_intr_nr :: u32
  tf_errorcode :: u32
  tf_eip :: u32
  tf_cs :: u32
  tf_eflags :: u32
  tf_user_esp :: u32
  tf_user_ss :: u32

text \<open>
  The frame at the bottom of a new task's kernel stack: \<open>struct context\<close>, which \<open>switch_to\<close> pops,
  then the stack frame of \<open>thread_entry\<close>.
\<close>

record entry_stack_frame =
  c_edi :: u32
  c_esi :: u32
  c_ebx :: u32
  c_ebp :: u32
  c_eip :: u32
  unused_eip :: u32
  entry_fn :: u32
  fn_data :: u32

record semaphore =
  s_val :: int
  s_waiting :: "nat list"
  s_holder :: "nat option"

text \<open>
  The kernel state of this layer: the task table, the running task, the ready queue and its counter
  (\<open>struct ready_queue\<close>), every semaphore, the two machine registers a context switch loads
  (the page directory in \<open>cr3\<close>, named by its \<open>vm\<close>, and the kernel stack pointer \<open>tss.esp0\<close>), and
  the trap frames and entry frames on the kernel stacks, by address.
\<close>

record kstate =
  tasks :: "nat \<Rightarrow> task_struct"
  current_task :: nat
  idle_task :: nat
  init_proc :: "nat option"
  next_pid :: int
  rqueue :: "nat list"
  running_task_cnt :: int
  sems :: "nat \<Rightarrow> semaphore"
  cr3_vm :: "nat option"
  esp0 :: u32
  tf_mem :: "u32 \<Rightarrow> trap_frame"
  frame_mem :: "u32 \<Rightarrow> entry_stack_frame"

definition upd_task :: "nat \<Rightarrow> (task_struct \<Rightarrow> task_struct) \<Rightarrow> kstate \<Rightarrow> kstate" where
  "upd_task t f s = s\<lparr>tasks := (tasks s)(t := f (tasks s t))\<rparr>"

definition set_state :: "nat \<Rightarrow> task_status \<Rightarrow> kstate \<Rightarrow> kstate" where
  "set_state t st s = upd_task t (\<lambda>k. k\<lparr>t_state := st\<rparr>) s"

abbreviation state_of :: "kstate \<Rightarrow> nat \<Rightarrow> task_status" where
  "state_of s t \<equiv> t_state (tasks s t)"

section \<open>The kernel list, as a sequence\<close>

definition q_push :: "nat \<Rightarrow> nat list \<Rightarrow> nat list" where "q_push t q = q @ [t]"
definition q_offer :: "nat \<Rightarrow> nat list \<Rightarrow> nat list" where "q_offer t q = t # q"
definition q_poll :: "nat list \<Rightarrow> nat \<times> nat list" where "q_poll q = (last q, butlast q)"
definition q_unlink :: "nat \<Rightarrow> nat list \<Rightarrow> nat list" where "q_unlink t q = remove1 t q"

section \<open>The scheduler interface (sched.h)\<close>

record schedular =
  enqueue :: "nat \<Rightarrow> kstate \<Rightarrow> kstate option"
  dequeue :: "nat \<Rightarrow> kstate \<Rightarrow> kstate option"
  pick_task :: "kstate \<Rightarrow> (nat \<times> kstate) option"
  get_running_task_cnt :: "kstate \<Rightarrow> int"
  sched_timeslice_check :: "nat \<Rightarrow> kstate \<Rightarrow> bool \<times> kstate"

section \<open>Round robin (round_robin.c)\<close>

definition rr_get_running_task_cnt :: "kstate \<Rightarrow> int" where
  "rr_get_running_task_cnt s = running_task_cnt s"

definition rr_timeslice_check :: "nat \<Rightarrow> kstate \<Rightarrow> bool \<times> kstate" where
  "rr_timeslice_check t s =
     (if t_time_slice (tasks s t) \<noteq> 0
      then (False, upd_task t (\<lambda>k. k\<lparr>t_time_slice := t_time_slice k - 1\<rparr>) s)
      else (True, s))"

definition rr_rq_enqueue :: "nat \<Rightarrow> kstate \<Rightarrow> kstate option" where
  "rr_rq_enqueue t s = do {
     kassert (t \<notin> set (rqueue s) \<and> t \<noteq> idle_task s);
     let s1 = s\<lparr>rqueue := q_push t (rqueue s)\<rparr>;
     let s2 = (if t_time_slice (tasks s1 t) = 0
               then upd_task t (\<lambda>k. k\<lparr>t_time_slice := t_priority k\<rparr>) s1 else s1);
     Some (s2\<lparr>running_task_cnt := running_task_cnt s2 + 1\<rparr>)
   }"

definition rr_rq_dequeue :: "nat \<Rightarrow> kstate \<Rightarrow> kstate option" where
  "rr_rq_dequeue t s = do {
     kassert (t \<in> set (rqueue s));
     Some (s\<lparr>rqueue := q_unlink t (rqueue s), running_task_cnt := running_task_cnt s - 1\<rparr>)
   }"

definition rr_pick_task :: "kstate \<Rightarrow> (nat \<times> kstate) option" where
  "rr_pick_task s =
     (if rqueue s \<noteq> [] then
        (let (t, q) = q_poll (rqueue s) in Some (t, s\<lparr>rqueue := q\<rparr>))
      else
        Some (idle_task s,
          upd_task (idle_task s) (\<lambda>k. k\<lparr>t_time_slice := t_priority k\<rparr>) s))"

definition rr_schedular :: schedular where
  "rr_schedular = \<lparr>enqueue = rr_rq_enqueue, dequeue = rr_rq_dequeue, pick_task = rr_pick_task,
     get_running_task_cnt = rr_get_running_task_cnt, sched_timeslice_check = rr_timeslice_check\<rparr>"

section \<open>The linux0.11 scheduler (linux0.11.c)\<close>

definition lx_get_running_task_cnt :: "kstate \<Rightarrow> int" where
  "lx_get_running_task_cnt s = running_task_cnt s"

definition lx_timeslice_check :: "nat \<Rightarrow> kstate \<Rightarrow> bool \<times> kstate" where
  "lx_timeslice_check t s =
     (if t_time_slice (tasks s t) \<noteq> 0
      then (False, upd_task t (\<lambda>k. k\<lparr>t_time_slice := t_time_slice k - 1\<rparr>) s)
      else (True, s))"

definition lx_rq_enqueue :: "nat \<Rightarrow> kstate \<Rightarrow> kstate option" where
  "lx_rq_enqueue t s = do {
     kassert (t \<notin> set (rqueue s) \<and> t \<noteq> idle_task s);
     Some (s\<lparr>rqueue := q_offer t (rqueue s), running_task_cnt := running_task_cnt s + 1\<rparr>)
   }"

definition lx_rq_dequeue :: "nat \<Rightarrow> kstate \<Rightarrow> kstate option" where
  "lx_rq_dequeue t s = do {
     kassert (t \<in> set (rqueue s));
     Some (s\<lparr>rqueue := q_unlink t (rqueue s), running_task_cnt := running_task_cnt s - 1\<rparr>)
   }"

text \<open>One pass of \<open>LIST_FOREACH\<close>: the first task with the largest time slice above \<open>maxts\<close>.\<close>

fun lx_scan :: "(nat \<Rightarrow> task_struct) \<Rightarrow> nat list \<Rightarrow> u32 \<Rightarrow> nat option \<Rightarrow> nat option" where
  "lx_scan tab [] maxts nxt = nxt"
| "lx_scan tab (item # q) maxts nxt =
     (if t_time_slice (tab item) > maxts
      then lx_scan tab q (t_time_slice (tab item)) (Some item)
      else lx_scan tab q maxts nxt)"

text \<open>The recharge loop over the whole table, \<open>t->priority + (t->time_slice >> 1)\<close>.\<close>

definition lx_recharge :: "kstate \<Rightarrow> kstate" where
  "lx_recharge s = s\<lparr>tasks := (\<lambda>t. if t < NTASK \<and> state_of s t \<noteq> TASK_UNUSED \<and> t \<noteq> idle_task s
     then (tasks s t)\<lparr>t_time_slice := t_priority (tasks s t) + drop_bit 1 (t_time_slice (tasks s t))\<rparr>
     else tasks s t)\<rparr>"

partial_function (option) lx_pick_loop :: "kstate \<Rightarrow> (nat \<times> kstate) option" where
  "lx_pick_loop s =
     (case lx_scan (tasks s) (rqueue s) 0 None of
        Some t \<Rightarrow> Some (t, s\<lparr>rqueue := q_unlink t (rqueue s)\<rparr>)
      | None \<Rightarrow> lx_pick_loop (lx_recharge s))"

definition lx_pick_task :: "kstate \<Rightarrow> (nat \<times> kstate) option" where
  "lx_pick_task s =
     (if rqueue s = [] then
        Some (idle_task s,
          upd_task (idle_task s) (\<lambda>k. k\<lparr>t_time_slice := t_priority k\<rparr>) s)
      else lx_pick_loop s)"

definition lx_schedular :: schedular where
  "lx_schedular = \<lparr>enqueue = lx_rq_enqueue, dequeue = lx_rq_dequeue, pick_task = lx_pick_task,
     get_running_task_cnt = lx_get_running_task_cnt, sched_timeslice_check = lx_timeslice_check\<rparr>"

section \<open>sched.c\<close>

definition sched_enqueue :: "schedular \<Rightarrow> nat \<Rightarrow> kstate \<Rightarrow> kstate option" where
  "sched_enqueue sch t s = enqueue sch t s"

definition sched_dequeue :: "schedular \<Rightarrow> nat \<Rightarrow> kstate \<Rightarrow> kstate option" where
  "sched_dequeue sch t s = dequeue sch t s"

text \<open>
  \<open>vm_switchvm\<close> loads \<open>cr3\<close> when the two address spaces differ; a user process gets its own kernel
  stack for the next system call. \<open>switch_to\<close> (assembly) then continues the next task.
\<close>

definition TASK_KSTACK_PTR :: "task_struct \<Rightarrow> u32" where
  "TASK_KSTACK_PTR k = t_kstack_ptr k + PG_SIZE"

definition context_switch :: "nat \<Rightarrow> nat \<Rightarrow> kstate \<Rightarrow> kstate" where
  "context_switch prev_task next_task s =
     (let s1 = (if t_vm (tasks s prev_task) \<noteq> t_vm (tasks s next_task)
                then s\<lparr>cr3_vm := t_vm (tasks s next_task)\<rparr> else s)
      in if t_vm (tasks s next_task) \<noteq> Some 0
         then s1\<lparr>esp0 := TASK_KSTACK_PTR (tasks s next_task)\<rparr> else s1)"

definition schedule :: "schedular \<Rightarrow> kstate \<Rightarrow> kstate option" where
  "schedule sch s = do {
     let prev_task = current_task s;
     s1 \<leftarrow> (if prev_task = idle_task s then Some (set_state prev_task TASK_BLOCKED s)
           else if state_of s prev_task = TASK_RUNNING then
             sched_enqueue sch prev_task (set_state prev_task TASK_READY s)
           else Some s);
     (nxt, s2) \<leftarrow> pick_task sch s1;
     let s3 = set_state nxt TASK_RUNNING s2;
     Some (context_switch prev_task nxt (s3\<lparr>current_task := nxt\<rparr>))
   }"

definition timeslice_check :: "schedular \<Rightarrow> kstate \<Rightarrow> kstate option" where
  "timeslice_check sch s =
     (let (expired, s1) = sched_timeslice_check sch (current_task s) s
      in if expired then schedule sch s1 else Some s1)"

section \<open>What a scheduler may change\<close>

text \<open>
  A scheduler owns the ready queue, its counter and the time slices; everything else of the state
  is the same before and after its operations.
\<close>

definition erase_sched :: "kstate \<Rightarrow> kstate" where
  "erase_sched s = s\<lparr>tasks := (\<lambda>t. (tasks s t)\<lparr>t_time_slice := 0\<rparr>), rqueue := [], running_task_cnt := 0\<rparr>"

lemma erase_sched_task_eqs:
  assumes "erase_sched s' = erase_sched s"
  shows "t_state (tasks s' t) = t_state (tasks s t)" "t_priority (tasks s' t) = t_priority (tasks s t)"
    "t_vm (tasks s' t) = t_vm (tasks s t)" "t_kstack_ptr (tasks s' t) = t_kstack_ptr (tasks s t)"
    "t_parent (tasks s' t) = t_parent (tasks s t)" "t_killed (tasks s' t) = t_killed (tasks s t)"
    "t_pid (tasks s' t) = t_pid (tasks s t)" "t_exit_status (tasks s' t) = t_exit_status (tasks s t)"
proof -
  have e: "(tasks s' t)\<lparr>t_time_slice := 0\<rparr> = (tasks s t)\<lparr>t_time_slice := 0\<rparr>"
    using arg_cong [OF assms, of "\<lambda>x. tasks x t"] by (simp add: erase_sched_def)
  show "t_state (tasks s' t) = t_state (tasks s t)" using arg_cong [OF e, of t_state] by simp
  show "t_priority (tasks s' t) = t_priority (tasks s t)" using arg_cong [OF e, of t_priority] by simp
  show "t_vm (tasks s' t) = t_vm (tasks s t)" using arg_cong [OF e, of t_vm] by simp
  show "t_kstack_ptr (tasks s' t) = t_kstack_ptr (tasks s t)" using arg_cong [OF e, of t_kstack_ptr] by simp
  show "t_parent (tasks s' t) = t_parent (tasks s t)" using arg_cong [OF e, of t_parent] by simp
  show "t_killed (tasks s' t) = t_killed (tasks s t)" using arg_cong [OF e, of t_killed] by simp
  show "t_pid (tasks s' t) = t_pid (tasks s t)" using arg_cong [OF e, of t_pid] by simp
  show "t_exit_status (tasks s' t) = t_exit_status (tasks s t)" using arg_cong [OF e, of t_exit_status] by simp
qed

lemma erase_sched_state_eqs:
  assumes "erase_sched s' = erase_sched s"
  shows "current_task s' = current_task s" "idle_task s' = idle_task s" "init_proc s' = init_proc s"
    "next_pid s' = next_pid s" "sems s' = sems s" "cr3_vm s' = cr3_vm s" "esp0 s' = esp0 s"
    "tf_mem s' = tf_mem s" "frame_mem s' = frame_mem s"
  using arg_cong [OF assms, of current_task] arg_cong [OF assms, of idle_task]
    arg_cong [OF assms, of init_proc] arg_cong [OF assms, of next_pid] arg_cong [OF assms, of sems]
    arg_cong [OF assms, of cr3_vm] arg_cong [OF assms, of esp0]
    arg_cong [OF assms, of tf_mem] arg_cong [OF assms, of frame_mem]
  by (simp_all add: erase_sched_def)

text \<open>What rescheduling leaves alone in a task: everything but its state and its time slice.\<close>

definition task_id :: "task_struct \<Rightarrow> task_struct" where
  "task_id k = k\<lparr>t_state := TASK_UNUSED, t_time_slice := 0\<rparr>"

lemma task_id_upd [simp]: "task_id (k\<lparr>t_state := st\<rparr>) = task_id k" "task_id (k\<lparr>t_time_slice := n\<rparr>) = task_id k"
  by (simp_all add: task_id_def)

lemma task_id_eqs:
  assumes "task_id k' = task_id k"
  shows "t_pid k' = t_pid k" "t_name k' = t_name k" "t_priority k' = t_priority k" "t_tf k' = t_tf k"
    "t_context k' = t_context k" "t_kstack_ptr k' = t_kstack_ptr k" "t_vm k' = t_vm k"
    "t_parent k' = t_parent k" "t_killed k' = t_killed k" "t_exit_status k' = t_exit_status k"
    "t_ofiles k' = t_ofiles k" "t_cwd k' = t_cwd k"
  using assms by (cases k; cases k'; simp add: task_id_def)+

lemma erase_sched_task_id:
  assumes "erase_sched s' = erase_sched s"
  shows "task_id (tasks s' t) = task_id (tasks s t)"
proof -
  have "(tasks s' t)\<lparr>t_time_slice := 0\<rparr> = (tasks s t)\<lparr>t_time_slice := 0\<rparr>"
    using arg_cong [OF assms, of "\<lambda>x. tasks x t"] by (simp add: erase_sched_def)
  then show ?thesis
    by (metis task_id_upd(2))
qed

lemmas erase_sched_eqs = erase_sched_task_eqs erase_sched_state_eqs

lemma upd_task_sel [simp]:
  "current_task (upd_task t f s) = current_task s" "idle_task (upd_task t f s) = idle_task s"
  "init_proc (upd_task t f s) = init_proc s" "next_pid (upd_task t f s) = next_pid s"
  "rqueue (upd_task t f s) = rqueue s" "running_task_cnt (upd_task t f s) = running_task_cnt s"
  "sems (upd_task t f s) = sems s" "cr3_vm (upd_task t f s) = cr3_vm s" "esp0 (upd_task t f s) = esp0 s"
  "tf_mem (upd_task t f s) = tf_mem s" "frame_mem (upd_task t f s) = frame_mem s"
  "tasks (upd_task t f s) = (tasks s)(t := f (tasks s t))"
  by (simp_all add: upd_task_def)

lemma set_state_sel [simp]:
  "current_task (set_state t st s) = current_task s" "idle_task (set_state t st s) = idle_task s"
  "init_proc (set_state t st s) = init_proc s" "next_pid (set_state t st s) = next_pid s"
  "rqueue (set_state t st s) = rqueue s" "running_task_cnt (set_state t st s) = running_task_cnt s"
  "sems (set_state t st s) = sems s" "cr3_vm (set_state t st s) = cr3_vm s" "esp0 (set_state t st s) = esp0 s"
  "tf_mem (set_state t st s) = tf_mem s" "frame_mem (set_state t st s) = frame_mem s"
  "tasks (set_state t st s) = (tasks s)(t := (tasks s t)\<lparr>t_state := st\<rparr>)"
  by (simp_all add: set_state_def)

lemma context_switch_sel [simp]:
  "tasks (context_switch p n s) = tasks s" "current_task (context_switch p n s) = current_task s"
  "idle_task (context_switch p n s) = idle_task s" "init_proc (context_switch p n s) = init_proc s"
  "next_pid (context_switch p n s) = next_pid s" "rqueue (context_switch p n s) = rqueue s"
  "running_task_cnt (context_switch p n s) = running_task_cnt s" "sems (context_switch p n s) = sems s"
  "tf_mem (context_switch p n s) = tf_mem s" "frame_mem (context_switch p n s) = frame_mem s"
  by (simp_all add: context_switch_def Let_def)

lemma context_switch_cr3:
  "cr3_vm s = t_vm (tasks s p) \<Longrightarrow> cr3_vm (context_switch p n s) = t_vm (tasks s n)"
  by (simp add: context_switch_def Let_def)

lemma context_switch_esp0:
  "t_vm (tasks s n) \<noteq> Some 0 \<Longrightarrow> esp0 (context_switch p n s) = TASK_KSTACK_PTR (tasks s n)"
  by (simp add: context_switch_def Let_def)

section \<open>The invariant of the task states\<close>

text \<open>
  \<open>task_wf\<close>: the parts that hold throughout, also in the middle of \<open>schedule\<close>. The ready queue is
  exactly the set of \<open>TASK_READY\<close> tasks, without repetition and without the idle task; only table
  entries are in use, and the idle task and every task that has been started have a positive priority; the loaded page directory is
  the running task's.

  \<open>task_inv\<close>: between calls, exactly the current task is \<open>TASK_RUNNING\<close>.
\<close>

definition task_ok :: "nat \<Rightarrow> nat \<Rightarrow> task_struct \<Rightarrow> bool" where
  "task_ok idle t k = (t_state k \<noteq> TASK_UNUSED \<longrightarrow> t < NTASK
     \<and> (t_state k \<noteq> TASK_ALLOCATED \<or> t = idle \<longrightarrow> 0 < t_priority k))"

lemma task_ok_upd:
  assumes "task_ok idle t k" and "t_priority k' = t_priority k"
    and "t_state k' = t_state k \<or> t_state k \<notin> {TASK_UNUSED, TASK_ALLOCATED}
      \<or> t = idle \<and> t_state k \<noteq> TASK_UNUSED"
  shows "task_ok idle t k'"
  using assms by (auto simp: task_ok_def)

lemma task_ok_cong:
  "t_state k' = t_state k \<Longrightarrow> t_priority k' = t_priority k \<Longrightarrow> task_ok idle t k' = task_ok idle t k"
  by (simp add: task_ok_def)

definition task_wf :: "kstate \<Rightarrow> bool" where
  "task_wf s = (distinct (rqueue s) \<and> (\<forall>t. t \<in> set (rqueue s) \<longleftrightarrow> state_of s t = TASK_READY)
     \<and> idle_task s \<notin> set (rqueue s) \<and> idle_task s < NTASK
     \<and> state_of s (idle_task s) \<noteq> TASK_UNUSED
     \<and> (\<forall>t. task_ok (idle_task s) t (tasks s t))
     \<and> cr3_vm s = t_vm (tasks s (current_task s)))"

definition task_inv :: "kstate \<Rightarrow> bool" where
  "task_inv s = (task_wf s \<and> (\<forall>t. state_of s t = TASK_RUNNING \<longleftrightarrow> t = current_task s))"

text \<open>What holds when \<open>schedule\<close> is called: the current task may have given up \<open>TASK_RUNNING\<close>.\<close>

definition sched_pre :: "kstate \<Rightarrow> bool" where
  "sched_pre s = (task_wf s
     \<and> (\<forall>t. state_of s t = TASK_RUNNING \<longrightarrow> t = current_task s)
     \<and> state_of s (current_task s) \<noteq> TASK_READY \<and> state_of s (current_task s) \<noteq> TASK_UNUSED)"

lemma task_inv_current: "task_inv s \<Longrightarrow> state_of s (current_task s) = TASK_RUNNING"
  by (simp add: task_inv_def)

lemma task_inv_sched_pre: "task_inv s \<Longrightarrow> sched_pre s"
proof -
  assume inv: "task_inv s"
  then have "state_of s (current_task s) = TASK_RUNNING"
    by (simp add: task_inv_def)
  then have "state_of s (current_task s) \<noteq> TASK_READY" "state_of s (current_task s) \<noteq> TASK_UNUSED"
    by simp_all
  with inv show "sched_pre s"
    by (simp add: task_inv_def sched_pre_def)
qed

section \<open>The scheduler contract\<close>

locale scheduler =
  fixes sch :: schedular
  assumes enqueue_law: "t \<notin> set (rqueue s) \<Longrightarrow> t \<noteq> idle_task s \<Longrightarrow>
      \<exists>s'. enqueue sch t s = Some s' \<and> erase_sched s' = erase_sched s
         \<and> set (rqueue s') = insert t (set (rqueue s)) \<and> (distinct (rqueue s) \<longrightarrow> distinct (rqueue s'))"
    and pick_empty_law: "rqueue s = [] \<Longrightarrow>
      \<exists>s'. pick_task sch s = Some (idle_task s, s') \<and> erase_sched s' = erase_sched s \<and> rqueue s' = []"
    and pick_law: "task_wf s \<Longrightarrow> rqueue s \<noteq> [] \<Longrightarrow>
      \<exists>t s'. pick_task sch s = Some (t, s') \<and> erase_sched s' = erase_sched s
         \<and> t \<in> set (rqueue s) \<and> set (rqueue s') = set (rqueue s) - {t} \<and> distinct (rqueue s')"
    and tick_law: "sched_timeslice_check sch t s = (expired, s') \<Longrightarrow>
      erase_sched s' = erase_sched s \<and> rqueue s' = rqueue s"
begin

lemma pick_any:
  assumes "task_wf s"
  shows "\<exists>t s'. pick_task sch s = Some (t, s') \<and> erase_sched s' = erase_sched s
    \<and> (t \<in> set (rqueue s) \<or> rqueue s = [] \<and> t = idle_task s)
    \<and> set (rqueue s') = set (rqueue s) - {t} \<and> distinct (rqueue s')"
proof (cases "rqueue s = []")
  case True
  with pick_empty_law [OF True] show ?thesis by fastforce
next
  case False
  with pick_law [OF assms False] show ?thesis by blast
qed

text \<open>
  The first half of \<open>schedule\<close>: after the previous task has been put back (or not), no task is
  running and the queue is again exactly the ready tasks.
\<close>

lemma put_back:
  assumes "sched_pre s"
  obtains s1 where
    "(if current_task s = idle_task s then Some (set_state (current_task s) TASK_BLOCKED s)
      else if state_of s (current_task s) = TASK_RUNNING then
        sched_enqueue sch (current_task s) (set_state (current_task s) TASK_READY s)
      else Some s) = Some s1"
    "task_wf s1" "\<forall>t. state_of s1 t \<noteq> TASK_RUNNING"
    "erase_sched s1 = erase_sched (set_state (current_task s) (state_of s1 (current_task s)) s)"
    "current_task s \<noteq> idle_task s \<Longrightarrow>
       state_of s1 (current_task s) =
         (if state_of s (current_task s) = TASK_RUNNING then TASK_READY
          else state_of s (current_task s))"
proof -
  let ?c = "current_task s"
  have wf: "task_wf s" and run: "\<And>t. state_of s t = TASK_RUNNING \<Longrightarrow> t = ?c"
    and nr: "state_of s ?c \<noteq> TASK_READY" and nu: "state_of s ?c \<noteq> TASK_UNUSED"
    using assms by (auto simp: sched_pre_def)
  consider "?c = idle_task s" | "?c \<noteq> idle_task s" "state_of s ?c = TASK_RUNNING"
    | "?c \<noteq> idle_task s" "state_of s ?c \<noteq> TASK_RUNNING"
    by blast
  then show thesis
  proof cases
    case 1
    show ?thesis
      by (rule that [of "set_state ?c TASK_BLOCKED s"])
         (use 1 wf run nr nu in \<open>auto simp: task_wf_def intro: task_ok_upd\<close>)
  next
    case 2
    have "?c \<notin> set (rqueue s)"
      using wf nr by (simp add: task_wf_def)
    then obtain s' where s': "enqueue sch ?c (set_state ?c TASK_READY s) = Some s'"
        "erase_sched s' = erase_sched (set_state ?c TASK_READY s)"
        "set (rqueue s') = insert ?c (set (rqueue s))" "distinct (rqueue s')"
      using enqueue_law [of ?c "set_state ?c TASK_READY s"] 2(1) wf by (auto simp: task_wf_def)
    note eqs = erase_sched_eqs [OF s'(2)]
    have st: "state_of s' t = (if t = ?c then TASK_READY else state_of s t)" for t
      by (simp add: eqs)
    have "task_wf s'"
      unfolding task_wf_def
    proof (intro conjI allI impI)
      fix t
      show "t \<in> set (rqueue s') \<longleftrightarrow> state_of s' t = TASK_READY"
        using wf by (simp add: st s'(3) task_wf_def)
      have "task_ok (idle_task s) t (tasks s t)"
        using wf by (simp add: task_wf_def)
      moreover have "state_of s' t = state_of s t \<or> state_of s t \<notin> {TASK_UNUSED, TASK_ALLOCATED}"
        using 2(2) by (simp add: st)
      ultimately show "task_ok (idle_task s') t (tasks s' t)"
        by (auto simp: eqs intro: task_ok_upd)
    qed (use wf s' 2 in \<open>auto simp: eqs st task_wf_def\<close>)
    moreover have "state_of s' t \<noteq> TASK_RUNNING" for t
      using run by (auto simp: st)
    ultimately show ?thesis
      using 2 s'(1,2) by (intro that [of s']) (simp_all add: st sched_enqueue_def)
  next
    case 3
    have e: "erase_sched s = erase_sched (set_state ?c (state_of s ?c) s)"
      by (simp add: set_state_def upd_task_def)
    show ?thesis
      by (rule that [of s, OF _ wf _ e]) (use 3 run in auto)
  qed
qed

lemma schedule_ok:
  assumes pre: "sched_pre s"
  shows "\<exists>s'. schedule sch s = Some s' \<and> task_inv s'
    \<and> sems s' = sems s \<and> idle_task s' = idle_task s \<and> init_proc s' = init_proc s
    \<and> next_pid s' = next_pid s \<and> tf_mem s' = tf_mem s \<and> frame_mem s' = frame_mem s
    \<and> (\<forall>t. task_id (tasks s' t) = task_id (tasks s t))
    \<and> (\<forall>t. state_of s' t = state_of s t \<or> state_of s' t \<in> {TASK_READY, TASK_RUNNING, TASK_BLOCKED})
    \<and> (\<forall>t. t \<noteq> idle_task s \<longrightarrow> state_of s t \<notin> {TASK_READY, TASK_RUNNING} \<longrightarrow> state_of s' t = state_of s t)
    \<and> (\<forall>t. t \<noteq> idle_task s \<longrightarrow> state_of s t \<in> {TASK_READY, TASK_RUNNING} \<longrightarrow>
           state_of s' t \<in> {TASK_READY, TASK_RUNNING})
    \<and> (current_task s' = idle_task s \<longleftrightarrow> rqueue s = [] \<and>
           (current_task s = idle_task s \<or> state_of s (current_task s) \<noteq> TASK_RUNNING))"
proof -
  let ?c = "current_task s"
  obtain s1 where s1: "(if ?c = idle_task s then Some (set_state ?c TASK_BLOCKED s)
      else if state_of s ?c = TASK_RUNNING then
        sched_enqueue sch ?c (set_state ?c TASK_READY s)
      else Some s) = Some s1"
    and wf1: "task_wf s1" and norun: "\<forall>t. state_of s1 t \<noteq> TASK_RUNNING"
    and er1: "erase_sched s1 = erase_sched (set_state ?c (state_of s1 ?c) s)"
    and st1: "?c \<noteq> idle_task s \<Longrightarrow> state_of s1 ?c =
         (if state_of s ?c = TASK_RUNNING then TASK_READY else state_of s ?c)"
    using put_back [OF pre] by metis
  obtain n s2 where s2: "pick_task sch s1 = Some (n, s2)" and er2: "erase_sched s2 = erase_sched s1"
    and n: "n \<in> set (rqueue s1) \<or> rqueue s1 = [] \<and> n = idle_task s1"
    and q2: "set (rqueue s2) = set (rqueue s1) - {n}" "distinct (rqueue s2)"
    using pick_any [OF wf1] by metis
  let ?s' = "context_switch ?c n ((set_state n TASK_RUNNING s2)\<lparr>current_task := n\<rparr>)"
  have sch: "schedule sch s = Some ?s'"
    using s1 s2 by (simp add: schedule_def)
  note eqs2 = erase_sched_eqs [OF er2] and eqs1 = erase_sched_state_eqs [OF er1, simplified]
  have st1': "state_of s1 t = (if t = ?c then state_of s1 ?c else state_of s t)" for t
    using erase_sched_eqs(1) [OF er1, of t] by simp
  have st: "state_of ?s' t = (if t = n then TASK_RUNNING else state_of s1 t)" for t
    by (simp add: eqs2(1))
  have cid: "current_task s1 = ?c" "idle_task s1 = idle_task s"
    by (simp_all add: eqs1)
  have "cr3_vm s2 = t_vm (tasks s2 ?c)"
    using wf1 by (simp add: eqs2 cid task_wf_def)
  then have cr3: "cr3_vm ?s' = t_vm (tasks ?s' n)"
    by (subst context_switch_cr3) simp_all
  have inv: "task_inv ?s'"
    unfolding task_inv_def task_wf_def
  proof (intro conjI allI impI)
    fix t
    show "t \<in> set (rqueue ?s') \<longleftrightarrow> state_of ?s' t = TASK_READY"
      using wf1 by (simp add: eqs2(1) q2 task_wf_def)
    show "state_of ?s' t = TASK_RUNNING \<longleftrightarrow> t = current_task ?s'"
      using norun by (simp add: eqs2(1))
    have "task_ok (idle_task s1) t (tasks s1 t)"
      using wf1 by (simp add: task_wf_def)
    moreover have "n = idle_task s1 \<and> state_of s1 n \<noteq> TASK_UNUSED \<or> state_of s1 n = TASK_READY"
      using n wf1 by (auto simp: task_wf_def)
    ultimately show "task_ok (idle_task ?s') t (tasks ?s' t)"
      by (auto simp: eqs2 intro: task_ok_upd)
  qed (use wf1 q2 cr3 in \<open>auto simp: task_wf_def eqs2 cid\<close>)
  have "n = idle_task s \<longleftrightarrow> rqueue s1 = []"
    using n wf1 by (auto simp: cid task_wf_def)
  moreover have "rqueue s1 = [] \<longleftrightarrow> (\<forall>t. state_of s1 t \<noteq> TASK_READY)"
    using wf1 by (metis task_wf_def empty_iff list.set(1) last_in_set)
  moreover have "rqueue s = [] \<longleftrightarrow> (\<forall>t. state_of s t \<noteq> TASK_READY)"
    using pre by (metis sched_pre_def task_wf_def empty_iff list.set(1) last_in_set)
  moreover have "state_of s ?c \<noteq> TASK_READY"
    using pre by (simp add: sched_pre_def)
  moreover have "?c = idle_task s \<Longrightarrow> state_of s1 ?c = TASK_BLOCKED"
    using s1 by (auto split: if_splits)
  ultimately have idle: "n = idle_task s \<longleftrightarrow> rqueue s = [] \<and>
      (?c = idle_task s \<or> state_of s ?c \<noteq> TASK_RUNNING)"
    using st1 st1' by (metis task_status.simps(24) task_status.simps(26))
  have kept: "state_of ?s' t = state_of s t"
    if t: "t \<noteq> idle_task s" "state_of s t \<notin> {TASK_READY, TASK_RUNNING}" for t
  proof -
    have "state_of s1 t = state_of s t"
      using t st1 by (cases "t = ?c") (auto simp: st1' [of t])
    moreover from this t have "t \<noteq> n"
      using n wf1 by (auto simp: cid task_wf_def)
    ultimately show ?thesis
      using st [of t] by simp
  qed
  have going: "state_of ?s' t \<in> {TASK_READY, TASK_RUNNING}"
    if t: "t \<noteq> idle_task s" "state_of s t \<in> {TASK_READY, TASK_RUNNING}" for t
  proof -
    have "state_of s1 t \<in> {TASK_READY, TASK_RUNNING}"
      using t st1 by (cases "t = ?c") (auto simp: st1' [of t] split: if_splits)
    then show ?thesis
      using st [of t] by simp
  qed
  have "state_of s1 ?c = state_of s ?c \<or> state_of s1 ?c \<in> {TASK_READY, TASK_BLOCKED}"
    using s1 st1 by (cases "?c = idle_task s") auto
  then have range: "state_of ?s' t = state_of s t \<or> state_of ?s' t \<in> {TASK_READY, TASK_RUNNING, TASK_BLOCKED}" for t
    using st [of t] st1' [of t] by (auto split: if_splits)
  have same: "task_id (tasks ?s' t) = task_id (tasks s t)" for t
    using erase_sched_task_id [OF er2, of t] erase_sched_task_id [OF er1, of t]
    by (auto split: if_splits)
  show ?thesis
    using sch inv idle kept going same range by (simp add: eqs2 eqs1)
qed

lemma timeslice_check_ok:
  assumes inv: "task_inv s"
  shows "\<exists>s'. timeslice_check sch s = Some s' \<and> task_inv s' \<and> sems s' = sems s
    \<and> (\<forall>t. t \<noteq> idle_task s \<longrightarrow> state_of s t \<notin> {TASK_READY, TASK_RUNNING} \<longrightarrow> state_of s' t = state_of s t)"
proof -
  obtain expired s1 where tick: "sched_timeslice_check sch (current_task s) s = (expired, s1)"
    by fastforce
  note er = tick_law [OF tick]
  note eqs = erase_sched_eqs [OF conjunct1 [OF er]]
  have inv1: "task_inv s1"
    using inv er task_ok_cong [OF eqs(1,2)] unfolding task_inv_def task_wf_def eqs by auto
  show ?thesis
  proof (cases expired)
    case False
    then show ?thesis
      using inv1 tick by (simp add: timeslice_check_def eqs)
  next
    case True
    then show ?thesis
      using schedule_ok [OF task_inv_sched_pre [OF inv1]] tick by (auto simp: timeslice_check_def eqs)
  qed
qed

end

section \<open>Both schedulers keep the contract\<close>

lemma erase_sched_upd [simp]:
  "erase_sched (upd_task t (\<lambda>k. k\<lparr>t_time_slice := f k\<rparr>) s) = erase_sched s"
  "erase_sched (s\<lparr>rqueue := q\<rparr>) = erase_sched s"
  "erase_sched (s\<lparr>running_task_cnt := n\<rparr>) = erase_sched s"
  by (auto simp: erase_sched_def upd_task_def fun_eq_iff)

interpretation rr: scheduler rr_schedular
proof
  fix t and s :: kstate assume "t \<notin> set (rqueue s)" "t \<noteq> idle_task s"
  then show "\<exists>s'. enqueue rr_schedular t s = Some s' \<and> erase_sched s' = erase_sched s
      \<and> set (rqueue s') = insert t (set (rqueue s)) \<and> (distinct (rqueue s) \<longrightarrow> distinct (rqueue s'))"
    by (simp add: rr_schedular_def rr_rq_enqueue_def q_push_def Let_def)
next
  fix s :: kstate assume "rqueue s = []"
  then show "\<exists>s'. pick_task rr_schedular s = Some (idle_task s, s') \<and> erase_sched s' = erase_sched s \<and> rqueue s' = []"
    by (simp add: rr_schedular_def rr_pick_task_def)
next
  fix s :: kstate assume wf: "task_wf s" and ne: "rqueue s \<noteq> []"
  then obtain q t where q: "rqueue s = q @ [t]"
    by (meson rev_exhaust)
  with wf show "\<exists>t s'. pick_task rr_schedular s = Some (t, s') \<and> erase_sched s' = erase_sched s
      \<and> t \<in> set (rqueue s) \<and> set (rqueue s') = set (rqueue s) - {t} \<and> distinct (rqueue s')"
    by (auto simp: rr_schedular_def rr_pick_task_def q_poll_def task_wf_def)
next
  fix t s expired s' assume "sched_timeslice_check rr_schedular t s = (expired, s')"
  then show "erase_sched s' = erase_sched s \<and> rqueue s' = rqueue s"
    by (auto simp: rr_schedular_def rr_timeslice_check_def split: if_splits)
qed

lemma lx_scan_spec:
  "case lx_scan tab q m nxt of
     None \<Rightarrow> nxt = None \<and> (\<forall>u\<in>set q. t_time_slice (tab u) \<le> m)
   | Some t \<Rightarrow> (nxt = Some t \<and> (\<forall>u\<in>set q. t_time_slice (tab u) \<le> m))
       \<or> (t \<in> set q \<and> m < t_time_slice (tab t) \<and> (\<forall>u\<in>set q. t_time_slice (tab u) \<le> t_time_slice (tab t)))"
proof (induction q arbitrary: m nxt)
  case Nil
  then show ?case by (simp split: option.split)
next
  case (Cons a q)
  show ?case
  proof (cases "t_time_slice (tab a) > m")
    case True
    have m: "\<And>u. t_time_slice (tab u) \<le> m \<Longrightarrow> t_time_slice (tab u) \<le> t_time_slice (tab a)"
      using True by simp
    show ?thesis
      using Cons.IH [where m = "t_time_slice (tab a)" and nxt = "Some a"] True
      by (auto split: option.splits)
  next
    case False
    then show ?thesis
      using Cons.IH [where m = m and nxt = nxt] by (fastforce split: option.splits)
  qed
qed

lemma lx_recharge_sel [simp]:
  "rqueue (lx_recharge s) = rqueue s" "erase_sched (lx_recharge s) = erase_sched s"
  by (auto simp: lx_recharge_def erase_sched_def fun_eq_iff)

text \<open>
  The endless loop of \<open>linux_pick_task\<close> returns: when no ready task has a time slice left, the
  recharge gives each of them its priority, which is positive, and the second pass succeeds.
\<close>

definition lx_charged :: "kstate \<Rightarrow> kstate" where
  "lx_charged s = (if \<exists>t\<in>set (rqueue s). t_time_slice (tasks s t) \<noteq> 0 then s else lx_recharge s)"

lemma lx_pick_loop_ok:
  assumes wf: "task_wf s" and ne: "rqueue s \<noteq> []"
  shows "\<exists>t. lx_pick_loop s = Some (t, (lx_charged s)\<lparr>rqueue := remove1 t (rqueue s)\<rparr>)
    \<and> t \<in> set (rqueue s)
    \<and> (\<forall>u\<in>set (rqueue s). t_time_slice (tasks (lx_charged s) u) \<le> t_time_slice (tasks (lx_charged s) t))"
proof (cases "lx_scan (tasks s) (rqueue s) 0 None")
  case (Some t)
  then have "t \<in> set (rqueue s)" "0 < t_time_slice (tasks s t)"
      "\<forall>u\<in>set (rqueue s). t_time_slice (tasks s u) \<le> t_time_slice (tasks s t)"
    using lx_scan_spec [where tab = "tasks s" and q = "rqueue s" and m = 0 and nxt = None] by auto
  moreover from this have "lx_charged s = s"
    unfolding lx_charged_def by (metis word_neq_0_conv)
  ultimately show ?thesis
    using Some by (subst lx_pick_loop.simps) (simp add: q_unlink_def)
next
  case None
  then have zero: "\<forall>u\<in>set (rqueue s). t_time_slice (tasks s u) = 0"
    using lx_scan_spec [where tab = "tasks s" and q = "rqueue s" and m = 0 and nxt = None] by auto
  then have ch: "lx_charged s = lx_recharge s"
    by (auto simp: lx_charged_def)
  have pos: "0 < t_time_slice (tasks (lx_recharge s) u)" if u: "u \<in> set (rqueue s)" for u
  proof -
    have "state_of s u = TASK_READY" "u \<noteq> idle_task s"
      using wf u by (auto simp: task_wf_def)
    then show ?thesis
      using wf zero u by (auto simp: lx_recharge_def task_wf_def task_ok_def)
  qed
  obtain t where t: "lx_scan (tasks (lx_recharge s)) (rqueue s) 0 None = Some t"
    using lx_scan_spec [where tab = "tasks (lx_recharge s)" and q = "rqueue s" and m = 0 and nxt = None] pos [of "hd (rqueue s)"] ne
    by (cases "lx_scan (tasks (lx_recharge s)) (rqueue s) 0 None") auto
  then have "t \<in> set (rqueue s)"
      "\<forall>u\<in>set (rqueue s). t_time_slice (tasks (lx_recharge s) u) \<le> t_time_slice (tasks (lx_recharge s) t)"
    using lx_scan_spec [where tab = "tasks (lx_recharge s)" and q = "rqueue s" and m = 0 and nxt = None] by auto
  then show ?thesis
    using None t ch
    by (subst lx_pick_loop.simps, simp, subst lx_pick_loop.simps) (simp add: q_unlink_def)
qed

lemma erase_lx_charged [simp]: "erase_sched (lx_charged s) = erase_sched s"
  by (simp add: lx_charged_def)

interpretation lx: scheduler lx_schedular
proof
  fix t and s :: kstate assume "t \<notin> set (rqueue s)" "t \<noteq> idle_task s"
  then show "\<exists>s'. enqueue lx_schedular t s = Some s' \<and> erase_sched s' = erase_sched s
      \<and> set (rqueue s') = insert t (set (rqueue s)) \<and> (distinct (rqueue s) \<longrightarrow> distinct (rqueue s'))"
    by (simp add: lx_schedular_def lx_rq_enqueue_def q_offer_def erase_sched_def)
next
  fix s :: kstate assume "rqueue s = []"
  then show "\<exists>s'. pick_task lx_schedular s = Some (idle_task s, s') \<and> erase_sched s' = erase_sched s \<and> rqueue s' = []"
    by (simp add: lx_schedular_def lx_pick_task_def)
next
  fix s :: kstate assume wf: "task_wf s" and ne: "rqueue s \<noteq> []"
  have "distinct (rqueue s)"
    using wf by (simp add: task_wf_def)
  with lx_pick_loop_ok [OF wf ne] show "\<exists>t s'. pick_task lx_schedular s = Some (t, s')
      \<and> erase_sched s' = erase_sched s
      \<and> t \<in> set (rqueue s) \<and> set (rqueue s') = set (rqueue s) - {t} \<and> distinct (rqueue s')"
    using ne by (auto simp: lx_schedular_def lx_pick_task_def)
next
  fix t s expired s' assume "sched_timeslice_check lx_schedular t s = (expired, s')"
  then show "erase_sched s' = erase_sched s \<and> rqueue s' = rqueue s"
    by (auto simp: lx_schedular_def lx_timeslice_check_def split: if_splits)
qed

section \<open>Properties\<close>

text \<open>
  A small concrete state: task 0 is the idle task, task 1 runs, tasks 2 and 3 are ready with time
  slices 5 and 7.
\<close>

definition demo_task :: "task_status \<Rightarrow> u32 \<Rightarrow> task_struct" where
  "demo_task st ts = \<lparr>t_pid = 1, t_name = [100], t_state = st, t_time_slice = ts, t_priority = 10,
     t_tf = 0, t_context = 0, t_kstack_ptr = 0x80100000, t_vm = Some 0, t_parent = None,
     t_killed = False, t_exit_status = 0, t_ofiles = replicate NOFILE None, t_cwd = None\<rparr>"

definition demo_tf :: trap_frame where
  "demo_tf = \<lparr>tf_edi = 0, tf_esi = 0, tf_ebp = 0, tf_esp = 0, tf_ebx = 0, tf_edx = 0, tf_ecx = 0,
     tf_eax = 7, tf_gs = 0, tf_fs = 0, tf_es = 0, tf_ds = 0, tf_intr_nr = 0, tf_errorcode = 0,
     tf_eip = 0, tf_cs = 0, tf_eflags = 0, tf_user_esp = 0, tf_user_ss = 0\<rparr>"

definition demo_frame :: entry_stack_frame where
  "demo_frame = \<lparr>c_edi = 0, c_esi = 0, c_ebx = 0, c_ebp = 0, c_eip = 0, unused_eip = 0, entry_fn = 0,
     fn_data = 0\<rparr>"

definition demo_kstate :: kstate where
  "demo_kstate = \<lparr>tasks = (\<lambda>t. if t = 0 then demo_task TASK_BLOCKED 3 else if t = 1 then demo_task TASK_RUNNING 0
      else if t = 2 then demo_task TASK_READY 5 else if t = 3 then demo_task TASK_READY 7
      else demo_task TASK_UNUSED 0),
     current_task = 1, idle_task = 0, init_proc = Some 1, next_pid = 4, rqueue = [2, 3],
     running_task_cnt = 3, sems = (\<lambda>_. \<lparr>s_val = 1, s_waiting = [], s_holder = None\<rparr>),
     cr3_vm = Some 0, esp0 = 0, tf_mem = (\<lambda>_. demo_tf), frame_mem = (\<lambda>_. demo_frame)\<rparr>"

lemma demo_kstate_inv: "task_inv demo_kstate"
proof -
  have st: "state_of demo_kstate t = (if t = 0 then TASK_BLOCKED else if t = 1 then TASK_RUNNING
      else if t = 2 \<or> t = 3 then TASK_READY else TASK_UNUSED)" for t
    by (simp add: demo_kstate_def demo_task_def)
  have pr: "t_priority (tasks demo_kstate t) = 10" for t
    by (simp add: demo_kstate_def demo_task_def)
  have ok: "task_ok 0 t (tasks demo_kstate t)" for t
    unfolding task_ok_def st pr by (simp add: NTASK_def)
  have sel: "rqueue demo_kstate = [2, 3]" "idle_task demo_kstate = 0" "current_task demo_kstate = 1"
      "cr3_vm demo_kstate = Some 0" "t_vm (tasks demo_kstate t) = Some 0" for t
    by (simp_all add: demo_kstate_def demo_task_def)
  show ?thesis
    unfolding task_inv_def task_wf_def st sel using ok by (simp add: NTASK_def)
qed

text \<open>
  C3. \<open>schedule\<close> never panics or loops for either scheduler: from a state in which the current task
  may have left \<open>TASK_RUNNING\<close>, it returns a state in which exactly the current task is running, the
  ready queue holds exactly the ready tasks, and the page directory of the running task is loaded.
  Blocked, waiting and zombie tasks keep their state, runnable tasks stay runnable, and the idle
  task is chosen exactly when nothing else can run.
\<close>

theorem schedule_keeps_invariant:
  assumes "sch \<in> {rr_schedular, lx_schedular}" and "sched_pre s"
  shows "\<exists>s'. schedule sch s = Some s' \<and> task_inv s'
    \<and> sems s' = sems s \<and> idle_task s' = idle_task s \<and> init_proc s' = init_proc s
    \<and> next_pid s' = next_pid s \<and> tf_mem s' = tf_mem s \<and> frame_mem s' = frame_mem s
    \<and> (\<forall>t. task_id (tasks s' t) = task_id (tasks s t))
    \<and> (\<forall>t. state_of s' t = state_of s t \<or> state_of s' t \<in> {TASK_READY, TASK_RUNNING, TASK_BLOCKED})
    \<and> (\<forall>t. t \<noteq> idle_task s \<longrightarrow> state_of s t \<notin> {TASK_READY, TASK_RUNNING} \<longrightarrow> state_of s' t = state_of s t)
    \<and> (\<forall>t. t \<noteq> idle_task s \<longrightarrow> state_of s t \<in> {TASK_READY, TASK_RUNNING} \<longrightarrow>
           state_of s' t \<in> {TASK_READY, TASK_RUNNING})
    \<and> (current_task s' = idle_task s \<longleftrightarrow> rqueue s = [] \<and>
           (current_task s = idle_task s \<or> state_of s (current_task s) \<noteq> TASK_RUNNING))"
  using assms rr.schedule_ok [OF assms(2)] lx.schedule_ok [OF assms(2)] by blast

theorem schedule_keeps_invariant_witness:
  "\<exists>s'. schedule lx_schedular demo_kstate = Some s' \<and> task_inv s' \<and> current_task s' \<noteq> 0"
proof -
  have "sched_pre demo_kstate"
    by (rule task_inv_sched_pre [OF demo_kstate_inv])
  from schedule_keeps_invariant [OF _ this, of lx_schedular]
  show ?thesis
    by (auto simp: demo_kstate_def)
qed

text \<open>
  The timer interrupt's \<open>timeslice_check\<close> keeps the invariant of the task states under both
  schedulers, takes exactly one tick from a task that has some left without switching tasks, and
  reschedules when none is left.
\<close>

theorem timeslice_check_keeps_invariant:
  assumes "sch \<in> {rr_schedular, lx_schedular}" and "task_inv s"
  shows "(\<exists>s'. timeslice_check sch s = Some s' \<and> task_inv s' \<and> sems s' = sems s)
    \<and> (if t_time_slice (tasks s (current_task s)) \<noteq> 0
       then timeslice_check sch s = Some (upd_task (current_task s)
              (\<lambda>k. k\<lparr>t_time_slice := t_time_slice k - 1\<rparr>) s)
       else timeslice_check sch s = schedule sch s)"
  using assms rr.timeslice_check_ok [OF assms(2)] lx.timeslice_check_ok [OF assms(2)]
  by (auto simp: timeslice_check_def rr_schedular_def lx_schedular_def rr_timeslice_check_def
      lx_timeslice_check_def)

theorem timeslice_check_keeps_invariant_witness:
  "timeslice_check rr_schedular demo_kstate = schedule rr_schedular demo_kstate
   \<and> (\<exists>s'. timeslice_check rr_schedular demo_kstate = Some s' \<and> task_inv s')"
proof -
  have "t_time_slice (tasks demo_kstate (current_task demo_kstate)) = 0"
    by (simp add: demo_kstate_def demo_task_def)
  then show ?thesis
    using timeslice_check_keeps_invariant [OF _ demo_kstate_inv, of rr_schedular] by force
qed

text \<open>
  C39. The linux0.11 scheduler: with a ready task the endless loop of \<open>linux_pick_task\<close> returns, after
  at most one recharge of all the time slices (made only when no ready task has any slice left, and
  giving every ready task its priority), and it returns a ready task whose slice is the largest.
\<close>

theorem lx_pick_task_max_slice:
  assumes "task_wf s" and "rqueue s \<noteq> []"
  shows "\<exists>t. lx_pick_task s = Some (t, (lx_charged s)\<lparr>rqueue := remove1 t (rqueue s)\<rparr>)
    \<and> t \<in> set (rqueue s)
    \<and> (\<forall>u\<in>set (rqueue s). t_time_slice (tasks (lx_charged s) u) \<le> t_time_slice (tasks (lx_charged s) t))
    \<and> (if \<exists>u\<in>set (rqueue s). t_time_slice (tasks s u) \<noteq> 0 then lx_charged s = s
       else lx_charged s = lx_recharge s
         \<and> (\<forall>u\<in>set (rqueue s). t_time_slice (tasks (lx_charged s) u) = t_priority (tasks s u)))"
proof -
  have "t_time_slice (tasks (lx_recharge s) u) = t_priority (tasks s u)"
    if "u \<in> set (rqueue s)" "t_time_slice (tasks s u) = 0" for u
    using assms(1) that by (auto simp: task_wf_def lx_recharge_def task_ok_def)
  then have "if \<exists>u\<in>set (rqueue s). t_time_slice (tasks s u) \<noteq> 0 then lx_charged s = s
    else lx_charged s = lx_recharge s
      \<and> (\<forall>u\<in>set (rqueue s). t_time_slice (tasks (lx_charged s) u) = t_priority (tasks s u))"
    by (auto simp: lx_charged_def)
  moreover have "lx_pick_task s = lx_pick_loop s"
    using assms(2) by (simp add: lx_pick_task_def)
  ultimately show ?thesis
    using lx_pick_loop_ok [OF assms] by (elim exE conjE) (intro exI conjI, assumption | simp)+
qed

theorem lx_pick_task_max_slice_witness:
  "\<exists>s'. lx_pick_task demo_kstate = Some (3, s') \<and> rqueue s' = [2]"
proof -
  have "task_wf demo_kstate"
    using demo_kstate_inv by (simp add: task_inv_def)
  from lx_pick_task_max_slice [OF this]
  obtain t where "lx_pick_task demo_kstate = Some (t, demo_kstate\<lparr>rqueue := remove1 t [2, 3]\<rparr>)"
      "t \<in> {2, 3}" "t_time_slice (tasks demo_kstate 3) \<le> t_time_slice (tasks demo_kstate t)"
    by (auto simp: demo_kstate_def demo_task_def)
  moreover from this have "t = 3"
    by (auto simp: demo_kstate_def demo_task_def)
  ultimately show ?thesis by simp
qed

text \<open>
  The scheduler named round robin is last in, first out: \<open>rr_rq_enqueue\<close> and \<open>rr_pick_task\<close> both
  work at the tail of the list, so a running task that is rescheduled (its slice has expired, or it
  yields) is picked again at once, with a full slice if it had none left, however many tasks are ready; the
  others wait until it blocks or exits.
\<close>

theorem rr_reschedules_same_task:
  assumes "task_inv s" and "current_task s \<noteq> idle_task s"
  shows "\<exists>s'. schedule rr_schedular s = Some s' \<and> current_task s' = current_task s
    \<and> rqueue s' = rqueue s
    \<and> t_time_slice (tasks s' (current_task s)) =
       (if t_time_slice (tasks s (current_task s)) = 0 then t_priority (tasks s (current_task s))
        else t_time_slice (tasks s (current_task s)))"
proof -
  have run: "state_of s (current_task s) = TASK_RUNNING"
    using assms(1) by (simp add: task_inv_def)
  then have "current_task s \<notin> set (rqueue s)"
    using assms(1) unfolding task_inv_def task_wf_def by (metis task_status.distinct(23))
  then show ?thesis
    using assms(2) run
    by (simp add: schedule_def sched_enqueue_def rr_schedular_def rr_rq_enqueue_def rr_pick_task_def
        q_push_def q_poll_def Let_def)
qed

theorem rr_reschedules_same_task_witness:
  "\<exists>s'. schedule rr_schedular demo_kstate = Some s' \<and> current_task s' = 1 \<and> rqueue s' = [2, 3]
     \<and> t_time_slice (tasks s' 1) = 10"
  using rr_reschedules_same_task [OF demo_kstate_inv]
  by (simp add: demo_kstate_def demo_task_def)

end
