(* ===== verification/Task.thy ===== *)
theory Task
  imports Sched
begin

text \<open>
  Task life cycle: \<open>kernel/task.c\<close>, and \<open>proc_fork\<close> and the first process from \<open>kernel/proc.c\<close>.

  Calls into the memory manager and the file system that these functions make are recorded, in
  order, as \<open>task_eff\<close> values; what such a call returns (a free page, the copied address space) is an
  argument. A panic or failed assertion is \<open>None\<close>. \<open>task_exit\<close> and \<open>task_wait\<close> run under the task
  table lock with interrupts off from the point where they read the table, so each pass is one
  atomic step; the loop of \<open>task_wait\<close> is the relation of its passes.
\<close>

section \<open>Effects on other components\<close>

datatype task_eff =
    FreePage u32
  | VmFree nat
  | FileClose nat
  | LogBegin
  | InodePut nat
  | LogEnd
  | FileDup nat
  | InodeDup nat

section \<open>Allocating and freeing tasks\<close>

definition task_alloc :: "kstate \<Rightarrow> nat option \<times> kstate" where
  "task_alloc s =
     (case find (\<lambda>i. state_of s i = TASK_UNUSED) [0..<NTASK] of
        None \<Rightarrow> (None, s)
      | Some task \<Rightarrow>
          (Some task,
           (upd_task task (\<lambda>k. k\<lparr>t_state := TASK_ALLOCATED, t_pid := next_pid s\<rparr>) s)
             \<lparr>next_pid := next_pid s + 1\<rparr>))"

definition init_task_struct :: "nat \<Rightarrow> u32 \<Rightarrow> u8 list \<Rightarrow> varg list \<Rightarrow> nat option \<Rightarrow> kstate \<Rightarrow> kstate option" where
  "init_task_struct task priority namefmt args cur s = do {
     name \<leftarrow> vsprintf namefmt args;
     Some (upd_task task (\<lambda>k. k\<lparr>t_name := name, t_time_slice := priority, t_priority := priority,
       t_vm := Some 0, t_killed := False, t_exit_status := 0, t_cwd := None,
       t_parent := cur, t_ofiles := replicate NOFILE None\<rparr>) s)
   }"

definition SIZEOF_TRAP_FRAME :: u32 where "SIZEOF_TRAP_FRAME = 76"
definition SIZEOF_ENTRY_STACK_FRAME :: u32 where "SIZEOF_ENTRY_STACK_FRAME = 32"
definition NPAGE_KSTACK :: u32 where "NPAGE_KSTACK = 1"

text \<open>
  \<open>page\<close> is the result of \<open>get_free_page\<close> (0 is \<open>NULL\<close>) and \<open>thread_entry\<close> the address of that
  function. \<open>unused_eip\<close> keeps what the page holds.
\<close>

definition init_task_stack :: "u32 \<Rightarrow> u32 \<Rightarrow> nat \<Rightarrow> u32 \<Rightarrow> u32 \<Rightarrow> kstate \<Rightarrow> bool \<times> kstate" where
  "init_task_stack thread_entry page task fn data s =
     (let s1 = upd_task task (\<lambda>k. k\<lparr>t_kstack_ptr := page\<rparr>) s in
      if page = 0 then (False, s1)
      else
        (let esp1 = page + NPAGE_KSTACK * PG_SIZE - SIZEOF_TRAP_FRAME;
             esp2 = esp1 - SIZEOF_ENTRY_STACK_FRAME;
             frame = (frame_mem s1 esp2)\<lparr>c_edi := 0, c_esi := 0, c_ebx := 0, c_ebp := 0,
               c_eip := thread_entry, entry_fn := fn, fn_data := data\<rparr>
         in (True, (upd_task task (\<lambda>k. k\<lparr>t_tf := esp1, t_context := esp2\<rparr>) s1)
                     \<lparr>frame_mem := (frame_mem s1)(esp2 := frame)\<rparr>)))"

definition task_free :: "nat \<Rightarrow> kstate \<Rightarrow> (task_eff list \<times> kstate) option" where
  "task_free task s = do {
     kassert (state_of s task \<noteq> TASK_UNUSED);
     kassert (\<not> (state_of s task \<noteq> TASK_ZOMBIE \<and> state_of s task \<noteq> TASK_ALLOCATED));
     let k = tasks s task;
     let eff1 = (if t_kstack_ptr k \<noteq> 0 then [FreePage (t_kstack_ptr k)] else []);
     let eff2 = (case t_vm k of Some v \<Rightarrow> if v \<noteq> 0 then [VmFree v] else [] | None \<Rightarrow> []);
     Some (eff1 @ eff2, upd_task task (\<lambda>k. k\<lparr>t_kstack_ptr := 0, t_pid := 0,
       t_name := [], t_parent := None, t_vm := None,
       t_killed := False, t_exit_status := 0, t_state := TASK_UNUSED\<rparr>) s)
   }"

definition kthread_create ::
  "u32 \<Rightarrow> u32 \<Rightarrow> u32 \<Rightarrow> u32 \<Rightarrow> u32 \<Rightarrow> u8 list \<Rightarrow> varg list \<Rightarrow> kstate \<Rightarrow> (nat option \<times> task_eff list \<times> kstate) option" where
  "kthread_create thread_entry page fn data priority namefmt args s =
     (case task_alloc s of
        (None, s1) \<Rightarrow> Some (None, [], s1)
      | (Some task, s1) \<Rightarrow> do {
          s2 \<leftarrow> init_task_struct task priority namefmt args (Some (current_task s1)) s1;
          let (ok, s3) = init_task_stack thread_entry page task fn data s2;
          if ok then Some (Some task, [], s3)
          else do {
            (eff, s4) \<leftarrow> task_free task s3;
            Some (None, eff, s4)
          }
        })"

section \<open>Giving up and getting back the processor\<close>

definition task_yield :: "schedular \<Rightarrow> kstate \<Rightarrow> kstate option" where
  "task_yield sch s = do {
     kassert (state_of s (current_task s) = TASK_RUNNING);
     schedule sch s
   }"

definition task_block :: "schedular \<Rightarrow> kstate \<Rightarrow> kstate option" where
  "task_block sch s = schedule sch (set_state (current_task s) TASK_BLOCKED s)"

definition task_wakeup :: "schedular \<Rightarrow> nat \<Rightarrow> kstate \<Rightarrow> kstate option" where
  "task_wakeup sch task s = do {
     kassert (state_of s task \<noteq> TASK_RUNNING \<and> state_of s task \<noteq> TASK_READY);
     sched_enqueue sch task (set_state task TASK_READY s)
   }"

text \<open>
  \<open>task_sleep\<close> against the sequence of values that \<open>get_tick_count\<close> returns: the number of times it
  yields. The difference of two \<open>int\<close> readings is compared with a \<open>uint32_t\<close>, so unsigned.
\<close>

fun sleep_loop :: "u32 \<Rightarrow> u32 \<Rightarrow> u32 list \<Rightarrow> nat option" where
  "sleep_loop ticks0 nticks [] = None"
| "sleep_loop ticks0 nticks (now # later) =
     (if now - ticks0 < nticks then map_option Suc (sleep_loop ticks0 nticks later) else Some 0)"

definition task_sleep :: "u32 \<Rightarrow> u32 list \<Rightarrow> nat option" where
  "task_sleep nticks clock =
     (case clock of [] \<Rightarrow> None | ticks0 # later \<Rightarrow> sleep_loop ticks0 nticks later)"

section \<open>Exit, wait and kill\<close>

text \<open>The first half of \<open>task_exit\<close>: open files and the current directory are given back.\<close>

definition exit_release :: "nat \<Rightarrow> kstate \<Rightarrow> task_eff list \<times> kstate" where
  "exit_release task s =
     (let k = tasks s task;
          eff1 = map FileClose (map the (filter (\<lambda>f. f \<noteq> None) (t_ofiles k)));
          eff2 = (case t_cwd k of None \<Rightarrow> [] | Some i \<Rightarrow> [LogBegin, InodePut i, LogEnd])
      in (eff1 @ eff2,
          upd_task task (\<lambda>k. k\<lparr>t_ofiles := map (\<lambda>_. None) (t_ofiles k), t_cwd := None\<rparr>) s))"

text \<open>The loop over the task table that hands the children to \<open>init_proc\<close>.\<close>

fun exit_reparent :: "schedular \<Rightarrow> nat \<Rightarrow> nat list \<Rightarrow> kstate \<Rightarrow> kstate option" where
  "exit_reparent sch task [] s = Some s"
| "exit_reparent sch task (t # ts) s =
     (if t_parent (tasks s t) = Some task then do {
        let s1 = upd_task t (\<lambda>k. k\<lparr>t_parent := init_proc s\<rparr>) s;
        s2 \<leftarrow> (if state_of s1 t = TASK_ZOMBIE then do {
                ip \<leftarrow> init_proc s1;
                task_wakeup sch ip s1
              } else Some s1);
        exit_reparent sch task ts s2
      } else exit_reparent sch task ts s)"

definition task_exit :: "schedular \<Rightarrow> int \<Rightarrow> kstate \<Rightarrow> (task_eff list \<times> kstate) option" where
  "task_exit sch status s = do {
     let task = current_task s;
     kassert (Some task \<noteq> init_proc s);
     kassert (t_parent (tasks s task) \<noteq> None);
     let (eff, s1) = exit_release task s;
     parent \<leftarrow> t_parent (tasks s1 task);
     s2 \<leftarrow> (if state_of s1 parent = TASK_WAITING then task_wakeup sch parent s1 else Some s1);
     s3 \<leftarrow> exit_reparent sch task [0..<NTASK] s2;
     s4 \<leftarrow> schedule sch (upd_task task (\<lambda>k. k\<lparr>t_state := TASK_ZOMBIE, t_exit_status := status\<rparr>) s3);
     Some (eff, s4)
   }"

text \<open>One pass of the loop of \<open>task_wait\<close>.\<close>

datatype wait_result = Reaped int int | NoChildren | Sleeping

fun wait_scan :: "kstate \<Rightarrow> nat \<Rightarrow> nat list \<Rightarrow> bool \<Rightarrow> nat option \<times> bool" where
  "wait_scan s cur [] has_children = (None, has_children)"
| "wait_scan s cur (t # ts) has_children =
     (if t_parent (tasks s t) \<noteq> Some cur then wait_scan s cur ts has_children
      else if state_of s t = TASK_ZOMBIE then (Some t, has_children)
      else wait_scan s cur ts True)"

definition task_wait_pass :: "schedular \<Rightarrow> kstate \<Rightarrow> (wait_result \<times> task_eff list \<times> kstate) option" where
  "task_wait_pass sch s =
     (let cur = current_task s in
      case wait_scan s cur [0..<NTASK] False of
        (Some t, _) \<Rightarrow> do {
          (eff, s1) \<leftarrow> task_free t s;
          Some (Reaped (t_pid (tasks s t)) (t_exit_status (tasks s t)), eff, s1)
        }
      | (None, False) \<Rightarrow> Some (NoChildren, [], s)
      | (None, True) \<Rightarrow> do {
          s1 \<leftarrow> schedule sch (set_state cur TASK_WAITING s);
          Some (Sleeping, [], s1)
        })"

text \<open>What the caller of \<open>task_wait\<close> gets: the pid, and the status written through the pointer.\<close>

definition wait_return :: "bool \<Rightarrow> wait_result \<Rightarrow> (int \<times> int option) option" where
  "wait_return has_status r = (case r of
     Reaped pid st \<Rightarrow> Some (pid, if has_status then Some st else None)
   | NoChildren \<Rightarrow> Some (-1, None)
   | Sleeping \<Rightarrow> None)"

definition task_kill :: "schedular \<Rightarrow> int \<Rightarrow> kstate \<Rightarrow> (int \<times> kstate) option" where
  "task_kill sch pid s =
     (case find (\<lambda>t. t_pid (tasks s t) = pid) [0..<NTASK] of
        None \<Rightarrow> Some (-1, s)
      | Some t \<Rightarrow> do {
          let s1 = upd_task t (\<lambda>k. k\<lparr>t_killed := True\<rparr>) s;
          s2 \<leftarrow> (if state_of s1 t = TASK_BLOCKED \<or> state_of s1 t = TASK_WAITING
                then task_wakeup sch t s1 else Some s1);
          Some (0, s2)
        })"

section \<open>The first tasks\<close>

definition MAIN_STACK_PTR :: u32 where "MAIN_STACK_PTR = 0x80007000"

text \<open>\<open>"idle"\<close>, \<open>"%s"\<close> and \<open>"kernel_main"\<close>, as bytes.\<close>

definition setup_main_task :: "kstate \<Rightarrow> kstate option" where
  "setup_main_task s = (case task_alloc s of
     (None, _) \<Rightarrow> None
   | (Some main_task, s1) \<Rightarrow> do {
       s2 \<leftarrow> init_task_struct main_task 10 [37, 115]
             [VStr [107, 101, 114, 110, 101, 108, 95, 109, 97, 105, 110]] None s1;
       Some ((upd_task main_task (\<lambda>k. k\<lparr>t_parent := None, t_state := TASK_RUNNING,
          t_kstack_ptr := MAIN_STACK_PTR + PG_SIZE\<rparr>) s2)\<lparr>current_task := main_task\<rparr>)
     })"

definition setup_idle_task :: "u32 \<Rightarrow> u32 \<Rightarrow> u32 \<Rightarrow> kstate \<Rightarrow> kstate option" where
  "setup_idle_task thread_entry page idle_loop s = do {
     (t, eff, s1) \<leftarrow> kthread_create thread_entry page idle_loop 0 10 [105, 100, 108, 101] [] s;
     idle \<leftarrow> t;
     Some ((upd_task idle (\<lambda>k. k\<lparr>t_parent := None\<rparr>) s1)\<lparr>idle_task := idle\<rparr>)
   }"

definition task_init :: "u32 \<Rightarrow> u32 \<Rightarrow> u32 \<Rightarrow> kstate \<Rightarrow> kstate option" where
  "task_init thread_entry page idle_loop s = do {
     s1 \<leftarrow> setup_main_task s;
     setup_idle_task thread_entry page idle_loop s1
   }"

section \<open>fork\<close>

definition IS_USER_PROC :: "task_struct \<Rightarrow> bool" where "IS_USER_PROC k = (t_vm k \<noteq> Some 0)"

text \<open>\<open>new_vm\<close> is what \<open>vm_copy(parent->vm)\<close> returns.\<close>

definition proc_fork ::
  "schedular \<Rightarrow> u32 \<Rightarrow> u32 \<Rightarrow> u32 \<Rightarrow> nat option \<Rightarrow> kstate \<Rightarrow> (int \<times> task_eff list \<times> kstate) option" where
  "proc_fork sch thread_entry proc_entry page new_vm s = do {
     let parent = current_task s;
     kassert (IS_USER_PROC (tasks s parent));
     (c, eff, s1) \<leftarrow> kthread_create thread_entry page proc_entry 0 (t_priority (tasks s parent))
        [37, 115] [VStr (t_name (tasks s parent))] s;
     (case c of None \<Rightarrow> Some (-1, eff, s1)
      | Some child \<Rightarrow>
         (let s2 = upd_task child (\<lambda>k. k\<lparr>t_vm := new_vm\<rparr>) s1 in
          if new_vm = None then do {
            (eff2, s3) \<leftarrow> task_free child s2;
            Some (-1, eff2, s3)
          } else do {
            let s3 = s2\<lparr>tf_mem := (tf_mem s2)(t_tf (tasks s2 child) :=
                          (tf_mem s2 (t_tf (tasks s2 parent)))\<lparr>tf_eax := 0\<rparr>)\<rparr>;
            let files = t_ofiles (tasks s3 parent);
            cwd \<leftarrow> t_cwd (tasks s3 parent);
            let s4 = upd_task child (\<lambda>k. k\<lparr>t_parent := Some parent,
                       t_ofiles := map2 (\<lambda>p c. if p \<noteq> None then p else c) files (t_ofiles k),
                       t_cwd := Some cwd\<rparr>) s3;
            s5 \<leftarrow> task_wakeup sch child s4;
            Some (t_pid (tasks s5 child),
                  map FileDup (map the (filter (\<lambda>f. f \<noteq> None) files)) @ [InodeDup cwd], s5)
          }))
   }"

section \<open>The process tree\<close>

text \<open>
  A parent pointer leads to a task that is still in use and has not exited, so following it (as
  \<open>task_exit\<close> does) never reaches a freed table entry. The idle task has no parent and no children.
\<close>

definition alive :: "task_status \<Rightarrow> bool" where
  "alive st = (st \<notin> {TASK_UNUSED, TASK_ALLOCATED, TASK_ZOMBIE})"

definition tree_ok :: "kstate \<Rightarrow> bool" where
  "tree_ok s = ((\<forall>t p. t_parent (tasks s t) = Some p \<longrightarrow> t < NTASK \<and> p \<noteq> idle_task s \<and> alive (state_of s p))
     \<and> (\<forall>ip. init_proc s = Some ip \<longrightarrow> ip \<noteq> idle_task s \<and> alive (state_of s ip))
     \<and> t_parent (tasks s (idle_task s)) = None)"

definition proc_inv :: "kstate \<Rightarrow> bool" where
  "proc_inv s = (task_inv s \<and> tree_ok s)"

lemma tree_ok_mono:
  assumes "tree_ok s" and "\<And>t. t_parent (tasks s' t) = t_parent (tasks s t)"
    and "\<And>t. alive (state_of s t) \<Longrightarrow> alive (state_of s' t)"
    and "idle_task s' = idle_task s" "init_proc s' = init_proc s"
  shows "tree_ok s'"
  using assms unfolding tree_ok_def by simp

lemma task_wf_cong:
  assumes "\<And>t. state_of s' t = state_of s t" "\<And>t. t_priority (tasks s' t) = t_priority (tasks s t)"
    "\<And>t. t_vm (tasks s' t) = t_vm (tasks s t)"
    "rqueue s' = rqueue s" "idle_task s' = idle_task s" "current_task s' = current_task s"
    "cr3_vm s' = cr3_vm s"
  shows "task_wf s' = task_wf s"
  unfolding task_wf_def using assms task_ok_cong [OF assms(1,2)] by simp

lemma alive_simps [simp]:
  "alive TASK_READY" "alive TASK_RUNNING" "alive TASK_BLOCKED" "alive TASK_WAITING"
  "\<not> alive TASK_UNUSED" "\<not> alive TASK_ALLOCATED" "\<not> alive TASK_ZOMBIE"
  by (simp_all add: alive_def)

text \<open>The current task leaves \<open>TASK_RUNNING\<close> to block, wait or exit; then \<open>schedule\<close> may be called.\<close>

lemma sched_pre_leave:
  assumes inv: "task_inv s" and c: "c = current_task s" and st: "st \<notin> {TASK_READY, TASK_UNUSED, TASK_RUNNING}"
    and f: "t_state (f (tasks s c)) = st" "t_priority (f (tasks s c)) = t_priority (tasks s c)"
      "t_vm (f (tasks s c)) = t_vm (tasks s c)"
  shows "sched_pre (upd_task c f s)"
proof -
  have wf: "task_wf s" and run: "\<And>t. state_of s t = TASK_RUNNING \<longleftrightarrow> t = c"
    using inv c by (auto simp: task_inv_def)
  have cs: "state_of s c = TASK_RUNNING" "state_of s c \<noteq> TASK_READY"
    using run [of c] by auto
  have ok: "task_ok (idle_task s) t (((tasks s)(c := f (tasks s c))) t)" for t
    using wf f cs unfolding task_wf_def by (cases "t = c") (auto simp: task_ok_def)
  have "task_wf (upd_task c f s)"
    using wf f st cs ok unfolding task_wf_def by (auto simp: c)
  then show ?thesis
    using st f run unfolding sched_pre_def by (auto simp: c split: if_splits)
qed

text \<open>The effect of the reparenting loop when no child is a zombie.\<close>

definition reparented :: "nat \<Rightarrow> nat list \<Rightarrow> kstate \<Rightarrow> kstate" where
  "reparented task ts s = s\<lparr>tasks := (\<lambda>t. if t \<in> set ts \<and> t_parent (tasks s t) = Some task
     then (tasks s t)\<lparr>t_parent := init_proc s\<rparr> else tasks s t)\<rparr>"

lemma reparented_sel [simp]:
  "current_task (reparented c ts s) = current_task s" "idle_task (reparented c ts s) = idle_task s"
  "init_proc (reparented c ts s) = init_proc s" "rqueue (reparented c ts s) = rqueue s"
  "sems (reparented c ts s) = sems s" "cr3_vm (reparented c ts s) = cr3_vm s"
  "state_of (reparented c ts s) t = state_of s t"
  "t_priority (tasks (reparented c ts s) t) = t_priority (tasks s t)"
  "t_vm (tasks (reparented c ts s) t) = t_vm (tasks s t)"
  "t_pid (tasks (reparented c ts s) t) = t_pid (tasks s t)"
  "t_parent (tasks (reparented c ts s) t) =
     (if t \<in> set ts \<and> t_parent (tasks s t) = Some c then init_proc s else t_parent (tasks s t))"
  by (simp_all add: reparented_def)

lemma exit_reparent_ok:
  assumes "init_proc s \<noteq> Some c"
    and "\<And>t. t \<in> set ts \<Longrightarrow> t_parent (tasks s t) = Some c \<Longrightarrow> state_of s t \<noteq> TASK_ZOMBIE"
  shows "exit_reparent sch c ts s = Some (reparented c ts s)"
  using assms
proof (induction ts arbitrary: s)
  case Nil
  then show ?case by (simp add: reparented_def)
next
  case (Cons t ts)
  show ?case
  proof (cases "t_parent (tasks s t) = Some c")
    case False
    then have "reparented c (t # ts) s = reparented c ts s"
      unfolding reparented_def by (intro arg_cong [where f = "\<lambda>f. s\<lparr>tasks := f\<rparr>"]) auto
    then show ?thesis
      using False Cons by simp
  next
    case True
    let ?s = "upd_task t (\<lambda>k. k\<lparr>t_parent := init_proc s\<rparr>) s"
    have "reparented c ts ?s = reparented c (t # ts) s"
      using Cons.prems(1) True by (auto simp: reparented_def upd_task_def fun_eq_iff)
    moreover have "exit_reparent sch c ts ?s = Some (reparented c ts ?s)"
      using Cons.prems by (intro Cons.IH) (auto split: if_splits)
    ultimately show ?thesis
      using True Cons.prems(2) [of t] by (simp add: Let_def)
  qed
qed

lemma wait_scan_spec:
  "case wait_scan s cur ts hc of
     (Some t, _) \<Rightarrow> t \<in> set ts \<and> t_parent (tasks s t) = Some cur \<and> state_of s t = TASK_ZOMBIE
   | (None, hc') \<Rightarrow> (\<forall>t\<in>set ts. t_parent (tasks s t) = Some cur \<longrightarrow> state_of s t \<noteq> TASK_ZOMBIE)
       \<and> hc' = (hc \<or> (\<exists>t\<in>set ts. t_parent (tasks s t) = Some cur))"
proof (induction ts arbitrary: hc)
  case (Cons t ts)
  show ?case
    using Cons.IH [of hc] Cons.IH [of True] by (auto split: prod.splits option.splits)
qed simp

text \<open>Freeing a task that is not in use by the scheduler and has no children keeps the invariants.\<close>

lemma free_inv:
  assumes inv: "proc_inv s" and t: "state_of s t = TASK_ZOMBIE \<or> state_of s t = TASK_ALLOCATED"
    and idle: "t \<noteq> idle_task s"
  obtains eff s' where "task_free t s = Some (eff, s')" "proc_inv s'" "state_of s' t = TASK_UNUSED"
    "\<And>u. u \<noteq> t \<Longrightarrow> tasks s' u = tasks s u" "sems s' = sems s" "current_task s' = current_task s"
    "t_kstack_ptr (tasks s t) \<noteq> 0 \<Longrightarrow> FreePage (t_kstack_ptr (tasks s t)) \<in> set eff"
proof -
  obtain eff s' where e: "task_free t s = Some (eff, s')"
    using t by (cases "task_free t s") (auto simp: task_free_def Let_def)
  have s': "tasks s' = (tasks s)(t := tasks s' t)" "state_of s' t = TASK_UNUSED"
      "t_parent (tasks s' t) = None" "rqueue s' = rqueue s" "current_task s' = current_task s"
      "idle_task s' = idle_task s" "init_proc s' = init_proc s" "cr3_vm s' = cr3_vm s" "sems s' = sems s"
    and fp: "t_kstack_ptr (tasks s t) \<noteq> 0 \<Longrightarrow> FreePage (t_kstack_ptr (tasks s t)) \<in> set eff"
    using e t by (auto simp: task_free_def Let_def)
  have other: "u \<noteq> t \<Longrightarrow> tasks s' u = tasks s u" for u
    using s'(1) by (metis fun_upd_other)
  have cur: "current_task s \<noteq> t"
    using task_inv_current [of s] inv t by (auto simp: proc_inv_def)
  have ok: "task_ok (idle_task s) u (tasks s' u)" for u
    using inv other [of u] s'(2)
    by (cases "u = t") (auto simp: proc_inv_def task_inv_def task_wf_def task_ok_def)
  have st: "state_of s' u = (if u = t then TASK_UNUSED else state_of s u)" for u
    using other s'(2) by simp
  have par: "t_parent (tasks s' u) = (if u = t then None else t_parent (tasks s u))" for u
    using other s'(3) by simp
  have wf: "task_wf s" and run: "\<And>u. state_of s u = TASK_RUNNING \<longleftrightarrow> u = current_task s"
    using inv by (auto simp: proc_inv_def task_inv_def)
  have "task_wf s'"
    unfolding task_wf_def s'(4-9)
  proof (intro conjI allI)
    fix u
    have "u \<in> set (rqueue s) \<longleftrightarrow> state_of s u = TASK_READY"
      using wf by (simp add: task_wf_def)
    then show "u \<in> set (rqueue s) \<longleftrightarrow> state_of s' u = TASK_READY"
      using t unfolding st by auto
    show "task_ok (idle_task s) u (tasks s' u)"
      by (rule ok)
    show "cr3_vm s = t_vm (tasks s' (current_task s))"
      using wf other [OF cur] by (simp add: task_wf_def)
    show "state_of s' (idle_task s) \<noteq> TASK_UNUSED"
      using wf idle unfolding st by (simp add: task_wf_def)
  qed (use wf [unfolded task_wf_def] in \<open>blast+\<close>)
  then have "task_inv s'"
    unfolding task_inv_def st using run t cur by (auto simp: s'(4-9))
  moreover have dead: "u \<noteq> t" if "alive (state_of s u)" for u
    using that t by auto
  moreover have "tree_ok s'"
    using inv dead unfolding proc_inv_def tree_ok_def by (auto simp: st par s'(4-9))
  ultimately show ?thesis
    using that [OF e] s'(2,5,9) other fp by (simp add: proc_inv_def)
qed

lemma exit_release_parent [simp]: "t_parent (tasks (snd (exit_release c s)) t) = t_parent (tasks s t)"
  by (simp add: exit_release_def Let_def)

text \<open>What one pass of \<open>task_wait\<close> may do.\<close>

definition wait_outcome :: "kstate \<Rightarrow> wait_result \<Rightarrow> kstate \<Rightarrow> bool" where
  "wait_outcome s r s' = (case r of
     Reaped pid st \<Rightarrow> \<exists>t. t_parent (tasks s t) = Some (current_task s) \<and> state_of s t = TASK_ZOMBIE
        \<and> pid = t_pid (tasks s t) \<and> st = t_exit_status (tasks s t)
        \<and> state_of s' t = TASK_UNUSED \<and> (\<forall>u. u \<noteq> t \<longrightarrow> tasks s' u = tasks s u)
        \<and> current_task s' = current_task s
   | NoChildren \<Rightarrow> s' = s \<and> (\<forall>t. t_parent (tasks s t) \<noteq> Some (current_task s))
   | Sleeping \<Rightarrow> state_of s' (current_task s) = TASK_WAITING
        \<and> (\<exists>t. t_parent (tasks s t) = Some (current_task s))
        \<and> (\<forall>t. t_parent (tasks s t) = Some (current_task s) \<longrightarrow> state_of s t \<noteq> TASK_ZOMBIE))"

context scheduler
begin

lemma wakeup_ok:
  assumes wf: "task_wf s" and st: "state_of s t \<notin> {TASK_UNUSED, TASK_READY, TASK_RUNNING}"
    and t: "t \<noteq> idle_task s" and prio: "0 < t_priority (tasks s t)"
  obtains s' where "task_wakeup sch t s = Some s'"
    "erase_sched s' = erase_sched (set_state t TASK_READY s)" "task_wf s'"
proof -
  have "t \<notin> set (rqueue s)"
    using wf st by (simp add: task_wf_def)
  then obtain s' where s': "enqueue sch t (set_state t TASK_READY s) = Some s'"
      "erase_sched s' = erase_sched (set_state t TASK_READY s)"
      "set (rqueue s') = insert t (set (rqueue s))" "distinct (rqueue s')"
    using enqueue_law [of t "set_state t TASK_READY s"] t wf by (auto simp: task_wf_def)
  note eqs = erase_sched_eqs [OF s'(2)]
  have "task_wf s'"
    unfolding task_wf_def
  proof (intro conjI allI)
    fix u
    show "u \<in> set (rqueue s') \<longleftrightarrow> state_of s' u = TASK_READY"
      using wf by (simp add: s'(3) eqs task_wf_def)
    have "task_ok (idle_task s) u (tasks s u)"
      using wf by (simp add: task_wf_def)
    then show "task_ok (idle_task s') u (tasks s' u)"
      using st prio by (auto simp: eqs task_ok_def)
  qed (use wf s' t in \<open>auto simp: eqs task_wf_def\<close>)
  moreover have "task_wakeup sch t s = Some s'"
    using st s'(1) by (simp add: task_wakeup_def sched_enqueue_def)
  ultimately show ?thesis
    using that s'(2) by blast
qed

lemma wakeup_inv:
  assumes inv: "proc_inv s" and st: "state_of s t \<notin> {TASK_UNUSED, TASK_READY, TASK_RUNNING, TASK_ZOMBIE}"
    and t: "t \<noteq> idle_task s" and prio: "0 < t_priority (tasks s t)"
  shows "\<exists>s'. task_wakeup sch t s = Some s' \<and> proc_inv s' \<and> state_of s' t = TASK_READY
    \<and> (\<forall>u. u \<noteq> t \<longrightarrow> state_of s' u = state_of s u) \<and> current_task s' = current_task s
    \<and> sems s' = sems s \<and> idle_task s' = idle_task s"
proof -
  have wf: "task_wf s" and run: "\<And>u. state_of s u = TASK_RUNNING \<longleftrightarrow> u = current_task s"
    and tree: "tree_ok s"
    using inv by (auto simp: proc_inv_def task_inv_def)
  obtain s' where s': "task_wakeup sch t s = Some s'"
      "erase_sched s' = erase_sched (set_state t TASK_READY s)" "task_wf s'"
    using wakeup_ok [OF wf _ t prio] st by blast
  note eqs = erase_sched_eqs [OF s'(2)]
  have "tree_ok s'"
    by (rule tree_ok_mono [OF tree]) (simp_all add: eqs)
  moreover have "task_inv s'"
    using s'(3) run st by (auto simp: task_inv_def eqs)
  ultimately show ?thesis
    using s' by (auto simp: proc_inv_def eqs)
qed

text \<open>Any call of \<open>schedule\<close> after the current task has left \<open>TASK_RUNNING\<close>.\<close>

lemma schedule_proc_inv:
  assumes pre: "sched_pre s" and tree: "tree_ok s"
  shows "\<exists>s'. schedule sch s = Some s' \<and> proc_inv s' \<and> sems s' = sems s \<and> idle_task s' = idle_task s
    \<and> init_proc s' = init_proc s
    \<and> (\<forall>t. task_id (tasks s' t) = task_id (tasks s t))
    \<and> (\<forall>t. t \<noteq> idle_task s \<longrightarrow> state_of s t \<notin> {TASK_READY, TASK_RUNNING} \<longrightarrow> state_of s' t = state_of s t)
    \<and> (\<forall>t. t \<noteq> idle_task s \<longrightarrow> state_of s t \<in> {TASK_READY, TASK_RUNNING} \<longrightarrow>
           state_of s' t \<in> {TASK_READY, TASK_RUNNING})"
proof -
  obtain s' where s': "schedule sch s = Some s'" "task_inv s'" "sems s' = sems s"
      "idle_task s' = idle_task s" "init_proc s' = init_proc s"
    and ids: "\<forall>t. task_id (tasks s' t) = task_id (tasks s t)"
    and range: "\<forall>t. state_of s' t = state_of s t \<or> state_of s' t \<in> {TASK_READY, TASK_RUNNING, TASK_BLOCKED}"
    and kept: "\<forall>t. t \<noteq> idle_task s \<longrightarrow> state_of s t \<notin> {TASK_READY, TASK_RUNNING} \<longrightarrow> state_of s' t = state_of s t"
    and going: "\<forall>t. t \<noteq> idle_task s \<longrightarrow> state_of s t \<in> {TASK_READY, TASK_RUNNING} \<longrightarrow>
           state_of s' t \<in> {TASK_READY, TASK_RUNNING}"
    using schedule_ok [OF pre] by (elim exE conjE) metis
  have par: "t_parent (tasks s' t) = t_parent (tasks s t)" for t
    using ids task_id_eqs(8) by blast
  have al: "alive (state_of s t) \<Longrightarrow> alive (state_of s' t)" for t
    using range [rule_format, of t] by (elim disjE) auto
  have "tree_ok s'"
    by (rule tree_ok_mono [OF tree par al s'(4,5)])
  then show ?thesis
    using s' ids kept going unfolding proc_inv_def by blast
qed

lemma block_inv:
  assumes inv: "proc_inv s"
  shows "\<exists>s'. task_block sch s = Some s' \<and> proc_inv s' \<and> sems s' = sems s
    \<and> (\<forall>t. task_id (tasks s' t) = task_id (tasks s t)) \<and> idle_task s' = idle_task s
    \<and> (\<forall>t. t \<noteq> idle_task s \<longrightarrow> state_of s t \<notin> {TASK_READY, TASK_RUNNING} \<longrightarrow> state_of s' t = state_of s t)
    \<and> (current_task s \<noteq> idle_task s \<longrightarrow> state_of s' (current_task s) = TASK_BLOCKED)"
proof -
  let ?s = "set_state (current_task s) TASK_BLOCKED s"
  have inv': "task_inv s" and tree: "tree_ok s" and c: "state_of s (current_task s) = TASK_RUNNING"
    using inv by (auto simp: proc_inv_def task_inv_def)
  have pre: "sched_pre ?s"
    unfolding set_state_def by (rule sched_pre_leave [OF inv' refl, of TASK_BLOCKED]) simp_all
  have tr: "tree_ok ?s"
    by (rule tree_ok_mono [OF tree]) simp_all
  show ?thesis
    using schedule_proc_inv [OF pre tr] c unfolding task_block_def
    by (elim exE conjE) (intro exI conjI, assumption, auto)
qed

text \<open>The first half of \<open>task_exit\<close>: files and directory released, a waiting parent woken.\<close>

lemma exit_wake:
  assumes inv: "proc_inv s" and p: "t_parent (tasks s (current_task s)) = Some p"
  obtains s2 where "(if state_of (snd (exit_release (current_task s) s)) p = TASK_WAITING
        then task_wakeup sch p (snd (exit_release (current_task s) s))
        else Some (snd (exit_release (current_task s) s))) = Some s2"
    "proc_inv s2" "current_task s2 = current_task s" "sems s2 = sems s" "idle_task s2 = idle_task s"
    "init_proc s2 = init_proc s" "state_of s2 p \<noteq> TASK_WAITING"
    "\<And>t. t_parent (tasks s2 t) = t_parent (tasks s t)"
    "\<And>t. t \<noteq> p \<Longrightarrow> state_of s2 t = state_of s t"
proof -
  let ?s1 = "snd (exit_release (current_task s) s)"
  have wf: "task_wf s" and tree: "tree_ok s"
    using inv by (auto simp: proc_inv_def task_inv_def)
  have sel1: "state_of ?s1 t = state_of s t" "t_priority (tasks ?s1 t) = t_priority (tasks s t)"
      "t_vm (tasks ?s1 t) = t_vm (tasks s t)" "t_parent (tasks ?s1 t) = t_parent (tasks s t)"
      "rqueue ?s1 = rqueue s" "idle_task ?s1 = idle_task s" "current_task ?s1 = current_task s"
      "cr3_vm ?s1 = cr3_vm s" "init_proc ?s1 = init_proc s" "sems ?s1 = sems s" for t
    by (simp_all add: exit_release_def Let_def)
  have inv1: "proc_inv ?s1"
    using inv task_wf_cong [of ?s1 s, OF sel1(1-3) sel1(5-8)]
    by (simp add: proc_inv_def task_inv_def tree_ok_def sel1)
  have p_alive: "alive (state_of s p)" and p_idle: "p \<noteq> idle_task s"
    using tree p by (auto simp: tree_ok_def)
  show thesis
  proof (cases "state_of ?s1 p = TASK_WAITING")
    case True
    have wf1: "task_wf ?s1"
      using inv1 by (simp add: proc_inv_def task_inv_def)
    have prio: "0 < t_priority (tasks ?s1 p)"
      using wf p_alive by (auto simp: task_wf_def task_ok_def sel1 alive_def)
    obtain s2 where s2: "task_wakeup sch p ?s1 = Some s2"
        and er: "erase_sched s2 = erase_sched (set_state p TASK_READY ?s1)"
      using wakeup_ok [OF wf1, of p] True prio p_idle by (auto simp: sel1)
    note eqs = erase_sched_eqs [OF er]
    have "proc_inv s2"
      using wakeup_inv [OF inv1, of p] True prio p_idle s2 by (auto simp: sel1)
    then show ?thesis
      using that [of s2] s2 True by (simp add: eqs sel1)
  next
    case False
    then show ?thesis
      using that [of ?s1] inv1 by (simp add: sel1)
  qed
qed

lemma exit_inv:
  assumes inv: "proc_inv s" and c: "current_task s \<noteq> idle_task s" "init_proc s \<noteq> Some (current_task s)"
    and p: "t_parent (tasks s (current_task s)) = Some p" "p \<noteq> current_task s"
    and nz: "\<And>t. t_parent (tasks s t) = Some (current_task s) \<Longrightarrow> state_of s t \<noteq> TASK_ZOMBIE"
  shows "\<exists>s'. task_exit sch status s = Some (fst (exit_release (current_task s) s), s') \<and> proc_inv s'
    \<and> state_of s' (current_task s) = TASK_ZOMBIE
    \<and> t_exit_status (tasks s' (current_task s)) = status
    \<and> t_parent (tasks s' (current_task s)) = Some p
    \<and> (\<forall>t. t_parent (tasks s' t) \<noteq> Some (current_task s))
    \<and> (\<forall>t. t_parent (tasks s t) = Some (current_task s) \<longrightarrow> t_parent (tasks s' t) = init_proc s)
    \<and> state_of s' p \<noteq> TASK_WAITING \<and> sems s' = sems s"
proof -
  let ?c = "current_task s"
  let ?st = "\<lambda>k. k\<lparr>t_state := TASK_ZOMBIE, t_exit_status := status\<rparr>"
  have tree: "tree_ok s"
    using inv by (simp add: proc_inv_def)
  have p_idle: "p \<noteq> idle_task s"
    using tree p by (auto simp: tree_ok_def)
  obtain s2 where s2: "(if state_of (snd (exit_release ?c s)) p = TASK_WAITING
        then task_wakeup sch p (snd (exit_release ?c s)) else Some (snd (exit_release ?c s))) = Some s2"
      "proc_inv s2" "current_task s2 = ?c" "sems s2 = sems s" "idle_task s2 = idle_task s"
      "init_proc s2 = init_proc s" "state_of s2 p \<noteq> TASK_WAITING"
    and par2: "\<And>t. t_parent (tasks s2 t) = t_parent (tasks s t)"
    and z2: "\<And>t. t \<noteq> p \<Longrightarrow> state_of s2 t = state_of s t"
    using exit_wake [OF inv p(1)] by metis
  have inv2: "task_inv s2" and tree2: "tree_ok s2"
    using s2(2) by (simp_all add: proc_inv_def)
  have p2: "alive (state_of s2 p)"
    using tree2 p(1) by (auto simp: tree_ok_def par2)
  have nz2: "t_parent (tasks s2 t) = Some ?c \<Longrightarrow> state_of s2 t \<noteq> TASK_ZOMBIE" for t
    using nz [of t] z2 [of t] p2 by (cases "t = p") (auto simp: par2)
  let ?s3 = "reparented ?c [0..<NTASK] s2"
  have s3: "exit_reparent sch ?c [0..<NTASK] s2 = Some ?s3"
    using c(2) nz2 by (intro exit_reparent_ok) (auto simp: s2)
  have inv3: "task_inv ?s3"
    using inv2 task_wf_cong [of ?s3 s2] by (simp add: task_inv_def)
  have par3: "t_parent (tasks ?s3 t) = (if t_parent (tasks s t) = Some ?c then init_proc s else t_parent (tasks s t))" for t
    using tree by (auto simp: par2 s2(6) tree_ok_def)
  have pre: "sched_pre (upd_task ?c ?st ?s3)"
    by (rule sched_pre_leave [OF inv3, of _ TASK_ZOMBIE]) (simp_all add: s2)
  have tr: "tree_ok (upd_task ?c ?st ?s3)"
    using tree2 c(2) unfolding tree_ok_def by (auto simp: par2 s2(5,6))
  obtain s4 where s4: "schedule sch (upd_task ?c ?st ?s3) = Some s4" "proc_inv s4" "sems s4 = sems s"
    and ids: "\<forall>t. task_id (tasks s4 t) = task_id (tasks (upd_task ?c ?st ?s3) t)"
    and kept: "\<forall>t. t \<noteq> idle_task s \<longrightarrow> state_of (upd_task ?c ?st ?s3) t \<notin> {TASK_READY, TASK_RUNNING}
       \<longrightarrow> state_of s4 t = state_of (upd_task ?c ?st ?s3) t"
    and going: "\<forall>t. t \<noteq> idle_task s \<longrightarrow> state_of (upd_task ?c ?st ?s3) t \<in> {TASK_READY, TASK_RUNNING}
       \<longrightarrow> state_of s4 t \<in> {TASK_READY, TASK_RUNNING}"
    using schedule_proc_inv [OF pre tr] s2 by auto
  have par4: "t_parent (tasks s4 t) = (if t_parent (tasks s t) = Some ?c then init_proc s else t_parent (tasks s t))" for t
    using ids [rule_format, of t, THEN task_id_eqs(8)] par3 [of t] by (cases "t = ?c") simp_all
  have "task_exit sch status s = Some (fst (exit_release ?c s), s4)"
    using s2(1) s3 s4(1) c p by (simp add: task_exit_def exit_release_parent case_prod_beta Let_def)
  moreover have "state_of s4 ?c = TASK_ZOMBIE"
    using kept c(1) by simp
  moreover have "t_exit_status (tasks s4 ?c) = status"
    using ids [rule_format, of ?c, THEN task_id_eqs(10)] by simp
  moreover have "state_of s4 p \<noteq> TASK_WAITING"
    using kept [rule_format, of p] going [rule_format, of p] p p_idle s2(7) by (cases "state_of s2 p") auto
  ultimately show ?thesis
    using s4 par4 c(2) p by auto
qed

lemma wait_pass_inv:
  assumes inv: "proc_inv s" and c: "current_task s \<noteq> idle_task s"
  shows "\<exists>r eff s'. task_wait_pass sch s = Some (r, eff, s') \<and> proc_inv s' \<and> sems s' = sems s
    \<and> wait_outcome s r s'"
proof -
  let ?c = "current_task s"
  have tree: "tree_ok s" and inv': "task_inv s"
    using inv by (simp_all add: proc_inv_def)
  have small: "t_parent (tasks s t) = Some p \<Longrightarrow> t \<in> set [0..<NTASK]" for t p
    using tree by (auto simp: tree_ok_def)
  note spec = wait_scan_spec [where s = s and cur = ?c and ts = "[0..<NTASK]" and hc = False]
  consider (z) t hc where "wait_scan s ?c [0..<NTASK] False = (Some t, hc)"
    | (n) "wait_scan s ?c [0..<NTASK] False = (None, False)"
    | (w) "wait_scan s ?c [0..<NTASK] False = (None, True)"
    by (metis (full_types) old.prod.exhaust option.exhaust)
  then show ?thesis
  proof cases
    case (z t hc)
    then have t: "t_parent (tasks s t) = Some ?c" "state_of s t = TASK_ZOMBIE"
      using spec by auto
    then have "t \<noteq> idle_task s"
      using tree by (auto simp: tree_ok_def)
    then obtain eff s' where "task_free t s = Some (eff, s')" "proc_inv s'" "state_of s' t = TASK_UNUSED"
        "\<And>u. u \<noteq> t \<Longrightarrow> tasks s' u = tasks s u" "sems s' = sems s" "current_task s' = ?c"
      using free_inv [OF inv, of t] t by metis
    then show ?thesis
      using z t by (auto simp: task_wait_pass_def wait_outcome_def Let_def)
  next
    case n
    then have "t_parent (tasks s t) \<noteq> Some ?c" for t
      using spec small [of t ?c] by auto
    then show ?thesis
      using n inv by (simp add: task_wait_pass_def wait_outcome_def Let_def)
  next
    case w
    let ?s = "set_state ?c TASK_WAITING s"
    have pre: "sched_pre ?s"
      unfolding set_state_def by (rule sched_pre_leave [OF inv' refl, of TASK_WAITING]) simp_all
    have tr: "tree_ok ?s"
      by (rule tree_ok_mono [OF tree]) simp_all
    obtain s' where s': "schedule sch ?s = Some s'" "proc_inv s'" "sems s' = sems s"
        "state_of s' ?c = TASK_WAITING"
      using schedule_proc_inv [OF pre tr] c by auto
    have "\<exists>t. t_parent (tasks s t) = Some ?c"
        "\<forall>t. t_parent (tasks s t) = Some ?c \<longrightarrow> state_of s t \<noteq> TASK_ZOMBIE"
      using spec w small by auto
    then show ?thesis
      using s' w by (simp add: task_wait_pass_def wait_outcome_def Let_def)
  qed
qed

lemma kill_inv:
  assumes inv: "proc_inv s" and idle: "t \<noteq> idle_task s"
    and found: "find (\<lambda>t. t_pid (tasks s t) = pid) [0..<NTASK] = Some t"
  shows "\<exists>s'. task_kill sch pid s = Some (0, s') \<and> proc_inv s' \<and> t_killed (tasks s' t)
    \<and> state_of s' t = (if state_of s t \<in> {TASK_BLOCKED, TASK_WAITING} then TASK_READY else state_of s t)
    \<and> (\<forall>u. u \<noteq> t \<longrightarrow> state_of s' u = state_of s u \<and> t_killed (tasks s' u) = t_killed (tasks s u))"
proof -
  let ?s1 = "upd_task t (\<lambda>k. k\<lparr>t_killed := True\<rparr>) s"
  have pid: "t_pid (tasks s t) = pid" "t \<noteq> idle_task s"
    using found idle by (auto simp: find_Some_iff)
  have wf1: "task_wf ?s1 = task_wf s"
    by (rule task_wf_cong) simp_all
  have inv1: "proc_inv ?s1"
    using inv wf1 by (auto simp: proc_inv_def task_inv_def tree_ok_def)
  show ?thesis
  proof (cases "state_of s t \<in> {TASK_BLOCKED, TASK_WAITING}")
    case False
    then show ?thesis
      using found inv1 by (simp add: task_kill_def Let_def)
  next
    case True
    then have prio: "0 < t_priority (tasks ?s1 t)"
      using inv by (auto simp: proc_inv_def task_inv_def task_wf_def task_ok_def)
    have wf1': "task_wf ?s1" and st1: "state_of ?s1 t \<notin> {TASK_UNUSED, TASK_READY, TASK_RUNNING}"
      and id1: "t \<noteq> idle_task ?s1"
      using inv1 True pid by (auto simp: proc_inv_def task_inv_def)
    obtain s2 where s2: "task_wakeup sch t ?s1 = Some s2"
      and er: "erase_sched s2 = erase_sched (set_state t TASK_READY ?s1)"
      by (rule wakeup_ok [OF wf1' st1 id1 prio])
    have "proc_inv s2"
      using wakeup_inv [OF inv1, of t] True prio pid(2) s2 by auto
    then show ?thesis
      using found True s2 by (auto simp: task_kill_def Let_def erase_sched_eqs [OF er])
  qed
qed

text \<open>
  The loop calls \<open>task_wakeup(init_proc)\<close> once for every zombie child, and the second call finds
  \<open>init_proc\<close> already \<open>TASK_READY\<close>.
\<close>

lemma reparent_panics_ready:
  assumes "init_proc s = Some ip" "state_of s ip = TASK_READY" "z \<in> set ts"
    "t_parent (tasks s z) = Some c" "state_of s z = TASK_ZOMBIE"
  shows "exit_reparent sch c ts s = None"
  using assms
proof (induction ts arbitrary: s)
  case (Cons t ts)
  show ?case
  proof (cases "t_parent (tasks s t) = Some c \<and> state_of s t = TASK_ZOMBIE")
    case True
    then have "ip \<noteq> t"
      using Cons.prems(2) by auto
    then show ?thesis
      using True Cons.prems by (simp add: task_wakeup_def Let_def)
  next
    case False
    then have "z \<noteq> t" "z \<in> set ts"
      using Cons.prems by auto
    moreover from this have "exit_reparent sch c ts s' = None"
      if "s' = s \<or> s' = upd_task t (\<lambda>k. k\<lparr>t_parent := init_proc s\<rparr>) s" for s'
      using that Cons.prems by (intro Cons.IH) auto
    ultimately show ?thesis
      using False by (auto simp: Let_def)
  qed
qed simp

lemma reparent_panics_two:
  assumes "init_proc s = Some ip" "state_of s ip \<noteq> TASK_ZOMBIE" "ip \<notin> set (rqueue s)" "ip \<noteq> idle_task s"
    and "z1 \<in> set ts" "z2 \<in> set ts" "z1 \<noteq> z2"
    and "\<And>z. z \<in> {z1, z2} \<Longrightarrow> t_parent (tasks s z) = Some c \<and> state_of s z = TASK_ZOMBIE"
  shows "exit_reparent sch c ts s = None"
  using assms
proof (induction ts arbitrary: s)
  case (Cons t ts)
  consider "t_parent (tasks s t) \<noteq> Some c"
    | "t_parent (tasks s t) = Some c" "state_of s t \<noteq> TASK_ZOMBIE"
    | "t_parent (tasks s t) = Some c" "state_of s t = TASK_ZOMBIE"
    by blast
  then show ?case
  proof cases
    case 1
    then have "z1 \<noteq> t" "z2 \<noteq> t"
      using Cons.prems(8) by auto
    then show ?thesis
      using 1 Cons.prems Cons.IH [of s] by auto
  next
    case 2
    let ?s = "upd_task t (\<lambda>k. k\<lparr>t_parent := init_proc s\<rparr>) s"
    have "z1 \<noteq> t" "z2 \<noteq> t"
      using 2 Cons.prems(8) by auto
    then have "exit_reparent sch c ts ?s = None"
      using Cons.prems by (intro Cons.IH) auto
    then show ?thesis
      using 2 by (simp add: Let_def)
  next
    case 3
    let ?s = "upd_task t (\<lambda>k. k\<lparr>t_parent := init_proc s\<rparr>) s"
    obtain z where z: "z \<in> {z1, z2}" "z \<noteq> t"
      using Cons.prems(7) by blast
    have z': "z \<in> set ts" "t_parent (tasks s z) = Some c" "state_of s z = TASK_ZOMBIE"
      using z Cons.prems(5,6,8) by auto
    show ?thesis
    proof (cases "task_wakeup sch ip ?s")
      case None
      then show ?thesis
        using 3 Cons.prems(1) by (simp add: Let_def)
    next
      case (Some s2)
      have q: "ip \<notin> set (rqueue (set_state ip TASK_READY ?s))" "ip \<noteq> idle_task (set_state ip TASK_READY ?s)"
        using Cons.prems by simp_all
      have er: "erase_sched s2 = erase_sched (set_state ip TASK_READY ?s)"
        using Some enqueue_law [OF q]
        by (auto simp: task_wakeup_def sched_enqueue_def split: if_splits)
      have "z \<noteq> ip"
        using z' Cons.prems(2) by auto
      then have "exit_reparent sch c ts s2 = None"
        using z z' Cons.prems(1)
        by (intro reparent_panics_ready [of _ ip z]) (simp_all add: erase_sched_eqs [OF er])
      then show ?thesis
        using 3 Some Cons.prems(1) by (simp add: Let_def)
    qed
  qed
qed simp

lemma exit_panics:
  assumes inv: "proc_inv s" and ip: "init_proc s = Some ip" "ip \<noteq> current_task s"
    and z: "z1 \<noteq> z2" "\<And>z. z \<in> {z1, z2} \<Longrightarrow>
      t_parent (tasks s z) = Some (current_task s) \<and> state_of s z = TASK_ZOMBIE"
  shows "task_exit sch status s = None"
proof (cases "t_parent (tasks s (current_task s))")
  case None
  then show ?thesis
    by (simp add: task_exit_def Let_def)
next
  case (Some p)
  let ?c = "current_task s"
  obtain s2 where s2: "(if state_of (snd (exit_release ?c s)) p = TASK_WAITING
        then task_wakeup sch p (snd (exit_release ?c s)) else Some (snd (exit_release ?c s))) = Some s2"
      "proc_inv s2" "idle_task s2 = idle_task s" "init_proc s2 = init_proc s"
    and par2: "\<And>t. t_parent (tasks s2 t) = t_parent (tasks s t)"
    and st2: "\<And>t. t \<noteq> p \<Longrightarrow> state_of s2 t = state_of s t"
    using exit_wake [OF inv Some] by metis
  have tree: "tree_ok s" and tree2: "tree_ok s2" and wf2: "task_wf s2"
    using inv s2(2) by (simp_all add: proc_inv_def task_inv_def)
  have "\<not> alive (state_of s z)" if "z \<in> {z1, z2}" for z
    using z(2) [OF that] by simp
  then have zs: "t_parent (tasks s2 z) = Some ?c \<and> state_of s2 z = TASK_ZOMBIE \<and> z \<in> set [0..<NTASK]"
    if "z \<in> {z1, z2}" for z
    using z(2) [OF that] st2 [of z] tree Some that by (auto simp: par2 tree_ok_def)
  have "exit_reparent sch ?c [0..<NTASK] s2 = None"
  proof (cases "state_of s2 ip = TASK_READY")
    case True
    then show ?thesis
      using reparent_panics_ready [of s2 ip z1] zs [of z1] ip s2 by simp
  next
    case False
    have "alive (state_of s2 ip)" "ip \<noteq> idle_task s2" "ip \<notin> set (rqueue s2)"
      using tree2 wf2 ip s2(4) False by (auto simp: tree_ok_def task_wf_def)
    then show ?thesis
      using reparent_panics_two [of s2 ip z1 "[0..<NTASK]" z2] zs z(1) ip s2(4) by (auto simp: alive_def)
  qed
  then show ?thesis
    using s2(1) Some ip by (simp add: task_exit_def exit_release_parent case_prod_beta Let_def)
qed

lemma fork_inv:
  assumes inv: "proc_inv s" and user: "IS_USER_PROC (tasks s (current_task s))"
    and c: "current_task s \<noteq> idle_task s" and cwd: "t_cwd (tasks s (current_task s)) = Some d"
    and len: "length (t_ofiles (tasks s (current_task s))) = NOFILE"
    and ch: "find (\<lambda>i. state_of s i = TASK_UNUSED) [0..<NTASK] = Some child"
    and page: "page \<noteq> 0" and vm: "v \<noteq> 0"
  shows "\<exists>eff s'. proc_fork sch te pe page (Some v) s = Some (next_pid s, eff, s')
    \<and> proc_inv s' \<and> state_of s' child = TASK_READY \<and> t_pid (tasks s' child) = next_pid s
    \<and> t_parent (tasks s' child) = Some (current_task s) \<and> t_vm (tasks s' child) = Some v
    \<and> t_name (tasks s' child) = t_name (tasks s (current_task s))
    \<and> t_ofiles (tasks s' child) = t_ofiles (tasks s (current_task s))
    \<and> t_cwd (tasks s' child) = Some d
    \<and> eff = map FileDup (map the (filter (\<lambda>f. f \<noteq> None) (t_ofiles (tasks s (current_task s))))) @ [InodeDup d]
    \<and> tf_mem s' (t_tf (tasks s' child)) = (tf_mem s (t_tf (tasks s (current_task s))))\<lparr>tf_eax := 0\<rparr>
    \<and> current_task s' = current_task s \<and> next_pid s' = next_pid s + 1
    \<and> (\<forall>t. t \<noteq> child \<longrightarrow> state_of s' t = state_of s t \<and> task_id (tasks s' t) = task_id (tasks s t))"
proof -
  let ?c = "current_task s"
  let ?esp = "page + NPAGE_KSTACK * PG_SIZE - SIZEOF_TRAP_FRAME"
  have cs: "state_of s child = TASK_UNUSED" "child < NTASK"
    using ch by (auto simp: find_Some_iff)
  have wf: "task_wf s" and tree: "tree_ok s" and run: "\<And>t. state_of s t = TASK_RUNNING \<longleftrightarrow> t = ?c"
    using inv by (auto simp: proc_inv_def task_inv_def)
  have cc: "child \<noteq> ?c" "child \<noteq> idle_task s"
    using cs(1) run [of ?c] wf by (auto simp: task_wf_def)
  have prio: "0 < t_priority (tasks s ?c)"
    using wf run [of ?c] by (auto simp: task_wf_def task_ok_def)
  obtain s4 where s4: "proc_fork sch te pe page (Some v) s = (do {
        s5 \<leftarrow> task_wakeup sch child s4;
        Some (t_pid (tasks s5 child), map FileDup (map the (filter (\<lambda>f. f \<noteq> None) (t_ofiles (tasks s ?c))))
              @ [InodeDup d], s5)})"
    and sel4: "rqueue s4 = rqueue s" "current_task s4 = ?c" "idle_task s4 = idle_task s"
      "init_proc s4 = init_proc s" "cr3_vm s4 = cr3_vm s" "next_pid s4 = next_pid s + 1"
      "tf_mem s4 ?esp = (tf_mem s (t_tf (tasks s ?c)))\<lparr>tf_eax := 0\<rparr>"
      "state_of s4 child = TASK_ALLOCATED" "t_priority (tasks s4 child) = t_priority (tasks s ?c)"
      "t_pid (tasks s4 child) = next_pid s" "t_parent (tasks s4 child) = Some ?c"
      "t_vm (tasks s4 child) = Some v" "t_name (tasks s4 child) = t_name (tasks s ?c)"
      "t_ofiles (tasks s4 child) = map2 (\<lambda>p c. if p \<noteq> None then p else c) (t_ofiles (tasks s ?c)) (replicate NOFILE None)"
      "t_cwd (tasks s4 child) = Some d" "t_tf (tasks s4 child) = ?esp"
    and other: "\<And>t. t \<noteq> child \<Longrightarrow> tasks s4 t = tasks s t"
    using cs cc user cwd page ch
    by (simp add: proc_fork_def kthread_create_def task_alloc_def init_task_struct_def
        init_task_stack_def Let_def)
  have st4: "state_of s4 t = (if t = child then TASK_ALLOCATED else state_of s t)" for t
    using other sel4(8) by simp
  have par4: "t_parent (tasks s4 t) = (if t = child then Some ?c else t_parent (tasks s t))" for t
    using other sel4(11) by simp
  have ok4: "task_ok (idle_task s) t (tasks s4 t)" for t
    using wf other [of t] cs cc sel4(8) by (cases "t = child") (auto simp: task_wf_def task_ok_def)
  have wf4: "task_wf s4"
    unfolding task_wf_def sel4(1-5)
  proof (intro conjI allI)
    fix t
    have "t \<in> set (rqueue s) \<longleftrightarrow> state_of s t = TASK_READY"
      using wf by (simp add: task_wf_def)
    then show "t \<in> set (rqueue s) \<longleftrightarrow> state_of s4 t = TASK_READY"
      using cs(1) unfolding st4 by auto
    show "task_ok (idle_task s) t (tasks s4 t)"
      by (rule ok4)
    show "state_of s4 (idle_task s) \<noteq> TASK_UNUSED"
      using wf unfolding st4 by (simp add: task_wf_def)
    show "cr3_vm s = t_vm (tasks s4 ?c)"
      using wf other [of ?c] cc(1) by (simp add: task_wf_def)
  qed (use wf [unfolded task_wf_def] in \<open>blast+\<close>)
  have "t \<noteq> child" if "alive (state_of s t)" for t
    using that cs(1) by auto
  then have tree4: "tree_ok s4"
    using tree cs(2) c cc run [of ?c] unfolding tree_ok_def par4 st4 sel4(1-5) by auto
  have inv4: "proc_inv s4"
    using wf4 tree4 run cs(1) cc(1) unfolding proc_inv_def task_inv_def st4 sel4(1-5) by auto
  have hyps: "state_of s4 child \<notin> {TASK_UNUSED, TASK_READY, TASK_RUNNING}" "child \<noteq> idle_task s4"
      "0 < t_priority (tasks s4 child)"
    using sel4 cc prio by auto
  obtain s5 where s5: "task_wakeup sch child s4 = Some s5"
    and er: "erase_sched s5 = erase_sched (set_state child TASK_READY s4)"
    by (rule wakeup_ok [OF wf4 hyps])
  note eqs = erase_sched_eqs [OF er]
  have ids: "task_id (tasks s5 t) = task_id (tasks s4 t)" for t
    using erase_sched_task_id [OF er, of t] by (cases "t = child") simp_all
  have "proc_inv s5"
    using wakeup_inv [OF inv4, of child] hyps sel4(8) s5 by auto
  moreover have "t_ofiles (tasks s4 child) = t_ofiles (tasks s ?c)"
    unfolding sel4(14) using len by (intro nth_equalityI) auto
  ultimately show ?thesis
    using s4 s5 sel4 other by (simp add: eqs task_id_eqs [OF ids] ids)
qed

end

section \<open>Properties\<close>

text \<open>
  Concrete states: task 1 is a running user process whose parent, and \<open>init_proc\<close>, is the ready task
  2; task 3 is its child. In \<open>demo_zombies\<close> its children 4 and 5 have exited with status 7.
\<close>

definition demo_proc :: kstate where
  "demo_proc = (upd_task 1 (\<lambda>k. k\<lparr>t_parent := Some 2, t_vm := Some 5, t_cwd := Some 9\<rparr>)
     (upd_task 3 (\<lambda>k. k\<lparr>t_parent := Some 1, t_pid := 33\<rparr>) demo_kstate))\<lparr>init_proc := Some 2, cr3_vm := Some 5\<rparr>"

definition demo_zombies :: kstate where
  "demo_zombies = upd_task 4 (\<lambda>k. k\<lparr>t_parent := Some 1, t_state := TASK_ZOMBIE, t_exit_status := 7, t_pid := 44\<rparr>)
     (upd_task 5 (\<lambda>k. k\<lparr>t_parent := Some 1, t_state := TASK_ZOMBIE, t_exit_status := 7\<rparr>) demo_proc)"

lemma demo_zombies_sel:
  "rqueue demo_zombies = [2, 3]" "idle_task demo_zombies = 0" "current_task demo_zombies = 1"
  "init_proc demo_zombies = Some 2" "cr3_vm demo_zombies = Some 5"
  "t_priority (tasks demo_zombies t) = 10"
  "t_vm (tasks demo_zombies t) = (if t = 1 then Some 5 else Some 0)"
  "state_of demo_zombies t = (if t = 0 then TASK_BLOCKED else if t = 1 then TASK_RUNNING
      else if t = 2 \<or> t = 3 then TASK_READY else if t = 4 \<or> t = 5 then TASK_ZOMBIE else TASK_UNUSED)"
  "t_parent (tasks demo_zombies t) = (if t = 1 then Some 2 else if t \<in> {3, 4, 5} then Some 1 else None)"
  by (simp_all add: demo_zombies_def demo_proc_def demo_kstate_def demo_task_def)

lemma demo_proc_sel:
  "rqueue demo_proc = [2, 3]" "idle_task demo_proc = 0" "current_task demo_proc = 1"
  "init_proc demo_proc = Some 2" "cr3_vm demo_proc = Some 5"
  "t_priority (tasks demo_proc t) = 10"
  "t_vm (tasks demo_proc t) = (if t = 1 then Some 5 else Some 0)"
  "state_of demo_proc t = (if t = 0 then TASK_BLOCKED else if t = 1 then TASK_RUNNING
      else if t = 2 \<or> t = 3 then TASK_READY else TASK_UNUSED)"
  "t_parent (tasks demo_proc t) = (if t = 1 then Some 2 else if t = 3 then Some 1 else None)"
  by (simp_all add: demo_proc_def demo_kstate_def demo_task_def)

lemma demo_proc_inv: "proc_inv demo_proc"
proof -
  have "task_ok 0 t (tasks demo_proc t)" for t
    unfolding task_ok_def demo_proc_sel by (simp add: NTASK_def)
  then show ?thesis
    unfolding proc_inv_def task_inv_def task_wf_def tree_ok_def demo_proc_sel by (simp add: NTASK_def)
qed

lemma demo_zombies_inv: "proc_inv demo_zombies"
proof -
  have "task_ok 0 t (tasks demo_zombies t)" for t
    unfolding task_ok_def demo_zombies_sel by (simp add: NTASK_def)
  then show ?thesis
    unfolding proc_inv_def task_inv_def task_wf_def tree_ok_def demo_zombies_sel by (simp add: NTASK_def)
qed



text \<open>
  \<open>task_exit\<close> panics when the exiting task has two zombie children that it never waited for: the
  reparenting loop wakes \<open>init_proc\<close> once per zombie, and the assertion of the second \<open>task_wakeup\<close>
  fails because \<open>init_proc\<close> is then ready. This holds for both schedulers, in every state that
  satisfies the invariants.
\<close>

theorem task_exit_panics_on_two_zombies:
  assumes "sch \<in> {rr_schedular, lx_schedular}" and "proc_inv s"
    and "init_proc s = Some ip" and "ip \<noteq> current_task s" and "z1 \<noteq> z2"
    and "\<And>z. z \<in> {z1, z2} \<Longrightarrow> t_parent (tasks s z) = Some (current_task s) \<and> state_of s z = TASK_ZOMBIE"
  shows "task_exit sch status s = None"
proof -
  have "task_exit rr_schedular status s = None" "task_exit lx_schedular status s = None"
    by (rule rr.exit_panics [OF assms(2-5)] lx.exit_panics [OF assms(2-5)], rule assms(6), assumption)+
  then show ?thesis
    using assms(1) by auto
qed

theorem task_exit_panics_on_two_zombies_witness: "task_exit lx_schedular 0 demo_zombies = None"
proof (rule task_exit_panics_on_two_zombies [OF _ demo_zombies_inv, of _ 2 4 5])
  show "t_parent (tasks demo_zombies z) = Some (current_task demo_zombies) \<and> state_of demo_zombies z = TASK_ZOMBIE"
    if "z \<in> {4, 5}" for z
    using that unfolding demo_zombies_sel by auto
qed (simp_all add: demo_zombies_sel)

text \<open>
  C16. One pass of \<open>task_wait\<close> never panics, keeps the invariants and does exactly one of three things:
  it frees a zombie child and returns its pid and exit status, leaving every other task alone; it
  returns \<open>-1\<close> without changing anything when the task has no children; or, when it has children and
  none of them is a zombie, it leaves the task \<open>TASK_WAITING\<close>.
\<close>

theorem task_wait_correct:
  assumes "sch \<in> {rr_schedular, lx_schedular}" and "proc_inv s" and "current_task s \<noteq> idle_task s"
  shows "\<exists>r eff s'. task_wait_pass sch s = Some (r, eff, s') \<and> proc_inv s' \<and> wait_outcome s r s'
    \<and> wait_return True r = (case r of Reaped pid st \<Rightarrow> Some (pid, Some st) | NoChildren \<Rightarrow> Some (-1, None)
        | Sleeping \<Rightarrow> None)"
proof -
  have "wait_return True r = (case r of Reaped pid st \<Rightarrow> Some (pid, Some st) | NoChildren \<Rightarrow> Some (-1, None)
      | Sleeping \<Rightarrow> None)" for r
    by (cases r) (simp_all add: wait_return_def)
  then show ?thesis
    using assms(1) rr.wait_pass_inv [OF assms(2,3)] lx.wait_pass_inv [OF assms(2,3)] by blast
qed

theorem task_wait_correct_witness:
  "\<exists>r eff s' t. task_wait_pass rr_schedular demo_zombies = Some (r, eff, s') \<and> t \<in> {4, 5}
     \<and> wait_return True r = Some (t_pid (tasks demo_zombies t), Some 7) \<and> state_of s' t = TASK_UNUSED"
proof -
  have ex: "t_exit_status (tasks demo_zombies t) = 7" if "t \<in> {4, 5}" for t
    using that by (auto simp: demo_zombies_def)
  have zs: "t_parent (tasks demo_zombies t) = Some 1 \<and> state_of demo_zombies t = TASK_ZOMBIE \<longleftrightarrow> t \<in> {4, 5}" for t
    unfolding demo_zombies_sel by auto
  have "current_task demo_zombies \<noteq> idle_task demo_zombies"
    by (simp add: demo_zombies_sel)
  from task_wait_correct [OF _ demo_zombies_inv this, of rr_schedular]
  obtain r eff s' where r: "task_wait_pass rr_schedular demo_zombies = Some (r, eff, s')"
      "wait_outcome demo_zombies r s'"
      "wait_return True r = (case r of Reaped pid st \<Rightarrow> Some (pid, Some st) | NoChildren \<Rightarrow> Some (-1, None)
        | Sleeping \<Rightarrow> None)"
    by auto
  show ?thesis
  proof (cases r)
    case (Reaped pid st)
    then obtain t where "t_parent (tasks demo_zombies t) = Some 1" "state_of demo_zombies t = TASK_ZOMBIE"
        "pid = t_pid (tasks demo_zombies t)" "st = t_exit_status (tasks demo_zombies t)"
        "state_of s' t = TASK_UNUSED"
      using r(2) by (auto simp: wait_outcome_def demo_zombies_sel(3))
    then show ?thesis
      using r zs [of t] ex [of t] Reaped by auto
  qed (use r zs [of 4] in \<open>auto simp: wait_outcome_def demo_zombies_sel(3)\<close>)
qed

text \<open>
  \<open>task_kill\<close>: for a pid of the table other than the idle task's it returns 0, marks the first task
  with that pid as killed, makes it ready if it was blocked or waiting, leaves the others alone and
  keeps the invariants; for an unknown pid it returns \<open>-1\<close> and changes nothing. For the pid of the
  blocked idle task it panics: the assertion in the scheduler's enqueue fails.
\<close>

theorem task_kill_correct:
  assumes "sch \<in> {rr_schedular, lx_schedular}" and "proc_inv s"
  shows "(case find (\<lambda>t. t_pid (tasks s t) = pid) [0..<NTASK] of
      None \<Rightarrow> task_kill sch pid s = Some (-1, s)
    | Some t \<Rightarrow>
        if t = idle_task s then state_of s t = TASK_BLOCKED \<longrightarrow> task_kill sch pid s = None
        else \<exists>s'. task_kill sch pid s = Some (0, s') \<and> proc_inv s' \<and> t_killed (tasks s' t)
          \<and> state_of s' t = (if state_of s t \<in> {TASK_BLOCKED, TASK_WAITING} then TASK_READY else state_of s t)
          \<and> (\<forall>u. u \<noteq> t \<longrightarrow> state_of s' u = state_of s u \<and> t_killed (tasks s' u) = t_killed (tasks s u)))"
proof (cases "find (\<lambda>t. t_pid (tasks s t) = pid) [0..<NTASK]")
  case None
  then show ?thesis by (simp add: task_kill_def)
next
  case (Some t)
  have idle: "task_kill sch pid s = None" if "t = idle_task s" "state_of s t = TASK_BLOCKED"
    using that Some assms(1)
    by (auto simp: task_kill_def task_wakeup_def sched_enqueue_def Let_def rr_schedular_def
        lx_schedular_def rr_rq_enqueue_def lx_rq_enqueue_def)
  show ?thesis
  proof (cases "t = idle_task s")
    case True
    then show ?thesis
      using idle by (simp add: Some)
  next
    case False
    then show ?thesis
      using assms(1) rr.kill_inv [OF assms(2) False Some] lx.kill_inv [OF assms(2) False Some]
      unfolding Some option.case if_not_P [OF False] by blast
  qed
qed

theorem task_kill_correct_witness:
  "\<exists>s'. task_kill rr_schedular 33 demo_proc = Some (0, s') \<and> t_killed (tasks s' 3) \<and> proc_inv s'"
proof -
  have "find (\<lambda>t. t_pid (tasks demo_proc t) = 33) [0..<NTASK] = Some 3"
    by (auto simp: find_Some_iff NTASK_def demo_proc_def demo_kstate_def demo_task_def
        intro!: exI [of _ 3])
  then show ?thesis
    using task_kill_correct [OF _ demo_proc_inv, of rr_schedular 33] by (auto simp: demo_proc_sel)
qed

text \<open>
  C17. \<open>proc_fork\<close>: when a table entry, a page and a copy of the address space can be had, the child is
  a ready task with the next pid whose parent is the caller, with the caller's name, open files and
  directory (each duplicated once), running on the copied address space and returning to the same
  place with \<open>eax = 0\<close>; the caller gets the child's pid, no other task changes, and the invariants
  hold.
\<close>

theorem proc_fork_correct:
  assumes "sch \<in> {rr_schedular, lx_schedular}" and "proc_inv s"
    and "IS_USER_PROC (tasks s (current_task s))" and "current_task s \<noteq> idle_task s"
    and "t_cwd (tasks s (current_task s)) = Some d"
    and "length (t_ofiles (tasks s (current_task s))) = NOFILE"
    and "find (\<lambda>i. state_of s i = TASK_UNUSED) [0..<NTASK] = Some child"
    and "page \<noteq> 0" and "v \<noteq> 0"
  shows "\<exists>eff s'. proc_fork sch te pe page (Some v) s = Some (next_pid s, eff, s')
    \<and> proc_inv s' \<and> state_of s' child = TASK_READY \<and> t_pid (tasks s' child) = next_pid s
    \<and> t_parent (tasks s' child) = Some (current_task s) \<and> t_vm (tasks s' child) = Some v
    \<and> t_name (tasks s' child) = t_name (tasks s (current_task s))
    \<and> t_ofiles (tasks s' child) = t_ofiles (tasks s (current_task s))
    \<and> t_cwd (tasks s' child) = Some d
    \<and> eff = map FileDup (map the (filter (\<lambda>f. f \<noteq> None) (t_ofiles (tasks s (current_task s))))) @ [InodeDup d]
    \<and> tf_mem s' (t_tf (tasks s' child)) = (tf_mem s (t_tf (tasks s (current_task s))))\<lparr>tf_eax := 0\<rparr>
    \<and> current_task s' = current_task s \<and> next_pid s' = next_pid s + 1
    \<and> (\<forall>t. t \<noteq> child \<longrightarrow> state_of s' t = state_of s t \<and> task_id (tasks s' t) = task_id (tasks s t))"
  using assms(1) rr.fork_inv [OF assms(2-9)] lx.fork_inv [OF assms(2-9)] by blast

theorem proc_fork_correct_witness:
  "\<exists>eff s'. proc_fork lx_schedular 0 0 0x80200000 (Some 6) demo_proc = Some (4, eff, s')
     \<and> state_of s' 4 = TASK_READY \<and> t_parent (tasks s' 4) = Some 1 \<and> t_vm (tasks s' 4) = Some 6"
proof -
  have f: "find (\<lambda>i. state_of demo_proc i = TASK_UNUSED) [0..<NTASK] = Some 4"
    unfolding demo_proc_sel by (auto simp: find_Some_iff NTASK_def intro!: exI [of _ 4])
  have c: "t_cwd (tasks demo_proc (current_task demo_proc)) = Some 9" "next_pid demo_proc = 4"
      "length (t_ofiles (tasks demo_proc (current_task demo_proc))) = NOFILE"
      "IS_USER_PROC (tasks demo_proc (current_task demo_proc))"
      "current_task demo_proc \<noteq> idle_task demo_proc"
    by (simp_all add: demo_proc_def demo_kstate_def demo_task_def IS_USER_PROC_def)
  from proc_fork_correct [of lx_schedular demo_proc 9 4 "0x80200000" 6 0 0, OF _ demo_proc_inv c(4,5,1,3) f]
  show ?thesis
    unfolding c(2) demo_proc_sel(3) by auto
qed

text \<open>
  \<open>proc_fork\<close> fails cleanly: with a full table, without a page for the kernel stack, or without a
  copy of the address space it returns \<open>-1\<close>, the number of table entries in use is as before, and a
  page it had got is given back.
\<close>

theorem proc_fork_fails_cleanly:
  assumes "IS_USER_PROC (tasks s (current_task s))"
    and "find (\<lambda>i. state_of s i = TASK_UNUSED) [0..<NTASK] = None \<or> page = 0 \<or> new_vm = None"
  shows "\<exists>eff s'. proc_fork sch te pe page new_vm s = Some (-1, eff, s')
    \<and> (\<forall>t. state_of s' t = state_of s t) \<and> rqueue s' = rqueue s
    \<and> (find (\<lambda>i. state_of s i = TASK_UNUSED) [0..<NTASK] \<noteq> None \<and> page \<noteq> 0 \<longrightarrow> eff = [FreePage page])"
proof (cases "find (\<lambda>i. state_of s i = TASK_UNUSED) [0..<NTASK]")
  case None
  then show ?thesis
    using assms(1) by (simp add: proc_fork_def kthread_create_def task_alloc_def Let_def)
next
  case (Some t)
  then have t: "state_of s t = TASK_UNUSED"
    by (auto simp: find_Some_iff)
  show ?thesis
    using assms Some t
    by (cases "page = 0") (simp_all add: proc_fork_def kthread_create_def task_alloc_def Let_def
        init_task_struct_def init_task_stack_def task_free_def)
qed

theorem proc_fork_fails_cleanly_witness:
  "\<exists>eff s'. proc_fork rr_schedular 0 0 0x80200000 None demo_proc = Some (-1, eff, s') \<and> rqueue s' = [2, 3]"
proof -
  have "IS_USER_PROC (tasks demo_proc (current_task demo_proc))"
    by (simp add: demo_proc_sel IS_USER_PROC_def)
  from proc_fork_fails_cleanly [OF this, of "0x80200000" None rr_schedular 0 0] show ?thesis
    by (auto simp: demo_proc_sel(1))
qed

text \<open>The state the kernel boots with: an empty table in the zeroed data segment, \<open>kvm\<close> loaded.\<close>

definition boot_kstate :: kstate where
  "boot_kstate = \<lparr>tasks = (\<lambda>_. \<lparr>t_pid = 0, t_name = [], t_state = TASK_UNUSED, t_time_slice = 0,
       t_priority = 0, t_tf = 0, t_context = 0, t_kstack_ptr = 0, t_vm = None, t_parent = None,
       t_killed = False, t_exit_status = 0, t_ofiles = replicate NOFILE None, t_cwd = None\<rparr>),
     current_task = 0, idle_task = 0, init_proc = None, next_pid = 0, rqueue = [],
     running_task_cnt = 0, sems = (\<lambda>_. \<lparr>s_val = 0, s_waiting = [], s_holder = None\<rparr>),
     cr3_vm = Some 0, esp0 = 0, tf_mem = (\<lambda>_. demo_tf), frame_mem = (\<lambda>_. demo_frame)\<rparr>"

text \<open>
  C38. \<open>task_init\<close> establishes the invariants: with a page for the idle task's stack, the boot context
  becomes task 0 with pid 0, running, and the idle task gets pid 1, a stack and a context that starts
  in \<open>thread_entry\<close> with \<open>idle_loop\<close> as its argument.
\<close>

theorem task_init_establishes_invariant:
  assumes "page \<noteq> 0"
  shows "\<exists>s. task_init thread_entry page idle_loop boot_kstate = Some s \<and> proc_inv s
    \<and> current_task s = 0 \<and> idle_task s = 1 \<and> t_pid (tasks s 0) = 0 \<and> t_pid (tasks s 1) = 1
    \<and> state_of s 1 = TASK_ALLOCATED \<and> t_kstack_ptr (tasks s 1) = page
    \<and> c_eip (frame_mem s (t_context (tasks s 1))) = thread_entry
    \<and> entry_fn (frame_mem s (t_context (tasks s 1))) = idle_loop"
proof -
  have up: "[0..<NTASK] = 0 # 1 # [2..<NTASK]"
    by (simp add: NTASK_def upt_conv_Cons)
  obtain s1 where s1: "setup_main_task boot_kstate = Some s1"
    and sel1: "current_task s1 = 0" "rqueue s1 = []" "cr3_vm s1 = Some 0" "init_proc s1 = None" "next_pid s1 = 1"
      "t_pid (tasks s1 0) = 0" "t_vm (tasks s1 0) = Some 0" "state_of s1 0 = TASK_RUNNING"
      "t_priority (tasks s1 0) = 10" "t_parent (tasks s1 0) = None"
    and o1: "\<And>t. t \<noteq> 0 \<Longrightarrow> tasks s1 t = tasks boot_kstate t"
    by (simp add: setup_main_task_def task_alloc_def up boot_kstate_def init_task_struct_def)
  have alloc: "task_alloc s1 = (Some 1, (upd_task 1 (\<lambda>k. k\<lparr>t_state := TASK_ALLOCATED, t_pid := 1\<rparr>) s1)\<lparr>next_pid := 2\<rparr>)"
    using o1 [of 1] by (simp add: task_alloc_def up sel1 boot_kstate_def)
  have name: "vsprintf [105, 100, 108, 101] [] = Some [105, 100, 108, 101]"
    by simp
  obtain s where s: "setup_idle_task thread_entry page idle_loop s1 = Some s"
    and sel: "current_task s = current_task s1" "idle_task s = 1" "rqueue s = rqueue s1" "cr3_vm s = cr3_vm s1"
      "init_proc s = init_proc s1"
      "t_pid (tasks s 1) = 1" "t_kstack_ptr (tasks s 1) = page"
      "c_eip (frame_mem s (t_context (tasks s 1))) = thread_entry"
      "entry_fn (frame_mem s (t_context (tasks s 1))) = idle_loop"
      "state_of s 1 = TASK_ALLOCATED" "t_priority (tasks s 1) = 10" "t_parent (tasks s 1) = None"
    and o2: "\<And>t. t \<noteq> 1 \<Longrightarrow> tasks s t = tasks s1 t"
    using assms unfolding setup_idle_task_def kthread_create_def alloc init_task_struct_def name
    by (simp add: init_task_stack_def Let_def)
  have st: "state_of s t = (if t = 0 then TASK_RUNNING else if t = 1 then TASK_ALLOCATED else TASK_UNUSED)" for t
    using sel sel1 o1 [of t] o2 [of t] by (cases "t = 0"; cases "t = 1") (simp_all add: boot_kstate_def)
  have pr: "t_priority (tasks s t) = (if t \<le> 1 then 10 else 0)" for t
    using sel sel1 o1 [of t] o2 [of t] by (cases "t = 0"; cases "t = 1") (simp_all add: boot_kstate_def)
  have par: "t_parent (tasks s t) = None" for t
    using sel sel1 o1 [of t] o2 [of t] by (cases "t = 0"; cases "t = 1") (simp_all add: boot_kstate_def)
  have vm: "t_vm (tasks s 0) = Some 0" "t_pid (tasks s 0) = 0"
    using sel1 o2 [of 0] by simp_all
  have "task_ok 1 t (tasks s t)" for t
    using st [of t] pr [of t] by (cases "t = 0"; cases "t = 1") (auto simp: task_ok_def NTASK_def)
  then have "proc_inv s"
    unfolding proc_inv_def task_inv_def task_wf_def tree_ok_def st par sel(1-5) sel1(1-4)
    by (simp add: NTASK_def vm)
  moreover have "task_init thread_entry page idle_loop boot_kstate = Some s"
    using s s1 by (simp add: task_init_def)
  ultimately show ?thesis
    using sel sel1 vm by auto
qed

theorem task_init_establishes_invariant_witness:
  "\<exists>s. task_init 0x80001000 0x80100000 0x80002000 boot_kstate = Some s \<and> proc_inv s"
  using task_init_establishes_invariant [of "0x80100000" "0x80001000" "0x80002000"] by auto

end
