(* ===== verification/Semaphore.thy ===== *)
theory Semaphore
  imports Task
begin

text \<open>
  Counting semaphores: \<open>kernel/semaphore.c\<close>. Every function holds the semaphore's spinlock with
  interrupts off, so it is one atomic step, except \<open>sem_wait\<close> when it blocks: the step ends inside
  \<open>task_block\<close>, and \<open>sem_wait_resume\<close> is what the task still does when it runs again.

  The abstract semaphore is a number of free permits and a first-in-first-out queue of tasks; the
  refinement lemmas show that \<open>val\<close> and \<open>waiting_tasks\<close> implement it.
\<close>

definition upd_sem :: "nat \<Rightarrow> (semaphore \<Rightarrow> semaphore) \<Rightarrow> kstate \<Rightarrow> kstate" where
  "upd_sem i f s = s\<lparr>sems := (sems s)(i := f (sems s i))\<rparr>"

definition sem_init :: "nat \<Rightarrow> int \<Rightarrow> kstate \<Rightarrow> kstate" where
  "sem_init i initial_val s = upd_sem i (\<lambda>_. \<lparr>s_val = initial_val, s_waiting = [], s_holder = None\<rparr>) s"

text \<open>\<open>True\<close>: the semaphore was free and \<open>sem_wait\<close> has returned; \<open>False\<close>: the task is blocked.\<close>

definition sem_wait :: "schedular \<Rightarrow> nat \<Rightarrow> kstate \<Rightarrow> (bool \<times> kstate) option" where
  "sem_wait sch i s = do {
     let cur_task = current_task s;
     let s1 = upd_sem i (\<lambda>m. m\<lparr>s_val := s_val m - 1\<rparr>) s;
     if s_val (sems s1 i) < 0 then do {
       kassert (state_of s1 cur_task = TASK_RUNNING);
       let s2 = upd_sem i (\<lambda>m. m\<lparr>s_waiting := q_offer cur_task (s_waiting m)\<rparr>) s1;
       s3 \<leftarrow> task_block sch s2;
       Some (False, s3)
     } else Some (True, upd_sem i (\<lambda>m. m\<lparr>s_holder := Some cur_task\<rparr>) s1)
   }"

definition sem_wait_resume :: "nat \<Rightarrow> kstate \<Rightarrow> kstate" where
  "sem_wait_resume i s = upd_sem i (\<lambda>m. m\<lparr>s_holder := Some (current_task s)\<rparr>) s"

text \<open>The body shared by \<open>sem_signal\<close> and the loop of \<open>sem_signalall\<close>: fetch a waiting task and wake it.\<close>

definition wake_waiting :: "schedular \<Rightarrow> nat \<Rightarrow> kstate \<Rightarrow> kstate option" where
  "wake_waiting sch i s = do {
     kassert (s_waiting (sems s i) \<noteq> []);
     let (task, q) = q_poll (s_waiting (sems s i));
     let s1 = upd_sem i (\<lambda>m. m\<lparr>s_waiting := q\<rparr>) s;
     kassert (state_of s1 task = TASK_BLOCKED);
     task_wakeup sch task s1
   }"

definition sem_signal :: "schedular \<Rightarrow> nat \<Rightarrow> kstate \<Rightarrow> kstate option" where
  "sem_signal sch i s = do {
     let s1 = upd_sem i (\<lambda>m. m\<lparr>s_val := s_val m + 1\<rparr>) s;
     s2 \<leftarrow> (if s_val (sems s1 i) \<le> 0 then wake_waiting sch i s1 else Some s1);
     Some (upd_sem i (\<lambda>m. m\<lparr>s_holder := None\<rparr>) s2)
   }"

partial_function (option) signalall_loop :: "schedular \<Rightarrow> nat \<Rightarrow> kstate \<Rightarrow> kstate option" where
  "signalall_loop sch i s =
     (let s1 = upd_sem i (\<lambda>m. m\<lparr>s_val := s_val m + 1\<rparr>) s in
      if s_val (sems s1 i) \<le> 0 then Option.bind (wake_waiting sch i s1) (\<lambda>s2. signalall_loop sch i s2)
      else Some s1)"

definition sem_signalall :: "schedular \<Rightarrow> nat \<Rightarrow> kstate \<Rightarrow> kstate option" where
  "sem_signalall sch i s = do {
     s1 \<leftarrow> signalall_loop sch i s;
     Some (upd_sem i (\<lambda>m. m\<lparr>s_holder := None\<rparr>) s1)
   }"

definition sem_holding :: "nat \<Rightarrow> kstate \<Rightarrow> bool" where
  "sem_holding i s = (s_holder (sems s i) = Some (current_task s))"

section \<open>The invariant\<close>

text \<open>
  A negative value counts the waiting tasks; a waiting task is blocked, waits once and for one
  semaphore, and is not the idle task.
\<close>

definition sem_ok :: "kstate \<Rightarrow> nat \<Rightarrow> bool" where
  "sem_ok s i = (distinct (s_waiting (sems s i)) \<and> length (s_waiting (sems s i)) = nat (- s_val (sems s i))
     \<and> (\<forall>t\<in>set (s_waiting (sems s i)). state_of s t = TASK_BLOCKED \<and> t \<noteq> idle_task s))"

definition sem_inv :: "kstate \<Rightarrow> bool" where
  "sem_inv s = (proc_inv s \<and> (\<forall>i. sem_ok s i)
     \<and> (\<forall>i j. i \<noteq> j \<longrightarrow> set (s_waiting (sems s i)) \<inter> set (s_waiting (sems s j)) = {}))"

section \<open>The abstract semaphore\<close>

type_synonym abs_sem = "nat \<times> nat list"

definition abs_wait :: "nat \<Rightarrow> abs_sem \<Rightarrow> bool \<times> abs_sem" where
  "abs_wait t a = (case a of (permits, queue) \<Rightarrow>
     if 0 < permits then (True, (permits - 1, queue)) else (False, (0, queue @ [t])))"

definition abs_signal :: "abs_sem \<Rightarrow> nat option \<times> abs_sem" where
  "abs_signal a = (case a of (permits, queue) \<Rightarrow>
     case queue of [] \<Rightarrow> (None, (permits + 1, [])) | t # ts \<Rightarrow> (Some t, (permits, ts)))"

definition sem_abs :: "semaphore \<Rightarrow> abs_sem" where
  "sem_abs m = (nat (s_val m), rev (s_waiting m))"

lemma upd_sem_sel [simp]:
  "current_task (upd_sem i f s) = current_task s" "idle_task (upd_sem i f s) = idle_task s"
  "init_proc (upd_sem i f s) = init_proc s" "rqueue (upd_sem i f s) = rqueue s"
  "cr3_vm (upd_sem i f s) = cr3_vm s" "tasks (upd_sem i f s) = tasks s"
  "sems (upd_sem i f s) = (sems s)(i := f (sems s i))"
  by (simp_all add: upd_sem_def)

lemma proc_inv_upd_sem [simp]: "proc_inv (upd_sem i f s) = proc_inv s"
  by (simp add: proc_inv_def task_inv_def task_wf_def tree_ok_def)

lemma sem_inv_holder [simp]: "sem_inv (upd_sem i (\<lambda>m. m\<lparr>s_holder := h\<rparr>) s) = sem_inv s"
proof -
  have "sem_ok (upd_sem i (\<lambda>m. m\<lparr>s_holder := h\<rparr>) s) = sem_ok s"
    by (simp add: sem_ok_def fun_eq_iff)
  moreover have "s_waiting (sems (upd_sem i (\<lambda>m. m\<lparr>s_holder := h\<rparr>) s) j) = s_waiting (sems s j)" for j
    by simp
  ultimately show ?thesis
    unfolding sem_inv_def by simp
qed

lemma sem_inv_okD: "sem_inv s \<Longrightarrow> sem_ok s i"
  by (simp add: sem_inv_def)

context scheduler
begin

lemma wait_refines:
  assumes inv: "sem_inv s" and c: "current_task s \<noteq> idle_task s"
  shows "\<exists>b s'. sem_wait sch i s = Some (b, s') \<and> sem_inv s'
    \<and> (b, sem_abs (sems s' i)) = abs_wait (current_task s) (sem_abs (sems s i))
    \<and> (\<forall>j. j \<noteq> i \<longrightarrow> sems s' j = sems s j)
    \<and> (b \<longrightarrow> tasks s' = tasks s \<and> current_task s' = current_task s \<and> sem_holding i s')
    \<and> (\<not> b \<longrightarrow> state_of s' (current_task s) = TASK_BLOCKED)"
proof (cases "s_val (sems s i) - 1 < 0")
  case False
  let ?s = "upd_sem i (\<lambda>m. m\<lparr>s_holder := Some (current_task s)\<rparr>) (upd_sem i (\<lambda>m. m\<lparr>s_val := s_val m - 1\<rparr>) s)"
  have "sem_wait sch i s = Some (True, ?s)"
    using False by (simp add: sem_wait_def Let_def)
  moreover have "sem_ok ?s j" for j
    using inv False by (cases "j = i") (auto simp: sem_inv_def sem_ok_def dest!: spec [of _ i])
  then have "sem_inv ?s"
    using inv by (auto simp: sem_inv_def)
  moreover have "(True, sem_abs (sems ?s i)) = abs_wait (current_task s) (sem_abs (sems s i))"
    using False by (auto simp: sem_abs_def abs_wait_def)
  ultimately show ?thesis
    by (auto simp: sem_holding_def)
next
  case True
  let ?c = "current_task s"
  let ?s = "upd_sem i (\<lambda>m. m\<lparr>s_val := s_val m - 1, s_waiting := ?c # s_waiting m\<rparr>) s"
  have p: "proc_inv s" and ok: "\<And>j. sem_ok s j"
    and dj: "\<And>i j. i \<noteq> j \<Longrightarrow> set (s_waiting (sems s i)) \<inter> set (s_waiting (sems s j)) = {}"
    using inv by (auto simp: sem_inv_def)
  have run: "state_of s ?c = TASK_RUNNING"
    using p by (simp add: proc_inv_def task_inv_current)
  then have nw: "?c \<notin> set (s_waiting (sems s j))" for j
    using ok [of j] by (auto simp: sem_ok_def)
  have "proc_inv ?s"
    using p by simp
  then obtain s' where s': "task_block sch ?s = Some s'" "proc_inv s'" "sems s' = sems ?s"
      "idle_task s' = idle_task s" "state_of s' ?c = TASK_BLOCKED"
    and kept: "\<forall>t. t \<noteq> idle_task s \<longrightarrow> state_of s t \<notin> {TASK_READY, TASK_RUNNING} \<longrightarrow> state_of s' t = state_of s t"
    using block_inv [of ?s] c by auto
  have "upd_sem i (\<lambda>m. m\<lparr>s_waiting := q_offer ?c (s_waiting m)\<rparr>) (upd_sem i (\<lambda>m. m\<lparr>s_val := s_val m - 1\<rparr>) s) = ?s"
    by (simp add: upd_sem_def q_offer_def)
  then have w: "sem_wait sch i s = Some (False, s')"
    using True run s'(1) by (simp add: sem_wait_def Let_def)
  have blk: "state_of s' t = TASK_BLOCKED" if "state_of s t = TASK_BLOCKED" "t \<noteq> idle_task s" for t
    using kept that by auto
  have "sem_ok s' j" for j
    using ok [of j] nw [of j] c s' blk True by (cases "j = i") (auto simp: sem_ok_def)
  moreover have "set (s_waiting (sems s' j)) \<inter> set (s_waiting (sems s' k)) = {}" if "j \<noteq> k" for j k
    using dj [OF that] nw that unfolding s'(3) by auto
  ultimately have "sem_inv s'"
    using s'(2) by (simp add: sem_inv_def)
  then show ?thesis
    using w s' True by (auto simp: sem_abs_def abs_wait_def)
qed

lemma wake_ok:
  assumes p: "proc_inv s" and w: "s_waiting (sems s i) = q @ [t]"
    and t: "state_of s t = TASK_BLOCKED" "t \<noteq> idle_task s"
  shows "\<exists>s'. wake_waiting sch i s = Some s' \<and> proc_inv s'
    \<and> sems s' = (sems s)(i := (sems s i)\<lparr>s_waiting := q\<rparr>) \<and> state_of s' t = TASK_READY
    \<and> (\<forall>u. u \<noteq> t \<longrightarrow> state_of s' u = state_of s u) \<and> idle_task s' = idle_task s
    \<and> current_task s' = current_task s"
proof -
  let ?s = "upd_sem i (\<lambda>m. m\<lparr>s_waiting := q\<rparr>) s"
  have "0 < t_priority (tasks s t)"
    using p t by (auto simp: proc_inv_def task_inv_def task_wf_def task_ok_def)
  then have "\<exists>s'. task_wakeup sch t ?s = Some s' \<and> proc_inv s' \<and> state_of s' t = TASK_READY
    \<and> (\<forall>u. u \<noteq> t \<longrightarrow> state_of s' u = state_of ?s u) \<and> current_task s' = current_task ?s
    \<and> sems s' = sems ?s \<and> idle_task s' = idle_task ?s"
    using p t by (intro wakeup_inv) auto
  then show ?thesis
    using t w by (auto simp: wake_waiting_def q_poll_def)
qed

lemma signal_refines:
  assumes inv: "sem_inv s"
  shows "\<exists>s'. sem_signal sch i s = Some s' \<and> sem_inv s'
    \<and> (\<exists>woken. abs_signal (sem_abs (sems s i)) = (woken, sem_abs (sems s' i))
         \<and> (\<forall>t. state_of s' t = (if woken = Some t then TASK_READY else state_of s t)))
    \<and> (\<forall>j. j \<noteq> i \<longrightarrow> sems s' j = sems s j) \<and> current_task s' = current_task s"
proof -
  have p: "proc_inv s" and ok: "\<And>j. sem_ok s j"
    and dj: "\<And>i j. i \<noteq> j \<Longrightarrow> set (s_waiting (sems s i)) \<inter> set (s_waiting (sems s j)) = {}"
    using inv by (auto simp: sem_inv_def)
  let ?m = "sems s i"
  let ?s1 = "upd_sem i (\<lambda>m. m\<lparr>s_val := s_val m + 1\<rparr>) s"
  show ?thesis
  proof (cases "s_waiting ?m" rule: rev_cases)
    case Nil
    then have v: "0 \<le> s_val ?m"
      using ok [of i] by (simp add: sem_ok_def)
    let ?s = "upd_sem i (\<lambda>m. m\<lparr>s_holder := None\<rparr>) ?s1"
    have "sem_signal sch i s = Some ?s"
      using v by (simp add: sem_signal_def Let_def)
    moreover have "sem_ok ?s j" for j
      using ok [of j] v Nil by (cases "j = i") (auto simp: sem_ok_def)
    then have "sem_inv ?s"
      using inv by (auto simp: sem_inv_def)
    moreover have "abs_signal (sem_abs ?m) = (None, sem_abs (sems ?s i))"
      using v Nil by (simp add: abs_signal_def sem_abs_def nat_add_distrib)
    ultimately show ?thesis
      by simp
  next
    case (snoc q t)
    then have v: "s_val ?m < 0" and len: "Suc (length q) = nat (- s_val ?m)"
      and t: "state_of s t = TASK_BLOCKED" "t \<noteq> idle_task s" "t \<notin> set q" "distinct q"
      using ok [of i] by (auto simp: sem_ok_def)
    obtain s2 where s2: "wake_waiting sch i ?s1 = Some s2" "proc_inv s2"
        "sems s2 = (sems s)(i := ?m\<lparr>s_val := s_val ?m + 1, s_waiting := q\<rparr>)"
        "state_of s2 t = TASK_READY" "idle_task s2 = idle_task s" "current_task s2 = current_task s"
      and st: "\<And>u. u \<noteq> t \<Longrightarrow> state_of s2 u = state_of s u"
      using wake_ok [of ?s1 i q t] p snoc t by auto
    let ?s = "upd_sem i (\<lambda>m. m\<lparr>s_holder := None\<rparr>) s2"
    have sig: "sem_signal sch i s = Some ?s"
      using v s2(1) by (simp add: sem_signal_def Let_def)
    have nt: "t \<notin> set (s_waiting (sems s j))" if "j \<noteq> i" for j
      using dj [OF that] snoc by auto
    have "u \<noteq> t \<and> state_of s u = TASK_BLOCKED" if "u \<in> set (s_waiting (sems ?s j))" for u j
      using that nt [of j] t snoc s2(3) ok [of j] by (auto simp: sem_ok_def split: if_splits)
    then have blk: "state_of s2 u = TASK_BLOCKED" if "u \<in> set (s_waiting (sems ?s j))" for u j
      using that st by metis
    have "sem_ok ?s j" for j
      using ok [of j] blk [of _ j] t(4) v len snoc s2(3,5)
      by (cases "j = i") (auto simp: sem_ok_def)
    moreover have "set (s_waiting (sems ?s j)) \<inter> set (s_waiting (sems ?s k)) = {}" if "j \<noteq> k" for j k
      using dj [OF that] snoc s2(3) that by (auto split: if_splits)
    ultimately have "sem_inv ?s"
      using s2(2) by (simp add: sem_inv_def)
    moreover have "abs_signal (sem_abs ?m) = (Some t, sem_abs (sems ?s i))"
      using v snoc s2(3) by (simp add: abs_signal_def sem_abs_def)
    ultimately show ?thesis
      using sig s2 st by auto
  qed
qed

lemma signalall_loop_ok:
  assumes "sem_inv s"
  shows "\<exists>s'. signalall_loop sch i s = Some s' \<and> sem_inv s'
    \<and> s_waiting (sems s' i) = [] \<and> s_val (sems s' i) = max 0 (s_val (sems s i)) + 1
    \<and> (\<forall>j. j \<noteq> i \<longrightarrow> sems s' j = sems s j) \<and> current_task s' = current_task s
    \<and> (\<forall>t. state_of s' t = (if t \<in> set (s_waiting (sems s i)) then TASK_READY else state_of s t))"
  using assms
proof (induction "s_waiting (sems s i)" arbitrary: s rule: rev_induct)
  case Nil
  let ?s = "upd_sem i (\<lambda>m. m\<lparr>s_val := s_val m + 1\<rparr>) s"
  have v: "0 \<le> s_val (sems s i)"
    using sem_inv_okD [OF Nil.prems, of i] Nil.hyps by (simp add: sem_ok_def)
  have "sem_signal sch i s = Some (upd_sem i (\<lambda>m. m\<lparr>s_holder := None\<rparr>) ?s)"
    using v by (simp add: sem_signal_def Let_def)
  then have "sem_inv ?s"
    using signal_refines [OF Nil.prems, of i] by auto
  moreover have "signalall_loop sch i s = Some ?s"
    using v by (subst signalall_loop.simps) (simp add: Let_def)
  ultimately show ?case
    using Nil.hyps v by simp
next
  case (snoc t q)
  let ?s1 = "upd_sem i (\<lambda>m. m\<lparr>s_val := s_val m + 1\<rparr>) s"
  have v: "s_val (sems s i) < 0"
    using sem_inv_okD [OF snoc.prems, of i] snoc.hyps(2) [symmetric] by (auto simp: sem_ok_def)
  obtain s' woken where s': "sem_signal sch i s = Some s'" "sem_inv s'"
      "abs_signal (sem_abs (sems s i)) = (woken, sem_abs (sems s' i))"
      "\<forall>j. j \<noteq> i \<longrightarrow> sems s' j = sems s j" "current_task s' = current_task s"
      "\<forall>t. state_of s' t = (if woken = Some t then TASK_READY else state_of s t)"
    using signal_refines [OF snoc.prems, of i] by blast
  then obtain s2 where s2: "wake_waiting sch i ?s1 = Some s2" "s' = upd_sem i (\<lambda>m. m\<lparr>s_holder := None\<rparr>) s2"
    using v by (auto simp: sem_signal_def Let_def elim!: bind_SomeE)
  have ab: "woken = Some t" "s_waiting (sems s2 i) = q" "nat (s_val (sems s2 i)) = 0"
    using s'(3) s2(2) snoc.hyps(2) [symmetric] v by (auto simp: abs_signal_def sem_abs_def)
  have inv2: "sem_inv s2"
    using s'(2) s2(2) by simp
  obtain s3 where "signalall_loop sch i s2 = Some s3" "sem_inv s3" "s_waiting (sems s3 i) = []"
      "s_val (sems s3 i) = max 0 (s_val (sems s2 i)) + 1" "\<forall>j. j \<noteq> i \<longrightarrow> sems s3 j = sems s2 j"
      "current_task s3 = current_task s2"
      "\<forall>t. state_of s3 t = (if t \<in> set q then TASK_READY else state_of s2 t)"
    using snoc.hyps(1) [OF ab(2) [symmetric] inv2] ab(2) by auto
  moreover from this have "signalall_loop sch i s = Some s3"
    using v s2(1) by (subst signalall_loop.simps) (simp add: Let_def)
  moreover have "max 0 (s_val (sems s2 i)) = max 0 (s_val (sems s i))"
    using ab(3) v by simp
  ultimately show ?case
    using s' s2(2) ab(1) snoc.hyps(2) [symmetric] by (auto split: if_splits)
qed

lemma kill_then_signal_panics:
  assumes inv: "sem_inv s" and w: "s_waiting (sems s i) = q @ [t]"
    and pid: "find (\<lambda>u. t_pid (tasks s u) = pid) [0..<NTASK] = Some t"
  shows "\<exists>s'. task_kill sch pid s = Some (0, s') \<and> state_of s' t = TASK_READY
    \<and> t \<in> set (s_waiting (sems s' i)) \<and> sem_signal sch i s' = None"
proof -
  let ?s1 = "upd_task t (\<lambda>k. k\<lparr>t_killed := True\<rparr>) s"
  have ok: "sem_ok s i" and p: "proc_inv s"
    using inv by (simp_all add: sem_inv_def)
  have t: "state_of s t = TASK_BLOCKED" "t \<noteq> idle_task s" and v: "s_val (sems s i) < 0"
    using ok w by (auto simp: sem_ok_def)
  have wf: "task_wf ?s1"
    using p task_wf_cong [of ?s1 s] by (simp add: proc_inv_def task_inv_def)
  have hyps: "state_of ?s1 t \<notin> {TASK_UNUSED, TASK_READY, TASK_RUNNING}" "t \<noteq> idle_task ?s1"
      "0 < t_priority (tasks ?s1 t)"
    using t p by (auto simp: proc_inv_def task_inv_def task_wf_def task_ok_def)
  obtain s2 where s2: "task_wakeup sch t ?s1 = Some s2"
    and er: "erase_sched s2 = erase_sched (set_state t TASK_READY ?s1)"
    by (rule wakeup_ok [OF wf hyps])
  have "task_kill sch pid s = Some (0, s2)"
    using pid t s2 by (simp add: task_kill_def Let_def)
  moreover have sel: "state_of s2 t = TASK_READY" "sems s2 = sems s"
    by (simp_all add: erase_sched_eqs [OF er])
  moreover have "sem_signal sch i s2 = None"
    using v w sel by (simp add: sem_signal_def wake_waiting_def q_poll_def Let_def)
  ultimately show ?thesis
    using w by simp
qed

end

section \<open>Properties\<close>

text \<open>Semaphore 0 of \<open>demo_sems\<close> has the value \<open>-1\<close> and the blocked task 6 waiting; the others are free.\<close>

definition demo_sems :: kstate where
  "demo_sems = upd_sem 0 (\<lambda>m. m\<lparr>s_val := -1, s_waiting := [6]\<rparr>)
     (upd_task 6 (\<lambda>k. k\<lparr>t_state := TASK_BLOCKED, t_pid := 66\<rparr>) demo_proc)"

lemma demo_sems_sel:
  "rqueue demo_sems = [2, 3]" "idle_task demo_sems = 0" "current_task demo_sems = 1"
  "init_proc demo_sems = Some 2" "cr3_vm demo_sems = Some 5"
  "t_priority (tasks demo_sems t) = 10"
  "t_vm (tasks demo_sems t) = (if t = 1 then Some 5 else Some 0)"
  "state_of demo_sems t = (if t = 0 \<or> t = 6 then TASK_BLOCKED else if t = 1 then TASK_RUNNING
      else if t = 2 \<or> t = 3 then TASK_READY else TASK_UNUSED)"
  "t_parent (tasks demo_sems t) = (if t = 1 then Some 2 else if t = 3 then Some 1 else None)"
  "s_waiting (sems demo_sems i) = (if i = 0 then [6] else [])"
  "s_val (sems demo_sems i) = (if i = 0 then -1 else 1)"
  by (simp_all add: demo_sems_def demo_proc_def demo_kstate_def demo_task_def)

lemma demo_sems_inv: "sem_inv demo_sems"
proof -
  have "task_ok 0 t (tasks demo_sems t)" for t
    unfolding task_ok_def demo_sems_sel by (simp add: NTASK_def)
  then have "proc_inv demo_sems"
    unfolding proc_inv_def task_inv_def task_wf_def tree_ok_def demo_sems_sel by (simp add: NTASK_def)
  moreover have "sem_ok demo_sems i" for i
    unfolding sem_ok_def demo_sems_sel by simp
  ultimately show ?thesis
    unfolding sem_inv_def by (auto simp: demo_sems_sel)
qed

text \<open>
  C6. \<open>sem_wait\<close> and \<open>sem_signal\<close> implement the abstract counting semaphore with a first-in-first-out
  queue, under both schedulers and without ever panicking: \<open>sem_wait\<close> takes a permit and returns as the
  holder, or appends the caller to the queue and blocks it; \<open>sem_signal\<close> makes the task that has waited
  longest ready, or adds a permit. Other semaphores are untouched, and the invariant (a negative
  value counts the waiters, every waiter is blocked and waits for one semaphore only) is kept.
\<close>

theorem semaphore_refines_counting:
  assumes "sch \<in> {rr_schedular, lx_schedular}" and "sem_inv s"
  shows "(current_task s \<noteq> idle_task s \<longrightarrow>
      (\<exists>b s'. sem_wait sch i s = Some (b, s') \<and> sem_inv s'
        \<and> (b, sem_abs (sems s' i)) = abs_wait (current_task s) (sem_abs (sems s i))
        \<and> (\<forall>j. j \<noteq> i \<longrightarrow> sems s' j = sems s j)
        \<and> (b \<longrightarrow> tasks s' = tasks s \<and> current_task s' = current_task s \<and> sem_holding i s')
        \<and> (\<not> b \<longrightarrow> state_of s' (current_task s) = TASK_BLOCKED)))
    \<and> (\<exists>s'. sem_signal sch i s = Some s' \<and> sem_inv s'
        \<and> (\<exists>woken. abs_signal (sem_abs (sems s i)) = (woken, sem_abs (sems s' i))
             \<and> (\<forall>t. state_of s' t = (if woken = Some t then TASK_READY else state_of s t)))
        \<and> (\<forall>j. j \<noteq> i \<longrightarrow> sems s' j = sems s j) \<and> current_task s' = current_task s)"
proof (intro conjI impI)
  assume c: "current_task s \<noteq> idle_task s"
  show "\<exists>b s'. sem_wait sch i s = Some (b, s') \<and> sem_inv s'
        \<and> (b, sem_abs (sems s' i)) = abs_wait (current_task s) (sem_abs (sems s i))
        \<and> (\<forall>j. j \<noteq> i \<longrightarrow> sems s' j = sems s j)
        \<and> (b \<longrightarrow> tasks s' = tasks s \<and> current_task s' = current_task s \<and> sem_holding i s')
        \<and> (\<not> b \<longrightarrow> state_of s' (current_task s) = TASK_BLOCKED)"
    using assms(1) rr.wait_refines [OF assms(2) c, of i] lx.wait_refines [OF assms(2) c, of i] by blast
next
  show "\<exists>s'. sem_signal sch i s = Some s' \<and> sem_inv s'
        \<and> (\<exists>woken. abs_signal (sem_abs (sems s i)) = (woken, sem_abs (sems s' i))
             \<and> (\<forall>t. state_of s' t = (if woken = Some t then TASK_READY else state_of s t)))
        \<and> (\<forall>j. j \<noteq> i \<longrightarrow> sems s' j = sems s j) \<and> current_task s' = current_task s"
    using assms(1) rr.signal_refines [OF assms(2), of i] lx.signal_refines [OF assms(2), of i] by blast
qed

theorem semaphore_refines_counting_witness:
  "\<exists>s'. sem_signal rr_schedular 0 demo_sems = Some s' \<and> sem_inv s' \<and> sem_abs (sems s' 0) = (0, [])
     \<and> state_of s' 6 = TASK_READY"
proof -
  have a: "abs_signal (sem_abs (sems demo_sems 0)) = (Some 6, (0, []))"
    by (simp add: sem_abs_def abs_signal_def demo_sems_sel)
  from semaphore_refines_counting [OF _ demo_sems_inv, of rr_schedular 0]
  obtain s' woken where s': "sem_signal rr_schedular 0 demo_sems = Some s'" "sem_inv s'"
      "abs_signal (sem_abs (sems demo_sems 0)) = (woken, sem_abs (sems s' 0))"
      "\<forall>t. state_of s' t = (if woken = Some t then TASK_READY else state_of demo_sems t)"
    by blast
  then show ?thesis
    using a by auto
qed

text \<open>
  \<open>sem_signalall\<close> returns, under both schedulers: every task that was waiting is ready, nobody
  waits any more and the semaphore is left with one permit more than it had.
\<close>

theorem sem_signalall_wakes_all:
  assumes "sch \<in> {rr_schedular, lx_schedular}" and "sem_inv s"
  shows "\<exists>s'. sem_signalall sch i s = Some s' \<and> sem_inv s'
    \<and> sem_abs (sems s' i) = (fst (sem_abs (sems s i)) + 1, [])
    \<and> (\<forall>t. state_of s' t = (if t \<in> set (s_waiting (sems s i)) then TASK_READY else state_of s t))
    \<and> (\<forall>j. j \<noteq> i \<longrightarrow> sems s' j = sems s j)"
proof -
  have "\<exists>s'. signalall_loop sch i s = Some s' \<and> sem_inv s'
    \<and> s_waiting (sems s' i) = [] \<and> s_val (sems s' i) = max 0 (s_val (sems s i)) + 1
    \<and> (\<forall>j. j \<noteq> i \<longrightarrow> sems s' j = sems s j) \<and> current_task s' = current_task s
    \<and> (\<forall>t. state_of s' t = (if t \<in> set (s_waiting (sems s i)) then TASK_READY else state_of s t))"
    using assms(1) rr.signalall_loop_ok [OF assms(2), of i] lx.signalall_loop_ok [OF assms(2), of i]
    by blast
  then show ?thesis
    by (auto simp: sem_signalall_def sem_abs_def nat_add_distrib max_def)
qed

theorem sem_signalall_wakes_all_witness:
  "\<exists>s'. sem_signalall lx_schedular 0 demo_sems = Some s' \<and> sem_abs (sems s' 0) = (1, [])"
  using sem_signalall_wakes_all [OF _ demo_sems_inv, of lx_schedular 0]
  by (auto simp: sem_abs_def demo_sems_sel)

text \<open>
  Killing a task that waits for a semaphore breaks the semaphore: \<open>task_kill\<close> makes the task ready
  without taking it off \<open>waiting_tasks\<close>, and a \<open>sem_signal\<close> that then reaches it fails its assertion
  that the task is blocked, which panics the kernel.
\<close>

theorem task_kill_breaks_semaphore:
  assumes "sch \<in> {rr_schedular, lx_schedular}" and "sem_inv s"
    and "s_waiting (sems s i) = q @ [t]"
    and "find (\<lambda>u. t_pid (tasks s u) = pid) [0..<NTASK] = Some t"
  shows "\<exists>s'. task_kill sch pid s = Some (0, s') \<and> state_of s' t = TASK_READY
    \<and> t \<in> set (s_waiting (sems s' i)) \<and> sem_signal sch i s' = None"
  using assms(1) rr.kill_then_signal_panics [OF assms(2-4)] lx.kill_then_signal_panics [OF assms(2-4)]
  by blast

theorem task_kill_breaks_semaphore_witness:
  "\<exists>s'. task_kill rr_schedular 66 demo_sems = Some (0, s') \<and> sem_signal rr_schedular 0 s' = None"
proof -
  have "find (\<lambda>u. t_pid (tasks demo_sems u) = 66) [0..<NTASK] = Some 6"
    by (auto simp: find_Some_iff NTASK_def demo_sems_def demo_proc_def demo_kstate_def demo_task_def
        intro!: exI [of _ 6])
  from task_kill_breaks_semaphore [OF _ demo_sems_inv _ this, of rr_schedular 0 "[]"]
  show ?thesis
    by (auto simp: demo_sems_sel)
qed

end
