(* ===== verification/RingBuffer.thy ===== *)
theory RingBuffer
  imports Semaphore
begin

text \<open>
  The bounded buffer \<open>kernel/ringbuffer.c\<close> and the pipe on top of it, \<open>kernel/pipe.c\<close>.

  The two semaphores are the abstract ones that theory \<open>Semaphore\<close> shows \<open>sem_wait\<close>, \<open>sem_signal\<close> and
  \<open>sem_signalall\<close> to implement. The spinlock only turns interrupts off, so a call runs without
  interruption up to the point where \<open>sem_wait\<close> blocks; \<open>put_char_begin\<close> and \<open>read_char_begin\<close> are the
  parts up to the wait, \<open>put_char_finish\<close> and \<open>read_char_finish\<close> what follows it. The inductive
  relation \<open>rb_step\<close> interleaves the calls of any number of tasks.
\<close>

record ringbuffer =
  rb_buf :: "u8 list"
  rb_size :: u32
  rb_head :: u32
  rb_tail :: u32
  rclosed :: bool
  wclosed :: bool
  empty_sem :: abs_sem
  full_sem :: abs_sem

datatype ringbuffer_chan = RBUF_WRITE | RBUF_READ

definition BUFFER_NEXT_POS :: "u32 \<Rightarrow> u32 \<Rightarrow> u32" where
  "BUFFER_NEXT_POS sz pos = (pos + 1) mod sz"

definition BUFFER_ISFULL :: "ringbuffer \<Rightarrow> bool" where
  "BUFFER_ISFULL r = (BUFFER_NEXT_POS (rb_size r) (rb_head r) = rb_tail r)"

definition BUFFER_ISEMPTY :: "ringbuffer \<Rightarrow> bool" where
  "BUFFER_ISEMPTY r = (rb_head r = rb_tail r)"

definition ringbuffer_init :: "u32 \<Rightarrow> ringbuffer" where
  "ringbuffer_init sz = \<lparr>rb_buf = replicate (unat sz) 0, rb_size = sz, rb_head = 0, rb_tail = 0,
     rclosed = False, wclosed = False, empty_sem = (unat sz, []), full_sem = (0, [])\<rparr>"

definition ringbuffer_isfull :: "ringbuffer \<Rightarrow> bool" where
  "ringbuffer_isfull r = BUFFER_ISFULL r"

definition ringbuffer_isempty :: "ringbuffer \<Rightarrow> bool" where
  "ringbuffer_isempty r = BUFFER_ISEMPTY r"

text \<open>What a call has done when it returns or blocks for the first time.\<close>

datatype rb_begin = Return int | Enter | Block

definition put_char_begin :: "nat \<Rightarrow> ringbuffer \<Rightarrow> rb_begin \<times> ringbuffer" where
  "put_char_begin t r =
     (if rclosed r then (Return (-1), r)
      else let (b, e) = abs_wait t (empty_sem r) in (if b then Enter else Block, r\<lparr>empty_sem := e\<rparr>))"

definition put_char_finish :: "bool \<Rightarrow> u8 \<Rightarrow> ringbuffer \<Rightarrow> int \<times> nat option \<times> ringbuffer" where
  "put_char_finish killed ch r =
     (if rclosed r \<or> killed then (-1, None, r)
      else let (woken, f) = abs_signal (full_sem r) in
        (1, woken, r\<lparr>rb_buf := (rb_buf r)[unat (rb_head r) := ch],
           rb_head := BUFFER_NEXT_POS (rb_size r) (rb_head r), full_sem := f\<rparr>))"

definition read_char_begin :: "nat \<Rightarrow> ringbuffer \<Rightarrow> rb_begin \<times> ringbuffer" where
  "read_char_begin t r =
     (if BUFFER_ISEMPTY r \<and> wclosed r then (Return (-1), r)
      else let (b, f) = abs_wait t (full_sem r) in (if b then Enter else Block, r\<lparr>full_sem := f\<rparr>))"

definition read_char_finish :: "bool \<Rightarrow> ringbuffer \<Rightarrow> (int \<times> u8 option) \<times> nat option \<times> ringbuffer" where
  "read_char_finish killed r =
     (if BUFFER_ISEMPTY r \<and> wclosed r \<or> killed then ((-1, None), None, r)
      else let (woken, e) = abs_signal (empty_sem r) in
        ((1, Some (rb_buf r ! unat (rb_tail r))), woken,
          r\<lparr>rb_tail := BUFFER_NEXT_POS (rb_size r) (rb_tail r), empty_sem := e\<rparr>))"

text \<open>\<open>sem_signalall\<close> on the abstract semaphore: the tasks it wakes, and the semaphore after it.\<close>

definition abs_signalall :: "abs_sem \<Rightarrow> nat list \<times> abs_sem" where
  "abs_signalall a = (snd a, (fst a + 1, []))"

definition ringbuffer_close :: "ringbuffer_chan \<Rightarrow> ringbuffer \<Rightarrow> nat list \<times> ringbuffer" where
  "ringbuffer_close rw r =
     (case rw of
        RBUF_READ \<Rightarrow> let (woken, e) = abs_signalall (empty_sem r) in (woken, r\<lparr>rclosed := True, empty_sem := e\<rparr>)
      | RBUF_WRITE \<Rightarrow> let (woken, f) = abs_signalall (full_sem r) in (woken, r\<lparr>wclosed := True, full_sem := f\<rparr>))"

text \<open>A call that finds its semaphore free, from beginning to end; \<open>None\<close> when it would block.\<close>

definition ringbuffer_put_char :: "nat \<Rightarrow> bool \<Rightarrow> u8 \<Rightarrow> ringbuffer \<Rightarrow> (int \<times> nat option \<times> ringbuffer) option" where
  "ringbuffer_put_char t killed ch r = (case put_char_begin t r of
     (Return v, r1) \<Rightarrow> Some (v, None, r1)
   | (Enter, r1) \<Rightarrow> Some (put_char_finish killed ch r1)
   | (Block, r1) \<Rightarrow> None)"

definition ringbuffer_read_char :: "nat \<Rightarrow> bool \<Rightarrow> ringbuffer \<Rightarrow> ((int \<times> u8 option) \<times> nat option \<times> ringbuffer) option" where
  "ringbuffer_read_char t killed r = (case read_char_begin t r of
     (Return v, r1) \<Rightarrow> Some ((v, None), None, r1)
   | (Enter, r1) \<Rightarrow> Some (read_char_finish killed r1)
   | (Block, r1) \<Rightarrow> None)"

section \<open>Pipes\<close>

text \<open>
  The loops of \<open>pipe_read\<close> and \<open>pipe_write\<close> on a buffer that nobody else uses meanwhile: the bytes
  moved, and whether the loop ended (\<open>True\<close>) or is blocked in a call (\<open>False\<close>).
\<close>

fun pipe_read_loop :: "nat \<Rightarrow> nat \<Rightarrow> ringbuffer \<Rightarrow> u8 list \<times> bool \<times> ringbuffer" where
  "pipe_read_loop t 0 r = ([], True, r)"
| "pipe_read_loop t (Suc n) r = (case ringbuffer_read_char t False r of
     None \<Rightarrow> ([], False, snd (read_char_begin t r))
   | Some ((v, ch), woken, r1) \<Rightarrow>
       (case ch of
          Some c \<Rightarrow> if v \<le> 0 then ([], True, r1)
             else let (cs, b, r2) = pipe_read_loop t n r1 in (c # cs, b, r2)
        | None \<Rightarrow> ([], True, r1)))"

definition pipe_read :: "nat \<Rightarrow> int \<Rightarrow> ringbuffer \<Rightarrow> (int \<times> u8 list \<times> bool \<times> ringbuffer)" where
  "pipe_read t n r = (if n < 0 then (-1, [], True, r)
     else let (cs, b, r1) = pipe_read_loop t (nat n) r in (int (length cs), cs, b, r1))"

fun pipe_write_loop :: "nat \<Rightarrow> u8 list \<Rightarrow> ringbuffer \<Rightarrow> nat \<times> bool \<times> ringbuffer" where
  "pipe_write_loop t [] r = (0, True, r)"
| "pipe_write_loop t (c # cs) r = (case ringbuffer_put_char t False c r of
     None \<Rightarrow> (0, False, snd (put_char_begin t r))
   | Some (v, woken, r1) \<Rightarrow>
       if v \<le> 0 then (0, True, r1)
       else let (n, b, r2) = pipe_write_loop t cs r1 in (n + 1, b, r2))"

definition pipe_write :: "nat \<Rightarrow> u8 list \<Rightarrow> int \<Rightarrow> ringbuffer \<Rightarrow> (int \<times> bool \<times> ringbuffer)" where
  "pipe_write t src n r = (if n < 0 then (-1, True, r)
     else let (k, b, r1) = pipe_write_loop t (take (nat n) src) r in (int k, b, r1))"

text \<open>\<open>pipe_close\<close>: the pipe and its page are freed (\<open>True\<close>) when both ends are closed.\<close>

definition pipe_close :: "bool \<Rightarrow> ringbuffer \<Rightarrow> bool \<times> nat list \<times> ringbuffer" where
  "pipe_close writable r =
     (let (woken, r1) = ringbuffer_close (if writable then RBUF_WRITE else RBUF_READ) r
      in (rclosed r1 \<and> wclosed r1, woken, r1))"

section \<open>Interleaved use\<close>

datatype rb_pc = Idle | PutWait u8 | PutGo u8 | ReadWait | ReadGo

text \<open>The ghost fields record the bytes in the order they are stored and fetched.\<close>

record rb_sys =
  ring :: ringbuffer
  pc :: "nat \<Rightarrow> rb_pc"
  written :: "u8 list"
  got :: "u8 list"

fun granted :: "rb_pc \<Rightarrow> rb_pc" where
  "granted (PutWait c) = PutGo c"
| "granted ReadWait = ReadGo"
| "granted q = q"

definition wake_pc :: "nat option \<Rightarrow> (nat \<Rightarrow> rb_pc) \<Rightarrow> nat \<Rightarrow> rb_pc" where
  "wake_pc w p = (case w of None \<Rightarrow> p | Some t \<Rightarrow> p(t := granted (p t)))"

inductive rb_step :: "rb_sys \<Rightarrow> rb_sys \<Rightarrow> bool" where
  put_enter: "pc s t = Idle \<Longrightarrow> put_char_begin t (ring s) = (Enter, r) \<Longrightarrow>
     rb_step s (s\<lparr>ring := r, pc := (pc s)(t := PutGo c)\<rparr>)"
| put_block: "pc s t = Idle \<Longrightarrow> put_char_begin t (ring s) = (Block, r) \<Longrightarrow>
     rb_step s (s\<lparr>ring := r, pc := (pc s)(t := PutWait c)\<rparr>)"
| put_finish: "pc s t = PutGo c \<Longrightarrow> put_char_finish False c (ring s) = (1, w, r) \<Longrightarrow>
     rb_step s (s\<lparr>ring := r, pc := wake_pc w ((pc s)(t := Idle)), written := written s @ [c]\<rparr>)"
| read_enter: "pc s t = Idle \<Longrightarrow> read_char_begin t (ring s) = (Enter, r) \<Longrightarrow>
     rb_step s (s\<lparr>ring := r, pc := (pc s)(t := ReadGo)\<rparr>)"
| read_block: "pc s t = Idle \<Longrightarrow> read_char_begin t (ring s) = (Block, r) \<Longrightarrow>
     rb_step s (s\<lparr>ring := r, pc := (pc s)(t := ReadWait)\<rparr>)"
| read_finish: "pc s t = ReadGo \<Longrightarrow> read_char_finish False (ring s) = ((1, Some c), w, r) \<Longrightarrow>
     rb_step s (s\<lparr>ring := r, pc := wake_pc w ((pc s)(t := Idle)), got := got s @ [c]\<rparr>)"

inductive rb_reach :: "u32 \<Rightarrow> rb_sys \<Rightarrow> bool" for sz where
  init: "rb_reach sz \<lparr>ring = ringbuffer_init sz, pc = (\<lambda>_. Idle), written = [], got = []\<rparr>"
| step: "rb_reach sz s \<Longrightarrow> rb_step s s' \<Longrightarrow> rb_reach sz s'"

section \<open>The invariant\<close>

definition put_go :: "(nat \<Rightarrow> rb_pc) \<Rightarrow> nat set" where "put_go p = {t. \<exists>c. p t = PutGo c}"
definition put_wait :: "(nat \<Rightarrow> rb_pc) \<Rightarrow> nat set" where "put_wait p = {t. \<exists>c. p t = PutWait c}"
definition read_go :: "(nat \<Rightarrow> rb_pc) \<Rightarrow> nat set" where "read_go p = {t. p t = ReadGo}"
definition read_wait :: "(nat \<Rightarrow> rb_pc) \<Rightarrow> nat set" where "read_wait p = {t. p t = ReadWait}"

text \<open>The bytes between \<open>tail\<close> and \<open>head\<close> when there are \<open>n\<close> of them.\<close>

definition ring_data :: "ringbuffer \<Rightarrow> nat \<Rightarrow> u8 list" where
  "ring_data r n = map (\<lambda>i. rb_buf r ! ((unat (rb_tail r) + i) mod unat (rb_size r))) [0..<n]"

definition ring_ok :: "ringbuffer \<Rightarrow> nat \<Rightarrow> bool" where
  "ring_ok r n = (0 < unat (rb_size r) \<and> length (rb_buf r) = unat (rb_size r) \<and> n \<le> unat (rb_size r)
     \<and> unat (rb_tail r) < unat (rb_size r)
     \<and> unat (rb_head r) = (unat (rb_tail r) + n) mod unat (rb_size r))"

definition sem_waiters :: "abs_sem \<Rightarrow> nat set \<Rightarrow> bool" where
  "sem_waiters a W = (distinct (snd a) \<and> set (snd a) = W \<and> (fst a = 0 \<or> snd a = []))"

definition rb_ok :: "rb_sys \<Rightarrow> nat \<Rightarrow> bool" where
  "rb_ok s n = (ring_ok (ring s) n \<and> written s = got s @ ring_data (ring s) n
     \<and> \<not> rclosed (ring s) \<and> \<not> wclosed (ring s)
     \<and> finite (put_go (pc s)) \<and> finite (read_go (pc s))
     \<and> fst (empty_sem (ring s)) + card (put_go (pc s)) + n = unat (rb_size (ring s))
     \<and> fst (full_sem (ring s)) + card (read_go (pc s)) = n
     \<and> sem_waiters (empty_sem (ring s)) (put_wait (pc s))
     \<and> sem_waiters (full_sem (ring s)) (read_wait (pc s)))"

definition rb_inv :: "rb_sys \<Rightarrow> bool" where
  "rb_inv s = (\<exists>n. rb_ok s n)"

lemma rb_okD:
  assumes "rb_ok s n"
  shows "ring_ok (ring s) n" "written s = got s @ ring_data (ring s) n"
    "\<not> rclosed (ring s)" "\<not> wclosed (ring s)" "finite (put_go (pc s))" "finite (read_go (pc s))"
    "fst (empty_sem (ring s)) + card (put_go (pc s)) + n = unat (rb_size (ring s))"
    "fst (full_sem (ring s)) + card (read_go (pc s)) = n"
    "sem_waiters (empty_sem (ring s)) (put_wait (pc s))"
    "sem_waiters (full_sem (ring s)) (read_wait (pc s))"
  using assms by (simp_all add: rb_ok_def)

section \<open>The ring\<close>

lemma unat_next_pos:
  assumes "unat p < unat s"
  shows "unat (BUFFER_NEXT_POS s p) = (unat p + 1) mod unat s"
proof -
  have "unat (p + 1) = unat p + 1"
    using assms unsigned_less [where 'a = nat, of s] by (simp add: unat_word_ariths)
  then show ?thesis
    by (simp add: BUFFER_NEXT_POS_def unat_mod)
qed

lemma mod_offset_inj:
  assumes "i < n" "n < (s::nat)"
  shows "(t + i) mod s \<noteq> (t + n) mod s"
proof
  assume "(t + i) mod s = (t + n) mod s"
  then have "s dvd (t + n) - (t + i)"
    using assms(1) mod_eq_dvd_iff_nat [of "t + i" "t + n" s] by simp
  then have "s dvd n - i"
    by simp
  then show False
    using assms by (auto dest: dvd_imp_le)
qed

lemma ring_put:
  assumes ok: "ring_ok r n" and n: "n < unat (rb_size r)"
    and r'_def: "r' = r\<lparr>rb_buf := (rb_buf r)[unat (rb_head r) := c], rb_head := BUFFER_NEXT_POS (rb_size r) (rb_head r), full_sem := f\<rparr>"
  shows "ring_ok r' (n + 1) \<and> ring_data r' (n + 1) = ring_data r n @ [c]"
proof -
  let ?s = "unat (rb_size r)" and ?t = "unat (rb_tail r)"
  have s: "0 < ?s" "length (rb_buf r) = ?s" "?t < ?s" "unat (rb_head r) = (?t + n) mod ?s"
    using ok by (simp_all add: ring_ok_def)
  then have h: "unat (rb_head r) < ?s"
    by simp
  have "unat (BUFFER_NEXT_POS (rb_size r) (rb_head r)) = (?t + (n + 1)) mod ?s"
    using unat_next_pos [OF h] s(4) by (simp add: mod_Suc_eq)
  then have "ring_ok r' (n + 1)"
    using s n by (simp add: ring_ok_def r'_def)
  moreover have "(rb_buf r)[unat (rb_head r) := c] ! ((?t + i) mod ?s) = rb_buf r ! ((?t + i) mod ?s)" if "i < n" for i
    using mod_offset_inj [OF that n, of ?t] s(4) by simp
  then have "ring_data r' (n + 1) = ring_data r n @ [c]"
    using s h by (simp add: ring_data_def r'_def)
  ultimately show ?thesis ..
qed

lemma ring_get:
  assumes ok: "ring_ok r n" and n: "0 < n"
    and r'_def: "r' = r\<lparr>rb_tail := BUFFER_NEXT_POS (rb_size r) (rb_tail r), empty_sem := e\<rparr>"
  shows "ring_ok r' (n - 1) \<and> ring_data r n = rb_buf r ! unat (rb_tail r) # ring_data r' (n - 1)"
proof -
  let ?s = "unat (rb_size r)" and ?t = "unat (rb_tail r)"
  have s: "0 < ?s" "length (rb_buf r) = ?s" "?t < ?s" "unat (rb_head r) = (?t + n) mod ?s" "n \<le> ?s"
    using ok by (simp_all add: ring_ok_def)
  have t': "unat (rb_tail r') = (?t + 1) mod ?s"
    using unat_next_pos [OF s(3)] by (simp add: r'_def)
  have idx: "((?t + 1) mod ?s + i) mod ?s = (?t + Suc i) mod ?s" for i
    by (simp add: mod_simps)
  have "ring_ok r' (n - 1)"
    using s n t' idx [of "n - 1"] by (simp add: ring_ok_def r'_def)
  moreover have "ring_data r n = rb_buf r ! ?t # ring_data r' (n - 1)"
  proof -
    have "[0..<n] = 0 # map Suc [0..<n - 1]"
      using n by (cases n) (simp_all add: upt_conv_Cons map_Suc_upt del: upt_Suc)
    then show ?thesis
      using s(3) idx by (simp add: ring_data_def t' r'_def comp_def del: upt_Suc)
         (simp add: t' [unfolded r'_def, simplified] idx)
  qed
  ultimately show ?thesis ..
qed

section \<open>Sets of tasks by program counter\<close>

lemma pc_sets_upd:
  "put_go (p(t := q)) = (if \<exists>c. q = PutGo c then insert t (put_go p) else put_go p - {t})"
  "put_wait (p(t := q)) = (if \<exists>c. q = PutWait c then insert t (put_wait p) else put_wait p - {t})"
  "read_go (p(t := q)) = (if q = ReadGo then insert t (read_go p) else read_go p - {t})"
  "read_wait (p(t := q)) = (if q = ReadWait then insert t (read_wait p) else read_wait p - {t})"
  by (auto simp: put_go_def put_wait_def read_go_def read_wait_def)

lemma pc_sets_mem:
  "t \<in> put_go p \<longleftrightarrow> (\<exists>c. p t = PutGo c)" "t \<in> put_wait p \<longleftrightarrow> (\<exists>c. p t = PutWait c)"
  "t \<in> read_go p \<longleftrightarrow> p t = ReadGo" "t \<in> read_wait p \<longleftrightarrow> p t = ReadWait"
  by (simp_all add: put_go_def put_wait_def read_go_def read_wait_def)

text \<open>Waiting and signalling keep the permits and the queue in step with the program counters.\<close>

lemma abs_wait_waiters:
  assumes "sem_waiters a W" "t \<notin> W"
  shows "case abs_wait t a of
      (True, a') \<Rightarrow> sem_waiters a' W \<and> fst a = fst a' + 1
    | (False, a') \<Rightarrow> sem_waiters a' (insert t W) \<and> fst a = 0 \<and> fst a' = 0"
  using assms by (cases a) (auto simp: abs_wait_def sem_waiters_def)

lemma abs_signal_waiters:
  assumes "sem_waiters a W"
  shows "case abs_signal a of
      (None, a') \<Rightarrow> W = {} \<and> sem_waiters a' W \<and> fst a' = fst a + 1
    | (Some t, a') \<Rightarrow> t \<in> W \<and> sem_waiters a' (W - {t}) \<and> fst a' = fst a"
  using assms by (cases a) (auto simp: abs_signal_def sem_waiters_def split: list.splits)

lemma ring_sems [simp]:
  "ring_ok (r\<lparr>empty_sem := e\<rparr>) n = ring_ok r n" "ring_ok (r\<lparr>full_sem := e\<rparr>) n = ring_ok r n"
  "ring_data (r\<lparr>empty_sem := e\<rparr>) n = ring_data r n" "ring_data (r\<lparr>full_sem := e\<rparr>) n = ring_data r n"
  by (simp_all add: ring_ok_def ring_data_def)

lemma rb_init_inv:
  assumes "0 < sz"
  shows "rb_inv \<lparr>ring = ringbuffer_init sz, pc = (\<lambda>_. Idle), written = [], got = []\<rparr>"
proof -
  have "0 < unat sz"
    using assms by (simp add: unat_gt_0)
  then show ?thesis
    by (auto simp: rb_inv_def rb_ok_def ringbuffer_init_def ring_ok_def ring_data_def put_go_def put_wait_def
        read_go_def read_wait_def sem_waiters_def intro!: exI [of _ 0])
qed

lemma rb_put_begin_inv:
  assumes inv: "rb_inv s" and t: "pc s t = Idle" and b: "put_char_begin t (ring s) = (b, r)"
    and q: "q = (if b = Enter then PutGo c else PutWait c)"
  shows "b \<noteq> Return v \<and> rb_inv (s\<lparr>ring := r, pc := (pc s)(t := q)\<rparr>)"
proof -
  obtain n where "rb_ok s n"
    using inv by (auto simp: rb_inv_def)
  note n = rb_okD [OF this]
  have nt: "t \<notin> put_go (pc s)" "t \<notin> put_wait (pc s)" "t \<notin> read_go (pc s)" "t \<notin> read_wait (pc s)"
    using t by (simp_all add: pc_sets_mem)
  note w = abs_wait_waiters [OF n(9) nt(2)]
  obtain ok e where Pair: "abs_wait t (empty_sem (ring s)) = (ok, e)"
    by (rule prod.exhaust)
  then have r: "r = (ring s)\<lparr>empty_sem := e\<rparr>" "b = (if ok then Enter else Block)"
    using b n(3) by (auto simp: put_char_begin_def)
  show ?thesis
    unfolding rb_inv_def rb_ok_def
    by (rule conjI, use r in simp, rule exI [of _ n])
       (use n nt w Pair r q in \<open>cases ok; auto simp: pc_sets_upd\<close>)
qed

lemma rb_read_begin_inv:
  assumes inv: "rb_inv s" and t: "pc s t = Idle" and b: "read_char_begin t (ring s) = (b, r)"
    and q: "q = (if b = Enter then ReadGo else ReadWait)"
  shows "b \<noteq> Return v \<and> rb_inv (s\<lparr>ring := r, pc := (pc s)(t := q)\<rparr>)"
proof -
  obtain n where "rb_ok s n"
    using inv by (auto simp: rb_inv_def)
  note n = rb_okD [OF this]
  have nt: "t \<notin> put_go (pc s)" "t \<notin> put_wait (pc s)" "t \<notin> read_go (pc s)" "t \<notin> read_wait (pc s)"
    using t by (simp_all add: pc_sets_mem)
  note w = abs_wait_waiters [OF n(10) nt(4)]
  obtain ok e where Pair: "abs_wait t (full_sem (ring s)) = (ok, e)"
    by (rule prod.exhaust)
  then have r: "r = (ring s)\<lparr>full_sem := e\<rparr>" "b = (if ok then Enter else Block)"
    using b n(4) by (auto simp: read_char_begin_def)
  show ?thesis
    unfolding rb_inv_def rb_ok_def
    by (rule conjI, use r in simp, rule exI [of _ n])
       (use n nt w Pair r q in \<open>cases ok; auto simp: pc_sets_upd\<close>)
qed

lemma rb_put_finish_inv:
  assumes inv: "rb_inv s" and t: "pc s t = PutGo c" and f: "put_char_finish False c (ring s) = (v, w, r)"
  shows "v = 1 \<and> rb_inv (s\<lparr>ring := r, pc := wake_pc w ((pc s)(t := Idle)), written := written s @ [c]\<rparr>)"
proof -
  obtain n where "rb_ok s n"
    using inv by (auto simp: rb_inv_def)
  note n = rb_okD [OF this]
  have nt: "t \<in> put_go (pc s)" "t \<notin> put_wait (pc s)" "t \<notin> read_go (pc s)" "t \<notin> read_wait (pc s)"
    using t by (simp_all add: pc_sets_mem)
  have pos: "0 < card (put_go (pc s))"
    using nt(1) n(5) by (metis card_gt_0_iff empty_iff)
  then have lt: "n < unat (rb_size (ring s))"
    using n(7) by linarith
  obtain fs where sig: "abs_signal (full_sem (ring s)) = (w, fs)" and v: "v = 1"
    and r: "r = (ring s)\<lparr>rb_buf := (rb_buf (ring s))[unat (rb_head (ring s)) := c],
      rb_head := BUFFER_NEXT_POS (rb_size (ring s)) (rb_head (ring s)), full_sem := fs\<rparr>"
    using f n(3) by (auto simp: put_char_finish_def split: prod.splits)
  note rp = ring_put [OF n(1) lt r]
  note ws = abs_signal_waiters [OF n(10)]
  have eq: "rb_size r = rb_size (ring s)" "empty_sem r = empty_sem (ring s)" "full_sem r = fs"
      "rclosed r = rclosed (ring s)" "wclosed r = wclosed (ring s)"
    by (simp_all add: r)
  have cp: "card (put_go (pc s) - {t}) = card (put_go (pc s)) - 1"
    using nt(1) n(5) by simp
  show ?thesis
  proof (cases w)
    case None
    show ?thesis
      unfolding rb_inv_def rb_ok_def
      by (rule conjI, rule v, rule exI [of _ "n + 1"])
         (use n nt ws rp pos cp eq sig None in \<open>auto simp: pc_sets_upd wake_pc_def\<close>)
  next
    case (Some u)
    then have u: "u \<in> read_wait (pc s)" "sem_waiters fs (read_wait (pc s) - {u})" "fst fs = fst (full_sem (ring s))"
      using ws sig by auto
    then have u': "pc s u = ReadWait" "u \<noteq> t"
      using t by (auto simp: pc_sets_mem)
    show ?thesis
      unfolding rb_inv_def rb_ok_def
      by (rule conjI, rule v, rule exI [of _ "n + 1"])
         (use n nt u u' rp pos cp eq Some in \<open>auto simp: pc_sets_upd wake_pc_def pc_sets_mem\<close>)
  qed
qed

lemma rb_read_finish_inv:
  assumes inv: "rb_inv s" and t: "pc s t = ReadGo" and f: "read_char_finish False (ring s) = ((v, ch), w, r)"
  shows "\<exists>c. v = 1 \<and> ch = Some c \<and> rb_inv (s\<lparr>ring := r, pc := wake_pc w ((pc s)(t := Idle)), got := got s @ [c]\<rparr>)"
proof -
  obtain n where "rb_ok s n"
    using inv by (auto simp: rb_inv_def)
  note n = rb_okD [OF this]
  have nt: "t \<notin> put_go (pc s)" "t \<notin> put_wait (pc s)" "t \<in> read_go (pc s)" "t \<notin> read_wait (pc s)"
    using t by (simp_all add: pc_sets_mem)
  have "0 < card (read_go (pc s))"
    using nt(3) n(6) by (metis card_gt_0_iff empty_iff)
  then have pos: "0 < n" "0 < card (read_go (pc s))"
    using n(8) by linarith+
  let ?c = "rb_buf (ring s) ! unat (rb_tail (ring s))"
  obtain es where sig: "abs_signal (empty_sem (ring s)) = (w, es)" and v: "v = 1" "ch = Some ?c"
    and r: "r = (ring s)\<lparr>rb_tail := BUFFER_NEXT_POS (rb_size (ring s)) (rb_tail (ring s)), empty_sem := es\<rparr>"
    using f n(4) by (auto simp: read_char_finish_def split: prod.splits)
  note rg = ring_get [OF n(1) pos(1) r]
  note ws = abs_signal_waiters [OF n(9)]
  have eq: "rb_size r = rb_size (ring s)" "empty_sem r = es" "full_sem r = full_sem (ring s)"
      "rclosed r = rclosed (ring s)" "wclosed r = wclosed (ring s)"
    by (simp_all add: r)
  have cp: "card (read_go (pc s) - {t}) = card (read_go (pc s)) - 1"
    using nt(3) n(6) by simp
  have "rb_inv (s\<lparr>ring := r, pc := wake_pc w ((pc s)(t := Idle)), got := got s @ [?c]\<rparr>)"
  proof (cases w)
    case None
    show ?thesis
      unfolding rb_inv_def rb_ok_def
      by (rule exI [of _ "n - 1"])
         (use n nt ws rg pos cp eq sig None in \<open>auto simp: pc_sets_upd wake_pc_def\<close>)
  next
    case (Some u)
    then have u: "u \<in> put_wait (pc s)" "sem_waiters es (put_wait (pc s) - {u})" "fst es = fst (empty_sem (ring s))"
      using ws sig by auto
    then obtain d where u': "pc s u = PutWait d"
      by (auto simp: pc_sets_mem)
    then have "u \<noteq> t"
      using t by auto
    show ?thesis
      unfolding rb_inv_def rb_ok_def
      by (rule exI [of _ "n - 1"])
         (use \<open>u \<noteq> t\<close> n nt u u' rg pos cp eq Some in \<open>auto simp: pc_sets_upd wake_pc_def pc_sets_mem\<close>)
  qed
  then show ?thesis
    using v by blast
qed

lemma rb_step_inv: "rb_step s s' \<Longrightarrow> rb_inv s \<Longrightarrow> rb_inv s'"
proof (induction rule: rb_step.induct)
  case (put_enter s t r c)
  then show ?case
    using rb_put_begin_inv [of s t Enter r "PutGo c" c] by simp
next
  case (put_block s t r c)
  then show ?case
    using rb_put_begin_inv [of s t Block r "PutWait c" c] by simp
next
  case (put_finish s t c w r)
  then show ?case
    using rb_put_finish_inv [of s t c 1 w r] by simp
next
  case (read_enter s t r)
  then show ?case
    using rb_read_begin_inv [of s t Enter r ReadGo] by simp
next
  case (read_block s t r)
  then show ?case
    using rb_read_begin_inv [of s t Block r ReadWait] by simp
next
  case (read_finish s t c w r)
  then show ?case
    using rb_read_finish_inv [of s t 1 "Some c" w r] by auto
qed

lemma rb_reach_inv:
  assumes "rb_reach sz s" and "0 < sz"
  shows "rb_inv s \<and> rb_size (ring s) = sz"
  using assms
proof (induction rule: rb_reach.induct)
  case init
  then show ?case
    using rb_init_inv by (simp add: ringbuffer_init_def)
next
  case (step s s')
  moreover have "rb_size (ring s') = rb_size (ring s)"
    using step.hyps(2)
    by (induction rule: rb_step.induct)
       (auto simp: put_char_begin_def put_char_finish_def read_char_begin_def read_char_finish_def
         split: if_splits prod.splits)
  ultimately show ?case
    using rb_step_inv by simp
qed

section \<open>One task at a time\<close>

text \<open>The ring when no call is in progress: nobody waits, and \<open>full_sem\<close> has at least \<open>n\<close> permits.\<close>

definition quiet :: "ringbuffer \<Rightarrow> nat \<Rightarrow> bool" where
  "quiet r n = (ring_ok r n \<and> snd (empty_sem r) = [] \<and> snd (full_sem r) = [] \<and> n \<le> fst (full_sem r)
     \<and> (rclosed r \<or> unat (rb_size r) = fst (empty_sem r) + n))"

lemma quiet_init: "0 < sz \<Longrightarrow> quiet (ringbuffer_init sz) 0"
  by (simp add: quiet_def ringbuffer_init_def ring_ok_def unat_gt_0)

lemma quiet_close:
  assumes "quiet r n"
  shows "quiet (snd (ringbuffer_close rw r)) n" "ring_data (snd (ringbuffer_close rw r)) n = ring_data r n"
    "fst (ringbuffer_close rw r) = []"
    "wclosed (snd (ringbuffer_close rw r)) = (wclosed r \<or> rw = RBUF_WRITE)"
    "rb_size (snd (ringbuffer_close rw r)) = rb_size r"
  using assms
  by (cases rw; auto simp: quiet_def ringbuffer_close_def abs_signalall_def ring_ok_def ring_data_def)+

lemma isempty_iff:
  assumes "ring_ok r n"
  shows "BUFFER_ISEMPTY r \<longleftrightarrow> n = 0 \<or> n = unat (rb_size r)"
proof -
  let ?s = "unat (rb_size r)" and ?t = "unat (rb_tail r)"
  have ok: "0 < ?s" "?t < ?s" "unat (rb_head r) = (?t + n) mod ?s" "n \<le> ?s"
    using assms by (simp_all add: ring_ok_def)
  have "BUFFER_ISEMPTY r \<longleftrightarrow> unat (rb_head r) = ?t"
    by (simp add: BUFFER_ISEMPTY_def word_unat_eq_iff)
  also have "\<dots> \<longleftrightarrow> (?t + n) mod ?s = ?t"
    by (simp add: ok(3))
  also have "\<dots> \<longleftrightarrow> n = 0 \<or> n = ?s"
    using mod_offset_inj [of 0 n ?s ?t] ok by (cases "n = ?s"; cases "n = 0") auto
  finally show ?thesis .
qed

lemma put_char_quiet:
  assumes q: "quiet r n" and n: "n < unat (rb_size r)" and opened: "\<not> rclosed r"
  shows "\<exists>r'. ringbuffer_put_char t False c r = Some (1, None, r') \<and> quiet r' (n + 1)
    \<and> ring_data r' (n + 1) = ring_data r n @ [c] \<and> rb_size r' = rb_size r
    \<and> rclosed r' = rclosed r \<and> wclosed r' = wclosed r"
proof -
  obtain e f where sems: "empty_sem r = (Suc e, [])" "full_sem r = (f, [])" "unat (rb_size r) = Suc e + n" "n \<le> f"
    using q n opened by (cases "empty_sem r"; cases "full_sem r"; cases "fst (empty_sem r)") (auto simp: quiet_def)
  let ?r = "r\<lparr>empty_sem := (e, [])\<rparr>"
  have b: "put_char_begin t r = (Enter, ?r)"
    using sems opened by (simp add: put_char_begin_def abs_wait_def)
  let ?r' = "?r\<lparr>rb_buf := (rb_buf ?r)[unat (rb_head ?r) := c],
      rb_head := BUFFER_NEXT_POS (rb_size ?r) (rb_head ?r), full_sem := (f + 1, [])\<rparr>"
  have "ring_ok ?r n"
    using q by (simp add: quiet_def)
  from ring_put [OF this _ refl, where c = c and f = "(f + 1, [])"] n
  have "ring_ok ?r' (n + 1) \<and> ring_data ?r' (n + 1) = ring_data ?r n @ [c]"
    by simp
  moreover have "ringbuffer_put_char t False c r = Some (1, None, ?r')"
    using b sems opened by (simp add: ringbuffer_put_char_def put_char_finish_def abs_signal_def)
  ultimately show ?thesis
    using sems by (auto simp: quiet_def)
qed

lemma read_char_quiet:
  assumes q: "quiet r n" and n: "0 < n" and w: "wclosed r \<longrightarrow> n < unat (rb_size r)"
  shows "\<exists>r'. ringbuffer_read_char t False r = Some ((1, Some (hd (ring_data r n))), None, r') \<and> quiet r' (n - 1)
    \<and> ring_data r n = hd (ring_data r n) # ring_data r' (n - 1) \<and> rb_size r' = rb_size r
    \<and> wclosed r' = wclosed r"
proof -
  obtain e f where sems: "empty_sem r = (e, [])" "full_sem r = (Suc f, [])" "n \<le> Suc f"
      "rclosed r \<or> unat (rb_size r) = e + n"
    using q n by (cases "empty_sem r"; cases "full_sem r"; cases "fst (full_sem r)") (auto simp: quiet_def)
  have ok: "ring_ok r n"
    using q by (simp add: quiet_def)
  have ne: "\<not> (BUFFER_ISEMPTY r \<and> wclosed r)"
    using isempty_iff [OF ok] n w by auto
  let ?r = "r\<lparr>full_sem := (f, [])\<rparr>"
  have b: "read_char_begin t r = (Enter, ?r)"
    using sems ne by (auto simp: read_char_begin_def abs_wait_def)
  let ?r' = "?r\<lparr>rb_tail := BUFFER_NEXT_POS (rb_size ?r) (rb_tail ?r), empty_sem := (e + 1, [])\<rparr>"
  have "ring_ok ?r n"
    using ok by simp
  from ring_get [OF this n refl, where e = "(e + 1, [])"]
  have d: "ring_ok ?r' (n - 1) \<and> ring_data r n = rb_buf r ! unat (rb_tail r) # ring_data ?r' (n - 1)"
    by simp
  have "\<not> (BUFFER_ISEMPTY ?r \<and> wclosed ?r)"
    using ne by (simp add: BUFFER_ISEMPTY_def)
  then have "ringbuffer_read_char t False r = Some ((1, Some (rb_buf r ! unat (rb_tail r))), None, ?r')"
    using b sems by (auto simp: ringbuffer_read_char_def read_char_finish_def abs_signal_def)
  then show ?thesis
    using d sems n by (auto simp: quiet_def)
qed

lemma length_ring_data [simp]: "length (ring_data r n) = n"
  by (simp add: ring_data_def)

lemma pipe_write_quiet:
  assumes "quiet r n" and "n + length cs \<le> unat (rb_size r)" and "\<not> rclosed r"
  shows "\<exists>r'. pipe_write_loop t cs r = (length cs, True, r') \<and> quiet r' (n + length cs)
    \<and> ring_data r' (n + length cs) = ring_data r n @ cs \<and> rb_size r' = rb_size r \<and> wclosed r' = wclosed r"
  using assms
proof (induction cs arbitrary: r n)
  case (Cons c cs)
  obtain r1 where r1: "ringbuffer_put_char t False c r = Some (1, None, r1)" "quiet r1 (n + 1)"
      "ring_data r1 (n + 1) = ring_data r n @ [c]" "rb_size r1 = rb_size r" "rclosed r1 = rclosed r"
      "wclosed r1 = wclosed r"
    using put_char_quiet [of r n t c] Cons.prems by auto
  then show ?case
    using Cons.IH [of r1 "n + 1"] Cons.prems by auto
qed simp

lemma pipe_read_quiet:
  assumes "quiet r n" and "k \<le> n" and "wclosed r \<longrightarrow> n < unat (rb_size r)"
  shows "\<exists>r'. pipe_read_loop t k r = (take k (ring_data r n), True, r') \<and> quiet r' (n - k)
    \<and> ring_data r' (n - k) = drop k (ring_data r n) \<and> rb_size r' = rb_size r \<and> wclosed r' = wclosed r"
  using assms
proof (induction k arbitrary: r n)
  case (Suc k)
  obtain r1 where r1: "ringbuffer_read_char t False r = Some ((1, Some (hd (ring_data r n))), None, r1)"
      "quiet r1 (n - 1)" "ring_data r n = hd (ring_data r n) # ring_data r1 (n - 1)" "rb_size r1 = rb_size r"
      "wclosed r1 = wclosed r"
    using read_char_quiet [of r n t] Suc.prems by auto
  obtain r' where r': "pipe_read_loop t k r1 = (take k (ring_data r1 (n - 1)), True, r')" "quiet r' (n - 1 - k)"
      "ring_data r' (n - 1 - k) = drop k (ring_data r1 (n - 1))" "rb_size r' = rb_size r1" "wclosed r' = wclosed r1"
    using Suc.IH [OF r1(2)] Suc.prems r1(4,5) by force
  show ?case
    using r1(1,4,5) r' by (subst (1 2) r1(3)) simp
qed simp

text \<open>With the write end closed and less than a full buffer, reading on gives the rest and then ends.\<close>

lemma pipe_read_to_end:
  assumes "quiet r n" and "n < k" and "wclosed r" and "n < unat (rb_size r)"
  shows "\<exists>r'. pipe_read_loop t k r = (ring_data r n, True, r')"
  using assms
proof (induction k arbitrary: r n)
  case (Suc k)
  show ?case
  proof (cases "n = 0")
    case True
    then have "BUFFER_ISEMPTY r"
      using isempty_iff [of r n] Suc.prems by (simp add: quiet_def)
    then show ?thesis
      using True Suc.prems by (simp add: ringbuffer_read_char_def read_char_begin_def ring_data_def)
  next
    case False
    obtain r1 where r1: "ringbuffer_read_char t False r = Some ((1, Some (hd (ring_data r n))), None, r1)"
        "quiet r1 (n - 1)" "ring_data r n = hd (ring_data r n) # ring_data r1 (n - 1)" "rb_size r1 = rb_size r"
        "wclosed r1 = wclosed r"
      using read_char_quiet [of r n t] Suc.prems False by auto
    obtain r' where "pipe_read_loop t k r1 = (ring_data r1 (n - 1), True, r')"
      using Suc.IH [OF r1(2)] Suc.prems r1(4,5) False by force
    then show ?thesis
      using r1(1) by (subst r1(3)) simp
  qed
qed simp

section \<open>Properties\<close>



text \<open>
  A pipe hands over what was written: after \<open>pipe_write\<close> of at most the free space, \<open>pipe_read\<close> of as
  many bytes returns them, and once the write end is closed a longer \<open>pipe_read\<close> returns exactly the
  remaining bytes and ends without blocking, as long as the buffer is not completely full. Negative
  counts are refused with \<open>-1\<close>.
\<close>

theorem pipe_roundtrip:
  assumes "0 < sz" and "length cs \<le> unat sz" and "k \<le> length cs"
  shows "\<exists>r r'. pipe_write t cs (int (length cs)) (ringbuffer_init sz) = (int (length cs), True, r)
    \<and> pipe_read t' (int k) r = (int k, take k cs, True, r')
    \<and> (length cs < unat sz \<longrightarrow>
        (\<forall>m > length cs. \<exists>r''. pipe_read t' (int m) (snd (snd (pipe_close True r))) = (int (length cs), cs, True, r'')))
    \<and> fst (pipe_write t cs (-1) r) = -1 \<and> fst (pipe_read t (-1) r) = -1"
proof -
  have sz: "rb_size (ringbuffer_init sz) = sz" "\<not> rclosed (ringbuffer_init sz)" "\<not> wclosed (ringbuffer_init sz)"
      "ring_data (ringbuffer_init sz) 0 = []"
    by (simp_all add: ringbuffer_init_def ring_data_def)
  obtain r where r: "pipe_write_loop t cs (ringbuffer_init sz) = (length cs, True, r)" "quiet r (length cs)"
      "ring_data r (length cs) = cs" "rb_size r = sz" "\<not> wclosed r"
    using pipe_write_quiet [OF quiet_init [OF assms(1)], of cs t] assms(2) sz by auto
  obtain r' where r': "pipe_read_loop t' k r = (take k cs, True, r')"
    using pipe_read_quiet [OF r(2) assms(3), of t'] r by auto
  let ?c = "snd (ringbuffer_close RBUF_WRITE r)"
  have "\<exists>r''. pipe_read_loop t' m ?c = (cs, True, r'')" if "length cs < m" "length cs < unat sz" for m
    using pipe_read_to_end [OF quiet_close(1) [OF r(2), of RBUF_WRITE] that(1)]
      quiet_close(2,4,5) [OF r(2), of RBUF_WRITE] r that by auto
  then have "\<exists>r''. pipe_read t' (int m) (snd (snd (pipe_close True r))) = (int (length cs), cs, True, r'')"
    if "length cs < m" "length cs < unat sz" for m
    using that by (fastforce simp: pipe_read_def pipe_close_def split: prod.splits)
  then show ?thesis
    using r r' assms(3) by (auto simp: pipe_write_def pipe_read_def min_def)
qed

theorem pipe_roundtrip_witness:
  "\<exists>r r'. pipe_write 1 [72, 105] 2 (ringbuffer_init 4096) = (2, True, r) \<and> pipe_read 2 2 r = (2, [72, 105], True, r')"
  using pipe_roundtrip [of 4096 "[72, 105]" 2 1 2] by auto

text \<open>
  A full buffer is taken for an empty one: \<open>empty_sem\<close> lets writers fill all \<open>size\<close> slots, after
  which \<open>head\<close> equals \<open>tail\<close>; when the write end is closed then, \<open>pipe_read\<close> returns 0 and all \<open>size\<close> bytes
  are lost to the reader.
\<close>

theorem full_pipe_loses_data:
  assumes "0 < sz" and "length cs = unat sz" and "0 < m"
  shows "\<exists>r r''. pipe_write t cs (int (length cs)) (ringbuffer_init sz) = (int (length cs), True, r)
    \<and> ring_data r (unat sz) = cs \<and> ringbuffer_isempty r
    \<and> pipe_read t' m (snd (snd (pipe_close True r))) = (0, [], True, r'')"
proof -
  have sz: "rb_size (ringbuffer_init sz) = sz" "\<not> rclosed (ringbuffer_init sz)" "\<not> wclosed (ringbuffer_init sz)"
      "ring_data (ringbuffer_init sz) 0 = []"
    by (simp_all add: ringbuffer_init_def ring_data_def)
  obtain r where r: "pipe_write_loop t cs (ringbuffer_init sz) = (length cs, True, r)" "quiet r (length cs)"
      "ring_data r (length cs) = cs" "rb_size r = sz"
    using pipe_write_quiet [OF quiet_init [OF assms(1)], of cs t] assms(2) sz by auto
  let ?c = "snd (ringbuffer_close RBUF_WRITE r)"
  have full: "BUFFER_ISEMPTY x" if "quiet x (length cs)" "rb_size x = sz" for x
    using isempty_iff [of x "length cs"] that assms(2) by (simp add: quiet_def)
  have "BUFFER_ISEMPTY ?c" "wclosed ?c"
    using full [of ?c] quiet_close [OF r(2), of RBUF_WRITE] r(4) by auto
  moreover obtain k where "nat m = Suc k"
    using assms(3) by (metis gr0_implies_Suc zero_less_nat_eq)
  ultimately have "pipe_read_loop t' (nat m) ?c = ([], True, ?c)"
    by (simp add: ringbuffer_read_char_def read_char_begin_def)
  then show ?thesis
    using r full [OF r(2,4)] assms
    by (simp add: pipe_write_def pipe_read_def pipe_close_def ringbuffer_isempty_def case_prod_beta)
qed

theorem full_pipe_loses_data_witness:
  "\<exists>r r''. pipe_write 1 [1, 2] 2 (ringbuffer_init 2) = (2, True, r) \<and> ring_data r 2 = [1, 2]
     \<and> pipe_read 2 10 (snd (snd (pipe_close True r))) = (0, [], True, r'')"
  using full_pipe_loses_data [of 2 "[1, 2]" 10 1 2] by auto

end
