(* ===== verification/Console.thy ===== *)
theory Console
  imports RingBuffer Inode Printf
begin

text \<open>
  The keyboard driver \<open>kernel/device/keyboard.c\<close> and the console \<open>kernel/device/console.c\<close>: the interrupt handler turns scan codes into characters of a
  ring buffer, \<open>console_readline\<close> edits a line from it, \<open>console_read\<close> hands the line out in pieces.

  A call that waits for a key inside \<open>sem_wait\<close> is reported as blocked. The screen is the sequence of the calls of \<open>put_char\<close> and \<open>set_cursor\<close>, which
  are assembly. The ring buffer and its semaphores are those of theory \<open>RingBuffer\<close>, the inode of the console file is one of theory \<open>Inode\<close>.
\<close>

section \<open>The keyboard\<close>

definition INPUT_BUFFER_SIZE :: u32 where "INPUT_BUFFER_SIZE = 256"
definition MAKECODE_LEFT_SHIFT :: u16 where "MAKECODE_LEFT_SHIFT = 0x2a"
definition MAKECODE_RIGHT_SHIFT :: u16 where "MAKECODE_RIGHT_SHIFT = 0x36"
definition MAKECODE_LEFT_ALT :: u16 where "MAKECODE_LEFT_ALT = 0x38"
definition MAKECODE_RIGHT_ALT :: u16 where "MAKECODE_RIGHT_ALT = 0xe038"
definition MAKECODE_LEFT_CTRL :: u16 where "MAKECODE_LEFT_CTRL = 0x1d"
definition MAKECODE_RIGHT_CTRL :: u16 where "MAKECODE_RIGHT_CTRL = 0xe01d"
definition MAKECODE_CAPS_LOCK :: u16 where "MAKECODE_CAPS_LOCK = 0x3a"

lemmas makecodes = MAKECODE_LEFT_SHIFT_def MAKECODE_RIGHT_SHIFT_def MAKECODE_LEFT_ALT_def MAKECODE_RIGHT_ALT_def MAKECODE_LEFT_CTRL_def
  MAKECODE_RIGHT_CTRL_def MAKECODE_CAPS_LOCK_def

record key_status =
  ctrl_pressed :: bool
  shift_pressed :: bool
  alt_pressed :: bool
  caps_lock_pressed :: bool
  ext_scancode :: bool

record keyboard =
  status :: key_status
  input_ringbuffer :: ringbuffer

definition shift_keymap :: "(u8 \<times> u8) list" where
  "shift_keymap =
    [(0, 0), (27, 27), (49, 33), (50, 64), (51, 35), (52, 36), (53, 37), (54, 94), (55, 38), (56, 42), (57, 40), (48, 41),
     (45, 95), (61, 43), (8, 8), (9, 9), (113, 81), (119, 87), (101, 69), (114, 82), (116, 84), (121, 89), (117, 117), (105, 73),
     (111, 79), (112, 80), (91, 123), (93, 125), (13, 13), (0, 0), (97, 65), (115, 83), (100, 68), (102, 70), (103, 71),
     (104, 72), (106, 74), (107, 75), (108, 76), (59, 58), (39, 34), (96, 126), (0, 0), (92, 124), (122, 90), (120, 88),
     (99, 67), (118, 86), (98, 66), (110, 78), (109, 77), (44, 60), (46, 62), (47, 63), (0, 0), (42, 42), (0, 0), (32, 32), (0, 0)]"

definition reset_status :: "u16 \<Rightarrow> bool \<Rightarrow> key_status \<Rightarrow> key_status" where
  "reset_status make_code is_break_code st =
     (if make_code = MAKECODE_LEFT_CTRL \<or> make_code = MAKECODE_RIGHT_CTRL then st\<lparr>ctrl_pressed := \<not> is_break_code\<rparr>
      else if make_code = MAKECODE_LEFT_SHIFT \<or> make_code = MAKECODE_RIGHT_SHIFT then st\<lparr>shift_pressed := \<not> is_break_code\<rparr>
      else if make_code = MAKECODE_LEFT_ALT \<or> make_code = MAKECODE_RIGHT_ALT then st\<lparr>alt_pressed := \<not> is_break_code\<rparr>
      else if make_code = MAKECODE_CAPS_LOCK \<and> \<not> is_break_code then st\<lparr>caps_lock_pressed := \<not> caps_lock_pressed st\<rparr>
      else st)"

text \<open>
  The handler, run by the task \<open>t\<close> that was interrupted, with the byte from the keyboard port. \<open>None\<close>: it would block in \<open>ringbuffer_put_char\<close>.
\<close>

definition keyboard_intr_handler :: "nat \<Rightarrow> bool \<Rightarrow> u8 \<Rightarrow> keyboard \<Rightarrow> keyboard option" where
  "keyboard_intr_handler t killed port kb =
     (let scancode = ucast port :: u16; st = status kb in
      if scancode = 0xe0 then Some (kb\<lparr>status := st\<lparr>ext_scancode := True\<rparr>\<rparr>)
      else
        let (scancode, st) = (if ext_scancode st then (0xe000 OR scancode, st\<lparr>ext_scancode := False\<rparr>) else (scancode, st)) in
        if scancode AND 0x0080 \<noteq> 0 then Some (kb\<lparr>status := reset_status (scancode AND 0xff7f) True st\<rparr>)
        else if (scancode = 0 \<or> scancode > 0x3A) \<and> scancode \<noteq> MAKECODE_RIGHT_ALT \<and> scancode \<noteq> MAKECODE_RIGHT_CTRL then Some (kb\<lparr>status := st\<rparr>)
        else
          let scancode = scancode AND 0x00FF;
              ch = fst (shift_keymap ! unat scancode);
              shift = (if ch \<ge> 97 \<and> ch \<le> 122 then shift_pressed st \<noteq> caps_lock_pressed st else shift_pressed st \<or> caps_lock_pressed st);
              ch = (if shift then snd else fst) (shift_keymap ! unat scancode)
          in if ch \<noteq> 0 then
               let ch = (if ch = 13 then 10 else ch);
                   ch = (if ch = 100 \<and> ctrl_pressed st then 0 else ch)
               in if \<not> ringbuffer_isfull (input_ringbuffer kb) then do {
                    (v, woken, r) \<leftarrow> ringbuffer_put_char t killed ch (input_ringbuffer kb);
                    Some (kb\<lparr>status := st, input_ringbuffer := r\<rparr>)
                  } else Some (kb\<lparr>status := st\<rparr>)
             else Some (kb\<lparr>status := reset_status scancode False st\<rparr>))"

definition keyboard_read :: "nat \<Rightarrow> bool \<Rightarrow> keyboard \<Rightarrow> ((int \<times> u8 option) \<times> nat option \<times> ringbuffer) option" where
  "keyboard_read t killed kb = ringbuffer_read_char t killed (input_ringbuffer kb)"

definition keyboard_init :: keyboard where
  "keyboard_init = \<lparr>status = \<lparr>ctrl_pressed = False, shift_pressed = False, alt_pressed = False, caps_lock_pressed = False, ext_scancode = False\<rparr>,
     input_ringbuffer = ringbuffer_init INPUT_BUFFER_SIZE\<rparr>"

section \<open>The console\<close>

datatype screen = Put u8 | Cursor int

text \<open>
  The variable \<open>inputbuf\<close> and the output. A store behind the 1024 bytes of \<open>buf\<close> hits the field \<open>p\<close>, which \<open>console_readline\<close> sets afterwards.
\<close>

record console =
  inbuf :: "u8 list"
  inp :: nat
  insize :: nat
  shown :: "screen list"

definition WARN_FULL :: "u8 list" where
  "WARN_FULL = map of_char ''Warn: the line buffer is full.'' @ [10]"

text \<open>One pass of the loop of \<open>console_readline\<close>, with what \<open>keyboard_read\<close> returned; \<open>p\<close> is an index. The result says whether the loop ends.\<close>

definition readline_pass :: "u8 option \<Rightarrow> nat \<Rightarrow> console \<Rightarrow> bool \<times> nat \<times> console" where
  "readline_pass r p c =
     (case r of
        None \<Rightarrow> (True, p + 1, c\<lparr>inbuf := (inbuf c)[p := 0]\<rparr>)
      | Some ch \<Rightarrow>
          if p \<ge> 1024 then (True, p, c\<lparr>shown := shown c @ map Put WARN_FULL\<rparr>)
          else if ch = 10 then (True, p + 1, c\<lparr>inbuf := (inbuf c)[p := ch], shown := shown c @ [Put ch]\<rparr>)
          else if ch = 0 then (True, p + 1, c\<lparr>inbuf := (inbuf c)[p := ch]\<rparr>)
          else if ch = 8 then
            (if p \<noteq> 0 then (False, p - 1, c\<lparr>inbuf := (inbuf c)[p := 0], shown := shown c @ [Put 8]\<rparr>) else (False, p, c))
          else (False, p + 1, c\<lparr>inbuf := (inbuf c)[p := ch], shown := shown c @ [Put ch]\<rparr>))"

text \<open>The loop: \<open>None\<close> when it blocks in \<open>keyboard_read\<close>. Each pass takes a permit of the semaphore \<open>full\<close>, so it ends.\<close>

lemma read_char_permit:
  assumes "ringbuffer_read_char t killed r = Some ((v, Some ch), woken, r')"
  shows "fst (full_sem r') < fst (full_sem r)"
  using assms
  by (auto simp: ringbuffer_read_char_def read_char_begin_def read_char_finish_def abs_wait_def split: if_splits prod.splits rb_begin.splits)

function readline_loop :: "nat \<Rightarrow> bool \<Rightarrow> keyboard \<Rightarrow> nat \<Rightarrow> console \<Rightarrow> (keyboard \<times> nat \<times> console) option" where
  "readline_loop t killed kb p c =
     (case keyboard_read t killed kb of
        None \<Rightarrow> None
      | Some ((v, ch), woken, r) \<Rightarrow>
          (case readline_pass ch p c of
             (stop, p1, c1) \<Rightarrow>
               if stop then Some (kb\<lparr>input_ringbuffer := r\<rparr>, p1, c1)
               else readline_loop t killed (kb\<lparr>input_ringbuffer := r\<rparr>) p1 c1))"
  by pat_completeness auto
termination
  by (relation "measure (\<lambda>(t, killed, kb, p, c). fst (full_sem (input_ringbuffer kb)))")
     (auto simp: keyboard_read_def readline_pass_def dest!: read_char_permit split: option.splits)

declare readline_loop.simps [simp del]

definition console_readline :: "nat \<Rightarrow> bool \<Rightarrow> keyboard \<Rightarrow> console \<Rightarrow> (keyboard \<times> console) option" where
  "console_readline t killed kb c = do {
     (kb1, p, c1) \<leftarrow> readline_loop t killed kb 0 c;
     Some (kb1, c1\<lparr>inbuf := (inbuf c1)[p := 0], insize := p, inp := 0\<rparr>)
   }"

text \<open>
  \<open>console_read\<close> on the inode \<open>i\<close> of the console file: the result and the bytes stored. The outer \<open>None\<close> is a panic of the inode's lock, the inner one a
  call that blocks.
\<close>

definition console_read :: "nat \<Rightarrow> bool \<Rightarrow> nat \<Rightarrow> int \<Rightarrow> keyboard \<Rightarrow> console \<Rightarrow> fs \<Rightarrow> ((int \<times> u8 list) \<times> keyboard \<times> console \<times> fs) option option" where
  "console_read t killed i nbytes kb c s =
     (if nbytes \<le> 0 then Some (Some ((0, []), kb, c, s))
      else do {
        s1 \<leftarrow> inode_unlock i s;
        (case (if insize c = 0 then console_readline t killed kb c else Some (kb, c)) of
           None \<Rightarrow> Some None
         | Some (kb1, c1) \<Rightarrow> do {
             let sz = min (insize c1) (nat nbytes);
             let str = take sz (drop (inp c1) (inbuf c1));
             s2 \<leftarrow> inode_lock i s1;
             Some (Some ((int sz, str), kb1, c1\<lparr>inp := inp c1 + sz, insize := insize c1 - sz\<rparr>, s2))
           })
      })"

definition console_write :: "u8 list \<Rightarrow> int \<Rightarrow> console \<Rightarrow> int \<times> console" where
  "console_write str nbytes c = (if nbytes < 0 then (-1, c) else (nbytes, c\<lparr>shown := shown c @ map Put (take (nat nbytes) str)\<rparr>))"

fun cprint_loop :: "u8 list \<Rightarrow> int \<Rightarrow> console \<Rightarrow> int \<times> console" where
  "cprint_loop [] k c = (k, c)"
| "cprint_loop (ch # s) k c = (if ch \<noteq> 0 then cprint_loop s (k + 1) (c\<lparr>shown := shown c @ [Put ch]\<rparr>) else (k, c))"

definition cprint :: "u8 list \<Rightarrow> console \<Rightarrow> int \<times> console" where
  "cprint str c = cprint_loop str 0 c"

definition cprintf :: "u8 list \<Rightarrow> varg list \<Rightarrow> console \<Rightarrow> (int \<times> console) option" where
  "cprintf fmt args c = do { buf \<leftarrow> vsprintf fmt args; kassert (length buf < 1024); Some (cprint (buf @ [0]) c) }"

definition clear_screen :: "console \<Rightarrow> console" where
  "clear_screen c = c\<lparr>shown := shown c @ [Cursor 0] @ replicate (80 * 25) (Put 32) @ [Cursor 0]\<rparr>"

section \<open>What the keys mean\<close>

text \<open>The specification of the handler: the character that a scan code gives, if any, and the new state of the modifier keys.\<close>

definition decode :: "u8 \<Rightarrow> key_status \<Rightarrow> u8 option \<times> key_status" where
  "decode port st =
     (if port = 0xe0 then (None, st\<lparr>ext_scancode := True\<rparr>)
      else
        let code = (if ext_scancode st then 0xe000 else 0) OR (ucast port :: u16); st = st\<lparr>ext_scancode := False\<rparr> in
        if code AND 0x80 \<noteq> 0 then (None, reset_status (code AND 0xff7f) True st)
        else if code \<in> {MAKECODE_RIGHT_ALT, MAKECODE_RIGHT_CTRL} \<or> 0 < code \<and> code \<le> 0x3a then
          let (low, high) = shift_keymap ! unat (code AND 0xff);
              letter = (97 \<le> low \<and> low \<le> 122);
              ch = (if (if letter then shift_pressed st \<noteq> caps_lock_pressed st else shift_pressed st \<or> caps_lock_pressed st) then high else low)
          in if ch = 0 then (None, reset_status (code AND 0xff) False st)
             else (Some (if ch = 13 then 10 else if ch = 100 \<and> ctrl_pressed st then 0 else ch), st)
        else (None, st))"

fun decode_all :: "u8 list \<Rightarrow> key_status \<Rightarrow> u8 list \<times> key_status" where
  "decode_all [] st = ([], st)"
| "decode_all (p # ps) st =
     (let (ch, st1) = decode p st; (chs, st2) = decode_all ps st1 in (case ch of None \<Rightarrow> chs | Some c \<Rightarrow> c # chs, st2))"

fun keyboard_run :: "nat \<Rightarrow> u8 list \<Rightarrow> keyboard \<Rightarrow> keyboard option" where
  "keyboard_run t [] kb = Some kb"
| "keyboard_run t (p # ps) kb = do { kb1 \<leftarrow> keyboard_intr_handler t False p kb; keyboard_run t ps kb1 }"

lemma ext_False: "\<not> ext_scancode st \<Longrightarrow> st\<lparr>ext_scancode := False\<rparr> = st"
  by simp

lemma handler_decode:
  "keyboard_intr_handler t killed port kb =
    (case decode port (status kb) of
       (None, st) \<Rightarrow> Some (kb\<lparr>status := st\<rparr>)
     | (Some ch, st) \<Rightarrow>
         if ringbuffer_isfull (input_ringbuffer kb) then Some (kb\<lparr>status := st\<rparr>)
         else do {
           (v, woken, r) \<leftarrow> ringbuffer_put_char t killed ch (input_ringbuffer kb);
           Some (kb\<lparr>status := st, input_ringbuffer := r\<rparr>)
         })"
proof -
  have "unat (ucast port :: u16) = unat port"
    using unsigned_less [where 'a = nat, of port] by (simp add: unsigned_ucast_eq take_bit_nat_eq_self)
  then have u: "(ucast port :: u16) = 0xe0 \<longleftrightarrow> port = 0xe0"
    by (simp add: word_unat_eq_iff)
  define st where "st = (status kb)\<lparr>ext_scancode := False\<rparr>"
  define code where "code = (if ext_scancode (status kb) then 0xe000 else 0) OR (ucast port :: u16)"
  have ext: "(if ext_scancode (status kb) then (0xe000 OR (ucast port :: u16), (status kb)\<lparr>ext_scancode := False\<rparr>) else (ucast port, status kb)) = (code, st)"
    by (simp add: code_def st_def)
  obtain low high where e: "shift_keymap ! unat (code AND 0xff) = (low, high)"
    by (rule prod.exhaust)
  define S where "S = (if 97 \<le> low \<and> low \<le> 122 then shift_pressed st \<noteq> caps_lock_pressed st else shift_pressed st \<or> caps_lock_pressed st)"
  define ch where "ch = (if S then high else low)"
  define K where "K = (code \<in> {MAKECODE_RIGHT_ALT, MAKECODE_RIGHT_CTRL} \<or> 0 < code \<and> code \<le> 0x3a)"
  have key: "((code = 0 \<or> code > 0x3A) \<and> code \<noteq> MAKECODE_RIGHT_ALT \<and> code \<noteq> MAKECODE_RIGHT_CTRL) = (\<not> K)"
    unfolding K_def using word_gt_0 [of code] by auto
  define P where "P = (code AND 0x80 = 0)"
  have c: "(if S then snd else fst) (low, high) = ch" "(if (if ch = 13 then 10 else ch) = 100 \<and> ctrl_pressed st then 0 else if ch = 13 then 10 else ch)
      = (if ch = 13 then 10 else if ch = 100 \<and> ctrl_pressed st then 0 else ch)"
    by (simp_all add: ch_def)
  show ?thesis
    unfolding keyboard_intr_handler_def decode_def Let_def u ext prod.case
    unfolding code_def [symmetric] st_def [symmetric]
    unfolding e fst_conv prod.case key K_def [symmetric] P_def [symmetric] S_def [symmetric]
    unfolding c(1) ch_def [symmetric] c(2)
    by (cases "port = 0xe0"; cases P; cases K; cases "ch = 0"; cases "ringbuffer_isfull (input_ringbuffer kb)"; simp only: if_True if_False simp_thms prod.case option.case if_not_P)
qed

section \<open>The keyboard against its specification\<close>

text \<open>The buffer of the keyboard holds the characters \<open>xs\<close> and nobody waits for one.\<close>

definition holds :: "keyboard \<Rightarrow> u8 list \<Rightarrow> bool" where
  "holds kb xs = (let r = input_ringbuffer kb in quiet r (length xs) \<and> ring_data r (length xs) = xs \<and> length xs \<le> 255
     \<and> rb_size r = 256 \<and> \<not> rclosed r \<and> \<not> wclosed r)"

lemma isfull_iff:
  assumes "ring_ok r n" "rb_size r = 256" "n < 256"
  shows "ringbuffer_isfull r \<longleftrightarrow> n = 255"
proof -
  let ?t = "unat (rb_tail r)"
  have ok: "?t < 256" "unat (rb_head r) = (?t + n) mod 256"
    using assms by (simp_all add: ring_ok_def)
  have "unat (rb_head r) < unat (256 :: u32)"
    using ok by simp
  then have "ringbuffer_isfull r \<longleftrightarrow> (unat (rb_head r) + 1) mod 256 = ?t"
    using unat_next_pos [of "rb_head r" 256] by (simp add: ringbuffer_isfull_def BUFFER_ISFULL_def assms(2) word_unat_eq_iff)
  also have "\<dots> \<longleftrightarrow> (?t + (n + 1)) mod 256 = (?t + 0) mod 256"
    using ok by (simp add: mod_Suc_eq)
  also have "\<dots> \<longleftrightarrow> n = 255"
    using mod_offset_inj [of 0 "n + 1" 256 ?t] assms(3) by (cases "n = 255") auto
  finally show ?thesis .
qed

lemma holds_init: "holds keyboard_init []"
  using quiet_init [of 256] by (simp add: holds_def keyboard_init_def INPUT_BUFFER_SIZE_def ringbuffer_init_def ring_data_def)

lemma holds_status [simp]: "holds (kb\<lparr>status := st\<rparr>) xs = holds kb xs"
  by (simp add: holds_def)

lemma handler_holds:
  assumes h: "holds kb xs"
  shows "\<exists>kb'. keyboard_intr_handler t False p kb = Some kb' \<and> status kb' = snd (decode p (status kb))
    \<and> holds kb' (take 255 (xs @ (case fst (decode p (status kb)) of None \<Rightarrow> [] | Some c \<Rightarrow> [c])))"
proof -
  let ?r = "input_ringbuffer kb"
  have q: "quiet ?r (length xs)" "ring_data ?r (length xs) = xs" "length xs \<le> 255" "rb_size ?r = 256" "\<not> rclosed ?r" "\<not> wclosed ?r"
    using h by (simp_all add: holds_def Let_def)
  obtain ch st where d: "decode p (status kb) = (ch, st)"
    by (rule prod.exhaust)
  show ?thesis
  proof (cases ch)
    case None
    then show ?thesis
      using d h q(3) by (simp add: handler_decode)
  next
    case (Some c)
    have full: "ringbuffer_isfull ?r \<longleftrightarrow> length xs = 255"
      using isfull_iff [of ?r "length xs"] q by (simp add: quiet_def)
    show ?thesis
    proof (cases "length xs = 255")
      case True
      then show ?thesis
        using d h Some full by (simp add: handler_decode)
    next
      case False
      then have "length xs < unat (rb_size ?r)"
        using q(3,4) by simp
      from put_char_quiet [OF q(1) this q(5), of t c]
      obtain r' where r': "ringbuffer_put_char t False c ?r = Some (1, None, r')" "quiet r' (length xs + 1)" "ring_data r' (length xs + 1) = xs @ [c]"
          "rb_size r' = 256" "\<not> rclosed r'" "\<not> wclosed r'"
        using q by auto
      then show ?thesis
        using d Some full False q(3) by (simp add: handler_decode holds_def Let_def)
    qed
  qed
qed

lemma take_append_take: "take n (take n xs @ ys) = take n (xs @ ys)"
  by (cases "length xs \<le> n") simp_all

lemma keyboard_run_holds:
  assumes "holds kb xs"
  shows "\<exists>kb'. keyboard_run t ps kb = Some kb' \<and> status kb' = snd (decode_all ps (status kb)) \<and> holds kb' (take 255 (xs @ fst (decode_all ps (status kb))))"
  using assms
proof (induction ps arbitrary: kb xs)
  case Nil
  then show ?case
    by (simp add: holds_def Let_def)
next
  case (Cons p ps)
  obtain ch st where d: "decode p (status kb) = (ch, st)"
    by (rule prod.exhaust)
  let ?c = "case ch of None \<Rightarrow> [] | Some c \<Rightarrow> [c]"
  obtain kb1 where k1: "keyboard_intr_handler t False p kb = Some kb1" "status kb1 = st" "holds kb1 (take 255 (xs @ ?c))"
    using handler_holds [OF Cons.prems, of t p] d by auto
  obtain kb2 where k2: "keyboard_run t ps kb1 = Some kb2" "status kb2 = snd (decode_all ps st)"
      "holds kb2 (take 255 (take 255 (xs @ ?c) @ fst (decode_all ps st)))"
    using Cons.IH [OF k1(3)] k1(2) by auto
  have "fst (decode_all (p # ps) (status kb)) = ?c @ fst (decode_all ps st)" "snd (decode_all (p # ps) (status kb)) = snd (decode_all ps st)"
    using d by (auto split: prod.split option.split)
  then show ?case
    using k2 by (intro exI [of _ kb2]) (simp only: keyboard_run.simps k1(1) Option.bind.simps take_append_take append_assoc simp_thms)
qed

lemma decode_not_U:
  assumes "fst (decode p st) = Some c"
  shows "c \<noteq> 85"
proof -
  let ?code = "(if ext_scancode st then 0xe000 else 0) OR (ucast p :: u16)"
  have km: "list_all (\<lambda>(a, b). a \<noteq> 85 \<and> b \<noteq> 85) shift_keymap" "length shift_keymap = 59"
    by code_simp+
  have "shift_keymap ! unat (?code AND 0xff) \<in> set shift_keymap" if k: "?code \<in> {MAKECODE_RIGHT_ALT, MAKECODE_RIGHT_CTRL} \<or> 0 < ?code \<and> ?code \<le> 0x3a"
  proof -
    have "unat (?code AND 0xff) \<le> unat ?code"
      by (simp add: word_and_le2 word_le_nat_alt [symmetric])
    then have "unat (?code AND 0xff) < 59"
      using k by (auto simp: makecodes word_le_nat_alt)
    then show ?thesis
      using km(2) by simp
  qed
  note entry = this
  define code where "code = ?code"
  obtain low high where e: "shift_keymap ! unat (code AND 0xff) = (low, high)"
    by (rule prod.exhaust)
  define K where "K = (code \<in> {MAKECODE_RIGHT_ALT, MAKECODE_RIGHT_CTRL} \<or> 0 < code \<and> code \<le> 0x3a)"
  define P where "P = (code AND 0x80 = 0)"
  have lh: "K \<Longrightarrow> low \<noteq> 85 \<and> high \<noteq> 85"
    using entry km(1) e unfolding code_def [symmetric] K_def [symmetric] list_all_iff by fastforce
  show ?thesis
    using assms lh unfolding decode_def Let_def code_def [symmetric] K_def [symmetric] P_def [symmetric] e
    by (cases "p = 0xe0"; cases P; cases K) (auto split: if_splits)
qed

lemma decode_all_not_U: "85 \<notin> set (fst (decode_all ps st))"
proof (induction ps arbitrary: st)
  case (Cons p ps)
  obtain ch st1 where d: "decode p st = (ch, st1)"
    by (rule prod.exhaust)
  show ?case
    using Cons.IH [of st1] decode_not_U [of p st] d by (auto split: option.splits prod.splits)
qed simp


section \<open>Typing\<close>

text \<open>The scan codes of a key stroke that types the character: make and break code of the key, between those of the left shift key where it is needed.\<close>

definition keys :: "u8 \<Rightarrow> u8 list" where
  "keys c =
     (let ch = (if c = 10 then 13 else c) in
      case List.find (\<lambda>k. fst (shift_keymap ! k) = ch) [1..<59] of
        Some k \<Rightarrow> [of_nat k, of_nat k OR 0x80]
      | None \<Rightarrow> (case List.find (\<lambda>k. snd (shift_keymap ! k) = ch) [1..<59] of
                  Some k \<Rightarrow> [0x2a, of_nat k, of_nat k OR 0x80, 0xaa]
                | None \<Rightarrow> []))"

definition typable :: "u8 list" where
  "typable = 10 # filter (\<lambda>c. c \<noteq> 0 \<and> c \<noteq> 13) (map fst shift_keymap @ map snd shift_keymap)"

lemma keys_decode:
  assumes "c \<in> set typable"
  shows "decode_all (keys c) (status keyboard_init) = ([c], status keyboard_init)"
proof -
  have "list_all (\<lambda>c. decode_all (keys c) (status keyboard_init) = ([c], status keyboard_init)) typable"
    by code_simp
  then show ?thesis
    using assms by (simp add: list_all_iff)
qed

lemma decode_all_append:
  "decode_all (ps @ qs) st = (let (xs, st1) = decode_all ps st; (ys, st2) = decode_all qs st1 in (xs @ ys, st2))"
  by (induction ps arbitrary: st) (auto split: prod.splits option.splits)

lemma typing_decode: "set cs \<subseteq> set typable \<Longrightarrow> decode_all (concat (map keys cs)) (status keyboard_init) = (cs, status keyboard_init)"
  by (induction cs) (simp_all add: decode_all_append keys_decode)

section \<open>Editing a line\<close>

text \<open>The specification of \<open>console_readline\<close>: the line and the characters behind it, if the line is complete.\<close>

fun edit :: "u8 list \<Rightarrow> u8 list \<Rightarrow> (u8 list \<times> u8 list) option" where
  "edit acc [] = None"
| "edit acc (c # cs) =
     (if c = 10 \<or> c = 0 then Some (acc @ [c], cs) else if c = 8 then edit (butlast acc) cs else edit (acc @ [c]) cs)"

lemma read_char_rclosed: "ringbuffer_read_char t killed r = Some (v, woken, r') \<Longrightarrow> rclosed r' = rclosed r"
  by (auto simp: ringbuffer_read_char_def read_char_begin_def read_char_finish_def split: if_splits prod.splits rb_begin.splits)

lemma keyboard_read_holds:
  assumes "holds kb (x # xs)"
  obtains r woken where "keyboard_read t False kb = Some ((1, Some x), woken, r)" "holds (kb\<lparr>input_ringbuffer := r\<rparr>) xs"
proof -
  let ?r = "input_ringbuffer kb"
  have q: "quiet ?r (Suc (length xs))" "ring_data ?r (Suc (length xs)) = x # xs" "Suc (length xs) \<le> 255" "rb_size ?r = 256" "\<not> rclosed ?r" "\<not> wclosed ?r"
    using assms by (simp_all add: holds_def Let_def)
  obtain r' where r': "ringbuffer_read_char t False ?r = Some ((1, Some x), None, r')" "quiet r' (length xs)" "x # xs = x # ring_data r' (length xs)"
      "rb_size r' = 256" "\<not> wclosed r'"
    using read_char_quiet [OF q(1), of t] q by auto
  then show thesis
    using that [of None r'] q read_char_rclosed [OF r'(1)] by (simp add: keyboard_read_def holds_def Let_def)
qed

lemma take_update: "p < length xs \<Longrightarrow> take p xs = acc \<Longrightarrow> take (Suc p) (xs[p := c]) = acc @ [c]"
  by (simp add: take_Suc_conv_app_nth)

lemma readline_loop_edit:
  assumes "holds kb xs" "edit acc xs = Some (line, rest)" "take (length acc) (inbuf c) = acc" "length (inbuf c) = 1024" "length acc + length xs < 1024"
  shows "\<exists>kb' c'. readline_loop t False kb (length acc) c = Some (kb', length line, c') \<and> holds kb' rest \<and> status kb' = status kb
    \<and> take (length line) (inbuf c') = line \<and> length (inbuf c') = 1024 \<and> length line < 1024"
  using assms
proof (induction xs arbitrary: kb acc c)
  case (Cons x xs)
  let ?p = "length acc"
  obtain r woken where r: "keyboard_read t False kb = Some ((1, Some x), woken, r)" "holds (kb\<lparr>input_ringbuffer := r\<rparr>) xs"
    by (rule keyboard_read_holds [OF Cons.prems(1)]) (rule that)
  let ?kb = "kb\<lparr>input_ringbuffer := r\<rparr>"
  have p: "?p < 1024" "?p < length (inbuf c)"
    using Cons.prems(4,5) by simp_all
  note up = take_update [OF p(2) Cons.prems(3)]
  consider "x = 10 \<or> x = 0" | "x = 8" | "x \<noteq> 10" "x \<noteq> 0" "x \<noteq> 8"
    by blast
  then show ?case
  proof cases
    case 1
    then show ?thesis
      using r p Cons.prems up by (auto simp: readline_loop.simps [of t False kb] readline_pass_def)
  next
    case 2
    let ?c = "if ?p \<noteq> 0 then c\<lparr>inbuf := (inbuf c)[?p := 0], shown := shown c @ [Put 8]\<rparr> else c"
    have l: "readline_loop t False kb ?p c = readline_loop t False ?kb (length (butlast acc)) ?c"
      using r(1) p(1) 2 by (auto simp: readline_loop.simps [of t False kb] readline_pass_def)
    have "take (?p - 1) (inbuf c) = take (?p - 1) (take ?p (inbuf c))"
      by simp
    then have "take (length (butlast acc)) (inbuf ?c) = butlast acc"
      using Cons.prems(3) by (simp add: butlast_conv_take)
    then show ?thesis
      using Cons.IH [OF r(2), of "butlast acc" ?c] Cons.prems 2 l by simp
  next
    case 3
    let ?c = "c\<lparr>inbuf := (inbuf c)[?p := x], shown := shown c @ [Put x]\<rparr>"
    have l: "readline_loop t False kb ?p c = readline_loop t False ?kb (length (acc @ [x])) ?c"
      using r(1) p(1) 3 by (simp add: readline_loop.simps [of t False kb] readline_pass_def)
    show ?thesis
      using Cons.IH [OF r(2), of "acc @ [x]" ?c] Cons.prems 3 l up by simp
  qed
qed simp

section \<open>Reading from the console\<close>

text \<open>The part of the line that has not been handed out.\<close>

definition pending :: "console \<Rightarrow> u8 list" where
  "pending c = take (insize c) (drop (inp c) (inbuf c))"

definition console_ok :: "console \<Rightarrow> bool" where
  "console_ok c = (length (inbuf c) = 1024 \<and> inp c + insize c \<le> 1024)"

definition file_held :: "nat \<Rightarrow> fs \<Rightarrow> bool" where
  "file_held i s = (i < length (inodes s) \<and> iref (inodes s ! i) \<ge> 1 \<and> locked (inodes s ! i) \<and> valid (inodes s ! i))"

lemma lock_again:
  assumes "file_held i s"
  obtains s1 where "inode_unlock i s = Some s1" "inode_lock i s1 = Some s"
proof -
  have "(inodes s)[i := (inodes s ! i)\<lparr>locked := True\<rparr>] = inodes s"
    using assms by (simp add: file_held_def list_update_same_conv)
  then show thesis
    using that assms by (simp add: file_held_def inode_unlock_def inode_lock_def isem_wait_def isem_signal_def upd_inode_def kassert_def)
qed

lemma length_pending: "console_ok c \<Longrightarrow> length (pending c) = insize c"
  by (auto simp: console_ok_def pending_def)

text \<open>What is there is handed out first.\<close>

lemma console_read_pending:
  assumes c: "console_ok c" "pending c \<noteq> []" and n: "0 < n" and s: "file_held i s"
  obtains c' where "console_read t killed i n kb c s = Some (Some ((int (length (take (nat n) (pending c))), take (nat n) (pending c)), kb, c', s))"
    "pending c' = drop (nat n) (pending c)" "console_ok c'"
proof -
  obtain s1 where l: "inode_unlock i s = Some s1" "inode_lock i s1 = Some s"
    by (rule lock_again [OF s])
  have sz: "insize c \<noteq> 0"
    using c(2) length_pending [OF c(1)] by (metis length_0_conv)
  let ?k = "min (insize c) (nat n)"
  let ?c = "c\<lparr>inp := inp c + ?k, insize := insize c - ?k\<rparr>"
  have str: "take ?k (drop (inp c) (inbuf c)) = take (nat n) (pending c)" "length (take (nat n) (pending c)) = ?k"
    using length_pending [OF c(1)] by (simp_all add: pending_def min.commute)
  have "console_read t killed i n kb c s = Some (Some ((int ?k, take ?k (drop (inp c) (inbuf c))), kb, ?c, s))"
    using n sz l by (simp add: console_read_def Let_def)
  moreover have "pending ?c = drop (nat n) (pending c)"
    by (cases "nat n \<le> insize c") (simp_all add: pending_def drop_take add.commute)
  moreover have "console_ok ?c"
    using c(1) by (auto simp: console_ok_def)
  ultimately show thesis
    using that str by simp
qed

text \<open>The characters that are left of a line after the backspaces in it.\<close>

definition rubout :: "u8 list \<Rightarrow> u8 list" where
  "rubout cs = foldl (\<lambda>acc c. if c = 8 then butlast acc else acc @ [c]) [] cs"

lemma edit_rubout:
  "10 \<notin> set cs \<Longrightarrow> 0 \<notin> set cs \<Longrightarrow> edit acc (cs @ 10 # rest) = Some (foldl (\<lambda>acc c. if c = 8 then butlast acc else acc @ [c]) acc cs @ [10], rest)"
  by (induction cs arbitrary: acc) auto

lemma readline_edit:
  assumes "holds kb xs" "edit [] xs = Some (line, rest)" "length (inbuf c) = 1024"
  obtains kb' c' where "console_readline t False kb c = Some (kb', c')" "holds kb' rest" "status kb' = status kb" "pending c' = line" "console_ok c'"
proof -
  have "length xs < 1024"
    using assms(1) by (simp add: holds_def Let_def)
  then obtain kb' c' where "readline_loop t False kb 0 c = Some (kb', length line, c')" "holds kb' rest" "status kb' = status kb"
      "take (length line) (inbuf c') = line" "length (inbuf c') = 1024" "length line < 1024"
    using readline_loop_edit [OF assms(1,2) _ assms(3), of t] by auto
  then show thesis
    using that by (simp add: console_readline_def pending_def console_ok_def)
qed

text \<open>
  C11. From the key strokes to the program: when a line of characters of the keyboard is typed, closed with the enter key and not longer than the buffer
  of the keyboard, \<open>console_read\<close> returns its beginning, with the effect of the backspace keys and as much as was asked for; the next calls return
  the rest. Nothing blocks, and the modifier keys are as before.
\<close>

theorem typed_line_is_read:
  assumes "set cs \<subseteq> set typable - {10}" "length cs < 255" "insize c = 0" "length (inbuf c) = 1024" "0 < n" "0 < m" "file_held i s"
  defines "line \<equiv> rubout cs @ [10]"
  shows "\<exists>kb kb' c'. keyboard_run t (concat (map keys (cs @ [10]))) keyboard_init = Some kb
    \<and> console_read t' False i n kb c s = Some (Some ((int (length (take (nat n) line)), take (nat n) line), kb', c', s))
    \<and> status kb' = status keyboard_init
    \<and> (nat n < length line \<longrightarrow> (\<exists>c''. console_read t' False i m kb' c' s =
         Some (Some ((int (length (take (nat m) (drop (nat n) line))), take (nat m) (drop (nat n) line)), kb', c'', s))))"
proof -
  have "0 \<notin> set typable" "10 \<in> set typable"
    by (auto simp: typable_def)
  then have cs: "10 \<notin> set cs" "0 \<notin> set cs" "set (cs @ [10]) \<subseteq> set typable"
    using assms(1) by auto
  obtain kb where kb: "keyboard_run t (concat (map keys (cs @ [10]))) keyboard_init = Some kb" "status kb = status keyboard_init" "holds kb (cs @ [10])"
    using keyboard_run_holds [OF holds_init, of t "concat (map keys (cs @ [10]))"] typing_decode [OF cs(3)] assms(2) by auto
  have "edit [] (cs @ [10]) = Some (line, [])"
    using edit_rubout [OF cs(1,2), of "[]" "[]"] by (simp add: line_def rubout_def)
  then obtain kb' c1 where rl: "console_readline t' False kb c = Some (kb', c1)" "status kb' = status kb" "pending c1 = line" "console_ok c1"
    using readline_edit [OF kb(3) _ assms(4), of line "[]" t'] by metis
  have ne: "pending c1 \<noteq> []" "insize c1 \<noteq> 0"
    using rl(3) length_pending [OF rl(4)] by (auto simp: line_def)
  have "console_read t' False i n kb c s = console_read t' False i n kb' c1 s"
    using rl(1) assms(3,5) ne(2) by (simp add: console_read_def)
  moreover obtain c' where c': "console_read t' False i n kb' c1 s = Some (Some ((int (length (take (nat n) line)), take (nat n) line), kb', c', s))"
      "pending c' = drop (nat n) line" "console_ok c'"
    using console_read_pending [OF rl(4) ne(1) assms(5,7), of t' False kb'] rl(3) by metis
  moreover have "\<exists>c''. console_read t' False i m kb' c' s =
         Some (Some ((int (length (take (nat m) (drop (nat n) line))), take (nat m) (drop (nat n) line)), kb', c'', s))" if "nat n < length line"
    using console_read_pending [OF c'(3) _ assms(6,7), of t' False kb'] c'(2) that by (metis drop_eq_Nil not_less)
  ultimately show ?thesis
    using kb(1,2) rl(2) by auto
qed

theorem typed_line_is_read_witness:
  "\<exists>kb kb' c'. keyboard_run 1 (concat (map keys [104, 75, 8, 105, 10])) keyboard_init = Some kb
    \<and> console_read 2 False 0 10 kb \<lparr>inbuf = replicate 1024 0, inp = 0, insize = 0, shown = []\<rparr> fs_example = Some (Some ((3, [104, 105, 10]), kb', c', fs_example))"
proof -
  have "set [104, 75, 8, 105] \<subseteq> set typable - {10}"
    by code_simp
  moreover have "file_held 0 fs_example"
    by (simp add: file_held_def example_defs)
  moreover have "rubout [104, 75, 8, 105] @ [10] = [104, 105, 10]"
    by (simp add: rubout_def)
  ultimately show ?thesis
    using typed_line_is_read [of "[104, 75, 8, 105]" "\<lparr>inbuf = replicate 1024 0, inp = 0, insize = 0, shown = []\<rparr>" 10 1 0 fs_example 1 2] by auto
qed

end
