(* ===== verification/PhysMem.thy ===== *)
theory PhysMem
  imports Prelude
begin

text \<open>
  Physical pages and the kernel object allocator: \<open>kernel/mem/pmemory.c\<close>, \<open>get_free_page\<close>,
  \<open>free_page\<close> and \<open>get_zeroed_free_page\<close> of \<open>memory.c\<close> and \<open>memory.h\<close>, and \<open>kernel/mem/kalloc.c\<close>.

  Kernel memory is a function from the address of a 32-bit word to its value; a free page and a free
  object are linked through the word at their address. Physical and kernel virtual addresses differ
  by \<open>KERNEL_BASE\<close>. The semaphore \<open>kalloc_sem\<close> serialises \<open>kalloc\<close> and \<open>kfree\<close>, so each of them is
  one step.
\<close>

section \<open>Addresses\<close>

definition KERNEL_BASE :: u32 where "KERNEL_BASE = 0x80000000"
definition KERNEL_SPACE_SIZE :: u32 where "KERNEL_SPACE_SIZE = 0x400000"
definition PHY_MEMORY_TOP :: u32 where "PHY_MEMORY_TOP = 0x40000000"
definition FREE_BASE :: u32 where "FREE_BASE = KERNEL_BASE + KERNEL_SPACE_SIZE"
definition MAX_FREE_MEMORY_SPACE :: u32 where "MAX_FREE_MEMORY_SPACE = PHY_MEMORY_TOP - KERNEL_SPACE_SIZE"

definition KV2P :: "u32 \<Rightarrow> u32" where "KV2P vaddr = vaddr - KERNEL_BASE"
definition KP2V :: "u32 \<Rightarrow> u32" where "KP2V paddr = paddr + KERNEL_BASE"

type_synonym wmem = "u32 \<Rightarrow> u32"

section \<open>The page pool (pmemory.c)\<close>

record phy_mem_pool =
  kmem :: wmem
  free_list :: u32
  free_page_cnt :: u32
  using_page_cnt :: u32

definition get_free_page_cnt :: "phy_mem_pool \<Rightarrow> u32" where "get_free_page_cnt s = free_page_cnt s"
definition get_using_page_cnt :: "phy_mem_pool \<Rightarrow> u32" where "get_using_page_cnt s = using_page_cnt s"

definition palloc :: "phy_mem_pool \<Rightarrow> u32 \<times> phy_mem_pool" where
  "palloc s =
     (if free_list s \<noteq> 0
      then (KV2P (free_list s), s\<lparr>free_list := kmem s (free_list s),
              free_page_cnt := free_page_cnt s - 1, using_page_cnt := using_page_cnt s + 1\<rparr>)
      else (KV2P 0, s))"

definition pfree :: "u32 \<Rightarrow> phy_mem_pool \<Rightarrow> phy_mem_pool option" where
  "pfree paddr s = do {
     kassert (paddr \<noteq> 0);
     let page = KP2V paddr;
     Some (s\<lparr>kmem := (kmem s)(page := free_list s), free_list := page,
        free_page_cnt := free_page_cnt s + 1, using_page_cnt := using_page_cnt s - 1\<rparr>)
   }"

partial_function (option) pfree_range_loop :: "u32 \<Rightarrow> u32 \<Rightarrow> phy_mem_pool \<Rightarrow> phy_mem_pool option" where
  "pfree_range_loop start stop s =
     (if start \<le> stop
      then pfree_range_loop (start + PG_SIZE) stop
             (s\<lparr>kmem := (kmem s)(start := free_list s), free_list := start, free_page_cnt := free_page_cnt s + 1\<rparr>)
      else Some s)"

definition pfree_range :: "u32 \<Rightarrow> u32 \<Rightarrow> phy_mem_pool \<Rightarrow> phy_mem_pool option" where
  "pfree_range start stop s = do {
     kassert (start mod PG_SIZE = 0);
     kassert (stop mod PG_SIZE = 0);
     pfree_range_loop start stop s
   }"

definition pmem_init :: "u32 \<Rightarrow> phy_mem_pool \<Rightarrow> phy_mem_pool option" where
  "pmem_init total_memory s = do {
     kassert (\<not> total_memory < 1024 * 1024 * 32);
     kassert (\<not> total_memory mod PG_SIZE \<noteq> 0);
     let total1 = total_memory - KERNEL_SPACE_SIZE;
     let total2 = (if total1 > MAX_FREE_MEMORY_SPACE then MAX_FREE_MEMORY_SPACE else total1);
     pfree_range FREE_BASE (KP2V total2) (s\<lparr>free_list := 0, free_page_cnt := 0\<rparr>)
   }"

section \<open>Kernel pages (memory.c, memory.h)\<close>

definition get_free_page :: "phy_mem_pool \<Rightarrow> u32 \<times> phy_mem_pool" where
  "get_free_page s = (let (p, s1) = palloc s in (KP2V p, s1))"

definition free_page :: "u32 \<Rightarrow> phy_mem_pool \<Rightarrow> phy_mem_pool option" where
  "free_page pg_addr s = pfree (KV2P pg_addr) s"

text \<open>\<open>memset(ptr, 0, PG_SIZE)\<close>: the words of the page that starts at \<open>p\<close>.\<close>

definition zero_page :: "u32 \<Rightarrow> wmem \<Rightarrow> wmem" where
  "zero_page p m = (\<lambda>a. if a - p < PG_SIZE then 0 else m a)"

text \<open>
  \<open>get_zeroed_free_page\<close> does not look at the pointer before it clears the page: without a free page
  the store goes through \<open>NULL\<close>, which is not mapped, and the kernel faults.
\<close>

definition get_zeroed_free_page :: "phy_mem_pool \<Rightarrow> (u32 \<times> phy_mem_pool) option" where
  "get_zeroed_free_page s = do {
     let (ptr, s1) = get_free_page s;
     kassert (ptr \<noteq> 0);
     Some (ptr, s1\<lparr>kmem := zero_page ptr (kmem s1)\<rparr>)
   }"

section \<open>The object allocator (kalloc.c)\<close>

definition NBLOCK :: nat where "NBLOCK = 7"
definition MAX_OBJ_SIZE :: u32 where "MAX_OBJ_SIZE = push_bit (NBLOCK - 1) 16"
definition SIZEOF_MEM_OBJECT_DESC :: u32 where "SIZEOF_MEM_OBJECT_DESC = 4"

record mem_block =
  block_idx :: u32
  obj_size :: u32
  inuse :: u32
  mb_free :: u32
  mb_num :: u32
  mb_head :: u32

record kalloc_state =
  pool :: phy_mem_pool
  blocks :: "mem_block list"

definition set_kmem :: "(wmem \<Rightarrow> wmem) \<Rightarrow> kalloc_state \<Rightarrow> kalloc_state" where
  "set_kmem f s = s\<lparr>pool := (pool s)\<lparr>kmem := f (kmem (pool s))\<rparr>\<rparr>"

text \<open>
  The loop that cuts a page into objects: \<open>prev\<close> is \<open>None\<close> for the local \<open>dummy\<close>; the result is
  \<open>dummy.next\<close>, the number of objects and the memory.
\<close>

partial_function (option) cut_page :: "u32 \<Rightarrow> u32 \<Rightarrow> u32 \<Rightarrow> u32 option \<Rightarrow> wmem \<Rightarrow> u32 \<Rightarrow> u32 \<Rightarrow> (u32 \<times> u32 \<times> wmem) option" where
  "cut_page page sz p prev m first cnt =
     (if p < PG_SIZE then
        (let nxt = page + p;
             m1 = (case prev of None \<Rightarrow> m | Some q \<Rightarrow> m(q := nxt));
             first1 = (case prev of None \<Rightarrow> nxt | Some _ \<Rightarrow> first)
         in cut_page page sz (p + sz) (Some nxt) m1 first1 (cnt + 1))
      else Some (first, cnt, m))"

definition alloc_new_objs :: "nat \<Rightarrow> kalloc_state \<Rightarrow> (bool \<times> kalloc_state) option" where
  "alloc_new_objs i s = do {
     let block = blocks s ! i;
     kassert (mb_head block = 0);
     let sz = obj_size block + SIZEOF_MEM_OBJECT_DESC;
     (page, pool1) \<leftarrow> get_zeroed_free_page (pool s);
     if page = 0 then Some (False, s\<lparr>pool := pool1\<rparr>)
     else do {
       (first, cnt, m) \<leftarrow> cut_page page sz 0 None (kmem pool1) 0 0;
       Some (True, s\<lparr>pool := pool1\<lparr>kmem := m\<rparr>,
         blocks := (blocks s)[i := block\<lparr>mb_free := mb_free block + cnt, mb_num := mb_num block + cnt,
                                          mb_head := first\<rparr>]\<rparr>)
     }
   }"

text \<open>The result is the address after the object's header, or 0.\<close>

definition fetch_obj_from_block :: "nat \<Rightarrow> kalloc_state \<Rightarrow> (u32 \<times> kalloc_state) option" where
  "fetch_obj_from_block i s = do {
     (ok, s1) \<leftarrow> (if mb_free (blocks s ! i) = 0 then alloc_new_objs i s else Some (True, s));
     if \<not> ok then Some (0, s1)
     else do {
       let block = blocks s1 ! i;
       let obj = mb_head block;
       let block1 = block\<lparr>mb_head := kmem (pool s1) obj, mb_free := mb_free block - 1, inuse := inuse block + 1\<rparr>;
       Some (obj + SIZEOF_MEM_OBJECT_DESC,
             set_kmem (\<lambda>m. m(obj := block_idx block)) (s1\<lparr>blocks := (blocks s1)[i := block1]\<rparr>))
     }
   }"

definition kalloc_init :: "kalloc_state \<Rightarrow> kalloc_state" where
  "kalloc_init s = s\<lparr>blocks := map (\<lambda>i. \<lparr>block_idx = of_nat i, obj_size = push_bit i 16, inuse = 0,
     mb_free = 0, mb_num = 0, mb_head = 0\<rparr>) [0..<NBLOCK]\<rparr>"

fun kalloc_loop :: "u32 \<Rightarrow> nat list \<Rightarrow> kalloc_state \<Rightarrow> (u32 \<times> kalloc_state) option" where
  "kalloc_loop nbytes [] s = Some (0, s)"
| "kalloc_loop nbytes (i # is) s =
     (if obj_size (blocks s ! i) \<ge> nbytes then do {
        (r, s1) \<leftarrow> fetch_obj_from_block i s;
        if r = 0 then kalloc_loop nbytes is s1 else Some (r, s1)
      } else kalloc_loop nbytes is s)"

definition kalloc :: "bool \<Rightarrow> u32 \<Rightarrow> kalloc_state \<Rightarrow> (u32 \<times> kalloc_state) option" where
  "kalloc killed nbytes s =
     (if nbytes = 0 then Some (0, s)
      else do {
        kassert (nbytes < PG_SIZE);
        if killed then Some (0, s)
        else if nbytes > MAX_OBJ_SIZE then do {
          (r, pool1) \<leftarrow> get_zeroed_free_page (pool s);
          Some (r, s\<lparr>pool := pool1\<rparr>)
        }
        else kalloc_loop nbytes [0..<NBLOCK] s
      })"

text \<open>The block index in the header is used unchecked; an index out of range is undefined behaviour.\<close>

definition kfree :: "bool \<Rightarrow> u32 \<Rightarrow> kalloc_state \<Rightarrow> kalloc_state option" where
  "kfree killed ptr s =
     (if ptr = 0 \<or> killed then Some s
      else do {
        let obj = ptr - SIZEOF_MEM_OBJECT_DESC;
        let i = unat (kmem (pool s) obj);
        kassert (i < length (blocks s));
        let block = blocks s ! i;
        Some (set_kmem (\<lambda>m. m(obj := mb_head block))
          (s\<lparr>blocks := (blocks s)[i := block\<lparr>mb_head := obj, inuse := inuse block - 1, mb_free := mb_free block + 1\<rparr>]\<rparr>))
      })"

section \<open>Chains of free pages and objects\<close>

fun chain :: "wmem \<Rightarrow> u32 \<Rightarrow> u32 list \<Rightarrow> bool" where
  "chain m p [] = (p = 0)"
| "chain m p (x # xs) = (p = x \<and> x \<noteq> 0 \<and> chain m (m x) xs)"

lemma chain_cong: "(\<And>a. a \<in> set xs \<Longrightarrow> m' a = m a) \<Longrightarrow> chain m' p xs = chain m p xs"
  by (induction xs arbitrary: p) auto

lemma chain_upd [simp]: "a \<notin> set xs \<Longrightarrow> chain (m(a := v)) p xs = chain m p xs"
  by (rule chain_cong) auto

lemma chain_0 [simp]: "chain m 0 xs = (xs = [])"
  by (cases xs) auto

lemma chain_nonzero: "chain m p xs \<Longrightarrow> 0 \<notin> set xs"
  by (induction xs arbitrary: p) auto

definition aligned_page :: "u32 \<Rightarrow> bool" where "aligned_page p = (unat p mod 4096 = 0)"

definition in_page :: "u32 \<Rightarrow> u32 \<Rightarrow> bool" where "in_page p a = (a - p < PG_SIZE)"

lemma in_page_iff:
  assumes "aligned_page p"
  shows "in_page p a \<longleftrightarrow> unat a div 4096 = unat p div 4096"
proof -
  have b: "unat p < 2 ^ 32" "unat a < 2 ^ 32"
    using unsigned_less [where 'a = nat, of p] unsigned_less [where 'a = nat, of a] by simp_all
  have d: "unat p = 4096 * (unat p div 4096)"
    using assms by (auto simp: aligned_page_def)
  have "in_page p a \<longleftrightarrow> unat (a - p) < 4096"
    by (simp add: in_page_def PG_SIZE_def word_less_nat_alt)
  also have "\<dots> \<longleftrightarrow> unat a div 4096 = unat p div 4096"
  proof (cases "unat p \<le> unat a")
    case True
    then have "unat (a - p) = unat a - unat p"
      by (simp add: unat_sub word_le_nat_alt)
    then show ?thesis
      using True d by (simp add: div_nat_eqI) linarith
  next
    case False
    then have "unat (a - p) = 2 ^ 32 + unat a - unat p"
      using b by (simp add: unat_sub_if_size word_size)
    moreover have "unat p div 4096 < 1048576"
      using b(1) by (simp add: less_mult_imp_div_less)
    then have "unat p \<le> 4294963200"
      using d by linarith
    moreover have "unat a div 4096 < unat p div 4096"
      using False d by (metis div_less_iff_less_mult mult.commute not_le zero_less_numeral)
    ultimately show ?thesis
      by simp
  qed
  finally show ?thesis .
qed

section \<open>The page pool keeps a stack of free pages\<close>

definition page_ok :: "u32 \<Rightarrow> bool" where "page_ok p = (aligned_page p \<and> p \<noteq> 0xFFFFF000)"

definition pool_inv :: "phy_mem_pool \<Rightarrow> u32 list \<Rightarrow> bool" where
  "pool_inv s ps = (chain (kmem s) (free_list s) ps \<and> distinct ps \<and> (\<forall>p\<in>set ps. page_ok p)
     \<and> free_page_cnt s = of_nat (length ps))"

lemma KP2V_KV2P [simp]: "KP2V (KV2P v) = v" "KV2P (KP2V v) = v"
  by (simp_all add: KP2V_def KV2P_def)

lemma palloc_pop:
  assumes "pool_inv s (p # ps)"
  shows "palloc s = (KV2P p, s\<lparr>free_list := kmem s p, free_page_cnt := free_page_cnt s - 1,
      using_page_cnt := using_page_cnt s + 1\<rparr>)"
    "pool_inv (snd (palloc s)) ps"
  using assms by (auto simp: pool_inv_def palloc_def)

lemma palloc_empty:
  assumes "pool_inv s []"
  shows "palloc s = (KERNEL_BASE, s)"
  using assms by (simp add: pool_inv_def palloc_def KV2P_def KERNEL_BASE_def)

lemma free_page_push:
  assumes "pool_inv s ps" and "page_ok p" and "p \<notin> set ps" and "p \<noteq> 0" and "p \<noteq> KERNEL_BASE"
  shows "\<exists>s'. free_page p s = Some s' \<and> pool_inv s' (p # ps) \<and> using_page_cnt s' = using_page_cnt s - 1"
proof -
  have "KV2P p \<noteq> 0"
    using assms(5) by (auto simp: KV2P_def)
  then show ?thesis
    using assms by (simp add: free_page_def pfree_def pool_inv_def)
qed

section \<open>Filling the pool\<close>

definition pages_up :: "u32 \<Rightarrow> nat \<Rightarrow> u32 list" where
  "pages_up start n = map (\<lambda>k. start + of_nat k * PG_SIZE) [0..<n]"

lemma pages_up_Suc: "pages_up start (Suc n) = start # pages_up (start + PG_SIZE) n"
proof -
  have "[0..<Suc n] = 0 # map Suc [0..<n]"
    by (simp add: upt_conv_Cons map_Suc_upt del: upt_Suc)
  then show ?thesis
    by (simp add: pages_up_def algebra_simps comp_def del: upt_Suc)
qed

lemma pages_up_unat:
  assumes "unat start + 4096 * n < 2 ^ 32" "k < n"
  shows "unat (start + of_nat k * PG_SIZE) = unat start + 4096 * k"
proof -
  have "unat (of_nat k * PG_SIZE) = 4096 * k"
    using assms by (simp add: PG_SIZE_def unat_word_ariths unat_of_nat)
  then show ?thesis
    using assms by (simp add: unat_word_ariths)
qed

lemma pfree_range_loop_ok:
  assumes "pool_inv s ps" and "aligned_page start" and "0 < unat start"
    and "unat start + 4096 * n < 2 ^ 32" and "unat stop + 4096 = unat start + 4096 * n"
    and "\<forall>p\<in>set ps. unat p < unat start"
  shows "\<exists>s'. pfree_range_loop start stop s = Some s' \<and> pool_inv s' (rev (pages_up start n) @ ps)
    \<and> using_page_cnt s' = using_page_cnt s"
  using assms
proof (induction n arbitrary: start s ps)
  case 0
  then have "\<not> start \<le> stop"
    by (simp add: word_le_nat_alt)
  then show ?case
    using 0 by (subst pfree_range_loop.simps) (simp add: pages_up_def)
next
  case (Suc n)
  let ?s = "s\<lparr>kmem := (kmem s)(start := free_list s), free_list := start, free_page_cnt := free_page_cnt s + 1\<rparr>"
  have le: "start \<le> stop"
    using Suc.prems by (simp add: word_le_nat_alt)
  have nx: "unat (start + PG_SIZE) = unat start + 4096"
    using Suc.prems by (simp add: PG_SIZE_def unat_word_ariths)
  have nz: "start \<noteq> 0" "start \<noteq> 0xFFFFF000"
    using Suc.prems by (auto simp: unat_gt_0)
  have nin: "start \<notin> set ps"
    using Suc.prems(6) by auto
  have "pool_inv ?s (start # ps)"
    using Suc.prems(1,2) nin nz by (auto simp: pool_inv_def page_ok_def)
  moreover have "aligned_page (start + PG_SIZE)"
    using Suc.prems(2) by (simp add: aligned_page_def nx)
  moreover have "\<forall>p\<in>set (start # ps). unat p < unat (start + PG_SIZE)"
    using Suc.prems(6) nx by auto
  ultimately obtain s' where "pfree_range_loop (start + PG_SIZE) stop ?s = Some s'"
      "pool_inv s' (rev (pages_up (start + PG_SIZE) n) @ (start # ps))" "using_page_cnt s' = using_page_cnt s"
    using Suc.IH [of ?s "start # ps" "start + PG_SIZE"] Suc.prems nx by auto
  then show ?case
    using le by (subst pfree_range_loop.simps) (simp add: pages_up_Suc)
qed

section \<open>Cutting a page into objects\<close>

definition objs :: "u32 \<Rightarrow> u32 \<Rightarrow> nat \<Rightarrow> nat \<Rightarrow> u32 list" where
  "objs page sz k n = map (\<lambda>j. page + of_nat j * sz) [k..<n]"

definition n_objs :: "u32 \<Rightarrow> nat" where "n_objs sz = 4095 div unat sz + 1"

lemma n_objs_bounds:
  assumes "0 < unat sz" "unat sz \<le> 2048"
  shows "n_objs sz * unat sz < 8192" "4096 \<le> n_objs sz * unat sz" "(n_objs sz - 1) * unat sz < 4096"
proof -
  let ?q = "4095 div unat sz * unat sz"
  have q: "?q \<le> 4095"
    by (rule div_times_less_eq_dividend)
  have "4095 < unat sz + ?q"
    using assms(1) dividend_less_div_times [of "unat sz" 4095] by simp
  moreover have "n_objs sz * unat sz = unat sz + ?q" "(n_objs sz - 1) * unat sz = ?q"
    by (simp_all add: n_objs_def)
  ultimately show "n_objs sz * unat sz < 8192" "4096 \<le> n_objs sz * unat sz" "(n_objs sz - 1) * unat sz < 4096"
    using q assms(2) by linarith+
qed

lemma unat_obj_offset:
  assumes "0 < unat sz" "unat sz \<le> 2048" "k \<le> n_objs sz"
  shows "unat (of_nat k * sz) = k * unat sz"
proof -
  have "k * unat sz \<le> n_objs sz * unat sz" "k \<le> k * unat sz"
    using assms by simp_all
  then have b: "k * unat sz < 8192" "k < 8192"
    using n_objs_bounds(1) [OF assms(1,2)] by linarith+
  then show ?thesis
    by (simp add: unat_word_ariths unat_of_nat)
qed

lemma cut_page_rest:
  assumes "0 < unat sz" "unat sz \<le> 2048" "k \<le> n_objs sz"
    and "distinct (q # objs page sz k (n_objs sz))" "0 \<notin> set (q # objs page sz k (n_objs sz))"
    and "\<forall>x\<in>set (q # objs page sz k (n_objs sz)). m x = 0"
  shows "\<exists>m'. cut_page page sz (of_nat k * sz) (Some q) m first cnt
      = Some (first, cnt + of_nat (n_objs sz - k), m')
    \<and> chain m' q (q # objs page sz k (n_objs sz))
    \<and> (\<forall>a. a \<notin> set (q # objs page sz k (n_objs sz)) \<longrightarrow> m' a = m a)"
  using assms
proof (induction "n_objs sz - k" arbitrary: k q m cnt)
  case 0
  then have k: "k = n_objs sz"
    by simp
  have "\<not> of_nat k * sz < PG_SIZE"
    using n_objs_bounds(2) [OF 0(2,3)] unat_obj_offset [OF 0(2,3,4)] k
    by (simp add: word_less_nat_alt PG_SIZE_def)
  then show ?case
    using 0 k by (subst cut_page.simps) (simp add: objs_def)
next
  case (Suc d)
  then have k: "k < n_objs sz"
    by simp
  let ?n = "n_objs sz" and ?x = "page + of_nat k * sz"
  have ob: "objs page sz k ?n = ?x # objs page sz (Suc k) ?n"
    using k by (simp add: objs_def upt_conv_Cons)
  have "k * unat sz \<le> (?n - 1) * unat sz"
    using k by (intro mult_right_mono) simp_all
  then have "k * unat sz < 4096"
    using n_objs_bounds(3) [OF Suc(3,4)] by linarith
  then have lt: "of_nat k * sz < PG_SIZE"
    using unat_obj_offset [OF Suc(3,4), of k] k by (simp add: word_less_nat_alt PG_SIZE_def)
  have "q \<noteq> ?x"
    using Suc(6) ob by auto
  then have zero: "\<forall>x\<in>set (?x # objs page sz (Suc k) ?n). (m(q := ?x)) x = 0"
    using Suc(6,8) ob by auto
  have "d = ?n - Suc k" "Suc k \<le> ?n" "distinct (?x # objs page sz (Suc k) ?n)"
      "0 \<notin> set (?x # objs page sz (Suc k) ?n)"
    using Suc(2,6,7) ob k by auto
  from Suc(1) [OF this(1) Suc(3,4) this(2-4) zero]
  obtain m' where m': "cut_page page sz (of_nat (Suc k) * sz) (Some ?x) (m(q := ?x)) first (cnt + 1)
        = Some (first, (cnt + 1) + of_nat (?n - Suc k), m')"
      "chain m' ?x (?x # objs page sz (Suc k) ?n)"
      "\<forall>a. a \<notin> set (?x # objs page sz (Suc k) ?n) \<longrightarrow> m' a = (m(q := ?x)) a"
    by blast
  have "cut_page page sz (of_nat k * sz) (Some q) m first cnt = Some (first, cnt + of_nat (?n - k), m')"
    using m'(1) lt k by (subst cut_page.simps) (simp add: algebra_simps of_nat_diff Suc_diff_le)
  moreover have "m' q = ?x"
    using m'(3) Suc(6) ob by auto
  moreover have "q \<noteq> 0"
    using Suc(7) by auto
  ultimately show ?case
    using m'(2,3) ob by auto
qed

lemma page_ok_bound:
  assumes "page_ok p"
  shows "unat p \<le> 4294959104"
proof -
  have m: "unat p mod 4096 = 0" "p \<noteq> 0xFFFFF000"
    using assms by (auto simp: page_ok_def aligned_page_def)
  then have d: "unat p = 4096 * (unat p div 4096)"
    by auto
  have "unat p \<noteq> 4294963200"
    using m(2) by (simp add: word_unat_eq_iff)
  moreover have "unat p div 4096 < 1048576"
    using unsigned_less [where 'a = nat, of p] by (simp add: less_mult_imp_div_less)
  ultimately have "unat p div 4096 < 1048576" "unat p div 4096 \<noteq> 1048575"
    using d by auto
  then have "unat p div 4096 \<le> 1048574"
    by linarith
  then show ?thesis
    using d by linarith
qed

lemma unat_obj:
  assumes "page_ok page" "0 < unat sz" "unat sz \<le> 2048" "j < n_objs sz"
  shows "unat (page + of_nat j * sz) = unat page + j * unat sz" "j * unat sz < 4096"
proof -
  have "j * unat sz \<le> (n_objs sz - 1) * unat sz"
    using assms(4) by (intro mult_right_mono) simp_all
  then show "j * unat sz < 4096"
    using n_objs_bounds(3) [OF assms(2,3)] by linarith
  then show "unat (page + of_nat j * sz) = unat page + j * unat sz"
    using page_ok_bound [OF assms(1)] unat_obj_offset [OF assms(2,3), of j] assms(4)
    by (simp add: unat_word_ariths(1))
qed

lemma objs_facts:
  assumes "page_ok page" "page \<noteq> 0" "0 < unat sz" "unat sz \<le> 2048"
  shows "distinct (objs page sz 0 (n_objs sz))" "0 \<notin> set (objs page sz 0 (n_objs sz))"
    "\<forall>a\<in>set (objs page sz 0 (n_objs sz)). in_page page a"
    "objs page sz 0 (n_objs sz) = page # objs page sz 1 (n_objs sz)"
    "\<forall>a\<in>set (objs page sz 0 (n_objs sz)). a + 4 \<noteq> 0"
proof -
  note u = unat_obj [OF assms(1,3,4)]
  have "i = j" if "i < n_objs sz" "j < n_objs sz" "page + of_nat i * sz = page + of_nat j * sz" for i j
  proof -
    have "unat page + i * unat sz = unat page + j * unat sz"
      using u(1) [OF that(1)] u(1) [OF that(2)] that(3) by metis
    then show ?thesis
      using assms(3) by simp
  qed
  then show "distinct (objs page sz 0 (n_objs sz))"
    by (auto simp: objs_def distinct_map inj_on_def)
  have "0 < unat page"
    using assms(2) by (simp add: unat_gt_0)
  then have "page + of_nat j * sz \<noteq> 0" if "j < n_objs sz" for j
    using u(1) [OF that] by (metis add_gr_0 less_irrefl unat_0)
  then show "0 \<notin> set (objs page sz 0 (n_objs sz))"
    by (fastforce simp: objs_def)
  show "\<forall>a\<in>set (objs page sz 0 (n_objs sz)). in_page page a"
    using u(2) unat_obj_offset [OF assms(3,4)]
    by (auto simp: objs_def in_page_def PG_SIZE_def word_less_nat_alt)
  show "objs page sz 0 (n_objs sz) = page # objs page sz 1 (n_objs sz)"
    using upt_conv_Cons [of 0 "n_objs sz"] by (simp add: objs_def n_objs_def del: upt_Suc)
  have "page + of_nat j * sz + 4 \<noteq> 0" if "j < n_objs sz" for j
    using u [OF that] page_ok_bound [OF assms(1)]
    by (auto simp: unat_word_ariths(1) word_unat_eq_iff [of _ 0])
  then show "\<forall>a\<in>set (objs page sz 0 (n_objs sz)). a + 4 \<noteq> 0"
    by (fastforce simp: objs_def)
qed

lemma cut_page_all:
  assumes "page_ok page" "page \<noteq> 0" "0 < unat sz" "unat sz \<le> 2048"
    and zero: "\<And>a. in_page page a \<Longrightarrow> m a = 0"
  shows "\<exists>m'. cut_page page sz 0 None m 0 0 = Some (page, of_nat (n_objs sz), m')
    \<and> chain m' page (objs page sz 0 (n_objs sz))
    \<and> (\<forall>a. \<not> in_page page a \<longrightarrow> m' a = m a)"
proof -
  note f = objs_facts [OF assms(1-4)]
  let ?n = "n_objs sz"
  have d: "distinct (page # objs page sz 1 ?n)" "0 \<notin> set (page # objs page sz 1 ?n)"
      "\<forall>x\<in>set (page # objs page sz 1 ?n). m x = 0" "1 \<le> ?n"
    using f zero by (auto simp: n_objs_def)
  from cut_page_rest [OF assms(3,4) d(4,1-3), of page 1]
  obtain m' where m': "cut_page page sz (of_nat 1 * sz) (Some page) m page 1 = Some (page, 1 + of_nat (?n - 1), m')"
      "chain m' page (page # objs page sz 1 ?n)"
      "\<forall>a. a \<notin> set (page # objs page sz 1 ?n) \<longrightarrow> m' a = m a"
    by blast
  have "cut_page page sz 0 None m 0 0 = Some (page, of_nat ?n, m')"
    using m'(1) by (subst cut_page.simps) (simp add: PG_SIZE_def n_objs_def)
  moreover have "\<not> in_page page a \<Longrightarrow> a \<notin> set (page # objs page sz 1 ?n)" for a
    using f(3,4) by metis
  ultimately show ?thesis
    using m'(2,3) f(4) by metis
qed

section \<open>The invariant of the object allocator\<close>

text \<open>\<open>ps\<close> are the free pages, \<open>oss i\<close> the free objects of size class \<open>i\<close>.\<close>

definition class_ok :: "kalloc_state \<Rightarrow> u32 list \<Rightarrow> (nat \<Rightarrow> u32 list) \<Rightarrow> nat \<Rightarrow> bool" where
  "class_ok s ps oss i = (block_idx (blocks s ! i) = of_nat i \<and> obj_size (blocks s ! i) = push_bit i 16
     \<and> chain (kmem (pool s)) (mb_head (blocks s ! i)) (oss i) \<and> mb_free (blocks s ! i) = of_nat (length (oss i))
     \<and> distinct (oss i) \<and> (\<forall>a\<in>set (oss i). a + 4 \<noteq> 0 \<and> (\<forall>p\<in>set ps. \<not> in_page p a)))"

definition kalloc_inv :: "kalloc_state \<Rightarrow> u32 list \<Rightarrow> (nat \<Rightarrow> u32 list) \<Rightarrow> bool" where
  "kalloc_inv s ps oss = (pool_inv (pool s) ps \<and> length (blocks s) = NBLOCK
     \<and> (\<forall>i<NBLOCK. class_ok s ps oss i)
     \<and> (\<forall>i<NBLOCK. \<forall>j<NBLOCK. i \<noteq> j \<longrightarrow> set (oss i) \<inter> set (oss j) = {}))"

lemma kalloc_init_inv:
  assumes "pool_inv (pool s) ps"
  shows "kalloc_inv (kalloc_init s) ps (\<lambda>_. [])"
  using assms by (simp add: kalloc_inv_def kalloc_init_def class_ok_def)

lemma in_page_self [simp]: "in_page p p"
  by (simp add: in_page_def PG_SIZE_def)

lemma in_page_unique:
  "aligned_page p \<Longrightarrow> aligned_page q \<Longrightarrow> in_page p a \<Longrightarrow> in_page q a \<Longrightarrow> p = q"
  by (metis in_page_iff aligned_page_def mult_div_mod_eq word_unat_eq_iff)

lemma length_distinct_u32:
  assumes "distinct (xs :: u32 list)" "0 \<notin> set xs"
  shows "length xs < 2 ^ 32"
proof -
  have "card (set xs) \<le> card (UNIV - {0 :: u32})"
    using assms(2) by (intro card_mono) auto
  also have "\<dots> < 2 ^ 32"
    by (simp add: card_Diff_subset card_word)
  finally show ?thesis
    using assms(1) by (simp add: distinct_card)
qed

lemma class_size:
  assumes "i < NBLOCK"
  shows "unat (push_bit i 16 :: u32) = 16 * 2 ^ i" "unat (push_bit i 16 + 4 :: u32) = 16 * 2 ^ i + 4"
proof -
  have "i \<in> {0, 1, 2, 3, 4, 5, 6}"
    using assms by (auto simp: NBLOCK_def)
  then show "unat (push_bit i 16 :: u32) = 16 * 2 ^ i" "unat (push_bit i 16 + 4 :: u32) = 16 * 2 ^ i + 4"
    by (auto simp: push_bit_eq_mult)
qed

lemma class_size_bound: "i < NBLOCK \<Longrightarrow> 16 * 2 ^ i + 4 \<le> (2048::nat)"
proof -
  assume "i < NBLOCK"
  then have "(2::nat) ^ i \<le> 2 ^ 6"
    by (intro power_increasing) (auto simp: NBLOCK_def)
  then show ?thesis
    by simp
qed

section \<open>Allocating and freeing objects\<close>

lemma class_okD:
  assumes "class_ok s ps oss i"
  shows "block_idx (blocks s ! i) = of_nat i" "obj_size (blocks s ! i) = push_bit i 16"
    "chain (kmem (pool s)) (mb_head (blocks s ! i)) (oss i)"
    "mb_free (blocks s ! i) = of_nat (length (oss i))" "distinct (oss i)"
    "mb_free (blocks s ! i) = 0 \<longleftrightarrow> oss i = []"
    "\<And>a. a \<in> set (oss i) \<Longrightarrow> a + 4 \<noteq> 0" "\<And>a p. a \<in> set (oss i) \<Longrightarrow> p \<in> set ps \<Longrightarrow> \<not> in_page p a"
proof -
  show ch: "chain (kmem (pool s)) (mb_head (blocks s ! i)) (oss i)"
    and fr: "mb_free (blocks s ! i) = of_nat (length (oss i))" and d: "distinct (oss i)"
    and "block_idx (blocks s ! i) = of_nat i" "obj_size (blocks s ! i) = push_bit i 16"
    and "\<And>a. a \<in> set (oss i) \<Longrightarrow> a + 4 \<noteq> 0" "\<And>a p. a \<in> set (oss i) \<Longrightarrow> p \<in> set ps \<Longrightarrow> \<not> in_page p a"
    using assms by (auto simp: class_ok_def)
  have "length (oss i) < 2 ^ 32"
    using length_distinct_u32 [OF d chain_nonzero [OF ch]] .
  then show "mb_free (blocks s ! i) = 0 \<longleftrightarrow> oss i = []"
    using of_nat_u32_eq_iff [of "length (oss i)" 0] by (auto simp: fr)
qed

lemma kalloc_invD:
  assumes "kalloc_inv s ps oss"
  shows "pool_inv (pool s) ps" "length (blocks s) = NBLOCK"
    "\<And>i. i < NBLOCK \<Longrightarrow> class_ok s ps oss i"
    "\<And>i j. i < NBLOCK \<Longrightarrow> j < NBLOCK \<Longrightarrow> i \<noteq> j \<Longrightarrow> set (oss i) \<inter> set (oss j) = {}"
  using assms by (auto simp: kalloc_inv_def)

text \<open>A store to a word that is neither in a free page nor a free object keeps the pool and the classes.\<close>

lemma pool_inv_upd:
  assumes "pool_inv s ps" "a \<notin> set ps"
  shows "pool_inv (s\<lparr>kmem := (kmem s)(a := v)\<rparr>) ps"
  using assms by (simp add: pool_inv_def)

text \<open>Taking the first object of a class, whose header becomes the class index.\<close>

lemma fetch_first:
  assumes inv: "kalloc_inv s ps oss" and i: "i < NBLOCK" and os: "oss i = obj # os"
  shows "\<exists>s'. fetch_obj_from_block i s = Some (obj + 4, s') \<and> kalloc_inv s' ps (oss(i := os))
    \<and> kmem (pool s') obj = of_nat i \<and> (\<forall>j<NBLOCK. obj \<notin> set ((oss(i := os)) j)) \<and> obj + 4 \<noteq> 0
    \<and> (\<forall>p\<in>set ps. \<not> in_page p obj)"
proof -
  note k = kalloc_invD [OF inv] and c = class_okD [OF kalloc_invD(3) [OF inv i]]
  let ?b = "blocks s ! i"
  let ?b' = "?b\<lparr>mb_head := kmem (pool s) obj, mb_free := mb_free ?b - 1, inuse := inuse ?b + 1\<rparr>"
  let ?s = "set_kmem (\<lambda>m. m(obj := of_nat i)) (s\<lparr>blocks := (blocks s)[i := ?b']\<rparr>)"
  have h: "mb_head ?b = obj" "chain (kmem (pool s)) (kmem (pool s) obj) os" "obj \<notin> set os" "distinct os"
    using c(3,5) os by auto
  have "mb_free ?b \<noteq> 0"
    using c(6) os by simp
  then have f: "fetch_obj_from_block i s = Some (obj + 4, ?s)"
    using h(1) c(1) by (simp add: fetch_obj_from_block_def SIZEOF_MEM_OBJECT_DESC_def Let_def)
  have np: "\<forall>p\<in>set ps. \<not> in_page p obj"
    using c(8) os by simp
  then have pp: "obj \<notin> set ps"
    by (metis in_page_self)
  have no: "obj \<notin> set (oss j)" if "j < NBLOCK" "j \<noteq> i" for j
    using k(4) [OF i that(1)] that(2) os by auto
  then have out: "\<forall>j<NBLOCK. obj \<notin> set ((oss(i := os)) j)"
    using h(3) by auto
  have "class_ok ?s ps (oss(i := os)) j" if j: "j < NBLOCK" for j
  proof (cases "j = i")
    case True
    then show ?thesis
      using c h i os k(2) by (simp add: class_ok_def set_kmem_def)
  next
    case False
    then show ?thesis
      using class_okD(1-5,7,8) [OF k(3) [OF j]] no [OF j False] by (simp add: class_ok_def set_kmem_def)
  qed
  moreover have "pool_inv (pool ?s) ps"
    using pool_inv_upd [OF k(1) pp] by (simp add: set_kmem_def)
  moreover have "set ((oss(i := os)) a) \<inter> set ((oss(i := os)) b) = {}" if "a < NBLOCK" "b < NBLOCK" "a \<noteq> b" for a b
    using k(4) [OF that] os by auto
  ultimately have "kalloc_inv ?s ps (oss(i := os))"
    using k(2) by (simp add: kalloc_inv_def set_kmem_def)
  then show ?thesis
    using f out np c(7) os by (auto simp: set_kmem_def)
qed

text \<open>An empty class gets the objects of a fresh page.\<close>

lemma alloc_new_objs_ok:
  assumes inv: "kalloc_inv s (p # ps) oss" and i: "i < NBLOCK" and os: "oss i = []"
  defines "sz \<equiv> push_bit i 16 + 4"
  shows "\<exists>s'. alloc_new_objs i s = Some (True, s') \<and> kalloc_inv s' ps (oss(i := objs p sz 0 (n_objs sz)))"
proof -
  note k = kalloc_invD [OF inv] and c = class_okD [OF kalloc_invD(3) [OF inv i]]
  have sz: "0 < unat sz" "unat sz \<le> 2048"
    using class_size(2) [OF i] class_size_bound [OF i] by (simp_all add: sz_def)
  have p: "page_ok p" "p \<noteq> 0" "p \<notin> set ps" "\<forall>q\<in>set ps. page_ok q"
    using k(1) by (auto simp: pool_inv_def)
  let ?po = "snd (palloc (pool s))"
  have po: "pool_inv ?po ps" "fst (palloc (pool s)) = KV2P p" "kmem ?po = kmem (pool s)"
    using palloc_pop [OF k(1)] by simp_all
  have other: "\<not> in_page p a" if "in_page q a" "q \<in> set ps" for a q
    using in_page_unique [of p q a] p that by (auto simp: page_ok_def)
  have "\<And>a. in_page p a \<Longrightarrow> zero_page p (kmem (pool s)) a = 0"
    by (simp add: zero_page_def in_page_def)
  with cut_page_all [OF p(1,2) sz, of "zero_page p (kmem (pool s))"] obtain m' where
      m': "cut_page p sz 0 None (zero_page p (kmem (pool s))) 0 0 = Some (p, of_nat (n_objs sz), m')"
      "chain m' p (objs p sz 0 (n_objs sz))"
      "\<And>a. \<not> in_page p a \<Longrightarrow> m' a = kmem (pool s) a"
    by (metis (no_types, lifting) zero_page_def in_page_def)
  note ob = objs_facts [OF p(1,2) sz]
  let ?b = "blocks s ! i"
  let ?s = "s\<lparr>pool := ?po\<lparr>kmem := m'\<rparr>, blocks := (blocks s)[i := ?b\<lparr>mb_free := mb_free ?b + of_nat (n_objs sz),
     mb_num := mb_num ?b + of_nat (n_objs sz), mb_head := p\<rparr>]\<rparr>"
  have "alloc_new_objs i s = Some (True, ?s)"
    using m'(1) c(2,3) os p(2) po(2,3)
    by (simp add: alloc_new_objs_def get_zeroed_free_page_def get_free_page_def sz_def
        SIZEOF_MEM_OBJECT_DESC_def Let_def case_prod_beta)
  moreover have "pool_inv (?po\<lparr>kmem := m'\<rparr>) ps"
  proof -
    have "chain m' (free_list ?po) ps = chain (kmem ?po) (free_list ?po) ps"
      by (rule chain_cong) (metis m'(3) other in_page_self po(3))
    then show ?thesis
      using po(1) by (simp add: pool_inv_def)
  qed
  moreover have "class_ok ?s ps (oss(i := objs p sz 0 (n_objs sz))) j" if j: "j < NBLOCK" for j
  proof (cases "j = i")
    case True
    then show ?thesis
      using c(1,2,4) os i ob(1,3,5) m'(2) k(2) other
      by (simp add: class_ok_def) (metis length_map length_upt minus_nat.diff_0 objs_def)
  next
    case False
    note d = class_okD [OF k(3) [OF j]]
    have "m' a = kmem (pool s) a" if "a \<in> set (oss j)" for a
      using m'(3) d(8) [OF that, of p] by simp
    then have "chain m' (mb_head (blocks s ! j)) (oss j)"
      using d(3) chain_cong [of "oss j" m' "kmem (pool s)"] by simp
    then show ?thesis
      using False d by (simp add: class_ok_def)
  qed
  moreover have "set (objs p sz 0 (n_objs sz)) \<inter> set (oss j) = {}" if "j < NBLOCK" for j
    using ob(3) class_okD(8) [OF k(3) [OF that]] by fastforce
  then have "set ((oss(i := objs p sz 0 (n_objs sz))) a) \<inter> set ((oss(i := objs p sz 0 (n_objs sz))) b) = {}"
    if "a < NBLOCK" "b < NBLOCK" "a \<noteq> b" for a b
    using k(4) [OF that] that by auto
  ultimately show ?thesis
    using k(2) by (auto simp: kalloc_inv_def)
qed

lemma fetch_obj_ok:
  assumes inv: "kalloc_inv s ps oss" and i: "i < NBLOCK" and av: "oss i \<noteq> [] \<or> ps \<noteq> []"
  shows "\<exists>obj s' ps' oss'. fetch_obj_from_block i s = Some (obj + 4, s') \<and> kalloc_inv s' ps' oss'
    \<and> kmem (pool s') obj = of_nat i \<and> (\<forall>j<NBLOCK. obj \<notin> set (oss' j)) \<and> obj + 4 \<noteq> 0 \<and> obj \<noteq> 0
    \<and> (\<forall>p\<in>set ps'. \<not> in_page p obj)"
proof (cases "oss i")
  case (Cons obj os)
  then have "obj \<noteq> 0"
    using class_okD(3) [OF kalloc_invD(3) [OF inv i]] by auto
  then show ?thesis
    using fetch_first [OF inv i Cons] by blast
next
  case Nil
  then obtain p ps1 where ps: "ps = p # ps1"
    using av by (cases ps) auto
  let ?sz = "push_bit i 16 + 4 :: u32"
  let ?os = "objs p ?sz 0 (n_objs ?sz)"
  obtain s1 where s1: "alloc_new_objs i s = Some (True, s1)" "kalloc_inv s1 ps1 (oss(i := ?os))"
    using alloc_new_objs_ok [OF inv [unfolded ps] i Nil] by blast
  have p: "page_ok p" "p \<noteq> 0"
    using kalloc_invD(1) [OF inv] ps by (auto simp: pool_inv_def)
  have sz: "0 < unat ?sz" "unat ?sz \<le> 2048"
    using class_size(2) [OF i] class_size_bound [OF i] by simp_all
  have "(oss(i := ?os)) i = p # objs p ?sz 1 (n_objs ?sz)"
    using objs_facts(4) [OF p sz] by simp
  note ff = fetch_first [OF s1(2) i this]
  have "mb_free (blocks s ! i) = 0"
    using class_okD(6) [OF kalloc_invD(3) [OF inv i]] Nil by simp
  moreover have "mb_free (blocks s1 ! i) \<noteq> 0"
    using class_okD(6) [OF kalloc_invD(3) [OF s1(2) i]] objs_facts(4) [OF p sz] by simp
  ultimately have "fetch_obj_from_block i s = fetch_obj_from_block i s1"
    using s1(1) by (simp add: fetch_obj_from_block_def)
  then show ?thesis
    using ff p by (simp only:) blast
qed

text \<open>The smallest size class that holds \<open>n\<close> bytes.\<close>

definition size_class :: "u32 \<Rightarrow> nat option" where
  "size_class n = find (\<lambda>i. unat n \<le> 16 * 2 ^ i) [0..<NBLOCK]"

lemma kalloc_loop_first:
  assumes "\<And>i. i \<in> set is \<Longrightarrow> i < NBLOCK" "\<And>i. i < NBLOCK \<Longrightarrow> obj_size (blocks s ! i) = push_bit i 16"
    and "find (\<lambda>i. unat n \<le> 16 * 2 ^ i) is = Some i" "fetch_obj_from_block i s = Some (r, s')" "r \<noteq> 0"
  shows "kalloc_loop n is s = Some (r, s')"
  using assms
proof (induction "is")
  case (Cons a as)
  have "n \<le> push_bit a 16 \<longleftrightarrow> unat n \<le> 16 * 2 ^ a"
    using class_size(1) [of a] Cons.prems(1) [of a] by (simp add: word_le_nat_alt)
  then show ?case
    using Cons by (auto split: if_splits)
qed simp

lemma kfree_ok:
  assumes inv: "kalloc_inv s ps oss" and i: "i < NBLOCK" and hd: "kmem (pool s) obj = of_nat i"
    and out: "\<forall>j<NBLOCK. obj \<notin> set (oss j)" and obj: "obj \<noteq> 0" "obj + 4 \<noteq> 0" "\<forall>p\<in>set ps. \<not> in_page p obj"
  shows "\<exists>s'. kfree False (obj + 4) s = Some s' \<and> kalloc_inv s' ps (oss(i := obj # oss i))"
proof -
  note k = kalloc_invD [OF inv] and c = class_okD [OF kalloc_invD(3) [OF inv i]]
  let ?b = "blocks s ! i"
  let ?b' = "?b\<lparr>mb_head := obj, inuse := inuse ?b - 1, mb_free := mb_free ?b + 1\<rparr>"
  let ?s = "set_kmem (\<lambda>m. m(obj := mb_head ?b)) (s\<lparr>blocks := (blocks s)[i := ?b']\<rparr>)"
  have iu: "unat (of_nat i :: u32) = i"
    using i by (simp add: NBLOCK_def unat_of_nat_u32)
  have f: "kfree False (obj + 4) s = Some ?s"
    using obj hd iu i k(2) by (simp add: kfree_def SIZEOF_MEM_OBJECT_DESC_def Let_def)
  have pp: "obj \<notin> set ps"
    using obj(3) by (metis in_page_self)
  have "class_ok ?s ps (oss(i := obj # oss i)) j" if j: "j < NBLOCK" for j
  proof (cases "j = i")
    case True
    then show ?thesis
      using c out i obj k(2) by (auto simp: class_ok_def set_kmem_def)
  next
    case False
    then show ?thesis
      using class_okD(1-5,7,8) [OF k(3) [OF j]] out j by (simp add: class_ok_def set_kmem_def)
  qed
  moreover have "pool_inv (pool ?s) ps"
    using pool_inv_upd [OF k(1) pp] by (simp add: set_kmem_def)
  moreover have "set ((oss(i := obj # oss i)) a) \<inter> set ((oss(i := obj # oss i)) b) = {}"
    if "a < NBLOCK" "b < NBLOCK" "a \<noteq> b" for a b
    using k(4) [OF that] that out i by auto
  ultimately have "kalloc_inv ?s ps (oss(i := obj # oss i))"
    using k(2) by (simp add: kalloc_inv_def set_kmem_def)
  then show ?thesis
    using f by blast
qed

section \<open>Properties\<close>

text \<open>A pool with the pages 0x80401000 and 0x80400000 free.\<close>

definition demo_pool :: phy_mem_pool where
  "demo_pool = \<lparr>kmem = (\<lambda>_. 0)(0x80401000 := 0x80400000), free_list = 0x80401000, free_page_cnt = 2, using_page_cnt = 0\<rparr>"

lemma demo_pool_inv: "pool_inv demo_pool [0x80401000, 0x80400000]"
  by (simp add: pool_inv_def demo_pool_def page_ok_def aligned_page_def)

text \<open>
  The page pool is a stack of distinct, page-aligned pages: \<open>get_free_page\<close> takes the top one and
  never hands out a page that is still free, \<open>free_page\<close> puts a page back on top, and the counters
  follow. When no page is left \<open>get_free_page\<close> returns \<open>NULL\<close>, but the physical \<open>palloc\<close> returns
  \<open>KV2P(NULL) = 0x80000000\<close>, which is not \<open>NULL\<close>; \<open>get_zeroed_free_page\<close> then faults.
\<close>

theorem page_pool_correct:
  assumes "pool_inv s ps"
  shows "(case ps of
      [] \<Rightarrow> get_free_page s = (0, s) \<and> palloc s = (KERNEL_BASE, s) \<and> get_zeroed_free_page s = None
    | p # ps' \<Rightarrow> \<exists>s'. get_free_page s = (p, s') \<and> pool_inv s' ps' \<and> p \<notin> set ps'
        \<and> get_free_page_cnt s' = get_free_page_cnt s - 1 \<and> get_using_page_cnt s' = get_using_page_cnt s + 1
        \<and> (\<exists>s''. get_zeroed_free_page s = Some (p, s'') \<and> pool_inv s'' ps' \<and> (\<forall>a. in_page p a \<longrightarrow> kmem s'' a = 0)))
    \<and> (\<forall>p. page_ok p \<longrightarrow> p \<notin> set ps \<longrightarrow> p \<noteq> 0 \<longrightarrow> p \<noteq> KERNEL_BASE \<longrightarrow>
        (\<exists>s'. free_page p s = Some s' \<and> pool_inv s' (p # ps)))"
proof -
  have push: "\<forall>p. page_ok p \<longrightarrow> p \<notin> set ps \<longrightarrow> p \<noteq> 0 \<longrightarrow> p \<noteq> KERNEL_BASE \<longrightarrow>
        (\<exists>s'. free_page p s = Some s' \<and> pool_inv s' (p # ps))"
    using free_page_push [OF assms] by blast
  show ?thesis
  proof (cases ps)
    case Nil
    then show ?thesis
      using palloc_empty assms push
      by (simp add: get_free_page_def get_zeroed_free_page_def KP2V_def KERNEL_BASE_def)
  next
    case (Cons p ps')
    note pp = palloc_pop [OF assms [unfolded Cons]]
    let ?s = "snd (palloc s)"
    have p: "p \<noteq> 0" "p \<notin> set ps'" "page_ok p" "\<forall>q\<in>set ps'. page_ok q"
      using assms Cons by (auto simp: pool_inv_def)
    have "chain (zero_page p (kmem s)) (free_list ?s) ps' = chain (kmem s) (free_list ?s) ps'"
    proof (rule chain_cong)
      fix a assume "a \<in> set ps'"
      then have "\<not> in_page p a"
        using in_page_unique [of p a a] p by (auto simp: page_ok_def)
      then show "zero_page p (kmem s) a = kmem s a"
        by (simp add: zero_page_def in_page_def)
    qed
    then have "pool_inv (?s\<lparr>kmem := zero_page p (kmem s)\<rparr>) ps'"
      using pp by (simp add: pool_inv_def)
    moreover have "kmem ?s = kmem s" "fst (palloc s) = KV2P p"
      using pp(1) by simp_all
    then have "get_zeroed_free_page s = Some (p, ?s\<lparr>kmem := zero_page p (kmem s)\<rparr>)"
      using p(1) by (simp add: get_zeroed_free_page_def get_free_page_def case_prod_beta Let_def)
    moreover have "\<forall>a. in_page p a \<longrightarrow> zero_page p (kmem s) a = 0"
      by (simp add: zero_page_def in_page_def)
    ultimately have "\<exists>s''. get_zeroed_free_page s = Some (p, s'') \<and> pool_inv s'' ps' \<and> (\<forall>a. in_page p a \<longrightarrow> kmem s'' a = 0)"
      by simp
    then show ?thesis
      using pp p push Cons
      by (simp add: get_free_page_def get_free_page_cnt_def get_using_page_cnt_def)
  qed
qed

theorem page_pool_correct_witness:
  "\<exists>s'. get_free_page demo_pool = (0x80401000, s') \<and> pool_inv s' [0x80400000]"
  using page_pool_correct [OF demo_pool_inv] by auto

text \<open>
  \<open>pmem_init\<close>: with at least 32 MB of memory, a whole number of pages, the loop returns and the pool
  holds distinct pages that all lie above the kernel's 4 MB and inside the physical memory that
  exists; with less memory, or a ragged size, it panics.
\<close>

theorem pmem_init_correct:
  assumes "2 ^ 25 \<le> unat total_mem" and "unat total_mem mod 4096 = 0"
  shows "\<exists>s' n. pmem_init total_mem s = Some s' \<and> pool_inv s' (rev (pages_up FREE_BASE n))
    \<and> n = (min (unat total_mem - 4194304) 1069547520 - 4194304) div 4096 + 1
    \<and> (\<forall>p\<in>set (pages_up FREE_BASE n). FREE_BASE \<le> p \<and> unat (KV2P p) + 4096 \<le> unat total_mem)"
proof -
  let ?t1 = "total_mem - KERNEL_SPACE_SIZE"
  define t2 where "t2 = (if ?t1 > MAX_FREE_MEMORY_SPACE then MAX_FREE_MEMORY_SPACE else ?t1)"
  have t: "unat total_mem < 2 ^ 32"
    using unsigned_less [where 'a = nat, of total_mem] by simp
  have t1: "unat ?t1 = unat total_mem - 4194304"
    using assms(1) by (simp add: KERNEL_SPACE_SIZE_def unat_sub word_le_nat_alt)
  have mx: "unat MAX_FREE_MEMORY_SPACE = 1069547520"
    by (simp add: MAX_FREE_MEMORY_SPACE_def PHY_MEMORY_TOP_def KERNEL_SPACE_SIZE_def)
  have t2: "unat t2 = min (unat total_mem - 4194304) 1069547520"
    by (simp add: t2_def t1 mx word_less_nat_alt min_def)
  have m2: "unat t2 mod 4096 = 0"
    using assms by (simp add: t2 min_def mod_eq_0_iff_dvd dvd_diff_nat)
  have b2: "29360128 \<le> unat t2" "unat t2 \<le> 1069547520"
    using assms(1) by (simp_all add: t2)
  define n where "n = (unat t2 - 4194304) div 4096 + 1"
  have n: "4096 * n = unat t2 - 4194304 + 4096"
    using m2 b2 by (simp add: n_def mod_eq_0_iff_dvd dvd_diff_nat)
  have fb: "unat FREE_BASE = 2151677952"
    by (simp add: FREE_BASE_def KERNEL_BASE_def KERNEL_SPACE_SIZE_def)
  have kp: "unat (KP2V t2) = unat t2 + 2147483648"
    using b2 by (simp add: KP2V_def KERNEL_BASE_def unat_word_ariths)
  have pi0: "pool_inv (s\<lparr>free_list := 0, free_page_cnt := 0\<rparr>) []"
    by (simp add: pool_inv_def)
  obtain s' where s': "pfree_range_loop FREE_BASE (KP2V t2) (s\<lparr>free_list := 0, free_page_cnt := 0\<rparr>) = Some s'"
      "pool_inv s' (rev (pages_up FREE_BASE n) @ [])"
    using pfree_range_loop_ok [OF pi0, of FREE_BASE n "KP2V t2"] n b2 fb kp
    by (auto simp: aligned_page_def)
  have "KP2V t2 mod PG_SIZE = 0" "FREE_BASE mod PG_SIZE = 0" "total_mem mod PG_SIZE = 0"
    using m2 assms(2) fb kp by (simp_all add: word_unat_eq_iff unat_mod PG_SIZE_def mod_add_eq [symmetric])
  moreover have "\<not> total_mem < 1024 * 1024 * 32"
    using assms(1) by (simp add: word_less_nat_alt)
  ultimately have init: "pmem_init total_mem s = Some s'"
    using s'(1) by (simp add: pmem_init_def pfree_range_def t2_def Let_def)
  have "FREE_BASE \<le> p \<and> unat (KV2P p) + 4096 \<le> unat total_mem" if p: "p \<in> set (pages_up FREE_BASE n)" for p
  proof -
    obtain k where k: "k < n" "p = FREE_BASE + of_nat k * PG_SIZE"
      using p by (auto simp: pages_up_def)
    have up: "unat p = 2151677952 + 4096 * k"
      using pages_up_unat [of FREE_BASE n k] k n b2 fb by simp
    have "4096 * k + 4096 \<le> 4096 * n"
      using k(1) by simp
    moreover have "unat (KV2P p) = unat p - 2147483648"
      using up by (simp add: KV2P_def KERNEL_BASE_def unat_sub word_le_nat_alt)
    ultimately show ?thesis
      using up n b2 t2 fb by (simp add: word_le_nat_alt)
  qed
  then show ?thesis
    using init s'(2) t2 n_def by auto
qed

theorem pmem_init_correct_witness:
  "\<exists>s'. pmem_init 0x2000000 demo_pool = Some s' \<and> pool_inv s' (rev (pages_up FREE_BASE 6145))"
  using pmem_init_correct [of "0x2000000" demo_pool] by auto



text \<open>
  Every page that \<open>alloc_new_objs\<close> cuts yields one object that does not fit: the loop runs while the
  object starts inside the page, so the last object of each of the seven classes ends behind the
  page, and a write to its last bytes changes the following page.
\<close>

theorem last_object_overruns_page:
  assumes "i < NBLOCK" and "page_ok page" and "page \<noteq> 0"
  defines "sz \<equiv> push_bit i 16 + 4 :: u32"
  shows "unat page + 4096 < unat (last (objs page sz 0 (n_objs sz))) + 4 + 16 * 2 ^ i
    \<and> (\<exists>m'. cut_page page sz 0 None (zero_page page m) 0 0 = Some (page, of_nat (n_objs sz), m')
         \<and> chain m' page (objs page sz 0 (n_objs sz)))"
proof -
  have sz: "0 < unat sz" "unat sz \<le> 2048" "unat sz = 16 * 2 ^ i + 4"
    using class_size(2) [OF assms(1)] class_size_bound [OF assms(1)] by (simp_all add: sz_def)
  have n: "0 < n_objs sz"
    by (simp add: n_objs_def)
  then have "last (objs page sz 0 (n_objs sz)) = page + of_nat (n_objs sz - 1) * sz"
    by (simp add: objs_def last_map)
  then have l: "unat (last (objs page sz 0 (n_objs sz))) = unat page + (n_objs sz - 1) * unat sz"
    using unat_obj(1) [OF assms(2) sz(1,2), of "n_objs sz - 1"] n by simp
  have "(n_objs sz - 1) * unat sz + unat sz = n_objs sz * unat sz"
    using n by (metis Suc_diff_1 add.commute mult_Suc)
  moreover have "n_objs sz * unat sz \<noteq> 4096"
  proof -
    have "i \<in> {0, 1, 2, 3, 4, 5, 6}"
      using assms(1) by (auto simp: NBLOCK_def)
    then show ?thesis
      by (auto simp: sz n_objs_def)
  qed
  ultimately have "4096 < (n_objs sz - 1) * unat sz + unat sz"
    using n_objs_bounds(2) [OF sz(1,2)] by linarith
  then show ?thesis
    using l sz(3) cut_page_all [OF assms(2,3) sz(1,2), of "zero_page page m"]
    by (auto simp: zero_page_def in_page_def)
qed

theorem last_object_overruns_page_witness:
  "unat (0x80400000 :: u32) + 4096
     < unat (last (objs 0x80400000 (push_bit 0 16 + 4) 0 (n_objs (push_bit 0 16 + 4)))) + 4 + 16 * 2 ^ (0::nat)"
  using last_object_overruns_page [of 0 "0x80400000"]
  by (simp add: NBLOCK_def page_ok_def aligned_page_def)

end
