(* ===== verification/PageTable.thy ===== *)
theory PageTable
  imports PhysMem
begin

text \<open>
  Page directories and page tables: \<open>kernel/mem/pgtab.c\<close>, on the word memory and the page pool of
  theory \<open>PhysMem\<close>, and the address spaces of \<open>kernel/mem/vm.c\<close>.

  The abstract view of a page directory is the partial function \<open>walk\<close> from virtual addresses to
  page frames. \<open>memset\<close>, \<open>memcpy\<close> and \<open>inode_read\<close> calls on the contents of user pages are
  recorded as the sequence of calls with their arguments. A store through \<open>NULL\<close> faults (\<open>None\<close>).
\<close>

section \<open>Page directory and table entries\<close>

definition VMEMORY_TOP :: u32 where "VMEMORY_TOP = KERNEL_BASE + PHY_MEMORY_TOP"
definition PG_PRESENT :: u32 where "PG_PRESENT = 1"
definition PG_RW_RW :: u32 where "PG_RW_RW = 2"
definition PG_US_USER :: u32 where "PG_US_USER = 4"
definition PG_US_SUPER :: u32 where "PG_US_SUPER = 0"
definition KPGDIR_PADDR :: u32 where "KPGDIR_PADDR = 0x10000"

definition PDE_NR :: "u32 \<Rightarrow> u32" where "PDE_NR vaddr = drop_bit 22 vaddr AND 0x3FF"
definition PTE_NR :: "u32 \<Rightarrow> u32" where "PTE_NR vaddr = drop_bit 12 vaddr AND 0x3FF"

definition KERNEL_FIRST_PDE_NR :: nat where "KERNEL_FIRST_PDE_NR = unat (drop_bit 20 KERNEL_BASE div 4)"
definition KERNEL_LAST_PDE_NR :: nat where "KERNEL_LAST_PDE_NR = unat (drop_bit 20 VMEMORY_TOP div 4 - 1)"
definition FREE_FIRST_PDE_NR :: nat where "FREE_FIRST_PDE_NR = unat (drop_bit 20 FREE_BASE div 4)"
definition FREE_LAST_PDE_NR :: nat where "FREE_LAST_PDE_NR = unat (drop_bit 20 VMEMORY_TOP div 4 - 1)"
definition USER_LAST_PDE_NR :: nat where "USER_LAST_PDE_NR = unat (drop_bit 20 KERNEL_BASE div 4 - 1)"

definition IS_PRESENT :: "u32 \<Rightarrow> bool" where "IS_PRESENT e = (e AND PG_PRESENT \<noteq> 0)"
definition ENTRY_PADDR :: "u32 \<Rightarrow> u32" where "ENTRY_PADDR e = e AND 0xFFFFF000"

text \<open>\<open>PDE_VADDR\<close> and \<open>PTE_VADDR\<close> convert with \<open>KV2P\<close>.\<close>

definition ENTRY_VADDR :: "u32 \<Rightarrow> u32" where "ENTRY_VADDR e = KV2P (e AND 0xFFFFF000)"

definition kpgdir :: u32 where "kpgdir = KP2V KPGDIR_PADDR"

definition GET_PGTAB :: "wmem \<Rightarrow> u32 \<Rightarrow> u32 \<Rightarrow> u32" where
  "GET_PGTAB m pgdir pde_nr = ENTRY_VADDR (m (pgdir + 4 * pde_nr))"

definition pte_ptr :: "wmem \<Rightarrow> u32 \<Rightarrow> u32 \<Rightarrow> u32" where
  "pte_ptr m pgdir vaddr = GET_PGTAB m pgdir (PDE_NR vaddr) + 4 * PTE_NR vaddr"

definition v2p_addr :: "wmem \<Rightarrow> u32 \<Rightarrow> u32 \<Rightarrow> u32 option" where
  "v2p_addr m pgdir vaddr = do {
     kassert (IS_PRESENT (m (pgdir + 4 * PDE_NR vaddr)));
     let pgtab = GET_PGTAB m pgdir (PDE_NR vaddr);
     kassert (IS_PRESENT (m (pgtab + 4 * PTE_NR vaddr)));
     Some (ENTRY_PADDR (m (pgtab + 4 * PTE_NR vaddr)))
   }"

definition page_frame_ptr :: "wmem \<Rightarrow> u32 \<Rightarrow> u32 \<Rightarrow> u32" where
  "page_frame_ptr m pgdir vaddr =
     (if \<not> IS_PRESENT (m (pgdir + 4 * PDE_NR vaddr)) then 0
      else let pgtab = GET_PGTAB m pgdir (PDE_NR vaddr) in
        if \<not> IS_PRESENT (m (pgtab + 4 * PTE_NR vaddr)) then 0
        else ENTRY_VADDR (m (pgtab + 4 * PTE_NR vaddr)))"

definition upd_kmem :: "(wmem \<Rightarrow> wmem) \<Rightarrow> phy_mem_pool \<Rightarrow> phy_mem_pool" where
  "upd_kmem f s = s\<lparr>kmem := f (kmem s)\<rparr>"

definition map_page :: "u32 \<Rightarrow> u32 \<Rightarrow> u32 \<Rightarrow> u32 \<Rightarrow> phy_mem_pool \<Rightarrow> (bool \<times> phy_mem_pool) option" where
  "map_page pgdir vaddr paddr attr s = do {
     kassert (paddr mod PG_SIZE = 0);
     let pde = pgdir + 4 * PDE_NR vaddr;
     (ok, s1) \<leftarrow> (if \<not> IS_PRESENT (kmem s pde) then
         (let (new_pgtab, s') = palloc s in
          if new_pgtab = 0 then Some (False, s')
          else do {
            kassert (KP2V new_pgtab \<noteq> 0);
            Some (True, upd_kmem (\<lambda>m. (zero_page (KP2V new_pgtab) m)
                     (pde := new_pgtab OR PG_RW_RW OR PG_US_USER OR PG_PRESENT)) s')
          })
       else Some (True, s));
     if \<not> ok then Some (False, s1)
     else do {
       let pte = pte_ptr (kmem s1) pgdir vaddr;
       kassert (\<not> IS_PRESENT (kmem s1 pte));
       Some (True, upd_kmem (\<lambda>m. m(pte := paddr OR attr OR PG_PRESENT)) s1)
     }
   }"

definition unmap_page :: "u32 \<Rightarrow> u32 \<Rightarrow> phy_mem_pool \<Rightarrow> phy_mem_pool" where
  "unmap_page pgdir vaddr s =
     (let pte = pte_ptr (kmem s) pgdir vaddr in upd_kmem (\<lambda>m. m(pte := m pte AND NOT PG_PRESENT)) s)"

definition copy_words :: "u32 \<Rightarrow> u32 \<Rightarrow> nat \<Rightarrow> wmem \<Rightarrow> wmem" where
  "copy_words dst src n m = (\<lambda>a. if unat (a - dst) < 4 * n \<and> unat (a - dst) mod 4 = 0 then m (src + (a - dst)) else m a)"

definition pgdir_new :: "phy_mem_pool \<Rightarrow> (u32 \<times> phy_mem_pool) option" where
  "pgdir_new s = do {
     (pgdir, s1) \<leftarrow> get_zeroed_free_page s;
     if pgdir \<noteq> 0 then
       Some (pgdir, upd_kmem (copy_words (pgdir + 4 * of_nat KERNEL_FIRST_PDE_NR) (kpgdir + 4 * of_nat KERNEL_FIRST_PDE_NR)
          (KERNEL_LAST_PDE_NR - KERNEL_FIRST_PDE_NR + 1)) s1)
     else Some (pgdir, s1)
   }"

text \<open>The inner loop of \<open>pgdir_free\<close> over the entries of one page table.\<close>

fun pgtab_free_loop :: "u32 \<Rightarrow> nat list \<Rightarrow> phy_mem_pool \<Rightarrow> phy_mem_pool option" where
  "pgtab_free_loop pgtab [] s = Some s"
| "pgtab_free_loop pgtab (pte_nr # ns) s = do {
     let pte = kmem s (pgtab + 4 * of_nat pte_nr);
     s1 \<leftarrow> (if IS_PRESENT pte
           then pfree (ENTRY_PADDR pte) (upd_kmem (zero_page (KP2V (ENTRY_PADDR pte))) s)
           else Some s);
     pgtab_free_loop pgtab ns (upd_kmem (\<lambda>m. m(pgtab + 4 * of_nat pte_nr := 0)) s1)
   }"

fun pgdir_free_loop :: "u32 \<Rightarrow> nat list \<Rightarrow> phy_mem_pool \<Rightarrow> phy_mem_pool option" where
  "pgdir_free_loop pgdir [] s = Some s"
| "pgdir_free_loop pgdir (pde_nr # ns) s = do {
     let pde = kmem s (pgdir + 4 * of_nat pde_nr);
     s1 \<leftarrow> (if \<not> IS_PRESENT pde then Some s
           else do {
             s' \<leftarrow> pgtab_free_loop (ENTRY_VADDR pde) [0..<1024] s;
             free_page (ENTRY_VADDR pde) s'
           });
     pgdir_free_loop pgdir ns s1
   }"

definition pgdir_free :: "u32 \<Rightarrow> phy_mem_pool \<Rightarrow> phy_mem_pool option" where
  "pgdir_free pgdir s = do {
     kassert (kpgdir \<noteq> pgdir);
     s1 \<leftarrow> pgdir_free_loop pgdir [0..<USER_LAST_PDE_NR + 1] s;
     free_page pgdir s1
   }"

text \<open>The \<open>bad\<close> path of \<open>pgdir_valloc\<close>: the pages mapped so far are unmapped and freed, last first.\<close>

fun valloc_undo :: "u32 \<Rightarrow> u32 \<Rightarrow> nat \<Rightarrow> phy_mem_pool \<Rightarrow> phy_mem_pool option" where
  "valloc_undo pgdir vaddr 0 s = Some s"
| "valloc_undo pgdir vaddr (Suc n) s = do {
     let v = vaddr - PG_SIZE;
     p \<leftarrow> v2p_addr (kmem s) pgdir v;
     s1 \<leftarrow> pfree p s;
     valloc_undo pgdir v n (unmap_page pgdir v s1)
   }"

fun valloc_loop :: "u32 \<Rightarrow> u32 \<Rightarrow> nat \<Rightarrow> nat \<Rightarrow> u32 \<Rightarrow> phy_mem_pool \<Rightarrow> (bool \<times> phy_mem_pool) option" where
  "valloc_loop pgdir vaddr cnt 0 attr s = Some (True, s)"
| "valloc_loop pgdir vaddr cnt (Suc n) attr s =
     (let (paddr, s1) = palloc s in
      if paddr = 0 then map_option (Pair False) (valloc_undo pgdir vaddr cnt s1)
      else do {
        (ok, s2) \<leftarrow> map_page pgdir vaddr paddr attr s1;
        if \<not> ok then do {
          s3 \<leftarrow> pfree paddr s2;
          map_option (Pair False) (valloc_undo pgdir vaddr cnt s3)
        } else valloc_loop pgdir (vaddr + PG_SIZE) (cnt + 1) n attr s2
      })"

definition pgdir_valloc :: "u32 \<Rightarrow> u32 \<Rightarrow> u32 \<Rightarrow> u32 \<Rightarrow> phy_mem_pool \<Rightarrow> (bool \<times> phy_mem_pool) option" where
  "pgdir_valloc pgdir vaddr pg_cnt attr s = valloc_loop pgdir vaddr 0 (unat pg_cnt) attr s"

fun pgtab_copy_loop :: "u32 \<Rightarrow> u32 \<Rightarrow> nat list \<Rightarrow> phy_mem_pool \<Rightarrow> (bool \<times> phy_mem_pool) option" where
  "pgtab_copy_loop src dst [] s = Some (True, s)"
| "pgtab_copy_loop src dst (pte_nr # ns) s =
     (let s1 = upd_kmem (\<lambda>m. m(dst + 4 * of_nat pte_nr := 0)) s;
          pte = kmem s1 (src + 4 * of_nat pte_nr) in
      if IS_PRESENT pte then
        (let (paddr, s2) = palloc s1 in
         if paddr = 0 then Some (False, s2)
         else do {
           kassert (KP2V paddr \<noteq> 0);
           let s3 = upd_kmem (\<lambda>m. m(dst + 4 * of_nat pte_nr := paddr OR PG_RW_RW OR PG_US_USER OR PG_PRESENT)) s2;
           pgtab_copy_loop src dst ns (upd_kmem (copy_words (KP2V paddr) (KP2V (ENTRY_PADDR pte)) 1024) s3)
         })
      else pgtab_copy_loop src dst ns s1)"

definition pgtab_copy :: "u32 \<Rightarrow> u32 \<Rightarrow> phy_mem_pool \<Rightarrow> (bool \<times> phy_mem_pool) option" where
  "pgtab_copy src dst s = pgtab_copy_loop src dst [0..<1024] s"

fun pgdir_copy_loop :: "u32 \<Rightarrow> u32 \<Rightarrow> nat list \<Rightarrow> phy_mem_pool \<Rightarrow> (bool \<times> phy_mem_pool) option" where
  "pgdir_copy_loop pgdir cp [] s = Some (True, s)"
| "pgdir_copy_loop pgdir cp (pde_nr # ns) s =
     (let pde = kmem s (pgdir + 4 * of_nat pde_nr) in
      if \<not> IS_PRESENT pde then pgdir_copy_loop pgdir cp ns s
      else (let (paddr, s1) = palloc s in
        if paddr = 0 then Some (False, s1)
        else do {
          kassert (KP2V paddr \<noteq> 0);
          let s2 = upd_kmem (\<lambda>m. m(cp + 4 * of_nat pde_nr := paddr OR PG_RW_RW OR PG_US_USER OR PG_PRESENT)) s1;
          (ok, s3) \<leftarrow> pgtab_copy (KP2V (ENTRY_PADDR pde)) (KP2V paddr) s2;
          if \<not> ok then Some (False, s3) else pgdir_copy_loop pgdir cp ns s3
        }))"

definition pgdir_copy :: "u32 \<Rightarrow> phy_mem_pool \<Rightarrow> (u32 \<times> phy_mem_pool) option" where
  "pgdir_copy pgdir s = do {
     (cp, s1) \<leftarrow> pgdir_new s;
     if cp = 0 then Some (0, s1)
     else do {
       (ok, s2) \<leftarrow> pgdir_copy_loop pgdir cp [0..<USER_LAST_PDE_NR + 1] s1;
       if ok then Some (cp, s2)
       else do { s3 \<leftarrow> pgdir_free cp s2; Some (0, s3) }
     }
   }"

text \<open>
  \<open>pgdir_setrange\<close>: whether it succeeds, and the calls \<open>memset(addr, val, per)\<close> that it makes. The loop
  ends because every pass advances by at least one byte.
\<close>

function setrange_loop :: "wmem \<Rightarrow> u32 \<Rightarrow> nat \<Rightarrow> u32 \<Rightarrow> nat \<Rightarrow> bool \<times> (u32 \<times> nat) list" where
  "setrange_loop m pgdir n vp done =
     (if done < n then
        (let rp = page_frame_ptr m pgdir vp in
         if rp = 0 then (False, [])
         else (let off = unat vp mod 4096;
                   per = min (4096 - off) (n - done);
                   (ok, calls) = setrange_loop m pgdir n (vp + of_nat per) (done + per)
               in (ok, (rp + of_nat off, per) # calls)))
      else (True, []))"
  by pat_completeness auto
termination
  by (relation "measure (\<lambda>(m, pgdir, n, vp, done). n - done)") (auto simp: min_def)

declare setrange_loop.simps [simp del]

definition pgdir_setrange :: "wmem \<Rightarrow> u32 \<Rightarrow> u32 \<Rightarrow> u32 \<Rightarrow> bool \<times> (u32 \<times> nat) list" where
  "pgdir_setrange m pgdir vstart n = setrange_loop m pgdir (unat n) vstart 0"

fun pgtab_fill :: "u32 \<Rightarrow> nat list \<Rightarrow> u32 \<Rightarrow> wmem \<Rightarrow> u32 \<times> wmem" where
  "pgtab_fill pgtab [] paddr m = (paddr, m)"
| "pgtab_fill pgtab (pte_nr # ns) paddr m =
     pgtab_fill pgtab ns (paddr + PG_SIZE)
       (m(pgtab + 4 * of_nat pte_nr := paddr OR PG_US_SUPER OR PG_RW_RW OR PG_PRESENT))"

fun pgtab_init_loop :: "nat list \<Rightarrow> u32 \<Rightarrow> u32 \<Rightarrow> wmem \<Rightarrow> wmem" where
  "pgtab_init_loop [] pgtab_paddr paddr m = m"
| "pgtab_init_loop (pde_nr # ns) pgtab_paddr paddr m =
     (let m1 = m(kpgdir + 4 * of_nat pde_nr := pgtab_paddr OR PG_US_SUPER OR PG_RW_RW OR PG_PRESENT);
          (paddr1, m2) = pgtab_fill (KP2V pgtab_paddr) [0..<1024] paddr m1
      in pgtab_init_loop ns (pgtab_paddr + PG_SIZE) paddr1 m2)"

definition pgtab_init :: "wmem \<Rightarrow> wmem" where
  "pgtab_init m = pgtab_init_loop [FREE_FIRST_PDE_NR..<FREE_LAST_PDE_NR + 1] 0x100000 KERNEL_SPACE_SIZE m"

section \<open>The abstract page table\<close>

definition walk :: "wmem \<Rightarrow> u32 \<Rightarrow> u32 \<Rightarrow> u32 option" where
  "walk m pgdir v =
     (if IS_PRESENT (m (pgdir + 4 * PDE_NR v)) \<and> IS_PRESENT (m (pte_ptr m pgdir v))
      then Some (ENTRY_PADDR (m (pte_ptr m pgdir v))) else None)"

lemma KV2P_eq_KP2V: "KV2P a = KP2V a"
  by (simp add: KV2P_def KP2V_def KERNEL_BASE_def)

lemma KV2P_KV2P [simp]: "KV2P (KV2P a) = a"
  by (simp add: KV2P_def KERNEL_BASE_def)

lemma v2p_addr_walk: "v2p_addr m pgdir v = walk m pgdir v"
  by (simp add: v2p_addr_def walk_def pte_ptr_def Let_def)

lemma page_frame_ptr_walk:
  "page_frame_ptr m pgdir v = (case walk m pgdir v of None \<Rightarrow> 0 | Some p \<Rightarrow> KP2V p)"
  by (simp add: page_frame_ptr_def walk_def pte_ptr_def ENTRY_VADDR_def ENTRY_PADDR_def KV2P_eq_KP2V Let_def)

section \<open>Entry arithmetic\<close>

lemma page_mask: "(0xFFFFF000 :: u32) = NOT (mask 12)"
  by (simp add: mask_eq_exp_minus_1)

lemma aligned_and_mask: "aligned_page p \<longleftrightarrow> p AND mask 12 = 0"
proof -
  have "p AND mask 12 = take_bit 12 p"
    by (simp add: take_bit_eq_mask)
  moreover have "unat (take_bit 12 p) = unat p mod 4096"
    by (simp add: take_bit_eq_mod unat_mod)
  ultimately show ?thesis
    by (metis aligned_page_def unat_eq_0)
qed

lemma aligned_clear:
  assumes "aligned_page p"
  shows "p AND 0xFFFFF000 = p"
proof -
  have "p = (p AND mask 12) OR (p AND NOT (mask 12))"
    by (simp flip: bit.conj_disj_distrib)
  then show ?thesis
    using assms unfolding page_mask aligned_and_mask by simp
qed

lemma entry_paddr_or:
  assumes "aligned_page p" "f AND 0xFFFFF000 = 0"
  shows "ENTRY_PADDR (p OR f) = p"
  using assms by (simp add: ENTRY_PADDR_def aligned_clear bit.conj_disj_distrib2)

lemma present_or [simp]: "IS_PRESENT (x OR PG_PRESENT)"
  by (simp add: IS_PRESENT_def PG_PRESENT_def bit.conj_disj_distrib2)

lemma not_present_0 [simp]: "\<not> IS_PRESENT 0"
  by (simp add: IS_PRESENT_def)

lemma entry_paddr_aligned: "aligned_page (ENTRY_PADDR e)"
  unfolding aligned_and_mask ENTRY_PADDR_def page_mask by (simp add: ac_simps)

lemma aligned_page_iff_mod: "aligned_page p \<longleftrightarrow> p mod PG_SIZE = 0"
  by (simp add: aligned_page_def PG_SIZE_def word_unat_eq_iff unat_mod)

lemma aligned_KP2V: "aligned_page (KP2V p) \<longleftrightarrow> aligned_page p"
proof -
  have "unat (KP2V p) = (unat p + 2147483648) mod 4294967296"
    by (simp add: KP2V_def KERNEL_BASE_def unat_word_ariths)
  then have "unat (KP2V p) mod 4096 = (unat p + 2147483648) mod 4096"
    by (simp add: mod_mod_cancel)
  also have "\<dots> = unat p mod 4096"
    by (subst mod_add_right_eq [symmetric]) simp
  finally show ?thesis
    by (simp add: aligned_page_def)
qed

lemma nr_bound: "unat (PDE_NR v) < 1024" "unat (PTE_NR v) < 1024"
proof -
  have "x AND 0x3FF < 1024" for x :: u32
    using and_mask_less' [of 10 x] by (simp add: mask_eq_exp_minus_1)
  then show "unat (PDE_NR v) < 1024" "unat (PTE_NR v) < 1024"
    by (auto simp: PDE_NR_def PTE_NR_def word_less_nat_alt)
qed

lemma user_pde:
  assumes "v < KERNEL_BASE"
  shows "unat (PDE_NR v) < 512"
proof -
  have "unat v < 2 ^ 31"
    using assms by (simp add: KERNEL_BASE_def word_less_nat_alt)
  then have "unat (drop_bit 22 v) < 512"
    by (simp add: drop_bit_eq_div unat_div less_mult_imp_div_less)
  moreover have "unat (x AND y) \<le> unat x" for x y :: u32
    by (metis word_and_le2 word_le_nat_alt)
  ultimately show ?thesis
    unfolding PDE_NR_def by (meson le_less_trans)
qed

lemma unat_4_times: "unat i < 1024 \<Longrightarrow> unat (4 * i :: u32) = 4 * unat i"
  by (simp add: unat_word_ariths)

lemma entry_in_page: "unat i < 1024 \<Longrightarrow> in_page P (P + 4 * i)"
  by (simp add: in_page_def PG_SIZE_def word_less_nat_alt unat_4_times)

lemma entry_inj:
  fixes i j P :: u32
  assumes "unat i < 1024" "unat j < 1024" "P + 4 * i = P + 4 * j"
  shows "i = j"
proof -
  have "4 * i = 4 * j"
    using assms(3) by simp
  then have "unat (4 * i) = unat (4 * j)"
    by (rule arg_cong)
  then have "unat i = unat j"
    using unat_4_times [OF assms(1)] unat_4_times [OF assms(2)] by simp
  then show ?thesis
    by (rule word_unat_eq_iff [THEN iffD2])
qed

lemma table_aligned: "aligned_page (GET_PGTAB m pgdir i)"
  by (metis GET_PGTAB_def ENTRY_VADDR_def ENTRY_PADDR_def KV2P_eq_KP2V aligned_KP2V entry_paddr_aligned)

lemma entries_disjoint:
  assumes "aligned_page P" "aligned_page Q" "P \<noteq> Q" "unat i < 1024" "in_page Q a"
  shows "P + 4 * i \<noteq> a"
  using in_page_unique [OF assms(1,2) entry_in_page [OF assms(4)]] assms(3,5) by auto

section \<open>The invariant of an address space\<close>

text \<open>
  The pages of the directory and of the tables of its user half are distinct and not free.
\<close>

definition pt_inv :: "phy_mem_pool \<Rightarrow> u32 list \<Rightarrow> u32 \<Rightarrow> bool" where
  "pt_inv s ps pgdir = (pool_inv s ps \<and> aligned_page pgdir \<and> pgdir \<notin> set ps \<and> KERNEL_BASE \<notin> set ps
     \<and> (\<forall>i. unat i < 512 \<longrightarrow> IS_PRESENT (kmem s (pgdir + 4 * i)) \<longrightarrow>
          GET_PGTAB (kmem s) pgdir i \<notin> set ps \<and> GET_PGTAB (kmem s) pgdir i \<noteq> pgdir)
     \<and> (\<forall>i j. unat i < 512 \<longrightarrow> unat j < 512 \<longrightarrow> i \<noteq> j \<longrightarrow>
          IS_PRESENT (kmem s (pgdir + 4 * i)) \<longrightarrow> IS_PRESENT (kmem s (pgdir + 4 * j)) \<longrightarrow>
          GET_PGTAB (kmem s) pgdir i \<noteq> GET_PGTAB (kmem s) pgdir j))"

lemma pt_invD:
  assumes "pt_inv s ps pgdir"
  shows "pool_inv s ps" "aligned_page pgdir" "pgdir \<notin> set ps"
    "\<And>i. unat i < 512 \<Longrightarrow> IS_PRESENT (kmem s (pgdir + 4 * i)) \<Longrightarrow> GET_PGTAB (kmem s) pgdir i \<notin> set ps"
    "\<And>i. unat i < 512 \<Longrightarrow> IS_PRESENT (kmem s (pgdir + 4 * i)) \<Longrightarrow> GET_PGTAB (kmem s) pgdir i \<noteq> pgdir"
    "\<And>i j. unat i < 512 \<Longrightarrow> unat j < 512 \<Longrightarrow> i \<noteq> j \<Longrightarrow> IS_PRESENT (kmem s (pgdir + 4 * i)) \<Longrightarrow>
       IS_PRESENT (kmem s (pgdir + 4 * j)) \<Longrightarrow> GET_PGTAB (kmem s) pgdir i \<noteq> GET_PGTAB (kmem s) pgdir j"
  using assms by (auto simp: pt_inv_def)

definition same_page :: "u32 \<Rightarrow> u32 \<Rightarrow> bool" where
  "same_page v w = (PDE_NR v = PDE_NR w \<and> PTE_NR v = PTE_NR w)"

lemma pool_inv_store:
  assumes "pool_inv s ps" "aligned_page P" "P \<notin> set ps" "in_page P a"
  shows "pool_inv (upd_kmem (\<lambda>m. m(a := v)) s) ps"
proof -
  have "a \<notin> set ps"
    using assms in_page_unique [of P a a] by (auto simp: pool_inv_def page_ok_def)
  then show ?thesis
    using pool_inv_upd [OF assms(1)] by (simp add: upd_kmem_def)
qed

text \<open>Storing into a table entry.\<close>

lemma store_pte:
  assumes inv: "pt_inv s ps pgdir" and v: "v < KERNEL_BASE"
    and pde: "IS_PRESENT (kmem s (pgdir + 4 * PDE_NR v))"
    and s'_def: "s' = upd_kmem (\<lambda>m. m(pte_ptr m pgdir v := e)) s"
  shows "pt_inv s' ps pgdir"
    and "w < KERNEL_BASE \<Longrightarrow> walk (kmem s') pgdir w =
      (if same_page v w then (if IS_PRESENT e then Some (ENTRY_PADDR e) else None) else walk (kmem s) pgdir w)"
    and "kmem s' (pgdir + 4 * PDE_NR w) = kmem s (pgdir + 4 * PDE_NR w)"
proof -
  note d = pt_invD [OF inv]
  let ?T = "GET_PGTAB (kmem s) pgdir (PDE_NR v)"
  let ?a = "?T + 4 * PTE_NR v"
  have a: "in_page ?T ?a" "aligned_page ?T" "?T \<notin> set ps" "?T \<noteq> pgdir"
    using entry_in_page nr_bound table_aligned d(4,5) [OF user_pde [OF v] pde] by auto
  have m': "kmem s' = (kmem s)(?a := e)"
    by (simp add: s'_def upd_kmem_def pte_ptr_def)
  have dir: "kmem s' (pgdir + 4 * i) = kmem s (pgdir + 4 * i)" if "unat i < 1024" for i
    using entries_disjoint [OF d(2) a(2) a(4) [symmetric] that a(1)] m' by simp
  then show "kmem s' (pgdir + 4 * PDE_NR w) = kmem s (pgdir + 4 * PDE_NR w)"
    using nr_bound by blast
  have tab: "GET_PGTAB (kmem s') pgdir i = GET_PGTAB (kmem s) pgdir i" if "unat i < 1024" for i
    using dir [OF that] by (simp add: GET_PGTAB_def)
  have "pool_inv s' ps"
    using pool_inv_store [OF d(1) a(2,3,1)] m' by (simp add: s'_def upd_kmem_def pte_ptr_def)
  then show "pt_inv s' ps pgdir"
    using inv dir tab unfolding pt_inv_def by auto
  assume w: "w < KERNEL_BASE"
  let ?U = "GET_PGTAB (kmem s) pgdir (PDE_NR w)"
  have ptr: "pte_ptr (kmem s') pgdir w = ?U + 4 * PTE_NR w"
    using tab nr_bound by (simp add: pte_ptr_def)
  show "walk (kmem s') pgdir w =
      (if same_page v w then (if IS_PRESENT e then Some (ENTRY_PADDR e) else None) else walk (kmem s) pgdir w)"
  proof (cases "same_page v w")
    case True
    then have "?U + 4 * PTE_NR w = ?a"
      by (simp add: same_page_def)
    moreover have "IS_PRESENT (kmem s' (pgdir + 4 * PDE_NR w))"
      using True pde dir [OF nr_bound(1)] by (simp add: same_page_def)
    moreover have "kmem s' ?a = e"
      by (simp add: m')
    ultimately show ?thesis
      using True unfolding walk_def ptr by simp
  next
    case False
    have "?U + 4 * PTE_NR w \<noteq> ?a" if pw: "IS_PRESENT (kmem s (pgdir + 4 * PDE_NR w))"
    proof (cases "PDE_NR v = PDE_NR w")
      case True
      then have "PTE_NR w \<noteq> PTE_NR v"
        using False by (auto simp: same_page_def)
      then show ?thesis
        using True entry_inj [OF nr_bound(2) nr_bound(2), of ?T w v] by auto
    next
      case ne: False
      then have "?U \<noteq> ?T"
        using d(6) [OF user_pde [OF w] user_pde [OF v] _ pw pde] by metis
      then show ?thesis
        using entries_disjoint [OF table_aligned a(2) _ nr_bound(2) a(1)] by blast
    qed
    then have "IS_PRESENT (kmem s (pgdir + 4 * PDE_NR w)) \<Longrightarrow>
        kmem s' (?U + 4 * PTE_NR w) = kmem s (?U + 4 * PTE_NR w)"
      by (simp add: m')
    moreover have "kmem s' (pgdir + 4 * PDE_NR w) = kmem s (pgdir + 4 * PDE_NR w)"
      by (rule dir [OF nr_bound(1)])
    ultimately show ?thesis
      unfolding walk_def ptr pte_ptr_def [of "kmem s"]
      by (cases "IS_PRESENT (kmem s (pgdir + 4 * PDE_NR w))") (simp_all only: False if_False simp_thms)
  qed
qed

text \<open>A fresh table for an absent directory entry changes no translation.\<close>

lemma new_table:
  assumes inv: "pt_inv s (q # ps) pgdir" and v: "v < KERNEL_BASE"
    and pde: "\<not> IS_PRESENT (kmem s (pgdir + 4 * PDE_NR v))"
    and s'_def: "s' = upd_kmem (\<lambda>m. (zero_page q m)(pgdir + 4 * PDE_NR v := KV2P q OR PG_RW_RW OR PG_US_USER OR PG_PRESENT))
       (snd (palloc s))"
  shows "pt_inv s' ps pgdir" "IS_PRESENT (kmem s' (pgdir + 4 * PDE_NR v))"
    "\<And>w. w < KERNEL_BASE \<Longrightarrow> walk (kmem s') pgdir w = walk (kmem s) pgdir w"
proof -
  note d = pt_invD [OF inv]
  let ?k = "PDE_NR v"
  let ?e = "KV2P q OR PG_RW_RW OR PG_US_USER OR PG_PRESENT"
  have q: "aligned_page q" "q \<notin> set ps" "q \<noteq> 0" "q \<noteq> pgdir"
    using d(1,3) by (auto simp: pool_inv_def page_ok_def)
  have pool: "pool_inv (snd (palloc s)) ps" "kmem (snd (palloc s)) = kmem s"
    using palloc_pop [OF d(1)] by simp_all
  have m': "kmem s' = (zero_page q (kmem s))(pgdir + 4 * ?k := ?e)"
    by (simp add: s'_def upd_kmem_def pool(2))
  have out: "\<not> in_page q a" if "aligned_page P" "P \<noteq> q" "in_page P a" for P a
    using in_page_unique [OF that(1) q(1) that(3)] that(2) by blast
  have zero: "zero_page q (kmem s) a = kmem s a" if "\<not> in_page q a" for a
    using that by (simp add: zero_page_def in_page_def)
  have dir: "kmem s' (pgdir + 4 * i) = (if i = ?k then ?e else kmem s (pgdir + 4 * i))" if "unat i < 1024" for i
    using m' entry_inj [OF that nr_bound(1)] zero [OF out [OF d(2) q(4) [symmetric] entry_in_page [OF that]]] by auto
  have "aligned_page (KV2P q)"
    using q(1) by (simp add: KV2P_eq_KP2V aligned_KP2V)
  then have "ENTRY_PADDR (KV2P q OR (PG_RW_RW OR PG_US_USER OR PG_PRESENT)) = KV2P q"
    by (intro entry_paddr_or) (simp_all add: PG_RW_RW_def PG_US_USER_def PG_PRESENT_def)
  then have newtab: "GET_PGTAB (kmem s') pgdir ?k = q"
    using dir [OF nr_bound(1)] by (simp add: GET_PGTAB_def ENTRY_VADDR_def ENTRY_PADDR_def or.assoc)
  have tab: "GET_PGTAB (kmem s') pgdir i = GET_PGTAB (kmem s) pgdir i" if "unat i < 1024" "i \<noteq> ?k" for i
    using dir [OF that(1)] that(2) by (simp add: GET_PGTAB_def)
  have pres: "IS_PRESENT ?e"
    by (metis or.assoc present_or)
  then show "IS_PRESENT (kmem s' (pgdir + 4 * ?k))"
    using dir [OF nr_bound(1)] by simp
  have z: "pool_inv (upd_kmem (zero_page q) (snd (palloc s))) ps"
  proof -
    have "chain (zero_page q (kmem s)) (free_list (snd (palloc s))) ps = chain (kmem s) (free_list (snd (palloc s))) ps"
      by (rule chain_cong) (metis d(1) in_page_self list.set_intros(2) out page_ok_def pool_inv_def q(2) zero)
    then show ?thesis
      using pool by (simp add: pool_inv_def upd_kmem_def)
  qed
  have "pgdir \<notin> set ps"
    using d(3) by simp
  have "pool_inv s' ps"
    using pool_inv_store [OF z d(2) \<open>pgdir \<notin> set ps\<close> entry_in_page [OF nr_bound(1)], of v ?e]
    by (simp add: s'_def upd_kmem_def pool(2))
  have old: "IS_PRESENT (kmem s (pgdir + 4 * i))" "GET_PGTAB (kmem s') pgdir i = GET_PGTAB (kmem s) pgdir i"
    if "IS_PRESENT (kmem s' (pgdir + 4 * i))" "i \<noteq> ?k" "unat i < 512" for i
    using dir [of i] tab [of i] that by simp_all
  have tabs: "GET_PGTAB (kmem s') pgdir i \<notin> set ps \<and> GET_PGTAB (kmem s') pgdir i \<noteq> pgdir"
    if "unat i < 512" "IS_PRESENT (kmem s' (pgdir + 4 * i))" for i
    using newtab q old [OF that(2) _ that(1)] d(4,5) [OF that(1)] by (cases "i = ?k") auto
  have fresh: "GET_PGTAB (kmem s') pgdir i \<noteq> q" if "unat i < 512" "IS_PRESENT (kmem s' (pgdir + 4 * i))" "i \<noteq> ?k" for i
    using old [OF that(2,3,1)] d(4) [OF that(1)] by auto
  have "GET_PGTAB (kmem s') pgdir i \<noteq> GET_PGTAB (kmem s') pgdir j"
    if "unat i < 512" "unat j < 512" "i \<noteq> j" "IS_PRESENT (kmem s' (pgdir + 4 * i))"
      "IS_PRESENT (kmem s' (pgdir + 4 * j))" for i j
    using newtab fresh [OF that(1,4)] fresh [OF that(2,5)] old [OF that(4) _ that(1)] old [OF that(5) _ that(2)]
      d(6) [OF that(1-3)] that(3)
    by (cases "i = ?k"; cases "j = ?k") auto
  then show "pt_inv s' ps pgdir"
    using \<open>pool_inv s' ps\<close> inv tabs unfolding pt_inv_def by auto
  show "walk (kmem s') pgdir w = walk (kmem s) pgdir w" if w: "w < KERNEL_BASE" for w
  proof (cases "PDE_NR w = ?k")
    case True
    have "kmem s' (q + 4 * PTE_NR w) = 0"
      using m' entries_disjoint [OF q(1) d(2) q(4) nr_bound(2) entry_in_page [OF nr_bound(1)]]
        entry_in_page [OF nr_bound(2)] by (simp add: zero_page_def in_page_def)
    then show ?thesis
      using True newtab pde by (simp add: walk_def pte_ptr_def)
  next
    case False
    let ?U = "GET_PGTAB (kmem s) pgdir (PDE_NR w)"
    have e: "kmem s' (pgdir + 4 * PDE_NR w) = kmem s (pgdir + 4 * PDE_NR w)"
        "pte_ptr (kmem s') pgdir w = ?U + 4 * PTE_NR w"
      using dir [OF nr_bound(1)] tab [OF nr_bound(1) False] False by (simp_all add: pte_ptr_def)
    have "kmem s' (?U + 4 * PTE_NR w) = kmem s (?U + 4 * PTE_NR w)" if p: "IS_PRESENT (kmem s (pgdir + 4 * PDE_NR w))"
    proof -
      have U: "?U \<noteq> q" "?U \<noteq> pgdir"
        using d(4,5) [OF user_pde [OF w] p] by auto
      have "?U + 4 * PTE_NR w \<noteq> pgdir + 4 * ?k"
        using entries_disjoint [OF table_aligned d(2) U(2) nr_bound(2) entry_in_page [OF nr_bound(1)]] .
      then show ?thesis
        using m' zero [OF out [OF table_aligned U(1) entry_in_page [OF nr_bound(2)]]] by simp
    qed
    then show ?thesis
      using e unfolding walk_def by (auto simp: pte_ptr_def)
  qed
qed

text \<open>\<open>map_page\<close> on an unmapped user address.\<close>

lemma map_page_ok:
  assumes inv: "pt_inv s ps pgdir" and v: "v < KERNEL_BASE" and un: "walk (kmem s) pgdir v = None"
    and p: "aligned_page p" and attr: "attr AND 0xFFFFF000 = 0"
    and pgs: "IS_PRESENT (kmem s (pgdir + 4 * PDE_NR v)) \<or> ps \<noteq> []"
  shows "\<exists>s' ps'. map_page pgdir v p attr s = Some (True, s') \<and> pt_inv s' ps' pgdir
    \<and> ps' = (if IS_PRESENT (kmem s (pgdir + 4 * PDE_NR v)) then ps else tl ps)
    \<and> (\<forall>w < KERNEL_BASE. walk (kmem s') pgdir w = (if same_page v w then Some p else walk (kmem s) pgdir w))"
proof -
  let ?e = "p OR attr OR PG_PRESENT"
  have e: "IS_PRESENT ?e" "ENTRY_PADDR ?e = p"
  proof -
    show "IS_PRESENT ?e"
      by (metis or.assoc present_or)
    have "ENTRY_PADDR (p OR (attr OR PG_PRESENT)) = p"
      using attr by (intro entry_paddr_or [OF p]) (simp add: bit.conj_disj_distrib2 PG_PRESENT_def)
    then show "ENTRY_PADDR ?e = p"
      by (simp add: or.assoc)
  qed
  have mod: "p mod PG_SIZE = 0"
    using p by (simp add: aligned_page_iff_mod)
  obtain s1 ps1 where s1: "pt_inv s1 ps1 pgdir" "IS_PRESENT (kmem s1 (pgdir + 4 * PDE_NR v))"
      "\<And>w. w < KERNEL_BASE \<Longrightarrow> walk (kmem s1) pgdir w = walk (kmem s) pgdir w"
      "ps1 = (if IS_PRESENT (kmem s (pgdir + 4 * PDE_NR v)) then ps else tl ps)"
      "map_page pgdir v p attr s = (do {
         kassert (\<not> IS_PRESENT (kmem s1 (pte_ptr (kmem s1) pgdir v)));
         Some (True, upd_kmem (\<lambda>m. m(pte_ptr (kmem s1) pgdir v := ?e)) s1) })"
  proof (cases "IS_PRESENT (kmem s (pgdir + 4 * PDE_NR v))")
    case True
    show ?thesis
      by (rule that [of s ps]) (use inv True mod in \<open>simp_all add: map_page_def Let_def\<close>)
  next
    case False
    then obtain q ps2 where ps: "ps = q # ps2"
      using pgs by (cases ps) auto
    let ?s1 = "upd_kmem (\<lambda>m. (zero_page q m)(pgdir + 4 * PDE_NR v := KV2P q OR PG_RW_RW OR PG_US_USER OR PG_PRESENT))
       (snd (palloc s))"
    note nt = new_table [OF inv [unfolded ps] v False refl]
    have q: "q \<noteq> 0" "fst (palloc s) = KV2P q"
      using inv ps palloc_pop [OF pt_invD(1) [OF inv [unfolded ps]]] by (auto simp: pt_inv_def pool_inv_def)
    have "KV2P q \<noteq> 0"
      using inv ps by (auto simp: pt_inv_def KV2P_def)
    show ?thesis
    proof (rule that [of ?s1 ps2])
      show "map_page pgdir v p attr s = (do {
         kassert (\<not> IS_PRESENT (kmem ?s1 (pte_ptr (kmem ?s1) pgdir v)));
         Some (True, upd_kmem (\<lambda>m. m(pte_ptr (kmem ?s1) pgdir v := ?e)) ?s1) })"
        using False mod q \<open>KV2P q \<noteq> 0\<close> by (simp add: map_page_def Let_def case_prod_beta)
    qed (use nt False ps in simp_all)
  qed
  have "\<not> IS_PRESENT (kmem s1 (pte_ptr (kmem s1) pgdir v))"
    using un s1(2) s1(3) [OF v] by (simp add: walk_def split: if_splits)
  then have eq: "map_page pgdir v p attr s = Some (True, upd_kmem (\<lambda>m. m(pte_ptr m pgdir v := ?e)) s1)"
    by (simp add: s1(5) upd_kmem_def)
  have st: "pt_inv (upd_kmem (\<lambda>m. m(pte_ptr m pgdir v := ?e)) s1) ps1 pgdir"
    by (rule store_pte(1) [OF s1(1) v s1(2) refl])
  have "walk (kmem (upd_kmem (\<lambda>m. m(pte_ptr m pgdir v := ?e)) s1)) pgdir w =
      (if same_page v w then Some p else walk (kmem s) pgdir w)" if "w < KERNEL_BASE" for w
    using store_pte(2) [OF s1(1) v s1(2) refl that, of ?e] s1(3) [OF that] e by simp
  then show ?thesis
    using eq st s1(4) by blast
qed

text \<open>A frame taken from the pool leaves the address space as it is.\<close>

lemma pt_inv_palloc:
  assumes "pt_inv s (q # ps) pgdir"
  shows "fst (palloc s) = KV2P q" "pt_inv (snd (palloc s)) ps pgdir" "kmem (snd (palloc s)) = kmem s"
    "aligned_page (KV2P q)" "KV2P q \<noteq> 0"
proof -
  note pop = palloc_pop [OF pt_invD(1) [OF assms]]
  show "fst (palloc s) = KV2P q" "kmem (snd (palloc s)) = kmem s"
    using pop by simp_all
  then show "pt_inv (snd (palloc s)) ps pgdir"
    using assms pop unfolding pt_inv_def by (metis list.set_intros(2) snd_conv)
  show "KV2P q \<noteq> 0"
    using assms by (auto simp: pt_inv_def KV2P_def)
  show "aligned_page (KV2P q)"
    using assms by (simp add: pt_inv_def pool_inv_def page_ok_def KV2P_eq_KP2V aligned_KP2V)
qed

section \<open>Mapping a range of fresh pages\<close>

lemma page_addr:
  assumes "aligned_page v" "unat v + n * 4096 \<le> 2 ^ 31" "i < n"
  shows "unat (v + of_nat i * PG_SIZE) = unat v + i * 4096" "v + of_nat i * PG_SIZE < KERNEL_BASE"
proof -
  have "i * 4096 + 4096 \<le> n * 4096"
    using assms(3) by simp
  then have b: "unat v + i * 4096 < 2 ^ 31"
    using assms(2) by linarith
  have "unat (of_nat i * PG_SIZE) = i * 4096"
    using b by (simp add: PG_SIZE_def unat_word_ariths unat_of_nat)
  then show u: "unat (v + of_nat i * PG_SIZE) = unat v + i * 4096"
    using b by (simp add: unat_word_ariths)
  show "v + of_nat i * PG_SIZE < KERNEL_BASE"
    using b by (simp add: word_less_nat_alt u KERNEL_BASE_def)
qed

lemma unat_NR: "unat (PDE_NR x) = unat x div 4194304" "unat (PTE_NR x) = unat x div 4096 mod 1024"
proof -
  have "unat x < 4294967296"
    using unsigned_less [where 'a = nat, of x] by simp
  moreover have "y AND 0x3FF = take_bit 10 y" for y :: u32
    by (simp add: take_bit_eq_mask mask_eq_exp_minus_1)
  ultimately show "unat (PDE_NR x) = unat x div 4194304" "unat (PTE_NR x) = unat x div 4096 mod 1024"
    by (simp_all add: PDE_NR_def PTE_NR_def drop_bit_eq_div take_bit_eq_mod unat_mod unat_div less_mult_imp_div_less)
qed

lemma same_page_div: "same_page v w \<longleftrightarrow> unat v div 4096 = unat w div 4096"
proof -
  have "unat x div 4194304 = unat x div 4096 div 1024" for x :: u32
    by (simp add: div_mult2_eq [symmetric])
  then show ?thesis
    unfolding same_page_def word_unat_eq_iff unat_NR by (metis div_mult_mod_eq)
qed

text \<open>The addresses of \<open>n\<close> pages from \<open>v\<close>.\<close>

definition in_range :: "u32 \<Rightarrow> nat \<Rightarrow> u32 \<Rightarrow> bool" where
  "in_range v n w = (unat v \<le> unat w \<and> unat w < unat v + n * 4096)"

lemma in_range_0 [simp]: "\<not> in_range v 0 w"
  by (simp add: in_range_def)

lemma same_page_first:
  assumes "aligned_page v"
  shows "same_page v w \<longleftrightarrow> unat v \<le> unat w \<and> unat w < unat v + 4096"
proof -
  obtain k where k: "unat v = 4096 * k"
    using assms by (auto simp: aligned_page_def)
  have "k = x div 4096 \<longleftrightarrow> 4096 * k \<le> x \<and> x < 4096 * k + 4096" for x :: nat
    using dividend_less_div_times [of 4096 x] div_nat_eqI [of 4096 k x] by auto
  then show ?thesis
    unfolding same_page_div k by simp
qed

lemma in_range_Suc:
  assumes "aligned_page v" "unat v + Suc n * 4096 \<le> 2 ^ 31"
  shows "in_range v (Suc n) w \<longleftrightarrow> same_page v w \<or> in_range (v + PG_SIZE) n w"
    "unat (v + PG_SIZE) = unat v + 4096" "aligned_page (v + PG_SIZE)" "v < KERNEL_BASE"
    "same_page v w \<Longrightarrow> \<not> in_range (v + PG_SIZE) n w"
proof -
  show u: "unat (v + PG_SIZE) = unat v + 4096"
    using assms(2) by (simp add: PG_SIZE_def unat_word_ariths)
  show "aligned_page (v + PG_SIZE)"
    using assms(1) by (simp add: aligned_page_def u)
  show "v < KERNEL_BASE"
    using assms(2) by (simp add: word_less_nat_alt KERNEL_BASE_def)
  show "in_range v (Suc n) w \<longleftrightarrow> same_page v w \<or> in_range (v + PG_SIZE) n w"
    unfolding in_range_def same_page_first [OF assms(1)] u by auto
  show "same_page v w \<Longrightarrow> \<not> in_range (v + PG_SIZE) n w"
    unfolding in_range_def same_page_first [OF assms(1)] u by auto
qed

lemma valloc_loop_ok:
  assumes "pt_inv s ps pgdir" "aligned_page v" "unat v + n * 4096 \<le> 2 ^ 31" "2 * n \<le> length ps"
    and "\<And>w. in_range v n w \<Longrightarrow> walk (kmem s) pgdir w = None" and "attr AND 0xFFFFF000 = 0"
  shows "\<exists>s' ps' fs. valloc_loop pgdir v cnt n attr s = Some (True, s') \<and> pt_inv s' ps' pgdir
    \<and> length fs = n \<and> distinct fs \<and> set fs \<subseteq> set ps - set ps' \<and> set ps' \<subseteq> set ps
    \<and> (\<forall>w < KERNEL_BASE. walk (kmem s') pgdir w =
         (if in_range v n w then Some (KV2P (fs ! ((unat w - unat v) div 4096))) else walk (kmem s) pgdir w))"
  using assms
proof (induction n arbitrary: s ps v cnt)
  case 0
  then show ?case
    by auto
next
  case (Suc n)
  note rs = in_range_Suc [OF Suc.prems(2,3)]
  obtain q ps1 where ps: "ps = q # ps1" "ps1 \<noteq> []"
    using Suc.prems(4) by (cases ps; cases "tl ps") auto
  note pa = pt_inv_palloc [OF Suc.prems(1) [unfolded ps(1)]]
  have un: "walk (kmem (snd (palloc s))) pgdir v = None"
    using Suc.prems(5) [of v] by (simp add: pa(3) in_range_def)
  obtain s1 ps2 where m: "map_page pgdir v (KV2P q) attr (snd (palloc s)) = Some (True, s1)" "pt_inv s1 ps2 pgdir"
      "ps2 = ps1 \<or> ps2 = tl ps1"
      "\<And>w. w < KERNEL_BASE \<Longrightarrow> walk (kmem s1) pgdir w = (if same_page v w then Some (KV2P q) else walk (kmem s) pgdir w)"
    using map_page_ok [OF pa(2) rs(4) un pa(4) Suc.prems(6)] ps(2) pa(3) by (metis (no_types, lifting))
  have sub: "set ps2 \<subseteq> set ps1" "2 * n \<le> length ps2"
    using m(3) Suc.prems(4) ps by (auto dest: list.set_sel(2))
  have kb: "in_range (v + PG_SIZE) n w \<Longrightarrow> w < KERNEL_BASE" for w
    using Suc.prems(3) by (simp add: in_range_def rs(2) word_less_nat_alt KERNEL_BASE_def)
  have none: "walk (kmem s1) pgdir w = None" if "in_range (v + PG_SIZE) n w" for w
    using m(4) [OF kb [OF that]] rs(5) [of w] rs(1) [of w] Suc.prems(5) [of w] that by auto
  have "unat (v + PG_SIZE) + n * 4096 \<le> 2 ^ 31"
    using Suc.prems(3) rs(2) by simp
  from Suc.IH [OF m(2) rs(3) this sub(2) none Suc.prems(6), of "cnt + 1"]
  obtain s' ps' fs where f: "valloc_loop pgdir (v + PG_SIZE) (cnt + 1) n attr s1 = Some (True, s')" "pt_inv s' ps' pgdir"
      "length fs = n" "distinct fs" "set fs \<subseteq> set ps2 - set ps'" "set ps' \<subseteq> set ps2"
      "\<And>w. w < KERNEL_BASE \<Longrightarrow> walk (kmem s') pgdir w =
         (if in_range (v + PG_SIZE) n w then Some (KV2P (fs ! ((unat w - unat (v + PG_SIZE)) div 4096))) else walk (kmem s1) pgdir w)"
    by blast
  have "q \<notin> set ps1"
    using Suc.prems(1) ps by (auto simp: pt_inv_def pool_inv_def)
  then have "distinct (q # fs)" "set (q # fs) \<subseteq> set ps - set ps'" "set ps' \<subseteq> set ps"
    using f(4-6) sub(1) ps(1) by auto
  moreover have "walk (kmem s') pgdir w =
      (if in_range v (Suc n) w then Some (KV2P ((q # fs) ! ((unat w - unat v) div 4096))) else walk (kmem s) pgdir w)"
    if w: "w < KERNEL_BASE" for w
  proof (cases "in_range (v + PG_SIZE) n w")
    case True
    then have "unat v + 4096 \<le> unat w"
      by (simp add: in_range_def rs(2))
    then have "(unat w - unat v) div 4096 = Suc ((unat w - unat (v + PG_SIZE)) div 4096)"
      by (simp add: rs(2) le_div_geq)
    then show ?thesis
      using True rs(1) [of w] f(7) [OF w] by simp
  next
    case False
    then show ?thesis
      using f(7) [OF w] m(4) [OF w] rs(1) [of w] same_page_first [OF Suc.prems(2), of w] by auto
  qed
  moreover have "valloc_loop pgdir v cnt (Suc n) attr s = Some (True, s')"
    using m(1) f(1) pa(1,5) by (simp add: Let_def case_prod_beta)
  ultimately show ?case
    using f(2,3) by (intro exI [of _ s'] exI [of _ ps'] exI [of _ "q # fs"]) simp
qed

section \<open>Filling a range\<close>

text \<open>The kernel address of the byte at a user address.\<close>

definition byte_addr :: "wmem \<Rightarrow> u32 \<Rightarrow> u32 \<Rightarrow> u32" where
  "byte_addr m pgdir w = page_frame_ptr m pgdir w + of_nat (unat w mod 4096)"

definition call_bytes :: "u32 \<times> nat \<Rightarrow> u32 list" where
  "call_bytes c = map (\<lambda>k. fst c + of_nat k) [0..<snd c]"

lemma within_page:
  fixes vp :: u32
  assumes "unat vp mod 4096 + k < 4096"
  shows "unat (vp + of_nat k) = unat vp + k" "unat (vp + of_nat k) mod 4096 = unat vp mod 4096 + k"
    "same_page vp (vp + of_nat k)"
proof -
  have "unat vp div 4096 < 1048576"
    using unsigned_less [where 'a = nat, of vp] by (simp add: less_mult_imp_div_less)
  moreover have e: "unat vp = 4096 * (unat vp div 4096) + unat vp mod 4096"
    by simp
  ultimately have "unat vp + k < 4294967296"
    using assms by linarith
  then show u: "unat (vp + of_nat k) = unat vp + k"
    by (simp add: unat_word_ariths unat_of_nat)
  have "unat vp + k = 4096 * (unat vp div 4096) + (unat vp mod 4096 + k)"
    by simp
  then show "unat (vp + of_nat k) mod 4096 = unat vp mod 4096 + k" "same_page vp (vp + of_nat k)"
    unfolding u same_page_div using assms by (metis mod_mult_self4 mod_less, metis div_mult_self4 div_less add_0_right zero_neq_numeral)
qed

lemma page_frame_ptr_same_page:
  assumes "same_page v w"
  shows "page_frame_ptr m pgdir v = page_frame_ptr m pgdir w"
  using assms unfolding page_frame_ptr_def same_page_def Let_def by simp

lemma byte_addr_within:
  assumes "unat vp mod 4096 + k < 4096"
  shows "byte_addr m pgdir (vp + of_nat k) = page_frame_ptr m pgdir vp + of_nat (unat vp mod 4096) + of_nat k"
    "page_frame_ptr m pgdir (vp + of_nat k) = page_frame_ptr m pgdir vp"
  using within_page [OF assms] page_frame_ptr_same_page [of vp "vp + of_nat k" m pgdir]
  by (simp_all add: byte_addr_def)

lemma upt_chunk: "map f [0..<a + b] = map f [0..<a] @ map (\<lambda>k. f (a + k)) [0..<b]"
  by (rule nth_equalityI) (auto simp: nth_append)

lemma setrange_loop_ok:
  assumes "done \<le> n"
  shows "(fst (setrange_loop m pgdir n vp done) \<longleftrightarrow> (\<forall>k < n - done. page_frame_ptr m pgdir (vp + of_nat k) \<noteq> 0))
    \<and> (fst (setrange_loop m pgdir n vp done) \<longrightarrow>
        concat (map call_bytes (snd (setrange_loop m pgdir n vp done))) = map (\<lambda>k. byte_addr m pgdir (vp + of_nat k)) [0..<n - done])"
  using assms
proof (induction m pgdir n vp "done" rule: setrange_loop.induct)
  case (1 m pgdir n vp "done")
  let ?rp = "page_frame_ptr m pgdir vp"
  let ?off = "unat vp mod 4096"
  let ?per = "min (4096 - ?off) (n - done)"
  let ?r = "setrange_loop m pgdir n (vp + of_nat ?per) (done + ?per)"
  show ?case
  proof (cases "done < n")
    case False
    then show ?thesis
      by (subst (1 2 3) setrange_loop.simps) simp
  next
    case lt: True
    show ?thesis
    proof (cases "?rp = 0")
      case True
      have "setrange_loop m pgdir n vp done = (False, [])"
        using lt True by (subst setrange_loop.simps) simp
      moreover have "\<exists>k < n - done. page_frame_ptr m pgdir (vp + of_nat k) = 0"
        using lt True by (intro exI [of _ 0]) simp
      ultimately show ?thesis
        by auto
    next
      case False
      have eq: "setrange_loop m pgdir n vp done = (fst ?r, (?rp + of_nat ?off, ?per) # snd ?r)"
        using lt False by (subst setrange_loop.simps) (simp add: Let_def case_prod_beta)
      have in_pg: "?off + k < 4096" if "k < ?per" for k
        using that by (simp add: less_diff_conv)
      have split: "n - done = ?per + (n - (done + ?per))"
        by linarith
      have shift: "vp + of_nat ?per + of_nat k = vp + of_nat (?per + k)" for k
        by (simp add: add.assoc)
      note IH = "1.IH" [OF lt refl False refl refl, unfolded shift]
      have A: "(\<forall>k < n - done. page_frame_ptr m pgdir (vp + of_nat k) \<noteq> 0) \<longleftrightarrow>
          (\<forall>k < n - (done + ?per). page_frame_ptr m pgdir (vp + of_nat (?per + k)) \<noteq> 0)"
      proof (intro iffI allI impI)
        fix k assume a: "\<forall>k < n - done. page_frame_ptr m pgdir (vp + of_nat k) \<noteq> 0" "k < n - (done + ?per)"
        show "page_frame_ptr m pgdir (vp + of_nat (?per + k)) \<noteq> 0"
          by (rule a(1) [rule_format]) (use a(2) in linarith)
      next
        fix k assume a: "\<forall>k < n - (done + ?per). page_frame_ptr m pgdir (vp + of_nat (?per + k)) \<noteq> 0" "k < n - done"
        show "page_frame_ptr m pgdir (vp + of_nat k) \<noteq> 0"
        proof (cases "k < ?per")
          case True
          then show ?thesis
            using byte_addr_within(2) [OF in_pg [OF True]] \<open>?rp \<noteq> 0\<close> by simp
        next
          case False
          then obtain j where j: "k = ?per + j"
            by (meson le_Suc_ex not_less)
          show ?thesis
            unfolding j by (rule a(1) [rule_format]) (use a(2) j in linarith)
        qed
      qed
      have B: "call_bytes (?rp + of_nat ?off, ?per) = map (\<lambda>k. byte_addr m pgdir (vp + of_nat k)) [0..<?per]"
        using byte_addr_within(1) [OF in_pg] by (auto simp: call_bytes_def)
      have C: "map (\<lambda>k. byte_addr m pgdir (vp + of_nat k)) [0..<n - done] =
          call_bytes (?rp + of_nat ?off, ?per) @ map (\<lambda>k. byte_addr m pgdir (vp + of_nat (?per + k))) [0..<n - (done + ?per)]"
        unfolding B by (subst split) (rule upt_chunk)
      have "done + ?per \<le> n"
        using lt by linarith
      note IH = IH [OF this]
      show ?thesis
        unfolding eq fst_conv snd_conv list.map concat.simps A C same_append_eq by (rule IH)
    qed
  qed
qed

section \<open>Properties\<close>

text \<open>
  C12. On an address space that satisfies the invariant, \<open>map_page\<close> of an unmapped user address succeeds (when a
  table exists or the pool has a page for one), keeps the invariant, changes the translation of the addresses of
  that page and of no others, makes \<open>page_frame_ptr\<close> return the kernel address of the frame, refuses
  (assertion) to map the same page twice, and \<open>unmap_page\<close> takes every translation back to what it was.
\<close>

theorem map_unmap_roundtrip:
  assumes "pt_inv s ps pgdir" "v < KERNEL_BASE" "walk (kmem s) pgdir v = None"
    and "aligned_page p" "attr AND 0xFFFFF000 = 0"
    and "IS_PRESENT (kmem s (pgdir + 4 * PDE_NR v)) \<or> ps \<noteq> []"
  shows "\<exists>s' ps'. map_page pgdir v p attr s = Some (True, s') \<and> pt_inv s' ps' pgdir \<and> set ps' \<subseteq> set ps
    \<and> (\<forall>w < KERNEL_BASE. walk (kmem s') pgdir w = (if same_page v w then Some p else walk (kmem s) pgdir w))
    \<and> page_frame_ptr (kmem s') pgdir v = KP2V p
    \<and> map_page pgdir v p attr s' = None
    \<and> pt_inv (unmap_page pgdir v s') ps' pgdir
    \<and> (\<forall>w < KERNEL_BASE. walk (kmem (unmap_page pgdir v s')) pgdir w = walk (kmem s) pgdir w)"
proof -
  obtain s' ps' where m: "map_page pgdir v p attr s = Some (True, s')" "pt_inv s' ps' pgdir"
      "ps' = (if IS_PRESENT (kmem s (pgdir + 4 * PDE_NR v)) then ps else tl ps)"
      "\<And>w. w < KERNEL_BASE \<Longrightarrow> walk (kmem s') pgdir w = (if same_page v w then Some p else walk (kmem s) pgdir w)"
    using map_page_ok [OF assms] by blast
  have wv: "walk (kmem s') pgdir v = Some p"
    using m(4) [OF assms(2)] by (simp add: same_page_def)
  then have pr: "IS_PRESENT (kmem s' (pgdir + 4 * PDE_NR v))" "IS_PRESENT (kmem s' (pte_ptr (kmem s') pgdir v))"
    by (auto simp: walk_def split: if_splits)
  let ?e = "kmem s' (pte_ptr (kmem s') pgdir v) AND NOT PG_PRESENT"
  have ne: "\<not> IS_PRESENT ?e"
    by (simp add: IS_PRESENT_def and.assoc)
  have un: "unmap_page pgdir v s' = upd_kmem (\<lambda>m. m(pte_ptr m pgdir v := ?e)) s'"
    by (simp add: unmap_page_def Let_def upd_kmem_def)
  have "walk (kmem (unmap_page pgdir v s')) pgdir w = walk (kmem s) pgdir w" if "w < KERNEL_BASE" for w
  proof (cases "same_page v w")
    case True
    moreover have "walk (kmem s) pgdir w = None"
      using True assms(3) by (simp add: walk_def pte_ptr_def same_page_def split: if_splits)
    ultimately show ?thesis
      using store_pte(2) [OF m(2) assms(2) pr(1) un that] ne by simp
  qed (use store_pte(2) [OF m(2) assms(2) pr(1) un that] m(4) [OF that] in simp)
  moreover have "map_page pgdir v p attr s' = None"
    using pr by (simp add: map_page_def Let_def)
  moreover have "page_frame_ptr (kmem s') pgdir v = KP2V p"
    by (simp add: page_frame_ptr_walk wv)
  moreover have "set ps' \<subseteq> set ps"
    using m(3) by (cases ps) auto
  ultimately show ?thesis
    using m store_pte(1) [OF m(2) assms(2) pr(1) un] by blast
qed

text \<open>An address space whose directory is empty, with four free pages.\<close>

definition pt_example :: phy_mem_pool where
  "pt_example = \<lparr>kmem = (\<lambda>_. 0)(0x80401000 := 0x80402000, 0x80402000 := 0x80403000, 0x80403000 := 0x80404000),
     free_list = 0x80401000, free_page_cnt = 4, using_page_cnt = 0\<rparr>"

lemma pt_example_inv: "pt_inv pt_example [0x80401000, 0x80402000, 0x80403000, 0x80404000] 0x80400000"
proof -
  have "\<not> IS_PRESENT (kmem pt_example a)" for a
    by (simp add: pt_example_def IS_PRESENT_def PG_PRESENT_def)
  moreover have "pool_inv pt_example [0x80401000, 0x80402000, 0x80403000, 0x80404000]"
    by (simp add: pool_inv_def pt_example_def page_ok_def aligned_page_def)
  ultimately show ?thesis
    by (simp add: pt_inv_def aligned_page_def KERNEL_BASE_def)
qed

lemma pt_example_walk: "walk (kmem pt_example) pgdir v = None"
  by (simp add: walk_def pt_example_def IS_PRESENT_def PG_PRESENT_def)

theorem map_unmap_roundtrip_witness:
  "\<exists>s' ps'. map_page 0x80400000 0x04048000 0x5000 (PG_RW_RW OR PG_US_USER) pt_example = Some (True, s')
    \<and> pt_inv s' ps' 0x80400000 \<and> map_page 0x80400000 0x04048000 0x5000 (PG_RW_RW OR PG_US_USER) s' = None"
  using map_unmap_roundtrip [OF pt_example_inv, of "0x04048000" "0x5000" "PG_RW_RW OR PG_US_USER"]
  by (auto simp: pt_example_walk KERNEL_BASE_def aligned_page_def PG_RW_RW_def PG_US_USER_def)

text \<open>
  C29. \<open>pgdir_valloc\<close> of an unmapped, aligned user range, with two pool pages per page of the range, succeeds: it
  keeps the invariant, and every page of the range is backed by a frame of its own that was free before and is not
  free any more; all other translations are unchanged.
\<close>

theorem pgdir_valloc_correct:
  assumes "pt_inv s ps pgdir" "aligned_page v" "unat v + unat n * 4096 \<le> 2 ^ 31" "2 * unat n \<le> length ps"
    and "\<And>w. in_range v (unat n) w \<Longrightarrow> walk (kmem s) pgdir w = None" and "attr AND 0xFFFFF000 = 0"
  shows "\<exists>s' ps' fs. pgdir_valloc pgdir v n attr s = Some (True, s') \<and> pt_inv s' ps' pgdir
    \<and> length fs = unat n \<and> distinct fs \<and> set fs \<subseteq> set ps - set ps' \<and> set ps' \<subseteq> set ps
    \<and> (\<forall>w < KERNEL_BASE. walk (kmem s') pgdir w =
         (if in_range v (unat n) w then Some (KV2P (fs ! ((unat w - unat v) div 4096))) else walk (kmem s) pgdir w))"
  unfolding pgdir_valloc_def by (rule valloc_loop_ok [OF assms])

theorem pgdir_valloc_correct_witness:
  "\<exists>s' ps'. pgdir_valloc 0x80400000 0x04048000 2 6 pt_example = Some (True, s') \<and> pt_inv s' ps' 0x80400000"
  using pgdir_valloc_correct [OF pt_example_inv, of "0x04048000" 2 6]
  by (auto simp: pt_example_walk aligned_page_def)

text \<open>
  \<open>pgdir_valloc\<close> does not notice that memory is exhausted: when the pool is empty and the page table
  exists it reports success, having mapped the user page to physical address \<open>0x80000000\<close>, which is no page of
  the pool; the \<open>bad\<close> path that would undo the work is not taken.
\<close>

theorem pgdir_valloc_exhausted:
  assumes "pt_inv s [] pgdir" "v < KERNEL_BASE" "walk (kmem s) pgdir v = None"
    and "IS_PRESENT (kmem s (pgdir + 4 * PDE_NR v))" "attr AND 0xFFFFF000 = 0"
  shows "\<exists>s'. pgdir_valloc pgdir v 1 attr s = Some (True, s') \<and> walk (kmem s') pgdir v = Some 0x80000000"
proof -
  have pa: "palloc s = (KERNEL_BASE, s)"
    by (rule palloc_empty [OF pt_invD(1) [OF assms(1)]])
  have al: "aligned_page KERNEL_BASE"
    by (simp add: aligned_page_def KERNEL_BASE_def)
  obtain s' where m: "map_page pgdir v KERNEL_BASE attr s = Some (True, s')"
      "\<And>w. w < KERNEL_BASE \<Longrightarrow> walk (kmem s') pgdir w = (if same_page v w then Some KERNEL_BASE else walk (kmem s) pgdir w)"
    using map_page_ok [OF assms(1-3) al assms(5)] assms(4) by blast
  have "unat (1 :: u32) = Suc 0" "KERNEL_BASE \<noteq> 0"
    by (simp_all add: KERNEL_BASE_def)
  then have "pgdir_valloc pgdir v 1 attr s = Some (True, s')"
    using m(1) by (simp add: pgdir_valloc_def pa)
  then show ?thesis
    using m(2) [OF assms(2)] by (simp add: same_page_def KERNEL_BASE_def)
qed

text \<open>A directory with one empty table, at the end of memory.\<close>

definition pt_full :: phy_mem_pool where
  "pt_full = \<lparr>kmem = (\<lambda>_. 0)(0x80400000 := 0x00401007), free_list = 0, free_page_cnt = 0, using_page_cnt = 2\<rparr>"

lemma pt_full_facts: "pt_inv pt_full [] 0x80400000" "walk (kmem pt_full) 0x80400000 0x1000 = None"
proof -
  have i0: "i = 0" if "unat i < 512" "IS_PRESENT (kmem pt_full (0x80400000 + 4 * i))" for i
  proof -
    have "0x80400000 + 4 * i = 0x80400000 + 4 * (0 :: u32)"
      using that(2) by (simp add: pt_full_def split: if_splits)
    then show ?thesis
      by (rule entry_inj [rotated 2]) (use that(1) in simp_all)
  qed
  have "GET_PGTAB (kmem pt_full) 0x80400000 0 = 0x80401000"
    by (simp add: GET_PGTAB_def pt_full_def ENTRY_VADDR_def KV2P_def KERNEL_BASE_def)
  moreover have "pool_inv pt_full []"
    by (simp add: pool_inv_def pt_full_def)
  moreover have "GET_PGTAB (kmem pt_full) 0x80400000 i \<noteq> 0x80400000"
    if "unat i < 512" "IS_PRESENT (kmem pt_full (0x80400000 + 4 * i))" for i
    using calculation(1) i0 [OF that] by simp
  ultimately show "pt_inv pt_full [] 0x80400000"
    using i0 unfolding pt_inv_def by (auto simp: aligned_page_def)
  show "walk (kmem pt_full) 0x80400000 0x1000 = None"
    by (simp add: walk_def pte_ptr_def GET_PGTAB_def pt_full_def ENTRY_VADDR_def KV2P_def KERNEL_BASE_def
        PDE_NR_def PTE_NR_def)
qed

theorem pgdir_valloc_exhausted_witness:
  "\<exists>s'. pgdir_valloc 0x80400000 0x1000 1 6 pt_full = Some (True, s') \<and> walk (kmem s') 0x80400000 0x1000 = Some 0x80000000"
  by (rule pgdir_valloc_exhausted [OF pt_full_facts(1) _ pt_full_facts(2)])
     (simp_all add: KERNEL_BASE_def PDE_NR_def pt_full_def IS_PRESENT_def PG_PRESENT_def)

text \<open>
  \<open>pgdir_setrange\<close> returns true exactly when every byte of the range has a page frame, and then the bytes of
  its \<open>memset\<close> calls are, in order, the kernel addresses of the \<open>n\<close> bytes from \<open>vstart\<close>: no chunk runs
  over the end of a page frame and no byte is left out.
\<close>

theorem pgdir_setrange_correct:
  "fst (pgdir_setrange m pgdir vstart n) = list_all (\<lambda>k. page_frame_ptr m pgdir (vstart + of_nat k) \<noteq> 0) [0..<unat n]
    \<and> (\<not> fst (pgdir_setrange m pgdir vstart n) \<or>
        concat (map call_bytes (snd (pgdir_setrange m pgdir vstart n))) =
          map (\<lambda>k. byte_addr m pgdir (vstart + of_nat k)) [0..<unat n])"
  using setrange_loop_ok [of 0 "unat n" m pgdir vstart] by (auto simp: pgdir_setrange_def list_all_iff)

theorem pgdir_setrange_correct_witness:
  "pgdir_setrange (kmem pt_example) 0x80400000 0x1000 2 = (False, [])
   \<and> fst (pgdir_setrange (kmem pt_example) 0x80400000 0x1000 0)"
proof -
  have "\<not> fst (pgdir_setrange (kmem pt_example) 0x80400000 0x1000 2)"
    "fst (pgdir_setrange (kmem pt_example) 0x80400000 0x1000 0)"
    using pgdir_setrange_correct [of "kmem pt_example" "0x80400000" "0x1000" 2]
      pgdir_setrange_correct [of "kmem pt_example" "0x80400000" "0x1000" 0]
    by (simp_all add: page_frame_ptr_walk pt_example_walk upt_rec)
  then show ?thesis
    by (simp add: pgdir_setrange_def setrange_loop.simps page_frame_ptr_walk pt_example_walk)
qed

end
