(* ===== verification/VM.thy ===== *)
theory VM
  imports PageTable
begin

text \<open>
  Address spaces: \<open>kernel/mem/vm.c\<close>. A \<open>struct vm\<close> lives in an object of \<open>kalloc\<close>: the words at \<open>vm\<close>, \<open>vm + 4\<close>
  and \<open>vm + 8\<close> of the kernel memory are its \<open>pgdir\<close>, its \<open>brk\<close> and its spinlock (on one processor a spinlock only
  turns interrupts off; where that matters the interrupt flag is passed along). \<open>kvm\<close> is the address of the kernel's
  own object, \<open>killed\<close> and \<open>curvm\<close> are the fields of the current task that the functions read. The copies into user
  pages are recorded as the sequence of \<open>memcpy\<close> or \<open>inode_read\<close> calls with their arguments.
\<close>

section \<open>Operations\<close>

definition USER_BASE :: u32 where "USER_BASE = 0x04048000"
definition USER_TOP :: u32 where "USER_TOP = KERNEL_BASE"
definition NPAGES_USER_STACK :: u32 where "NPAGES_USER_STACK = 4"
definition BOTTOM_USER_STACK :: u32 where "BOTTOM_USER_STACK = USER_TOP - NPAGES_USER_STACK * PG_SIZE"
definition USER_HEAP_BASE :: u32 where "USER_HEAP_BASE = USER_BASE + 0x4000000"
definition USER_HEAP_TOP :: u32 where "USER_HEAP_TOP = BOTTOM_USER_STACK"
definition SIZEOF_VM :: u32 where "SIZEOF_VM = 12"

definition vm_pgdir :: "wmem \<Rightarrow> u32 \<Rightarrow> u32" where "vm_pgdir m vm = m vm"
definition vm_brk :: "wmem \<Rightarrow> u32 \<Rightarrow> u32" where "vm_brk m vm = m (vm + 4)"

definition init_vm :: "u32 \<Rightarrow> wmem \<Rightarrow> wmem" where
  "init_vm vm m = m(vm + 4 := USER_HEAP_BASE, vm + 8 := 0)"

definition vm_free :: "bool \<Rightarrow> u32 \<Rightarrow> u32 \<Rightarrow> u32 \<Rightarrow> kalloc_state \<Rightarrow> kalloc_state option" where
  "vm_free killed kvm curvm vm s = do {
     kassert (vm \<noteq> kvm);
     kassert (curvm \<noteq> vm);
     s1 \<leftarrow> (if vm_pgdir (kmem (pool s)) vm \<noteq> 0
           then do { p \<leftarrow> pgdir_free (vm_pgdir (kmem (pool s)) vm) (pool s); Some (s\<lparr>pool := p\<rparr>) }
           else Some s);
     kfree killed vm s1
   }"

definition vm_new :: "bool \<Rightarrow> u32 \<Rightarrow> u32 \<Rightarrow> kalloc_state \<Rightarrow> (u32 \<times> kalloc_state) option" where
  "vm_new killed kvm curvm s = do {
     (vm, s1) \<leftarrow> kalloc killed SIZEOF_VM s;
     if vm = 0 then Some (0, s1)
     else do {
       (pgdir, p) \<leftarrow> pgdir_new (pool s1);
       let s2 = set_kmem (\<lambda>m. m(vm := pgdir)) (s1\<lparr>pool := p\<rparr>);
       if pgdir = 0 then do { s3 \<leftarrow> vm_free killed kvm curvm vm s2; Some (0, s3) }
       else Some (vm, set_kmem (init_vm vm) s2)
     }
   }"

definition vm_copy :: "bool \<Rightarrow> u32 \<Rightarrow> u32 \<Rightarrow> u32 \<Rightarrow> kalloc_state \<Rightarrow> (u32 \<times> kalloc_state) option" where
  "vm_copy killed kvm curvm vm s = do {
     (new_vm, s1) \<leftarrow> kalloc killed SIZEOF_VM s;
     if new_vm = 0 then Some (0, s1)
     else do {
       let s2 = set_kmem (init_vm new_vm) s1;
       (pgdir, p) \<leftarrow> pgdir_copy (vm_pgdir (kmem (pool s2)) vm) (pool s2);
       let s3 = set_kmem (\<lambda>m. m(new_vm := pgdir)) (s2\<lparr>pool := p\<rparr>);
       if pgdir = 0 then do { s4 \<leftarrow> vm_free killed kvm curvm new_vm s3; Some (0, s4) }
       else Some (new_vm, set_kmem (\<lambda>m. m(new_vm + 4 := vm_brk m vm)) s3)
     }
   }"

definition vm_valloc :: "u32 \<Rightarrow> u32 \<Rightarrow> u32 \<Rightarrow> phy_mem_pool \<Rightarrow> (bool \<times> phy_mem_pool) option" where
  "vm_valloc vm vaddr pgcnt s = do {
     kassert (pgcnt \<noteq> 0);
     kassert (vaddr + pgcnt * PG_SIZE > vaddr);
     kassert (vaddr + pgcnt * PG_SIZE \<le> KERNEL_BASE);
     pgdir_valloc (vm_pgdir (kmem s) vm) vaddr pgcnt (PG_RW_RW OR PG_US_USER) s
   }"

text \<open>
  \<open>vm_load\<close>: \<open>inode_read dst off sz\<close> tells whether the read returned a count that is not negative; the calls are
  recorded with their destination, offset and size.
\<close>

function load_loop :: "(u32 \<Rightarrow> u32 \<Rightarrow> u32 \<Rightarrow> bool) \<Rightarrow> wmem \<Rightarrow> u32 \<Rightarrow> u32 \<Rightarrow> u32 \<Rightarrow> nat \<Rightarrow> nat \<Rightarrow> bool \<times> (u32 \<times> u32 \<times> nat) list" where
  "load_loop rd m pgdir dst off sz done =
     (if done < sz then
        (let per = min 4096 (sz - done);
             page = page_frame_ptr m pgdir dst in
         if page = 0 then (False, [])
         else if \<not> rd page off (of_nat per) then (False, [(page, off, per)])
         else (let (ok, calls) = load_loop rd m pgdir (dst + of_nat per) (off + of_nat per) sz (done + per)
               in (ok, (page, off, per) # calls)))
      else (True, []))"
  by pat_completeness auto
termination
  by (relation "measure (\<lambda>(rd, m, pgdir, dst, off, sz, done). sz - done)") auto

declare load_loop.simps [simp del]

definition vm_load :: "(u32 \<Rightarrow> u32 \<Rightarrow> u32 \<Rightarrow> bool) \<Rightarrow> wmem \<Rightarrow> u32 \<Rightarrow> u32 \<Rightarrow> u32 \<Rightarrow> u32 \<Rightarrow> u32 \<Rightarrow> bool \<times> (u32 \<times> u32 \<times> nat) list" where
  "vm_load rd m curvm vm dst off sz =
     (if curvm = vm then (rd dst off sz, [(dst, off, unat sz)])
      else load_loop rd m (vm_pgdir m vm) dst off (unat sz) 0)"

text \<open>\<open>vm_copyout\<close>: the \<open>memcpy\<close> calls, each with its destination, source and length.\<close>

function copyout_loop :: "wmem \<Rightarrow> u32 \<Rightarrow> u32 \<Rightarrow> u32 \<Rightarrow> nat \<Rightarrow> nat \<Rightarrow> bool \<times> (u32 \<times> u32 \<times> nat) list" where
  "copyout_loop m pgdir dst src sz done =
     (if done < sz then
        (let per = min 4096 (sz - done);
             page = page_frame_ptr m pgdir dst in
         if page = 0 then (False, [])
         else (let (ok, calls) = copyout_loop m pgdir (dst + of_nat per) (src + of_nat per) sz (done + per)
               in (ok, (page + of_nat (unat dst mod 4096), src, per) # calls)))
      else (True, []))"
  by pat_completeness auto
termination
  by (relation "measure (\<lambda>(m, pgdir, dst, src, sz, done). sz - done)") auto

declare copyout_loop.simps [simp del]

definition vm_copyout :: "wmem \<Rightarrow> u32 \<Rightarrow> u32 \<Rightarrow> u32 \<Rightarrow> u32 \<Rightarrow> bool \<times> (u32 \<times> u32 \<times> nat) list" where
  "vm_copyout m vm dst src sz = copyout_loop m (vm_pgdir m vm) dst src (unat sz) 0"

definition vm_setrange :: "wmem \<Rightarrow> u32 \<Rightarrow> u32 \<Rightarrow> u32 \<Rightarrow> bool \<times> (u32 \<times> nat) list" where
  "vm_setrange m vm dst n = pgdir_setrange m (vm_pgdir m vm) dst n"

text \<open>
  The loop of \<open>vm_grow_userheap\<close>; the result says whether it ran to the end. The result of \<open>map_page\<close> is not
  looked at. The bound on the passes comes from \<open>brk\<close> and \<open>ebrk\<close> being below \<open>USER_HEAP_TOP\<close>.
\<close>

partial_function (option) grow_loop :: "u32 \<Rightarrow> u32 \<Rightarrow> u32 \<Rightarrow> phy_mem_pool \<Rightarrow> (bool \<times> phy_mem_pool) option" where
  "grow_loop pgdir brk ebrk s =
     (if brk < ebrk then
        (if page_frame_ptr (kmem s) pgdir brk = 0 then
           (let (paddr, s1) = palloc s in
            if paddr = 0 then Some (False, s1)
            else do {
              (_, s2) \<leftarrow> map_page pgdir brk paddr (PG_US_USER OR PG_RW_RW) s1;
              grow_loop pgdir (brk + PG_SIZE) ebrk s2
            })
         else grow_loop pgdir (brk + PG_SIZE) ebrk s)
      else Some (True, s))"

text \<open>
  \<open>vm_grow_userheap\<close>: the old break or 0, the memory, and the interrupt flag at the return (\<open>intr\<close> is the flag at
  the call; \<open>spinlock_acquire\<close> clears it and \<open>spinlock_release\<close> restores it).
\<close>

definition vm_grow_userheap :: "u32 \<Rightarrow> int \<Rightarrow> bool \<Rightarrow> phy_mem_pool \<Rightarrow> (u32 \<times> phy_mem_pool \<times> bool) option" where
  "vm_grow_userheap vm bytes_cnt intr s = do {
     kassert (vm_brk (kmem s) vm \<noteq> 0);
     if bytes_cnt < 0 then Some (0, s, intr)
     else do {
       let sbrk = vm_brk (kmem s) vm;
       let ebrk = sbrk + of_int bytes_cnt;
       if ebrk < sbrk \<or> ebrk \<ge> USER_HEAP_TOP then Some (0, s, False)
       else do {
         (ok, s1) \<leftarrow> grow_loop (vm_pgdir (kmem s) vm) sbrk ebrk s;
         if \<not> ok then Some (0, s1, intr)
         else Some (sbrk, upd_kmem (\<lambda>m. m(vm + 4 := ebrk)) s1, intr)
       }
     }
   }"

text \<open>\<open>vm_switchvm\<close>: the value loaded into \<open>cr3\<close>, if it is loaded.\<close>

definition vm_switchvm :: "bool \<Rightarrow> wmem \<Rightarrow> u32 \<Rightarrow> u32 \<Rightarrow> u32 option option" where
  "vm_switchvm intr m prev nxt = do {
     kassert (\<not> intr);
     Some (if prev \<noteq> nxt then Some (KV2P (vm_pgdir m nxt)) else None)
   }"

definition kvm_init :: "u32 \<Rightarrow> wmem \<Rightarrow> wmem" where
  "kvm_init kvm m = (init_vm kvm (m(kvm := kpgdir)))(kvm + 4 := 0)"

section \<open>Copying out\<close>

text \<open>From a page boundary the chunks of \<open>vm_copyout\<close> are those of \<open>pgdir_setrange\<close>.\<close>

lemma copyout_setrange:
  assumes "aligned_page dst"
  shows "fst (copyout_loop m pgdir dst src sz done) = fst (setrange_loop m pgdir sz dst done)
    \<and> map (\<lambda>(d, _, l). (d, l)) (snd (copyout_loop m pgdir dst src sz done)) = snd (setrange_loop m pgdir sz dst done)"
  using assms
proof (induction m pgdir dst src sz "done" rule: copyout_loop.induct)
  case (1 m pgdir dst src sz "done")
  have off: "unat dst mod 4096 = 0"
    using "1.prems" by (simp add: aligned_page_def)
  let ?per = "min 4096 (sz - done)"
  show ?case
  proof (cases "done < sz \<and> page_frame_ptr m pgdir dst \<noteq> 0")
    case False
    then show ?thesis
      by (subst copyout_loop.simps, subst copyout_loop.simps, subst setrange_loop.simps, subst setrange_loop.simps)
         (auto simp: Let_def)
  next
    case True
    let ?c = "copyout_loop m pgdir (dst + of_nat ?per) (src + of_nat ?per) sz (done + ?per)"
    let ?s = "setrange_loop m pgdir sz (dst + of_nat ?per) (done + ?per)"
    have c: "copyout_loop m pgdir dst src sz done = (fst ?c, (page_frame_ptr m pgdir dst, src, ?per) # snd ?c)"
      using True off by (subst copyout_loop.simps) (simp add: Let_def case_prod_beta)
    have r: "setrange_loop m pgdir sz dst done = (fst ?s, (page_frame_ptr m pgdir dst, ?per) # snd ?s)"
      using True off by (subst setrange_loop.simps) (simp add: Let_def case_prod_beta)
    have "fst ?c = fst ?s \<and> map (\<lambda>(d, _, l). (d, l)) (snd ?c) = snd ?s"
    proof (cases "?per = 4096")
      case full: True
      have "(unat dst + 4096) mod 4096 = 0"
        using off by simp
      then have "aligned_page (dst + of_nat ?per)"
        unfolding full aligned_page_def by (simp add: unat_word_ariths mod_mod_cancel)
      then show ?thesis
        using "1.IH" True by simp
    next
      case False
      then have "\<not> done + ?per < sz"
        using True by linarith
      then show ?thesis
        by (subst copyout_loop.simps, subst copyout_loop.simps, subst setrange_loop.simps, subst setrange_loop.simps) simp
    qed
    then show ?thesis
      unfolding c r by simp
  qed
qed

text \<open>The sources of the calls are consecutive.\<close>

definition src_bytes :: "u32 \<times> u32 \<times> nat \<Rightarrow> u32 list" where
  "src_bytes c = (case c of (_, src, l) \<Rightarrow> map (\<lambda>k. src + of_nat k) [0..<l])"

lemma src_bytes_Pair: "src_bytes (d, src, l) = map (\<lambda>k. src + of_nat k) [0..<l]"
  by (simp add: src_bytes_def)

lemma copyout_src:
  assumes "done \<le> sz" "fst (copyout_loop m pgdir dst src sz done)"
  shows "concat (map src_bytes (snd (copyout_loop m pgdir dst src sz done))) = map (\<lambda>k. src + of_nat k) [0..<sz - done]"
  using assms
proof (induction m pgdir dst src sz "done" rule: copyout_loop.induct)
  case (1 m pgdir dst src sz "done")
  let ?per = "min 4096 (sz - done)"
  let ?c = "copyout_loop m pgdir (dst + of_nat ?per) (src + of_nat ?per) sz (done + ?per)"
  show ?case
  proof (cases "done < sz")
    case False
    then show ?thesis
      by (subst copyout_loop.simps) simp
  next
    case True
    then have nz: "page_frame_ptr m pgdir dst \<noteq> 0"
      using "1.prems"(2) by (auto simp: Let_def copyout_loop.simps)
    have c: "copyout_loop m pgdir dst src sz done = (fst ?c, (page_frame_ptr m pgdir dst + of_nat (unat dst mod 4096), src, ?per) # snd ?c)"
      using True nz by (subst copyout_loop.simps) (simp add: Let_def case_prod_beta)
    have split: "sz - done = ?per + (sz - (done + ?per))"
      by linarith
    have le: "done + ?per \<le> sz"
      using True by linarith
    have "concat (map src_bytes (snd ?c)) = map (\<lambda>k. src + of_nat ?per + of_nat k) [0..<sz - (done + ?per)]"
      by (rule "1.IH" [OF True refl refl nz le]) (use "1.prems"(2) c in simp)
    moreover have "map (\<lambda>k. src + of_nat k) [0..<sz - done] =
        map (\<lambda>k. src + of_nat k) [0..<?per] @ map (\<lambda>k. src + of_nat (?per + k)) [0..<sz - (done + ?per)]"
      by (subst split) (rule upt_chunk)
    moreover have "src + of_nat ?per + of_nat k = src + of_nat (?per + k)" for k
      by (simp only: of_nat_add add.assoc)
    ultimately show ?thesis
      unfolding c by (simp only: snd_conv list.map concat.simps src_bytes_Pair)
  qed
qed

section \<open>Growing the heap\<close>

lemma grow_loop_ok:
  assumes "pt_inv s ps pgdir" "aligned_page brk" "unat ebrk \<le> unat brk + n * 4096" "unat brk + n * 4096 \<le> 2 ^ 31"
    and "2 * n \<le> length ps" "\<And>w. w < KERNEL_BASE \<Longrightarrow> walk (kmem s) pgdir w \<noteq> Some KERNEL_BASE"
  shows "\<exists>s' ps'. grow_loop pgdir brk ebrk s = Some (True, s') \<and> pt_inv s' ps' pgdir \<and> set ps' \<subseteq> set ps
    \<and> (\<forall>w. unat brk \<le> unat w \<longrightarrow> w < ebrk \<longrightarrow> walk (kmem s') pgdir w \<noteq> None)
    \<and> (\<forall>w < KERNEL_BASE. walk (kmem s) pgdir w \<noteq> None \<longrightarrow> walk (kmem s') pgdir w = walk (kmem s) pgdir w)
    \<and> (\<forall>w < KERNEL_BASE. walk (kmem s') pgdir w \<noteq> walk (kmem s) pgdir w \<longrightarrow> in_range brk n w)"
  using assms
proof (induction n arbitrary: s ps brk)
  case 0
  then show ?case
    by (subst grow_loop.simps) (auto simp: word_less_nat_alt)
next
  case (Suc n)
  show ?case
  proof (cases "brk < ebrk")
    case False
    then show ?thesis
      using Suc.prems(1) by (subst grow_loop.simps) (auto simp: word_less_nat_alt)
  next
    case lt: True
    note rs = in_range_Suc [OF Suc.prems(2,4)]
    obtain s1 ps1 where s1: "grow_loop pgdir brk ebrk s = grow_loop pgdir (brk + PG_SIZE) ebrk s1" "pt_inv s1 ps1 pgdir"
        "set ps1 \<subseteq> set ps" "2 * n \<le> length ps1"
        "\<And>w. same_page brk w \<Longrightarrow> w < KERNEL_BASE \<Longrightarrow> walk (kmem s1) pgdir w \<noteq> None"
        "\<And>w. w < KERNEL_BASE \<Longrightarrow> walk (kmem s1) pgdir w \<noteq> Some KERNEL_BASE"
        "\<And>w. w < KERNEL_BASE \<Longrightarrow> walk (kmem s) pgdir w \<noteq> None \<Longrightarrow> walk (kmem s1) pgdir w = walk (kmem s) pgdir w"
        "\<And>w. w < KERNEL_BASE \<Longrightarrow> \<not> same_page brk w \<Longrightarrow> walk (kmem s1) pgdir w = walk (kmem s) pgdir w"
    proof (cases "walk (kmem s) pgdir brk")
      case None
      obtain q ps1 where ps: "ps = q # ps1" "ps1 \<noteq> []"
        using Suc.prems(5) by (cases ps; cases "tl ps") auto
      note pa = pt_inv_palloc [OF Suc.prems(1) [unfolded ps(1)]]
      have un: "walk (kmem (snd (palloc s))) pgdir brk = None"
        using None pa(3) by simp
      have attr: "(PG_US_USER OR PG_RW_RW) AND 0xFFFFF000 = 0"
        by (simp add: PG_US_USER_def PG_RW_RW_def)
      obtain s2 ps2 where m: "map_page pgdir brk (KV2P q) (PG_US_USER OR PG_RW_RW) (snd (palloc s)) = Some (True, s2)"
          "pt_inv s2 ps2 pgdir" "ps2 = ps1 \<or> ps2 = tl ps1"
          "\<And>w. w < KERNEL_BASE \<Longrightarrow> walk (kmem s2) pgdir w = (if same_page brk w then Some (KV2P q) else walk (kmem s) pgdir w)"
        using map_page_ok [OF pa(2) rs(4) un pa(4) attr] ps(2) pa(3) by (metis (no_types, lifting))
      have "page_frame_ptr (kmem s) pgdir brk = 0"
        by (simp add: page_frame_ptr_walk None)
      then have g: "grow_loop pgdir brk ebrk s = grow_loop pgdir (brk + PG_SIZE) ebrk s2"
        using lt m(1) pa(1,5) by (subst grow_loop.simps) (simp add: Let_def case_prod_beta)
      have "q \<noteq> 0"
        using Suc.prems(1) ps(1) by (auto simp: pt_inv_def pool_inv_def)
      then have "KV2P q \<noteq> KERNEL_BASE"
        by (metis KV2P_KV2P KV2P_eq_KP2V KP2V_def add_0 KV2P_def diff_self)
      moreover have same: "same_page brk w \<Longrightarrow> walk (kmem s) pgdir w = None" for w
        using None by (simp add: walk_def pte_ptr_def same_page_def split: if_splits)
      ultimately show ?thesis
        using g m Suc.prems(5,6) ps by (intro that [of s2 ps2]) (auto dest: list.set_sel(2) split: if_splits)
    next
      case (Some p)
      then have "p \<noteq> KERNEL_BASE"
        using Suc.prems(6) [OF rs(4)] by auto
      then have "KP2V p \<noteq> 0"
        by (metis KP2V_KV2P(2) KV2P_def KV2P_eq_KP2V KP2V_def add_0)
      then have "page_frame_ptr (kmem s) pgdir brk \<noteq> 0"
        by (simp add: page_frame_ptr_walk Some)
      then have g: "grow_loop pgdir brk ebrk s = grow_loop pgdir (brk + PG_SIZE) ebrk s"
        using lt by (subst grow_loop.simps) simp
      have "same_page brk w \<Longrightarrow> walk (kmem s) pgdir w \<noteq> None" for w
        using Some by (simp add: walk_def pte_ptr_def same_page_def split: if_splits)
      then show ?thesis
        using g Suc.prems(1,5,6) by (intro that [of s ps]) auto
    qed
    have b: "unat ebrk \<le> unat (brk + PG_SIZE) + n * 4096" "unat (brk + PG_SIZE) + n * 4096 \<le> 2 ^ 31"
      using Suc.prems(3,4) rs(2) by simp_all
    obtain s' ps' where s': "grow_loop pgdir (brk + PG_SIZE) ebrk s1 = Some (True, s')" "pt_inv s' ps' pgdir" "set ps' \<subseteq> set ps1"
        "\<And>w. unat (brk + PG_SIZE) \<le> unat w \<Longrightarrow> w < ebrk \<Longrightarrow> walk (kmem s') pgdir w \<noteq> None"
        "\<And>w. w < KERNEL_BASE \<Longrightarrow> walk (kmem s1) pgdir w \<noteq> None \<Longrightarrow> walk (kmem s') pgdir w = walk (kmem s1) pgdir w"
        "\<And>w. w < KERNEL_BASE \<Longrightarrow> walk (kmem s') pgdir w \<noteq> walk (kmem s1) pgdir w \<Longrightarrow> in_range (brk + PG_SIZE) n w"
      using Suc.IH [OF s1(2) rs(3) b s1(4,6)] by blast
    have kb: "w < ebrk \<Longrightarrow> w < KERNEL_BASE" for w
      using Suc.prems(3,4) by (simp add: word_less_nat_alt KERNEL_BASE_def)
    have "walk (kmem s') pgdir w \<noteq> None" if w: "unat brk \<le> unat w" "w < ebrk" for w
    proof (cases "same_page brk w")
      case True
      then show ?thesis
        using s1(5) [OF True kb [OF w(2)]] s'(5) [OF kb [OF w(2)]] by simp
    next
      case False
      then show ?thesis
        using s'(4) [of w] w rs(2) same_page_first [OF Suc.prems(2), of w] by simp
    qed
    moreover have "walk (kmem s') pgdir w = walk (kmem s) pgdir w" if "w < KERNEL_BASE" "walk (kmem s) pgdir w \<noteq> None" for w
      using s1(7) [OF that] s'(5) [OF that(1)] that(2) by simp
    moreover have "in_range brk (Suc n) w" if "w < KERNEL_BASE" "walk (kmem s') pgdir w \<noteq> walk (kmem s) pgdir w" for w
      using s'(6) [OF that(1)] s1(8) [OF that(1)] that(2) rs(1) [of w] by metis
    ultimately show ?thesis
      using s1(1,3) s'(1-3) by (intro exI [of _ s'] exI [of _ ps']) auto
  qed
qed

section \<open>Properties\<close>

text \<open>
  \<open>vm_copyout\<close> to a page boundary returns true exactly when every destination byte has a page frame, and then
  its \<open>memcpy\<close> calls write, in order, the kernel addresses of the \<open>sz\<close> destination bytes from the \<open>sz\<close> source
  bytes.
\<close>

theorem vm_copyout_aligned:
  assumes "aligned_page dst"
  shows "fst (vm_copyout m vm dst src sz) = list_all (\<lambda>k. page_frame_ptr m (vm_pgdir m vm) (dst + of_nat k) \<noteq> 0) [0..<unat sz]
    \<and> (fst (vm_copyout m vm dst src sz) \<longrightarrow>
        concat (map (\<lambda>(d, _, l). call_bytes (d, l)) (snd (vm_copyout m vm dst src sz))) =
          map (\<lambda>k. byte_addr m (vm_pgdir m vm) (dst + of_nat k)) [0..<unat sz]
        \<and> concat (map src_bytes (snd (vm_copyout m vm dst src sz))) = map (\<lambda>k. src + of_nat k) [0..<unat sz])"
proof -
  let ?c = "copyout_loop m (vm_pgdir m vm) dst src (unat sz) 0"
  have eq: "map (\<lambda>(d, _, l). call_bytes (d, l)) (snd ?c) = map call_bytes (map (\<lambda>(d, _, l). (d, l)) (snd ?c))"
    by (auto intro: map_cong)
  note cs = copyout_setrange [OF assms, of m "vm_pgdir m vm" src "unat sz" 0]
    and sr = setrange_loop_ok [of 0 "unat sz" m "vm_pgdir m vm" dst, simplified]
  have dst: "concat (map (\<lambda>(d, _, l). call_bytes (d, l)) (snd ?c)) = map (\<lambda>k. byte_addr m (vm_pgdir m vm) (dst + of_nat k)) [0..<unat sz]"
    if "fst ?c"
    unfolding eq using cs sr that by simp
  have "fst ?c = list_all (\<lambda>k. page_frame_ptr m (vm_pgdir m vm) (dst + of_nat k) \<noteq> 0) [0..<unat sz]"
    using cs sr by (simp add: list_all_iff atLeast0LessThan Ball_def)
  moreover have "concat (map src_bytes (snd ?c)) = map (\<lambda>k. src + of_nat k) [0..<unat sz]" if "fst ?c"
    using copyout_src [OF _ that] by simp
  ultimately show ?thesis
    unfolding vm_copyout_def using dst by (intro conjI impI)
qed

text \<open>A directory and a table that map user page \<open>0x1000\<close> to frame \<open>0x402000\<close>, with the \<open>struct vm\<close> at \<open>0x80403000\<close>.\<close>

definition vm_example :: wmem where
  "vm_example = (\<lambda>_. 0)(0x80400000 := 0x00401007, 0x80401004 := 0x00402007, 0x80401008 := 0x00407007,
     0x80403000 := 0x80400000, 0x80403004 := 0x2000)"

lemma vm_example_frames:
  "vm_pgdir vm_example 0x80403000 = 0x80400000"
  "same_page 0x1000 w \<Longrightarrow> page_frame_ptr vm_example 0x80400000 w = 0x80402000"
  "same_page 0x2000 w \<Longrightarrow> page_frame_ptr vm_example 0x80400000 w = 0x80407000"
proof -
  have words: "vm_example 0x80400000 = 0x00401007" "vm_example 0x80401004 = 0x00402007" "vm_example 0x80401008 = 0x00407007"
    by (simp_all add: vm_example_def)
  have ev: "ENTRY_VADDR 0x00401007 = 0x80401000" "ENTRY_VADDR 0x00402007 = 0x80402000" "ENTRY_VADDR 0x00407007 = 0x80407000"
    by (simp_all add: ENTRY_VADDR_def KV2P_def KERNEL_BASE_def)
  have tab: "GET_PGTAB vm_example 0x80400000 0 = 0x80401000"
    by (simp add: GET_PGTAB_def words ev)
  have nr: "PDE_NR 0x1000 = 0" "PTE_NR 0x1000 = 1" "PDE_NR 0x2000 = 0" "PTE_NR 0x2000 = 2"
    by (simp_all add: PDE_NR_def PTE_NR_def)
  have "page_frame_ptr vm_example 0x80400000 0x1000 = 0x80402000" "page_frame_ptr vm_example 0x80400000 0x2000 = 0x80407000"
    by (simp_all add: nr words tab ev page_frame_ptr_def IS_PRESENT_def PG_PRESENT_def)
  then show "same_page 0x1000 w \<Longrightarrow> page_frame_ptr vm_example 0x80400000 w = 0x80402000"
    "same_page 0x2000 w \<Longrightarrow> page_frame_ptr vm_example 0x80400000 w = 0x80407000"
    using page_frame_ptr_same_page [of "0x1000" w vm_example "0x80400000"]
      page_frame_ptr_same_page [of "0x2000" w vm_example "0x80400000"] by argo+
  show "vm_pgdir vm_example 0x80403000 = 0x80400000"
    by (simp add: vm_pgdir_def vm_example_def)
qed

theorem vm_copyout_aligned_witness:
  "aligned_page 0x1000 \<and> fst (vm_copyout vm_example 0x80403000 0x1000 0x80500000 2)"
proof
  show al: "aligned_page 0x1000"
    by (simp add: aligned_page_def)
  have "same_page 0x1000 0x1000" "same_page 0x1000 0x1001"
    by (simp_all add: same_page_div)
  then show "fst (vm_copyout vm_example 0x80403000 0x1000 0x80500000 2)"
    using vm_copyout_aligned [OF al, of vm_example "0x80403000" "0x80500000" 2]
    by (simp add: upt_rec vm_example_frames)
qed

text \<open>
  A destination inside a page: the first chunk is not shortened by the offset, so its \<open>memcpy\<close> runs over the end of
  the frame into the next physical page, and the next user page is not written at its start.
\<close>

lemma vm_copyout_overruns:
  "vm_copyout vm_example 0x80403000 0x1800 0x80500000 4096 = (True, [(0x80402800, 0x80500000, 4096)])"
  "byte_addr vm_example 0x80400000 0x2000 = 0x80407000"
proof -
  have "same_page 0x1000 0x1800" "same_page 0x2000 0x2000"
    by (simp_all add: same_page_div)
  note f = vm_example_frames(1) vm_example_frames(2) [OF this(1)] vm_example_frames(3) [OF this(2)]
  show "vm_copyout vm_example 0x80403000 0x1800 0x80500000 4096 = (True, [(0x80402800, 0x80500000, 4096)])"
    by (simp add: vm_copyout_def copyout_loop.simps f)
  show "byte_addr vm_example 0x80400000 0x2000 = 0x80407000"
    by (simp add: byte_addr_def f)
qed


definition grow_example :: phy_mem_pool where
  "grow_example = upd_kmem (\<lambda>m. m(0x80405000 := 0x80400000, 0x80405004 := 0x08048000)) pt_example"

lemma grow_example_facts:
  "pt_inv grow_example [0x80401000, 0x80402000, 0x80403000, 0x80404000] 0x80400000"
  "walk (kmem grow_example) pgdir w = None"
  "vm_pgdir (kmem grow_example) 0x80405000 = 0x80400000" "vm_brk (kmem grow_example) 0x80405000 = 0x08048000"
proof -
  have np: "\<not> IS_PRESENT (kmem grow_example a)" for a
    by (simp add: grow_example_def upd_kmem_def pt_example_def IS_PRESENT_def PG_PRESENT_def)
  moreover have "pool_inv grow_example [0x80401000, 0x80402000, 0x80403000, 0x80404000]"
    by (simp add: pool_inv_def grow_example_def upd_kmem_def pt_example_def page_ok_def aligned_page_def)
  ultimately show "pt_inv grow_example [0x80401000, 0x80402000, 0x80403000, 0x80404000] 0x80400000"
    by (simp add: pt_inv_def aligned_page_def KERNEL_BASE_def)
  show "walk (kmem grow_example) pgdir w = None"
    using np by (simp add: walk_def)
  show "vm_pgdir (kmem grow_example) 0x80405000 = 0x80400000" "vm_brk (kmem grow_example) 0x80405000 = 0x08048000"
    by (simp_all add: vm_pgdir_def vm_brk_def grow_example_def upd_kmem_def)
qed


text \<open>A request past the top of the heap is refused with interrupts still off.\<close>

lemma grow_refused_interrupts_off:
  assumes "vm_brk (kmem s) vm \<noteq> 0" "0 \<le> bytes_cnt" "vm_brk (kmem s) vm + of_int bytes_cnt \<ge> USER_HEAP_TOP"
  shows "vm_grow_userheap vm bytes_cnt True s = Some (0, s, False)"
  using assms by (simp add: vm_grow_userheap_def Let_def)

text \<open>
  From a break inside a page the last page of the grown area may stay unmapped: the loop steps by whole pages from
  the break.
\<close>

lemma grow_unaligned_leaves_gap:
  assumes "kmem s = vm_example(0x80401008 := 0)"
  shows "grow_loop 0x80400000 0x1F00 0x2100 s = Some (True, s) \<and> page_frame_ptr (kmem s) 0x80400000 0x2000 = 0"
proof -
  have "page_frame_ptr (kmem s) 0x80400000 0x1F00 = 0x80402000" "page_frame_ptr (kmem s) 0x80400000 0x2000 = 0"
    by (simp_all add: assms vm_example_def page_frame_ptr_def IS_PRESENT_def PG_PRESENT_def GET_PGTAB_def ENTRY_VADDR_def
        KV2P_def KERNEL_BASE_def PDE_NR_def PTE_NR_def)
  then show ?thesis
    by (simp add: grow_loop.simps PG_SIZE_def)
qed

end
