(* ===== verification/SysFs.thy ===== *)
theory SysFs
  imports Dir RingBuffer
begin

text \<open>
  Open files and the file system calls: \<open>fs/file.c\<close>, \<open>pipe_alloc\<close> of \<open>kernel/pipe.c\<close> and \<open>kernel/syscall/sysfs.c\<close>.

  The state puts together the file system (theory \<open>Dir\<close>), the table of open files, the descriptors and the working
  directory of the current task, and the ring buffers of the pipes (theory \<open>RingBuffer\<close>). A call that would block, like
  one that panics, is \<open>None\<close>: the calls are those of one task that runs alone. System call arguments are given after
  \<open>SYS_STRARG\<close> and \<open>SYS_PTRARG\<close>: a path is \<open>None\<close> for a pointer that was refused. \<open>junk\<close> is what an uninitialised name
  field of 60 bytes on the stack holds.
\<close>

section \<open>Files (file.c)\<close>

datatype fd_type = FD_NONE | FD_INODE | FD_PIPE

record kfile =
  ftype :: fd_type
  refs :: u32
  writable :: bool
  readable :: bool
  finode :: nat
  fpipe :: nat
  foffset :: u32

record sys =
  core :: fs
  files :: "kfile list"
  ofiles :: "nat option list"
  cwd :: nat
  pipes :: "nat \<Rightarrow> ringbuffer"
  tid :: nat

definition NFILES :: nat where "NFILES = 50"

definition upd_file :: "nat \<Rightarrow> (kfile \<Rightarrow> kfile) \<Rightarrow> sys \<Rightarrow> sys" where
  "upd_file i f s = s\<lparr>files := (files s)[i := f (files s ! i)]\<rparr>"

definition on_core :: "(fs \<Rightarrow> fs option) \<Rightarrow> sys \<Rightarrow> sys option" where
  "on_core f s = do { c \<leftarrow> f (core s); Some (s\<lparr>core := c\<rparr>) }"

definition fs_begin_op :: "fs \<Rightarrow> fs option" where
  "fs_begin_op c = do { l \<leftarrow> log_begin_op (lg c); Some (c\<lparr>lg := l\<rparr>) }"

definition fs_end_op :: "fs \<Rightarrow> fs option" where
  "fs_end_op c = do { (l, d) \<leftarrow> log_end_op (lg c) (dev c); Some (c\<lparr>lg := l, dev := d\<rparr>) }"

definition file0 :: kfile where
  "file0 = \<lparr>ftype = FD_NONE, refs = 0, writable = False, readable = False, finode = 0, fpipe = 0, foffset = 0\<rparr>"

definition file_init :: "sys \<Rightarrow> sys" where
  "file_init s = s\<lparr>files := replicate NFILES file0\<rparr>"

definition file_alloc :: "sys \<Rightarrow> nat option \<times> sys" where
  "file_alloc s =
     (case List.find (\<lambda>i. refs (files s ! i) = 0) [0..<NFILES] of
        Some i \<Rightarrow> (Some i, upd_file i (\<lambda>f. f\<lparr>refs := 1\<rparr>) s)
      | None \<Rightarrow> (None, s))"

definition file_close :: "nat \<Rightarrow> sys \<Rightarrow> sys option" where
  "file_close i s = do {
     kassert (refs (files s ! i) \<ge> 1);
     let s1 = upd_file i (\<lambda>f. f\<lparr>refs := refs f - 1\<rparr>) s;
     let f = files s1 ! i;
     if refs f > 0 then Some s1
     else do {
       let s2 = upd_file i (\<lambda>f. f\<lparr>ftype := FD_NONE\<rparr>) s1;
       (case ftype f of
          FD_INODE \<Rightarrow> do {
            s3 \<leftarrow> on_core fs_begin_op s2;
            s4 \<leftarrow> on_core (inode_put (finode f)) s3;
            on_core fs_end_op s4
          }
        | FD_PIPE \<Rightarrow> (let (_, _, r) = pipe_close (writable f) (pipes s2 (fpipe f))
                      in Some (s2\<lparr>pipes := (pipes s2)(fpipe f := r)\<rparr>))
        | FD_NONE \<Rightarrow> Some s2)
     }
   }"

definition file_dup :: "nat \<Rightarrow> sys \<Rightarrow> (nat \<times> sys) option" where
  "file_dup i s = do {
     kassert (refs (files s ! i) \<ge> 1);
     Some (i, upd_file i (\<lambda>f. f\<lparr>refs := refs f + 1\<rparr>) s)
   }"

definition file_read :: "devio \<Rightarrow> nat \<Rightarrow> u32 \<Rightarrow> sys \<Rightarrow> (int \<times> u8 list \<times> sys) option" where
  "file_read io i n s =
     (let f = files s ! i in
      if \<not> readable f then Some (-1, [], s)
      else (case ftype f of
        FD_INODE \<Rightarrow> do {
          s1 \<leftarrow> on_core (inode_lock (finode f)) s;
          (r, bs, c) \<leftarrow> inode_read io (finode f) (foffset f) n (core s1);
          let s2 = s1\<lparr>core := c\<rparr>;
          let s3 = (if r > 0 then upd_file i (\<lambda>f. f\<lparr>foffset := foffset f + of_int r\<rparr>) s2 else s2);
          s4 \<leftarrow> on_core (inode_unlock (finode f)) s3;
          Some (r, bs, s4)
        }
      | FD_PIPE \<Rightarrow> do {
          let (r, bs, ended, rb) = pipe_read (tid s) (sint n) (pipes s (fpipe f));
          kassert ended;
          Some (r, bs, s\<lparr>pipes := (pipes s)(fpipe f := rb)\<rparr>)
        }
      | FD_NONE \<Rightarrow> None))"

text \<open>
  The loop of \<open>file_write\<close> on an inode. Every pass writes from the beginning of \<open>src\<close>. The result is the number \<open>i\<close>
  of bytes with which the loop ended.
\<close>

definition WRITE_MAX :: nat where "WRITE_MAX = nat ((MAX_OPEN_BLOCKS - 4) div 2) * 512"

function fwrite_loop :: "devio \<Rightarrow> nat \<Rightarrow> u8 list \<Rightarrow> nat \<Rightarrow> nat \<Rightarrow> sys \<Rightarrow> (nat \<times> sys) option" where
  "fwrite_loop io k src n i s =
     (if i < n then do {
        let n1 = min (n - i) WRITE_MAX;
        let ip = finode (files s ! k);
        s1 \<leftarrow> on_core fs_begin_op s;
        s2 \<leftarrow> on_core (inode_lock ip) s1;
        (r, c) \<leftarrow> inode_write io ip (take n1 src) (foffset (files s2 ! k)) (core s2);
        let s3 = s2\<lparr>core := c\<rparr>;
        let s4 = (if r > 0 then upd_file k (\<lambda>f. f\<lparr>foffset := foffset f + of_int r\<rparr>) s3 else s3);
        s5 \<leftarrow> on_core (inode_unlock ip) s4;
        s6 \<leftarrow> on_core fs_end_op s5;
        if r < 0 then Some (i, s6)
        else do {
          kassert (r = int n1);
          fwrite_loop io k src n (i + n1) s6
        }
      } else Some (i, s))"
  by pat_completeness auto
termination
  by (relation "measure (\<lambda>(io, k, src, n, i, s). n - i)") (auto simp: WRITE_MAX_def MAX_OPEN_BLOCKS_def)

declare fwrite_loop.simps [simp del]

definition file_write :: "devio \<Rightarrow> nat \<Rightarrow> u8 list \<Rightarrow> sys \<Rightarrow> (int \<times> sys) option" where
  "file_write io i src s =
     (let f = files s ! i; n = length src in
      if \<not> writable f then Some (-1, s)
      else (case ftype f of
        FD_INODE \<Rightarrow> do { (j, s1) \<leftarrow> fwrite_loop io i src n 0 s; Some (if j = n then 0 else -1, s1) }
      | FD_PIPE \<Rightarrow> do {
          let (r, ended, rb) = pipe_write (tid s) src (int n) (pipes s (fpipe f));
          kassert ended;
          Some (r, s\<lparr>pipes := (pipes s)(fpipe f := rb)\<rparr>)
        }
      | FD_NONE \<Rightarrow> None))"

text \<open>\<open>pipe_alloc\<close>: \<open>pipe\<close> is the address of the new pipe, \<open>None\<close> when there is no memory for it or for its buffer.\<close>

definition pipe_alloc :: "nat option \<Rightarrow> sys \<Rightarrow> ((nat \<times> nat) option \<times> sys) option" where
  "pipe_alloc pipe s =
     (case file_alloc s of
        (None, s1) \<Rightarrow> Some (None, s1)
      | (Some r, s1) \<Rightarrow> (case file_alloc s1 of
          (None, s2) \<Rightarrow> do { s3 \<leftarrow> file_close r s2; Some (None, s3) }
        | (Some w, s2) \<Rightarrow> (case pipe of
            None \<Rightarrow> do { s3 \<leftarrow> file_close r s2; s4 \<leftarrow> file_close w s3; Some (None, s4) }
          | Some p \<Rightarrow>
              let s3 = s2\<lparr>pipes := (pipes s2)(p := ringbuffer_init PG_SIZE)\<rparr>;
                  s4 = upd_file r (\<lambda>f. f\<lparr>ftype := FD_PIPE, fpipe := p, readable := True, writable := False\<rparr>) s3;
                  s5 = upd_file w (\<lambda>f. f\<lparr>ftype := FD_PIPE, fpipe := p, readable := False, writable := True\<rparr>) s4
              in Some (Some (r, w), s5))))"

section \<open>System calls (sysfs.c)\<close>

definition fd_alloc :: "nat \<Rightarrow> sys \<Rightarrow> int \<times> sys" where
  "fd_alloc f s =
     (case List.find (\<lambda>fd. ofiles s ! fd = None) [0..<NOFILE] of
        Some fd \<Rightarrow> (int fd, s\<lparr>ofiles := (ofiles s)[fd := Some f]\<rparr>)
      | None \<Rightarrow> (-1, s))"

definition fetch_file :: "int \<Rightarrow> sys \<Rightarrow> nat option" where
  "fetch_file fd s = (if fd < 0 \<or> fd \<ge> int NOFILE then None else ofiles s ! nat fd)"

definition create_file :: "devio \<Rightarrow> u8 list \<Rightarrow> u8 list \<Rightarrow> u32 \<Rightarrow> sys \<Rightarrow> (nat option \<times> sys) option" where
  "create_file io junk path typ s = do {
     (dir, name, c0) \<leftarrow> path_lookup_parent io (cwd s) path (core s);
     let s0 = s\<lparr>core := c0\<rparr>;
     (case dir of
        None \<Rightarrow> Some (None, s0)
      | Some dir \<Rightarrow>
          if \<not> path_valid_name name then do { s1 \<leftarrow> on_core (inode_put dir) s0; Some (None, s1) }
          else do {
            s1 \<leftarrow> on_core (inode_lock dir) s0;
            kassert (dtype (disk_inode (inodes (core s1) ! dir)) = INODE_DIRECTORY);
            (found, c2) \<leftarrow> dir_lookup io dir name (core s1);
            let s2 = s1\<lparr>core := c2\<rparr>;
            (case found of
               Some (ip, _) \<Rightarrow> do {
                 s3 \<leftarrow> on_core (inode_lock ip) s2;
                 if dtype (disk_inode (inodes (core s3) ! ip)) = typ \<and> typ = INODE_FILE then do {
                   s4 \<leftarrow> on_core (inode_unlock ip) s3;
                   s5 \<leftarrow> on_core (inode_unlockput dir) s4;
                   Some (Some ip, s5)
                 } else do {
                   s4 \<leftarrow> on_core (inode_unlockput ip) s3;
                   s5 \<leftarrow> on_core (inode_unlockput dir) s4;
                   Some (None, s5)
                 }
               }
             | None \<Rightarrow> do {
                 (ip, c3) \<leftarrow> inode_alloc typ (core s2);
                 s4 \<leftarrow> on_core (inode_lock ip) (s2\<lparr>core := c3\<rparr>);
                 s5 \<leftarrow> on_core (\<lambda>c. inode_update ip (upd_dinode ip (\<lambda>di. di\<lparr>nlink := 1, dsize := 0\<rparr>) c)) s4;
                 field \<leftarrow> set_name junk name;
                 (r, c6) \<leftarrow> dir_link io dir \<lparr>d_inum = inum (inodes (core s5) ! ip), d_name = field\<rparr> (core s5);
                 let s6 = s5\<lparr>core := c6\<rparr>;
                 if r < 0 then do {
                   s7 \<leftarrow> on_core (inode_unlockput ip) (s6\<lparr>core := upd_dinode ip (\<lambda>di. di\<lparr>nlink := 0\<rparr>) (core s6)\<rparr>);
                   s8 \<leftarrow> on_core (inode_unlockput dir) s7;
                   Some (None, s8)
                 } else do {
                   s7 \<leftarrow> (if typ = INODE_DIRECTORY
                         then do { (_, c7) \<leftarrow> dir_make io junk dir ip (core s6); Some (s6\<lparr>core := c7\<rparr>) }
                         else Some s6);
                   s8 \<leftarrow> on_core (inode_unlock ip) s7;
                   s9 \<leftarrow> on_core (inode_unlockput dir) s8;
                   Some (Some ip, s9)
                 }
               })
          })
   }"

text \<open>Opening: the inode that \<open>sys_open\<close> works on, or \<open>None\<close> for the return of \<open>-1\<close> (inside the log operation).\<close>

definition open_inode :: "devio \<Rightarrow> u8 list \<Rightarrow> u8 list \<Rightarrow> u32 \<Rightarrow> sys \<Rightarrow> (nat option \<times> sys) option" where
  "open_inode io junk path omode s =
     (if omode AND O_CREAT \<noteq> 0 then create_file io junk path INODE_FILE s
      else do {
        (ip, c) \<leftarrow> path_lookup io (cwd s) path (core s);
        let s1 = s\<lparr>core := c\<rparr>;
        (case ip of
           None \<Rightarrow> Some (None, s1)
         | Some ip \<Rightarrow> do {
             s2 \<leftarrow> on_core (inode_lock ip) s1;
             if dtype (disk_inode (inodes (core s2) ! ip)) = INODE_DIRECTORY \<and> omode \<noteq> O_RDONLY then do {
               s3 \<leftarrow> on_core (inode_unlockput ip) s2;
               Some (None, s3)
             } else do {
               s3 \<leftarrow> on_core (inode_unlock ip) s2;
               Some (Some ip, s3)
             }
           })
      })"

definition sys_open :: "devio \<Rightarrow> u8 list \<Rightarrow> u8 list option \<Rightarrow> u32 \<Rightarrow> sys \<Rightarrow> (int \<times> sys) option" where
  "sys_open io junk path omode s =
     (case path of
        None \<Rightarrow> Some (-1, s)
      | Some path \<Rightarrow> do {
          s1 \<leftarrow> on_core fs_begin_op s;
          (ip, s2) \<leftarrow> open_inode io junk path omode s1;
          (case ip of
             None \<Rightarrow> do { s3 \<leftarrow> on_core fs_end_op s2; Some (-1, s3) }
           | Some ip \<Rightarrow>
               (case file_alloc s2 of
                  (None, s3) \<Rightarrow> do {
                    s4 \<leftarrow> on_core (inode_put ip) s3;
                    s5 \<leftarrow> on_core fs_end_op s4;
                    Some (-1, s5)
                  }
                | (Some f, s3) \<Rightarrow>
                    let (fd, s4) = fd_alloc f s3 in
                    if fd < 0 then do {
                      s5 \<leftarrow> file_close f s4;
                      s6 \<leftarrow> on_core (inode_put ip) s5;
                      s7 \<leftarrow> on_core fs_end_op s6;
                      Some (-1, s7)
                    } else do {
                      s5 \<leftarrow> on_core fs_end_op s4;
                      let off = (if omode AND O_APPEND = 0 then 0 else dsize (disk_inode (inodes (core s5) ! ip)));
                      Some (fd, upd_file f (\<lambda>f. f\<lparr>ftype := FD_INODE, foffset := off, finode := ip,
                                  readable := (omode AND O_WRONLY = 0),
                                  writable := (omode AND O_WRONLY \<noteq> 0 \<or> omode AND O_RDWR \<noteq> 0)\<rparr>) s5)
                    }))
        })"

definition sys_close :: "int \<Rightarrow> sys \<Rightarrow> (int \<times> sys) option" where
  "sys_close fd s =
     (case fetch_file fd s of
        None \<Rightarrow> Some (-1, s)
      | Some f \<Rightarrow> do { s1 \<leftarrow> file_close f (s\<lparr>ofiles := (ofiles s)[nat fd := None]\<rparr>); Some (0, s1) })"

definition sys_dup :: "int \<Rightarrow> sys \<Rightarrow> (int \<times> sys) option" where
  "sys_dup fd s =
     (case fetch_file fd s of
        None \<Rightarrow> Some (-1, s)
      | Some f \<Rightarrow>
          let (newfd, s1) = fd_alloc f s in
          if newfd < 0 then Some (-1, s1)
          else do { (_, s2) \<leftarrow> file_dup f s1; Some (0, s2) })"

definition sys_mkdir :: "devio \<Rightarrow> u8 list \<Rightarrow> u8 list option \<Rightarrow> sys \<Rightarrow> (int \<times> sys) option" where
  "sys_mkdir io junk path s =
     (case path of
        None \<Rightarrow> Some (-1, s)
      | Some path \<Rightarrow> do {
          s1 \<leftarrow> on_core fs_begin_op s;
          (ip, s2) \<leftarrow> create_file io junk path INODE_DIRECTORY s1;
          (case ip of
             Some ip \<Rightarrow> do {
               s3 \<leftarrow> on_core (inode_put ip) s2;
               s4 \<leftarrow> on_core fs_end_op s3;
               Some (0, s4)
             }
           | None \<Rightarrow> do { s3 \<leftarrow> on_core fs_end_op s2; Some (-1, s3) })
        })"

text \<open>The end of \<open>sys_unlink\<close> at the label \<open>bad\<close>.\<close>

definition unlink_bad :: "nat option \<Rightarrow> nat \<Rightarrow> sys \<Rightarrow> (int \<times> sys) option" where
  "unlink_bad ip parent s = do {
     s1 \<leftarrow> (case ip of Some i \<Rightarrow> on_core (inode_unlockput i) s | None \<Rightarrow> Some s);
     s2 \<leftarrow> on_core (inode_unlockput parent) s1;
     s3 \<leftarrow> on_core fs_end_op s2;
     Some (-1, s3)
   }"

definition sys_unlink :: "devio \<Rightarrow> u8 list option \<Rightarrow> sys \<Rightarrow> (int \<times> sys) option" where
  "sys_unlink io path s =
     (case path of
        None \<Rightarrow> Some (-1, s)
      | Some path \<Rightarrow> do {
          s1 \<leftarrow> on_core fs_begin_op s;
          (parent, name, c2) \<leftarrow> path_lookup_parent io (cwd s1) path (core s1);
          let s2 = s1\<lparr>core := c2\<rparr>;
          (case parent of
             None \<Rightarrow> do { s3 \<leftarrow> on_core fs_end_op s2; Some (-1, s3) }
           | Some parent \<Rightarrow>
               if name = [46] \<or> name = [46, 46] then do { s3 \<leftarrow> on_core fs_end_op s2; Some (-1, s3) }
               else do {
                 s3 \<leftarrow> on_core (inode_lock parent) s2;
                 (found, c4) \<leftarrow> dir_lookup io parent name (core s3);
                 let s4 = s3\<lparr>core := c4\<rparr>;
                 (case found of
                    None \<Rightarrow> unlink_bad None parent s4
                  | Some (ip, offset) \<Rightarrow> do {
                      s5 \<leftarrow> on_core (inode_lock ip) s4;
                      kassert (nlink (disk_inode (inodes (core s5) ! ip)) \<ge> 1);
                      (empty, s6) \<leftarrow> (if dtype (disk_inode (inodes (core s5) ! ip)) = INODE_DIRECTORY
                                     then do { (e, c6) \<leftarrow> dir_isempty io ip (core s5); Some (e, s5\<lparr>core := c6\<rparr>) }
                                     else Some (True, s5));
                      if \<not> empty then unlink_bad (Some ip) parent s6
                      else do {
                        (r, c7) \<leftarrow> dir_unlink io parent (of_nat offset) (core s6);
                        let s7 = s6\<lparr>core := c7\<rparr>;
                        if r < 0 then unlink_bad (Some ip) parent s7
                        else do {
                          s8 \<leftarrow> (if dtype (disk_inode (inodes (core s7) ! ip)) = INODE_DIRECTORY
                                then on_core (\<lambda>c. inode_update parent (upd_dinode parent (\<lambda>di. di\<lparr>nlink := nlink di - 1\<rparr>) c)) s7
                                else Some s7);
                          s9 \<leftarrow> on_core (\<lambda>c. inode_update ip (upd_dinode ip (\<lambda>di. di\<lparr>nlink := nlink di - 1\<rparr>) c)) s8;
                          s10 \<leftarrow> on_core (inode_unlockput ip) s9;
                          s11 \<leftarrow> on_core (inode_unlockput parent) s10;
                          s12 \<leftarrow> on_core fs_end_op s11;
                          Some (0, s12)
                        }
                      }
                    })
               })
        })"

text \<open>\<open>n\<close> is the third argument as the signed number that \<open>check_ptr\<close> has accepted; \<open>ok\<close> says that it accepted it.\<close>

definition sys_read :: "devio \<Rightarrow> int \<Rightarrow> bool \<Rightarrow> u32 \<Rightarrow> sys \<Rightarrow> (int \<times> u8 list \<times> sys) option" where
  "sys_read io fd ok n s =
     (if \<not> ok then Some (-1, [], s)
      else case fetch_file fd s of
        None \<Rightarrow> Some (-1, [], s)
      | Some f \<Rightarrow> file_read io f n s)"

definition sys_write :: "devio \<Rightarrow> int \<Rightarrow> u8 list option \<Rightarrow> sys \<Rightarrow> (int \<times> sys) option" where
  "sys_write io fd src s =
     (case src of
        None \<Rightarrow> Some (-1, s)
      | Some bs \<Rightarrow> (case fetch_file fd s of
          None \<Rightarrow> Some (-1, s)
        | Some f \<Rightarrow> file_write io f bs s))"

text \<open>\<open>sys_pipe\<close>: the result and the two numbers that it stores.\<close>

definition sys_pipe :: "bool \<Rightarrow> nat option \<Rightarrow> sys \<Rightarrow> (int \<times> (int \<times> int) option \<times> sys) option" where
  "sys_pipe ok pipe s =
     (if \<not> ok then Some (-1, None, s)
      else do {
        (r, s1) \<leftarrow> pipe_alloc pipe s;
        (case r of
           None \<Rightarrow> Some (-1, None, s1)
         | Some (rfile, wfile) \<Rightarrow>
             let (rfd, s2) = fd_alloc rfile s1;
                 (wfd, s3) = (if rfd < 0 then (-1, s2) else fd_alloc wfile s2) in
             if rfd < 0 \<or> wfd < 0 then do {
               s4 \<leftarrow> file_close rfile s3;
               s5 \<leftarrow> file_close wfile s4;
               let s6 = (if rfd \<ge> 0 then s5\<lparr>ofiles := (ofiles s5)[nat rfd := None]\<rparr> else s5);
               let s7 = (if wfd \<ge> 0 then s6\<lparr>ofiles := (ofiles s6)[nat wfd := None]\<rparr> else s6);
               Some (-1, None, s7)
             } else Some (0, Some (rfd, wfd), s3))
      })"

record stat =
  st_type :: u16
  st_ino :: u32
  st_size :: u32
  st_nlink :: u16

definition inode_stat :: "inode \<Rightarrow> stat" where
  "inode_stat i = \<lparr>st_type = ucast (dtype (disk_inode i)), st_ino = inum i, st_size = dsize (disk_inode i),
     st_nlink = ucast (nlink (disk_inode i))\<rparr>"

definition sys_stat :: "devio \<Rightarrow> u8 list option \<Rightarrow> bool \<Rightarrow> sys \<Rightarrow> (int \<times> stat option \<times> sys) option" where
  "sys_stat io path ok s =
     (case path of
        None \<Rightarrow> Some (-1, None, s)
      | Some path \<Rightarrow>
          if \<not> ok then Some (-1, None, s)
          else do {
            (ip, c) \<leftarrow> path_lookup io (cwd s) path (core s);
            let s1 = s\<lparr>core := c\<rparr>;
            (case ip of
               None \<Rightarrow> Some (-1, None, s1)
             | Some ip \<Rightarrow> do {
                 s2 \<leftarrow> on_core (inode_lock ip) s1;
                 let st = inode_stat (inodes (core s2) ! ip);
                 s3 \<leftarrow> on_core (inode_unlockput ip) s2;
                 Some (0, Some st, s3)
               })
          })"

definition sys_chdir :: "devio \<Rightarrow> u8 list option \<Rightarrow> sys \<Rightarrow> (int \<times> sys) option" where
  "sys_chdir io path s =
     (case path of
        None \<Rightarrow> Some (-1, s)
      | Some path \<Rightarrow> do {
          s1 \<leftarrow> on_core fs_begin_op s;
          (new_cwd, c2) \<leftarrow> path_lookup io (cwd s1) path (core s1);
          let s2 = s1\<lparr>core := c2\<rparr>;
          (case new_cwd of
             None \<Rightarrow> do { s3 \<leftarrow> on_core fs_end_op s2; Some (-1, s3) }
           | Some nc \<Rightarrow> do {
               s3 \<leftarrow> on_core (inode_lock nc) s2;
               if dtype (disk_inode (inodes (core s3) ! nc)) \<noteq> INODE_DIRECTORY then do {
                 s4 \<leftarrow> on_core (inode_unlockput nc) s3;
                 s5 \<leftarrow> on_core fs_end_op s4;
                 Some (-1, s5)
               } else do {
                 let prev_cwd = cwd s3;
                 let s4 = s3\<lparr>core := snd (inode_dup nc (core s3)), cwd := nc\<rparr>;
                 s5 \<leftarrow> on_core (inode_unlockput nc) s4;
                 s6 \<leftarrow> on_core (inode_put prev_cwd) s5;
                 s7 \<leftarrow> on_core fs_end_op s6;
                 Some (0, s7)
               }
             })
        })"


section \<open>Descriptors and open files\<close>

text \<open>Free entries of the file table have no type; the tables have their sizes.\<close>

definition sys_ok :: "sys \<Rightarrow> bool" where
  "sys_ok s = (length (files s) = NFILES \<and> length (ofiles s) = NOFILE
     \<and> (\<forall>i < NFILES. refs (files s ! i) = 0 \<longrightarrow> ftype (files s ! i) = FD_NONE))"

text \<open>The first index below \<open>n\<close> with the property.\<close>

definition first_idx :: "nat \<Rightarrow> (nat \<Rightarrow> bool) \<Rightarrow> nat \<Rightarrow> bool" where
  "first_idx n P k = (k < n \<and> P k \<and> (\<forall>j < k. \<not> P j))"

lemma find_upt: "List.find P [0..<n] = Some k \<longleftrightarrow> first_idx n P k" "List.find P [0..<n] = None \<longleftrightarrow> (\<forall>k < n. \<not> P k)"
  unfolding find_Some_iff find_None_iff first_idx_def by auto

lemma fd_alloc_first:
  "first_idx NOFILE (\<lambda>fd. ofiles s ! fd = None) k \<Longrightarrow> fd_alloc f s = (int k, s\<lparr>ofiles := (ofiles s)[k := Some f]\<rparr>)"
  "\<forall>k < NOFILE. ofiles s ! k \<noteq> None \<Longrightarrow> fd_alloc f s = (-1, s)"
proof -
  assume "first_idx NOFILE (\<lambda>fd. ofiles s ! fd = None) k"
  then have "List.find (\<lambda>fd. ofiles s ! fd = None) [0..<NOFILE] = Some k"
    by (simp only: find_upt)
  then show "fd_alloc f s = (int k, s\<lparr>ofiles := (ofiles s)[k := Some f]\<rparr>)"
    by (simp only: fd_alloc_def option.case)
next
  assume "\<forall>k < NOFILE. ofiles s ! k \<noteq> None"
  then have "List.find (\<lambda>fd. ofiles s ! fd = None) [0..<NOFILE] = None"
    by (simp only: find_upt simp_thms)
  then show "fd_alloc f s = (-1, s)"
    by (simp only: fd_alloc_def option.case)
qed

lemma file_alloc_first:
  "first_idx NFILES (\<lambda>i. refs (files s ! i) = 0) k \<Longrightarrow> file_alloc s = (Some k, upd_file k (\<lambda>f. f\<lparr>refs := 1\<rparr>) s)"
  "\<forall>k < NFILES. refs (files s ! k) \<noteq> 0 \<Longrightarrow> file_alloc s = (None, s)"
proof -
  assume "first_idx NFILES (\<lambda>i. refs (files s ! i) = 0) k"
  then have "List.find (\<lambda>i. refs (files s ! i) = 0) [0..<NFILES] = Some k"
    by (simp only: find_upt)
  then show "file_alloc s = (Some k, upd_file k (\<lambda>f. f\<lparr>refs := 1\<rparr>) s)"
    by (simp only: file_alloc_def option.case)
next
  assume "\<forall>k < NFILES. refs (files s ! k) \<noteq> 0"
  then have "List.find (\<lambda>i. refs (files s ! i) = 0) [0..<NFILES] = None"
    by (simp only: find_upt simp_thms)
  then show "file_alloc s = (None, s)"
    by (simp only: file_alloc_def option.case)
qed

lemma first_idx_ex: "(\<exists>k. first_idx n P k) \<or> (\<forall>k < n. \<not> P k)"
  using find_upt [of P n] by (metis option.exhaust)

text \<open>
  \<open>dup\<close> and \<open>close\<close>: \<open>sys_dup\<close> of an open descriptor stores the same file under the smallest free descriptor and counts one
  more reference, and leaves every other descriptor alone; closing the new descriptor restores the whole state. (The call
  itself returns 0 and not the new descriptor.) Without a free descriptor, or for a descriptor that is not open, it
  returns \<open>-1\<close> and changes nothing.
\<close>

theorem sys_dup_close:
  assumes ok: "sys_ok s" and f: "fetch_file fd s = Some f" "f < NFILES" "1 \<le> refs (files s ! f)" "refs (files s ! f) < 4294967295"
    and k: "first_idx NOFILE (\<lambda>j. ofiles s ! j = None) k"
  shows "\<exists>s1. sys_dup fd s = Some (0, s1) \<and> fetch_file (int k) s1 = Some f \<and> refs (files s1 ! f) = refs (files s ! f) + 1
    \<and> (\<forall>j. j \<noteq> int k \<longrightarrow> fetch_file j s1 = fetch_file j s) \<and> sys_close (int k) s1 = Some (0, s)
    \<and> (\<forall>t. sys_ok t \<longrightarrow> (\<forall>j < NOFILE. ofiles t ! j \<noteq> None) \<or> fetch_file fd t = None \<longrightarrow> sys_dup fd t = Some (-1, t))"
proof -
  have l: "length (files s) = NFILES" "length (ofiles s) = NOFILE" and kk: "k < NOFILE" "ofiles s ! k = None"
    using ok k by (auto simp: sys_ok_def first_idx_def)
  let ?s = "upd_file f (\<lambda>f. f\<lparr>refs := refs f + 1\<rparr>) (s\<lparr>ofiles := (ofiles s)[k := Some f]\<rparr>)"
  have "unat (refs (files s ! f) + 1) = unat (refs (files s ! f)) + 1"
    using f(4) by (simp add: word_less_nat_alt unat_word_ariths)
  then have up: "refs (files s ! f) + 1 \<ge> 1"
    by (simp add: word_le_nat_alt)
  have d: "sys_dup fd s = Some (0, ?s)"
    using f(1,3) by (simp add: sys_dup_def fd_alloc_first(1) [OF k] file_dup_def upd_file_def)
  have get: "fetch_file (int k) ?s = Some f"
    using kk l by (simp add: fetch_file_def upd_file_def)
  have rf: "refs (files ?s ! f) = refs (files s ! f) + 1"
    using l f(2) by (simp add: upd_file_def)
  have other: "fetch_file j ?s = fetch_file j s" if "j \<noteq> int k" for j
    using that by (auto simp: fetch_file_def upd_file_def)
  have "file_close f (?s\<lparr>ofiles := (ofiles ?s)[k := None]\<rparr>) = Some s"
  proof -
    have o: "(ofiles s)[k := None] = ofiles s"
      using kk(2) by (metis list_update_id)
    have r: "(files s)[f := (files s ! f)\<lparr>refs := refs (files s ! f)\<rparr>] = files s"
      by simp
    show ?thesis
      using up f l by (auto simp: file_close_def upd_file_def o Let_def word_le_nat_alt word_less_nat_alt)
  qed
  then have "sys_close (int k) ?s = Some (0, s)"
    unfolding sys_close_def get by simp
  moreover have "sys_dup fd t = Some (-1, t)" if "(\<forall>j < NOFILE. ofiles t ! j \<noteq> None) \<or> fetch_file fd t = None" for t
    using that by (auto simp: sys_dup_def fd_alloc_first(2) split: option.splits)
  ultimately show ?thesis
    using d get rf other by blast
qed


definition sys_example :: sys where
  "sys_example = \<lparr>core = fs_example, files = file0\<lparr>refs := 1, ftype := FD_INODE, readable := True\<rparr> # replicate 49 file0,
     ofiles = Some 0 # replicate 15 None, cwd = 0, pipes = (\<lambda>_. ringbuffer_init 4096), tid = 1\<rparr>"

lemma sys_example_ok: "sys_ok sys_example" "first_idx NOFILE (\<lambda>j. ofiles sys_example ! j = None) 1"
  "first_idx NFILES (\<lambda>i. refs (files sys_example ! i) = 0) 1"
proof -
  have "refs (files sys_example ! i) = 0 \<Longrightarrow> ftype (files sys_example ! i) = FD_NONE" if "i < 50" for i
    using that by (cases i) (auto simp: sys_example_def file0_def)
  then show "sys_ok sys_example"
    by (auto simp: sys_ok_def NFILES_def NOFILE_def) (simp_all add: sys_example_def)
  show "first_idx NOFILE (\<lambda>j. ofiles sys_example ! j = None) 1" "first_idx NFILES (\<lambda>i. refs (files sys_example ! i) = 0) 1"
    by (auto simp: first_idx_def NOFILE_def NFILES_def sys_example_def file0_def)
qed

theorem sys_dup_close_witness:
  "\<exists>s1. sys_dup 0 sys_example = Some (0, s1) \<and> fetch_file 1 s1 = Some 0 \<and> sys_close 1 s1 = Some (0, sys_example)"
proof -
  have "fetch_file 0 sys_example = Some 0" "0 < NFILES" "1 \<le> refs (files sys_example ! 0)" "refs (files sys_example ! 0) < 4294967295"
    by (simp_all add: fetch_file_def NFILES_def NOFILE_def sys_example_def)
  from sys_dup_close [OF sys_example_ok(1) this sys_example_ok(2)] show ?thesis
    by auto
qed

section \<open>Pipes\<close>

lemma update_twice: "r \<noteq> w \<Longrightarrow> xs[r := x, w := y, r := u, w := v] = xs[r := u, w := v]"
  by (simp add: list_update_swap)

text \<open>Both ends allocated.\<close>

lemma two_files:
  assumes ok: "sys_ok s" and r: "first_idx NFILES (\<lambda>i. refs (files s ! i) = 0) r"
    and w: "first_idx NFILES (\<lambda>i. i \<noteq> r \<and> refs (files s ! i) = 0) w"
  shows "file_alloc s = (Some r, upd_file r (\<lambda>f. f\<lparr>refs := 1\<rparr>) s)"
    "file_alloc (upd_file r (\<lambda>f. f\<lparr>refs := 1\<rparr>) s) = (Some w, upd_file w (\<lambda>f. f\<lparr>refs := 1\<rparr>) (upd_file r (\<lambda>f. f\<lparr>refs := 1\<rparr>) s))"
    "r < NFILES" "w < NFILES" "r \<noteq> w" "refs (files s ! r) = 0" "refs (files s ! w) = 0"
proof -
  show rw: "r < NFILES" "w < NFILES" "r \<noteq> w" "refs (files s ! r) = 0" "refs (files s ! w) = 0"
    using r w by (auto simp: first_idx_def)
  have len: "length (files s) = NFILES"
    using ok by (simp add: sys_ok_def)
  show "file_alloc s = (Some r, upd_file r (\<lambda>f. f\<lparr>refs := 1\<rparr>) s)"
    by (rule file_alloc_first(1) [OF r])
  have "refs (files (upd_file r (\<lambda>f. f\<lparr>refs := 1\<rparr>) s) ! i) = 0 \<longleftrightarrow> i \<noteq> r \<and> refs (files s ! i) = 0" for i
    using len rw(1) by (cases "i = r") (simp_all add: upd_file_def)
  then have "first_idx NFILES (\<lambda>i. refs (files (upd_file r (\<lambda>f. f\<lparr>refs := 1\<rparr>) s) ! i) = 0) w"
    using w by simp
  then show "file_alloc (upd_file r (\<lambda>f. f\<lparr>refs := 1\<rparr>) s) = (Some w, upd_file w (\<lambda>f. f\<lparr>refs := 1\<rparr>) (upd_file r (\<lambda>f. f\<lparr>refs := 1\<rparr>) s))"
    by (rule file_alloc_first(1))
qed

lemma second_fd:
  assumes "sys_ok s" "first_idx NOFILE (\<lambda>j. ofiles s ! j = None) a" "first_idx NOFILE (\<lambda>j. j \<noteq> a \<and> ofiles s ! j = None) b"
  shows "first_idx NOFILE (\<lambda>j. (ofiles s)[a := Some f] ! j = None) b"
proof -
  have "(ofiles s)[a := Some f] ! j = None \<longleftrightarrow> j \<noteq> a \<and> ofiles s ! j = None" for j
    using assms(1,2) by (cases "j = a") (auto simp: sys_ok_def first_idx_def)
  then show ?thesis
    using assms(3) by simp
qed

text \<open>
  C24. Pipes through system calls: with two free files, two free descriptors and memory for the pipe, \<open>sys_pipe\<close> returns 0
  and stores the two smallest free descriptors. Up to a page of bytes written to the second with \<open>sys_write\<close> can be read from
  the first with \<open>sys_read\<close>, in order; reading the write end and writing the read end are refused.
\<close>

theorem sys_pipe_roundtrip:
  assumes ok: "sys_ok s" and r: "first_idx NFILES (\<lambda>i. refs (files s ! i) = 0) r"
    and w: "first_idx NFILES (\<lambda>i. i \<noteq> r \<and> refs (files s ! i) = 0) w"
    and a: "first_idx NOFILE (\<lambda>j. ofiles s ! j = None) a" and b: "first_idx NOFILE (\<lambda>j. j \<noteq> a \<and> ofiles s ! j = None) b"
    and bs: "length bs \<le> 4096" "k \<le> length bs"
  shows "\<exists>s1 s2 s3. sys_pipe True (Some p) s = Some (0, Some (int a, int b), s1)
    \<and> sys_write io (int b) (Some bs) s1 = Some (int (length bs), s2)
    \<and> sys_read io (int a) True (of_nat k) s2 = Some (int k, take k bs, s3)
    \<and> sys_write io (int a) (Some bs) s1 = Some (-1, s1) \<and> sys_read io (int b) True n s1 = Some (-1, [], s1)"
proof -
  note fa = two_files [OF ok r w]
  have len: "length (files s) = NFILES" "length (ofiles s) = NOFILE" and ab: "a < NOFILE" "b < NOFILE" "a \<noteq> b"
    using ok a b by (auto simp: sys_ok_def first_idx_def)
  define fr fw where "fr = (files s ! r)\<lparr>refs := 1, ftype := FD_PIPE, fpipe := p, readable := True, writable := False\<rparr>"
    and "fw = (files s ! w)\<lparr>refs := 1, ftype := FD_PIPE, fpipe := p, readable := False, writable := True\<rparr>"
  define s1 where "s1 = s\<lparr>pipes := (pipes s)(p := ringbuffer_init PG_SIZE), files := (files s)[r := fr, w := fw],
    ofiles := (ofiles s)[a := Some r, b := Some w]\<rparr>"
  have pa: "pipe_alloc (Some p) s = Some (Some (r, w), s\<lparr>pipes := (pipes s)(p := ringbuffer_init PG_SIZE), files := (files s)[r := fr, w := fw]\<rparr>)"
  proof -
    note up = update_twice [OF fa(5), of "files s"]
    show ?thesis
      unfolding pipe_alloc_def fa(1) prod.case option.case fa(2) Let_def
      using fa(3-5) len by (simp add: upd_file_def fr_def fw_def up)
  qed
  have sp: "sys_pipe True (Some p) s = Some (0, Some (int a, int b), s1)"
    unfolding sys_pipe_def pa
    using fd_alloc_first(1) [of "s\<lparr>pipes := (pipes s)(p := ringbuffer_init PG_SIZE), files := (files s)[r := fr, w := fw]\<rparr>" a r] a
      fd_alloc_first(1) [of "s\<lparr>pipes := (pipes s)(p := ringbuffer_init PG_SIZE), files := (files s)[r := fr, w := fw], ofiles := (ofiles s)[a := Some r]\<rparr>" b w]
      second_fd [OF ok a b, of r] by (simp add: s1_def)
  have get: "fetch_file (int a) s1 = Some r" "fetch_file (int b) s1 = Some w" "files s1 ! r = fr" "files s1 ! w = fw"
    "pipes s1 p = ringbuffer_init PG_SIZE"
    using ab len fa(3-5) by (simp_all add: fetch_file_def s1_def)
  have pg: "unat PG_SIZE = 4096" "0 < PG_SIZE"
    by (simp_all add: PG_SIZE_def)
  have init: "rb_size (ringbuffer_init PG_SIZE) = PG_SIZE" "\<not> rclosed (ringbuffer_init PG_SIZE)" "\<not> wclosed (ringbuffer_init PG_SIZE)"
      "ring_data (ringbuffer_init PG_SIZE) 0 = []"
    by (simp_all add: ringbuffer_init_def ring_data_def)
  obtain rb where rb: "pipe_write_loop (tid s) bs (ringbuffer_init PG_SIZE) = (length bs, True, rb)" "quiet rb (length bs)"
      "ring_data rb (length bs) = bs" "\<not> wclosed rb"
    using pipe_write_quiet [OF quiet_init [OF pg(2)], of bs "tid s"] bs(1) pg(1) init by auto
  obtain rb' where rb': "pipe_read_loop (tid s) k rb = (take k bs, True, rb')"
    using pipe_read_quiet [OF rb(2) bs(2), of "tid s"] rb(3,4) by auto
  define s2 where "s2 = s1\<lparr>pipes := (pipes s1)(p := rb)\<rparr>"
  have "sys_write io (int b) (Some bs) s1 = Some (int (length bs), s2)"
    using get rb(1) by (simp add: sys_write_def file_write_def fw_def Let_def pipe_write_def s2_def s1_def)
  moreover have "sint (of_nat k :: u32) = int k"
  proof -
    have "unat (of_nat k :: u32) = k"
      using bs by (simp add: unat_of_nat)
    then show ?thesis
      using sint_small [of "of_nat k"] bs by simp
  qed
  moreover have g2: "fetch_file (int a) s2 = Some r" "files s2 ! r = fr" "pipes s2 p = rb" "tid s2 = tid s"
  proof -
    have "fetch_file j s2 = fetch_file j s1" for j
      by (simp add: s2_def fetch_file_def)
    then show "fetch_file (int a) s2 = Some r"
      using get(1) by simp
  qed (use get(3) in \<open>simp_all add: s2_def s1_def\<close>)
  have "sys_read io (int a) True (of_nat k) s2 = Some (int k, take k bs, s2\<lparr>pipes := (pipes s2)(p := rb')\<rparr>)"
    using rb' bs(2) calculation(2) by (simp add: sys_read_def file_read_def g2 fr_def Let_def pipe_read_def min_def)
  moreover have "sys_write io (int a) (Some bs) s1 = Some (-1, s1)" "sys_read io (int b) True n s1 = Some (-1, [], s1)"
    using get by (simp_all add: sys_write_def file_write_def sys_read_def file_read_def fr_def fw_def Let_def)
  ultimately show ?thesis
    using sp by blast
qed

theorem sys_pipe_roundtrip_witness:
  "\<exists>s1 s2 s3. sys_pipe True (Some 7) sys_example = Some (0, Some (1, 2), s1)
    \<and> sys_write \<lparr>dev_read = \<lambda>_. None, dev_write = \<lambda>_. None\<rparr> 2 (Some [5, 6]) s1 = Some (2, s2)
    \<and> sys_read \<lparr>dev_read = \<lambda>_. None, dev_write = \<lambda>_. None\<rparr> 1 True 1 s2 = Some (1, [5], s3)"
proof -
  have "first_idx NFILES (\<lambda>i. i \<noteq> 1 \<and> refs (files sys_example ! i) = 0) 2" "first_idx NOFILE (\<lambda>j. j \<noteq> 1 \<and> ofiles sys_example ! j = None) 2"
    by (auto simp: first_idx_def NOFILE_def NFILES_def sys_example_def file0_def less_2_cases_iff)
  moreover have "length [5, 6 :: u8] \<le> 4096" "1 \<le> length [5, 6 :: u8]"
    by simp_all
  ultimately show ?thesis
    using sys_pipe_roundtrip [OF sys_example_ok(1,3) _ sys_example_ok(2), of 2 2 "[5, 6]" 1 7
      "\<lparr>dev_read = \<lambda>_. None, dev_write = \<lambda>_. None\<rparr>" 0] by auto
qed


lemma file_close_last:
  assumes "i < length (files s)" "refs (files s ! i) = 1" "ftype (files s ! i) \<noteq> FD_INODE"
  obtains s' where "file_close i s = Some s'" "files s' = (files s)[i := (files s ! i)\<lparr>refs := 0, ftype := FD_NONE\<rparr>]"
    "ofiles s' = ofiles s" "core s' = core s" "cwd s' = cwd s"
proof (cases "ftype (files s ! i)")
  case FD_NONE
  then show thesis
    using that assms by (auto simp: file_close_def upd_file_def Let_def)
next
  case FD_PIPE
  obtain x y rb where "pipe_close (writable (files s ! i)) (pipes s (fpipe (files s ! i))) = (x, y, rb)"
    by (cases "pipe_close (writable (files s ! i)) (pipes s (fpipe (files s ! i)))") auto
  then show thesis
    using FD_PIPE that assms by (simp add: file_close_def upd_file_def Let_def)
qed (use assms in simp)

text \<open>The two files of a pipe that could not be set up are closed again.\<close>

lemma close_two:
  assumes "sys_ok s" "r < NFILES" "w < NFILES" "r \<noteq> w" "refs (files s ! r) = 0" "refs (files s ! w) = 0"
    and "files t = (files s)[r := fr, w := fw]" "refs fr = 1" "refs fw = 1" "ftype fr \<noteq> FD_INODE" "ftype fw \<noteq> FD_INODE"
  obtains t1 t2 where "file_close r t = Some t1" "file_close w t1 = Some t2" "ofiles t2 = ofiles t" "core t2 = core t" "cwd t2 = cwd t"
    "length (files t2) = NFILES" "\<And>i. i < NFILES \<Longrightarrow> refs (files t2 ! i) = refs (files s ! i)"
    "\<And>i. i < NFILES \<Longrightarrow> refs (files t2 ! i) = 0 \<Longrightarrow> ftype (files t2 ! i) = FD_NONE"
proof -
  have len: "length (files s) = NFILES" and nt: "\<And>i. i < NFILES \<Longrightarrow> refs (files s ! i) = 0 \<Longrightarrow> ftype (files s ! i) = FD_NONE"
    using assms(1) by (auto simp: sys_ok_def)
  have r: "r < length (files t)" "refs (files t ! r) = 1" "ftype (files t ! r) \<noteq> FD_INODE" and fw: "files t ! w = fw"
    using assms(2-4,7,8,10) len by simp_all
  obtain t1 where t1: "file_close r t = Some t1" "files t1 = (files t)[r := (files t ! r)\<lparr>refs := 0, ftype := FD_NONE\<rparr>]"
      "ofiles t1 = ofiles t" "core t1 = core t" "cwd t1 = cwd t"
    by (rule file_close_last [OF r]) (rule that)
  have w: "w < length (files t1)" "refs (files t1 ! w) = 1" "ftype (files t1 ! w) \<noteq> FD_INODE"
    using assms(2-4,7,9,11) len fw t1(2) by simp_all
  obtain t2 where t2: "file_close w t1 = Some t2" "files t2 = (files t1)[w := (files t1 ! w)\<lparr>refs := 0, ftype := FD_NONE\<rparr>]"
      "ofiles t2 = ofiles t1" "core t2 = core t1" "cwd t2 = cwd t1"
    by (rule file_close_last [OF w]) (rule that)
  have l2: "length (files t2) = NFILES"
    using t2(2) t1(2) assms(7) len by simp
  have f: "files t2 ! i = (if i = w then (files t1 ! w)\<lparr>refs := 0, ftype := FD_NONE\<rparr>
      else if i = r then (files t ! r)\<lparr>refs := 0, ftype := FD_NONE\<rparr> else files s ! i)" if "i < NFILES" for i
    using that assms(2-4,7) len t1(2) t2(2) by simp
  show thesis
    by (rule that [OF t1(1) t2(1)]) (use t1 t2 l2 f nt assms(5,6) in \<open>auto split: if_splits\<close>)
qed

lemma pipe_alloc_cases:
  assumes ok: "sys_ok s"
  obtains (none) s' where "pipe_alloc pipe s = Some (None, s')" "sys_ok s'" "ofiles s' = ofiles s" "core s' = core s" "cwd s' = cwd s"
    "\<And>i. i < NFILES \<Longrightarrow> refs (files s' ! i) = refs (files s ! i)"
  | (some) r w fr fw s' where "pipe_alloc pipe s = Some (Some (r, w), s')" "r < NFILES" "w < NFILES" "r \<noteq> w" "refs (files s ! r) = 0"
    "refs (files s ! w) = 0" "files s' = (files s)[r := fr, w := fw]" "refs fr = 1" "refs fw = 1" "ftype fr = FD_PIPE" "ftype fw = FD_PIPE"
    "ofiles s' = ofiles s" "core s' = core s" "cwd s' = cwd s"
proof -
  have len: "length (files s) = NFILES" and nt: "\<And>i. i < NFILES \<Longrightarrow> refs (files s ! i) = 0 \<Longrightarrow> ftype (files s ! i) = FD_NONE"
    using ok by (auto simp: sys_ok_def)
  consider (nor) "\<forall>k < NFILES. refs (files s ! k) \<noteq> 0" | (r) r where "first_idx NFILES (\<lambda>i. refs (files s ! i) = 0) r"
    using first_idx_ex [of NFILES "\<lambda>i. refs (files s ! i) = 0"] by blast
  then show thesis
  proof cases
    case nor
    then show thesis
      using none [of s] ok by (simp add: pipe_alloc_def file_alloc_first(2))
  next
    case r
    note ar = file_alloc_first(1) [OF r]
    let ?s1 = "upd_file r (\<lambda>f. f\<lparr>refs := 1\<rparr>) s"
    have rr: "r < NFILES" "refs (files s ! r) = 0"
      using r by (auto simp: first_idx_def)
    consider (now) "\<forall>k < NFILES. \<not> (k \<noteq> r \<and> refs (files s ! k) = 0)" | (w) w where "first_idx NFILES (\<lambda>i. i \<noteq> r \<and> refs (files s ! i) = 0) w"
      using first_idx_ex [of NFILES "\<lambda>i. i \<noteq> r \<and> refs (files s ! i) = 0"] by blast
    then show thesis
    proof cases
      case now
      have "refs (files ?s1 ! k) \<noteq> 0" if "k < NFILES" for k
        using now that rr len by (cases "k = r") (auto simp: upd_file_def)
      then have aw: "file_alloc ?s1 = (None, ?s1)"
        by (simp add: file_alloc_first(2))
      have "r < length (files ?s1)" "refs (files ?s1 ! r) = 1" "ftype (files ?s1 ! r) \<noteq> FD_INODE"
        using rr len nt by (simp_all add: upd_file_def)
      then obtain s' where c: "file_close r ?s1 = Some s'" "files s' = (files ?s1)[r := (files ?s1 ! r)\<lparr>refs := 0, ftype := FD_NONE\<rparr>]"
          "ofiles s' = ofiles ?s1" "core s' = core ?s1" "cwd s' = cwd ?s1"
        by (rule file_close_last) (rule that)
      have fe: "files s' = (files s)[r := (files s ! r)\<lparr>refs := 0, ftype := FD_NONE\<rparr>]"
        using c(2) rr(1) len by (simp add: upd_file_def)
      have "refs (files s' ! i) = refs (files s ! i)" "refs (files s' ! i) = 0 \<Longrightarrow> ftype (files s' ! i) = FD_NONE" if "i < NFILES" for i
        using fe rr len nt [of i] that by (cases "i = r"; simp)+
      moreover have "length (files s') = NFILES" "length (ofiles s') = NOFILE"
        using fe len ok c(3) by (simp_all add: upd_file_def sys_ok_def)
      ultimately show thesis
        using none [of s'] c ar aw by (simp add: pipe_alloc_def sys_ok_def upd_file_def)
    next
      case w
      note fa = two_files [OF ok r w]
      let ?s2 = "upd_file w (\<lambda>f. f\<lparr>refs := 1\<rparr>) ?s1"
      have f2: "files ?s2 = (files s)[r := (files s ! r)\<lparr>refs := 1\<rparr>, w := (files s ! w)\<lparr>refs := 1\<rparr>]"
        using fa(5) by (simp add: upd_file_def)
      show thesis
      proof (cases pipe)
        case None
        obtain t1 t2 where c: "file_close r ?s2 = Some t1" "file_close w t1 = Some t2" "ofiles t2 = ofiles ?s2" "core t2 = core ?s2" "cwd t2 = cwd ?s2"
            "length (files t2) = NFILES" "\<And>i. i < NFILES \<Longrightarrow> refs (files t2 ! i) = refs (files s ! i)"
            "\<And>i. i < NFILES \<Longrightarrow> refs (files t2 ! i) = 0 \<Longrightarrow> ftype (files t2 ! i) = FD_NONE"
          by (rule close_two [OF ok fa(3-7) f2]) (use nt fa(3-7) that in auto)
        have "pipe_alloc pipe s = Some (None, t2)"
          unfolding pipe_alloc_def fa(1) prod.case option.case fa(2) None using c(1,2) by simp
        then show thesis
          using none [of t2] c ok by (simp add: sys_ok_def upd_file_def)
      next
        case (Some p)
        let ?fr = "(files s ! r)\<lparr>refs := 1, ftype := FD_PIPE, fpipe := p, readable := True, writable := False\<rparr>"
        let ?fw = "(files s ! w)\<lparr>refs := 1, ftype := FD_PIPE, fpipe := p, readable := False, writable := True\<rparr>"
        note up = update_twice [OF fa(5), of "files s"]
        have "pipe_alloc pipe s = Some (Some (r, w), s\<lparr>pipes := (pipes s)(p := ringbuffer_init PG_SIZE), files := (files s)[r := ?fr, w := ?fw]\<rparr>)"
          unfolding pipe_alloc_def fa(1) prod.case option.case fa(2) Let_def Some
          using fa(3-5) len by (simp add: upd_file_def up)
        then show thesis
          by (rule some [OF _ fa(3-7), where fr = ?fr and fw = ?fw]) simp_all
      qed
    qed
  qed
qed


text \<open>
  C25. \<open>sys_pipe\<close> never panics, and when it fails it leaves nothing behind: whether the file table, the descriptors or the memory
  for the pipe ran out, it returns \<open>-1\<close> with the descriptors, the reference counts of all files, the file system and the
  working directory as before, and the file table stays well formed.
\<close>

theorem sys_pipe_fails_cleanly:
  assumes ok: "sys_ok s"
  shows "\<exists>res fds s'. sys_pipe okptr pipe s = Some (res, fds, s') \<and> (res = 0 \<or> res = -1 \<and> fds = None \<and> sys_ok s' \<and> ofiles s' = ofiles s
    \<and> core s' = core s \<and> cwd s' = cwd s \<and> (\<forall>i < NFILES. refs (files s' ! i) = refs (files s ! i)))"
proof (cases okptr)
  case False
  then show ?thesis
    using ok by (simp add: sys_pipe_def)
next
  case True
  show ?thesis
    using ok
  proof (cases rule: pipe_alloc_cases [where pipe = pipe])
    case (none s')
    then show ?thesis
      using True by (simp add: sys_pipe_def)
  next
    case (some r w fr fw t)
    have nf: "ftype fr \<noteq> FD_INODE" "ftype fw \<noteq> FD_INODE"
      using some(10,11) by simp_all
    have lo: "length (ofiles s) = NOFILE"
      using ok by (simp add: sys_ok_def)
    have closed: "\<exists>t1 t2. file_close r t' = Some t1 \<and> file_close w t1 = Some t2 \<and> ofiles t2 = ofiles t' \<and> core t2 = core s \<and> cwd t2 = cwd s
        \<and> length (files t2) = NFILES \<and> (\<forall>i < NFILES. refs (files t2 ! i) = refs (files s ! i))
        \<and> (\<forall>i < NFILES. refs (files t2 ! i) = 0 \<longrightarrow> ftype (files t2 ! i) = FD_NONE)"
      if "files t' = files t" "core t' = core t" "cwd t' = cwd t" for t'
    proof -
      have "files t' = (files s)[r := fr, w := fw]"
        using that some(7) by simp
      from close_two [OF ok some(2-6) this some(8,9) nf] show ?thesis
        using that some(13,14) by metis
    qed
    consider (noa) "\<forall>k < NOFILE. ofiles t ! k \<noteq> None" | (a) a where "first_idx NOFILE (\<lambda>j. ofiles t ! j = None) a"
      using first_idx_ex [of NOFILE "\<lambda>j. ofiles t ! j = None"] by blast
    then show ?thesis
    proof cases
      case noa
      have "sys_pipe okptr pipe s = do { s4 \<leftarrow> file_close r t; s5 \<leftarrow> file_close w s4; Some (-1, None, s5) }"
        using True some(1) by (simp add: sys_pipe_def fd_alloc_first(2) [OF noa] Let_def)
      then show ?thesis
        using closed [of t] some(12) lo by (auto simp: sys_ok_def)
    next
      case a
      have aa: "a < NOFILE" "ofiles s ! a = None"
        using a some(12) by (auto simp: first_idx_def)
      let ?t = "t\<lparr>ofiles := (ofiles t)[a := Some r]\<rparr>"
      have keep: "(ofiles s)[a := None] = ofiles s"
        using aa(2) by (metis list_update_id)
      consider (nob) "\<forall>k < NOFILE. ofiles ?t ! k \<noteq> None" | (b) b where "first_idx NOFILE (\<lambda>j. ofiles ?t ! j = None) b"
        using first_idx_ex [of NOFILE "\<lambda>j. ofiles ?t ! j = None"] by blast
      then show ?thesis
      proof cases
        case nob
        have "sys_pipe okptr pipe s = do { s4 \<leftarrow> file_close r ?t; s5 \<leftarrow> file_close w s4;
            Some (-1, None, s5\<lparr>ofiles := (ofiles s5)[a := None]\<rparr>) }"
          using True some(1) by (simp add: sys_pipe_def fd_alloc_first(1) [OF a] fd_alloc_first(2) [OF nob] Let_def)
        then show ?thesis
          using closed [of ?t] some(12) lo keep by (auto simp: sys_ok_def)
      next
        case b
        then show ?thesis
          using True some(1) by (simp add: sys_pipe_def fd_alloc_first(1) [OF a] fd_alloc_first(1) [OF b] Let_def)
      qed
    qed
  qed
qed

theorem sys_pipe_fails_cleanly_witness:
  "\<exists>res fds s'. sys_pipe True None sys_example = Some (res, fds, s')"
  using sys_pipe_fails_cleanly [OF sys_example_ok(1), of True None] by blast

end
