(* ===== verification/Exec.thy ===== *)
theory Exec
  imports VM SysFs
begin

text \<open>
  Executing a program: \<open>kernel/proc_exec.c\<close> with the structures of \<open>kernel/elf.h\<close>.

  The state puts together the memory (theory \<open>VM\<close>), the file system (theory \<open>SysFs\<close>) and what \<open>proc_execv\<close> changes of the current task. As in theory
  \<open>VM\<close>, the stores into user pages are recorded as the calls that make them. An argument is a pointer with the string it points to. A panic is \<open>None\<close>, as is
  a copy over the end of the task's name.
\<close>

section \<open>ELF files (elf.h)\<close>

definition ET_EXEC :: u16 where "ET_EXEC = 2"
definition ELF_MAGIC :: u32 where "ELF_MAGIC = 0x464C457F"

record elfhdr =
  e_ident :: "u8 list"
  e_type :: u16
  e_machine :: u16
  e_version :: u32
  e_entry :: u32
  e_phoff :: u32
  e_shoff :: u32
  e_flags :: u32
  e_ehsize :: u16
  e_phentsize :: u16
  e_phnum :: u16
  e_shentsize :: u16
  e_shnum :: u16
  e_shstrndx :: u16

record proghdr =
  p_type :: u32
  p_offset :: u32
  p_vaddr :: u32
  p_paddr :: u32
  p_filesz :: u32
  p_memsz :: u32
  p_flags :: u32
  p_align :: u32

definition get16 :: "u8 list \<Rightarrow> nat \<Rightarrow> u16" where
  "get16 bs k = ucast (bs ! k) OR push_bit 8 (ucast (bs ! (k + 1)))"

definition get_elfhdr :: "u8 list \<Rightarrow> elfhdr" where
  "get_elfhdr bs = \<lparr>e_ident = take 16 bs, e_type = get16 bs 16, e_machine = get16 bs 18, e_version = get32 bs 5, e_entry = get32 bs 6,
     e_phoff = get32 bs 7, e_shoff = get32 bs 8, e_flags = get32 bs 9, e_ehsize = get16 bs 40, e_phentsize = get16 bs 42, e_phnum = get16 bs 44,
     e_shentsize = get16 bs 46, e_shnum = get16 bs 48, e_shstrndx = get16 bs 50\<rparr>"

definition get_proghdr :: "u8 list \<Rightarrow> proghdr" where
  "get_proghdr bs = \<lparr>p_type = get32 bs 0, p_offset = get32 bs 1, p_vaddr = get32 bs 2, p_paddr = get32 bs 3, p_filesz = get32 bs 4,
     p_memsz = get32 bs 5, p_flags = get32 bs 6, p_align = get32 bs 7\<rparr>"

section \<open>Operations\<close>

definition USER_PROG_BASE :: u32 where "USER_PROG_BASE = USER_BASE"
definition USER_PROG_TOP :: u32 where "USER_PROG_TOP = USER_HEAP_BASE"
definition TOP_USER_STACK :: u32 where "TOP_USER_STACK = USER_TOP"
definition TASK_NAME_LENGTH :: nat where "TASK_NAME_LENGTH = 32"

definition verify_elfhdr :: "elfhdr \<Rightarrow> bool" where
  "verify_elfhdr eh =
     (if get32 (e_ident eh) 0 \<noteq> ELF_MAGIC then False
      else if e_type eh \<noteq> ET_EXEC then False
      else True)"

definition verify_proghdr :: "proghdr \<Rightarrow> bool" where
  "verify_proghdr ph =
     (if p_vaddr ph + p_memsz ph < p_vaddr ph \<or> p_memsz ph < p_filesz ph then False
      else if p_vaddr ph mod PG_SIZE \<noteq> 0 then False
      else let svaddr = p_vaddr ph; evaddr = p_vaddr ph + p_memsz ph in svaddr \<ge> USER_PROG_BASE \<and> evaddr \<le> USER_PROG_TOP)"

text \<open>The stores into user pages: bytes of the file, bytes of the kernel or of the caller, zeros.\<close>

datatype user_store = Load "(u32 \<times> u32 \<times> nat) list" | Copy "u8 list" "(u32 \<times> u32 \<times> nat) list" | Clear "(u32 \<times> nat) list"

record exec =
  mem :: kalloc_state
  fsys :: fs
  tf :: trap_frame
  task_name :: "u8 list"
  curvm :: u32
  cr3 :: u32
  stores :: "user_store list"

text \<open>\<open>vm_load\<close> with the reads that it makes from inode \<open>i\<close>.\<close>

definition read_ok :: "devio \<Rightarrow> nat \<Rightarrow> fs \<Rightarrow> u32 \<Rightarrow> u32 \<Rightarrow> u32 \<Rightarrow> bool" where
  "read_ok io i s dst off sz = (case inode_read io i off sz s of None \<Rightarrow> False | Some (r, _, _) \<Rightarrow> r \<ge> 0)"

fun run_reads :: "devio \<Rightarrow> nat \<Rightarrow> (u32 \<times> u32 \<times> nat) list \<Rightarrow> fs \<Rightarrow> fs option" where
  "run_reads io i [] s = Some s"
| "run_reads io i ((dst, off, sz) # calls) s = do { (r, bs, s1) \<leftarrow> inode_read io i off (of_nat sz) s; run_reads io i calls s1 }"

definition exec_load :: "devio \<Rightarrow> nat \<Rightarrow> u32 \<Rightarrow> u32 \<Rightarrow> u32 \<Rightarrow> u32 \<Rightarrow> exec \<Rightarrow> (bool \<times> exec) option" where
  "exec_load io i vm dst off sz st = do {
     let (ok, calls) = vm_load (read_ok io i (fsys st)) (kmem (pool (mem st))) (curvm st) vm dst off sz;
     s1 \<leftarrow> run_reads io i calls (fsys st);
     Some (ok, st\<lparr>fsys := s1, stores := stores st @ [Load calls]\<rparr>)
   }"

definition exec_valloc :: "u32 \<Rightarrow> u32 \<Rightarrow> u32 \<Rightarrow> exec \<Rightarrow> (bool \<times> exec) option" where
  "exec_valloc vm vaddr pgcnt st = do {
     (ok, p) \<leftarrow> vm_valloc vm vaddr pgcnt (pool (mem st));
     Some (ok, st\<lparr>mem := (mem st)\<lparr>pool := p\<rparr>\<rparr>)
   }"

fun load_proghdrs_loop :: "devio \<Rightarrow> nat \<Rightarrow> u32 \<Rightarrow> nat \<Rightarrow> u32 \<Rightarrow> exec \<Rightarrow> (bool \<times> exec) option" where
  "load_proghdrs_loop io i vm 0 off st = Some (True, st)"
| "load_proghdrs_loop io i vm (Suc n) off st = do {
     (r, bs, s1) \<leftarrow> inode_read io i off 32 (fsys st);
     let st1 = st\<lparr>fsys := s1\<rparr>;
     if r \<noteq> 32 then Some (False, st1)
     else do {
       let ph = get_proghdr bs;
       if p_memsz ph = 0 then load_proghdrs_loop io i vm n (off + 32) st1
       else if \<not> verify_proghdr ph then Some (False, st1)
       else do {
         (ok, st2) \<leftarrow> exec_valloc vm (p_vaddr ph) (ROUND_UP (p_memsz ph) PG_SIZE) st1;
         if \<not> ok then Some (False, st2)
         else do {
           (ok, st3) \<leftarrow> exec_load io i vm (p_vaddr ph) (p_offset ph) (p_filesz ph) st2;
           if \<not> ok then Some (False, st3) else load_proghdrs_loop io i vm n (off + 32) st3
         }
       }
     }
   }"

definition load_proghdrs :: "devio \<Rightarrow> nat \<Rightarrow> u32 \<Rightarrow> elfhdr \<Rightarrow> exec \<Rightarrow> (bool \<times> exec) option" where
  "load_proghdrs io i vm eh st = load_proghdrs_loop io i vm (unat (e_phnum eh)) (e_phoff eh) st"

text \<open>
  The loop of \<open>copy_argv_into_stack\<close>; \<open>slot\<close> is the address of the variable \<open>argstr_ptr\<close>, whose bytes are copied. The result: success, the final
  \<open>argstr_ptr\<close>, the stores.
\<close>

definition le_bytes :: "u32 \<Rightarrow> u8 list" where
  "le_bytes w = [ucast w, ucast (drop_bit 8 w), ucast (drop_bit 16 w), ucast (drop_bit 24 w)]"

fun argv_loop :: "wmem \<Rightarrow> u32 \<Rightarrow> u32 \<Rightarrow> u32 \<Rightarrow> u32 \<Rightarrow> (u32 \<times> u8 list) list \<Rightarrow> bool \<times> u32 \<times> user_store list" where
  "argv_loop m vm slot argv_ptr argstr_ptr [] = (True, argstr_ptr, [])"
| "argv_loop m vm slot argv_ptr argstr_ptr ((p, arg) # args) =
     (let len = of_nat (length arg) + 1;
          str = argstr_ptr - len;
          (ok, calls) = vm_copyout m vm str p len
      in if \<not> ok then (False, str, [Copy (arg @ [0]) calls])
      else
        let (ok, calls') = vm_copyout m vm argv_ptr slot 4 in
        if \<not> ok then (False, str, [Copy (arg @ [0]) calls, Copy (le_bytes str) calls'])
        else
          let (ok, fin, w) = argv_loop m vm slot (argv_ptr + 4) str args
          in (ok, fin, Copy (arg @ [0]) calls # Copy (le_bytes str) calls' # w))"

definition copy_argv_into_stack :: "u32 \<Rightarrow> u32 \<Rightarrow> (u32 \<times> u8 list) list \<Rightarrow> exec \<Rightarrow> bool \<times> exec" where
  "copy_argv_into_stack slot vm argv st =
     (let argc = of_nat (length argv);
          argv_ptr = TOP_USER_STACK - 4 * argc;
          (ok, argstr_ptr, w) = argv_loop (kmem (pool (mem st))) vm slot argv_ptr argv_ptr argv;
          st1 = st\<lparr>stores := stores st @ w\<rparr>
      in if \<not> ok then (False, st1)
         else (True, st1\<lparr>tf := (tf st1)\<lparr>tf_ebx := argc, tf_ecx := argv_ptr, tf_user_esp := argstr_ptr\<rparr>\<rparr>))"

definition setup_ustack :: "u32 \<Rightarrow> exec \<Rightarrow> (bool \<times> exec) option" where
  "setup_ustack vm st = do {
     (ok, st1) \<leftarrow> exec_valloc vm BOTTOM_USER_STACK NPAGES_USER_STACK st;
     if \<not> ok then Some (False, st1)
     else
       let (ok, calls) = vm_setrange (kmem (pool (mem st1))) vm BOTTOM_USER_STACK (NPAGES_USER_STACK * PG_SIZE)
       in Some (ok, st1\<lparr>stores := stores st1 @ [Clear calls]\<rparr>)
   }"

definition exec_free :: "bool \<Rightarrow> u32 \<Rightarrow> u32 \<Rightarrow> exec \<Rightarrow> exec option" where
  "exec_free killed kvm vm st = do { k \<leftarrow> vm_free killed kvm (curvm st) vm (mem st); Some (st\<lparr>mem := k\<rparr>) }"

definition on_fs :: "(fs \<Rightarrow> fs option) \<Rightarrow> exec \<Rightarrow> exec option" where
  "on_fs f st = do { s \<leftarrow> f (fsys st); Some (st\<lparr>fsys := s\<rparr>) }"

text \<open>The label \<open>bad\<close>.\<close>

definition exec_bad :: "bool \<Rightarrow> u32 \<Rightarrow> nat option \<Rightarrow> u32 \<Rightarrow> exec \<Rightarrow> (int \<times> exec) option" where
  "exec_bad killed kvm ip new_vm st = do {
     st1 \<leftarrow> (case ip of None \<Rightarrow> Some st | Some i \<Rightarrow> on_fs (inode_unlockput i) st);
     st2 \<leftarrow> exec_free killed kvm new_vm st1;
     st3 \<leftarrow> on_fs fs_end_op st2;
     Some (-1, st3)
   }"

text \<open>From the label on: the program is loaded, the new address space takes the place of the old one.\<close>

definition exec_commit :: "bool \<Rightarrow> u32 \<Rightarrow> bool \<Rightarrow> u32 \<Rightarrow> (u32 \<times> u8 list) list \<Rightarrow> u32 \<Rightarrow> elfhdr \<Rightarrow> exec \<Rightarrow> (int \<times> exec) option" where
  "exec_commit killed kvm intr slot argv new_vm eh st = do {
     (ok, st1) \<leftarrow> setup_ustack new_vm st;
     if \<not> ok then do { st2 \<leftarrow> exec_free killed kvm new_vm st1; Some (-1, st2) }
     else do {
       let (ok, st2) = copy_argv_into_stack slot new_vm argv st1;
       if \<not> ok then do { st3 \<leftarrow> exec_free killed kvm new_vm st2; Some (-1, st3) }
       else do {
         kassert (argv \<noteq> [] \<and> length (snd (hd argv)) < TASK_NAME_LENGTH);
         let name = snd (hd argv);
         let older_vm = curvm st2;
         let st3 = st2\<lparr>task_name := name @ [0] @ drop (length name + 1) (task_name st2), curvm := new_vm\<rparr>;
         sw \<leftarrow> vm_switchvm intr (kmem (pool (mem st3))) older_vm new_vm;
         let st4 = (case sw of None \<Rightarrow> st3 | Some c \<Rightarrow> st3\<lparr>cr3 := c\<rparr>);
         st5 \<leftarrow> exec_free killed kvm older_vm st4;
         Some (0, st5\<lparr>tf := (tf st5)\<lparr>tf_eip := e_entry eh\<rparr>\<rparr>)
       }
     }
   }"

definition proc_execv :: "devio \<Rightarrow> bool \<Rightarrow> u32 \<Rightarrow> bool \<Rightarrow> u32 \<Rightarrow> nat \<Rightarrow> u8 list \<Rightarrow> (u32 \<times> u8 list) list \<Rightarrow> exec \<Rightarrow> (int \<times> exec) option" where
  "proc_execv io killed kvm intr slot cdir path argv st = do {
     (new_vm, k) \<leftarrow> vm_new killed kvm (curvm st) (mem st);
     let st0 = st\<lparr>mem := k\<rparr>;
     if new_vm = 0 then Some (-1, st0)
     else do {
       st1 \<leftarrow> on_fs fs_begin_op st0;
       (ip, s) \<leftarrow> path_lookup io cdir path (fsys st1);
       let st2 = st1\<lparr>fsys := s\<rparr>;
       (case ip of
          None \<Rightarrow> exec_bad killed kvm None new_vm st2
        | Some i \<Rightarrow> do {
            st3 \<leftarrow> on_fs (inode_lock i) st2;
            if dtype (disk_inode (inodes (fsys st3) ! i)) \<noteq> INODE_FILE then exec_bad killed kvm (Some i) new_vm st3
            else do {
              (r, bs, s) \<leftarrow> inode_read io i 0 52 (fsys st3);
              let st4 = st3\<lparr>fsys := s\<rparr>;
              if r \<noteq> 52 then exec_bad killed kvm (Some i) new_vm st4
              else do {
                let eh = get_elfhdr bs;
                if \<not> verify_elfhdr eh then exec_bad killed kvm (Some i) new_vm st4
                else do {
                  (ok, st5) \<leftarrow> load_proghdrs io i new_vm eh st4;
                  if \<not> ok then exec_bad killed kvm (Some i) new_vm st5
                  else do {
                    st6 \<leftarrow> on_fs (inode_unlockput i) st5;
                    st7 \<leftarrow> on_fs fs_end_op st6;
                    exec_commit killed kvm intr slot argv new_vm eh st7
                  }
                }
              }
            }
          })
     }
   }"

section \<open>Program headers\<close>

lemma PG_SIZE_mod: "(v :: u32) mod PG_SIZE = 0 \<longleftrightarrow> unat v mod 4096 = 0"
  by (simp add: PG_SIZE_def word_unat_eq_iff unat_mod)

text \<open>The pages of a program header that \<open>verify_proghdr\<close> accepts.\<close>

lemma proghdr_pages:
  assumes "verify_proghdr ph" "p_memsz ph \<noteq> 0"
  defines "n \<equiv> unat (ROUND_UP (p_memsz ph) PG_SIZE)" and "v \<equiv> unat (p_vaddr ph)"
  shows "0 < n" "unat USER_PROG_BASE \<le> v" "v + n * 4096 \<le> unat USER_PROG_TOP" "unat (p_memsz ph) \<le> n * 4096" "v mod 4096 = 0"
    "unat (p_vaddr ph + ROUND_UP (p_memsz ph) PG_SIZE * PG_SIZE) = v + n * 4096"
proof -
  let ?z = "unat (p_memsz ph)"
  have c: "\<not> p_vaddr ph + p_memsz ph < p_vaddr ph" "p_vaddr ph mod PG_SIZE = 0" "USER_PROG_BASE \<le> p_vaddr ph" "p_vaddr ph + p_memsz ph \<le> USER_PROG_TOP"
    using assms(1) by (auto simp: verify_proghdr_def Let_def split: if_splits)
  have sum: "unat (p_vaddr ph + p_memsz ph) = v + ?z"
    using c(1) unfolding v_def by (metis not_less unat_plus_simple)
  show b: "unat USER_PROG_BASE \<le> v"
    using c(3) by (simp add: v_def word_le_nat_alt)
  show al: "v mod 4096 = 0"
    using c(2) unfolding PG_SIZE_mod v_def .
  have top: "v + ?z \<le> 0x08048000"
    using c(4) sum by (simp add: word_le_nat_alt USER_PROG_TOP_def USER_HEAP_BASE_def USER_BASE_def)
  have n: "n = (?z + 4095) div 4096"
    using top unfolding n_def ROUND_UP_def by (simp add: PG_SIZE_def unat_div unat_word_ariths)
  have z: "0 < ?z"
    using assms(2) by (simp add: unat_gt_0)
  then show "0 < n"
    using n by simp
  show "?z \<le> n * 4096"
    using n by simp
  obtain q where q: "v = 4096 * q"
    using al by (metis dvdE mod_eq_0_iff_dvd)
  have "4096 * q + ?z \<le> 4096 * 0x8048"
    using top q by simp
  then have "q + n \<le> 0x8048"
    using n by simp
  then have e: "v + n * 4096 \<le> 0x08048000"
    using q by simp
  then show "v + n * 4096 \<le> unat USER_PROG_TOP"
    by (simp add: USER_PROG_TOP_def USER_HEAP_BASE_def USER_BASE_def)
  show "unat (p_vaddr ph + ROUND_UP (p_memsz ph) PG_SIZE * PG_SIZE) = v + n * 4096"
    using e by (simp add: PG_SIZE_def unat_word_ariths n_def v_def)
qed

text \<open>
  C27. A hostile executable cannot trip the assertions of \<open>vm_valloc\<close> nor reach outside the program area: for every program header that
  \<open>verify_proghdr\<close> accepts, however its fields overflow, the pages that \<open>load_proghdrs\<close> asks for are at least one, cover the segment, and lie
  between \<open>USER_PROG_BASE\<close> and \<open>USER_PROG_TOP\<close>, below the heap, the stack and the kernel; the call is then exactly that of \<open>pgdir_valloc\<close>.
\<close>

theorem proghdr_stays_in_program_area:
  assumes "verify_proghdr ph" "p_memsz ph \<noteq> 0"
  defines "n \<equiv> ROUND_UP (p_memsz ph) PG_SIZE"
  shows "0 < n \<and> USER_PROG_BASE \<le> p_vaddr ph \<and> unat (p_vaddr ph) + unat n * 4096 \<le> unat USER_PROG_TOP
    \<and> unat (p_filesz ph) \<le> unat (p_memsz ph) \<and> unat (p_memsz ph) \<le> unat n * 4096 \<and> USER_PROG_TOP < BOTTOM_USER_STACK
    \<and> vm_valloc vm (p_vaddr ph) n s = pgdir_valloc (vm_pgdir (kmem s) vm) (p_vaddr ph) n (PG_RW_RW OR PG_US_USER) s"
proof (intro conjI)
  note p = proghdr_pages [OF assms(1,2), folded n_def]
  show "0 < n" "USER_PROG_BASE \<le> p_vaddr ph" "unat (p_vaddr ph) + unat n * 4096 \<le> unat USER_PROG_TOP" "unat (p_memsz ph) \<le> unat n * 4096"
    using p(1-4) by (simp_all add: word_le_nat_alt word_less_nat_alt)
  show "unat (p_filesz ph) \<le> unat (p_memsz ph)"
    using assms(1) by (auto simp: verify_proghdr_def word_less_nat_alt not_less split: if_splits)
  show "USER_PROG_TOP < BOTTOM_USER_STACK"
    by (simp add: USER_PROG_TOP_def USER_HEAP_BASE_def USER_BASE_def BOTTOM_USER_STACK_def USER_TOP_def KERNEL_BASE_def NPAGES_USER_STACK_def PG_SIZE_def)
  have "p_vaddr ph + n * PG_SIZE > p_vaddr ph" "p_vaddr ph + n * PG_SIZE \<le> KERNEL_BASE"
    using p(1,3,6) by (simp_all add: word_less_nat_alt word_le_nat_alt USER_PROG_TOP_def USER_HEAP_BASE_def USER_BASE_def KERNEL_BASE_def)
  then show "vm_valloc vm (p_vaddr ph) n s = pgdir_valloc (vm_pgdir (kmem s) vm) (p_vaddr ph) n (PG_RW_RW OR PG_US_USER) s"
    using p(1) by (simp add: vm_valloc_def kassert_def unat_gt_0)
qed

theorem proghdr_stays_in_program_area_witness:
  "ROUND_UP 5000 PG_SIZE = 2 \<and> verify_proghdr \<lparr>p_type = 1, p_offset = 0, p_vaddr = 0x04048000, p_paddr = 0, p_filesz = 100, p_memsz = 5000, p_flags = 0, p_align = 0\<rparr>
    \<and> unat (0x04048000 :: u32) + 2 * 4096 \<le> unat USER_PROG_TOP"
proof -
  let ?ph = "\<lparr>p_type = 1, p_offset = 0, p_vaddr = 0x04048000, p_paddr = 0, p_filesz = 100, p_memsz = 5000, p_flags = 0, p_align = 0\<rparr> :: proghdr"
  have "verify_proghdr ?ph" "ROUND_UP 5000 PG_SIZE = 2"
    by code_simp+
  then show ?thesis
    using proghdr_stays_in_program_area [of ?ph] by simp
qed

text \<open>
  What \<open>verify_proghdr\<close> does not exclude are two headers with a page in common: \<open>map_page\<close> panics on a page that is already mapped.
\<close>

lemma map_mapped_page_panics:
  assumes "IS_PRESENT (kmem s (pgdir + 4 * PDE_NR v))" "IS_PRESENT (kmem s (pte_ptr (kmem s) pgdir v))"
  shows "map_page pgdir v paddr attr s = None"
  using assms by (simp add: map_page_def kassert_def Let_def)

section \<open>The process\<close>

lemma load_loop_keeps:
  "load_proghdrs_loop io i vm n off st = Some (ok, st') \<Longrightarrow> tf st' = tf st \<and> task_name st' = task_name st \<and> curvm st' = curvm st \<and> cr3 st' = cr3 st"
proof (induction n arbitrary: off st)
  case (Suc n)
  then show ?case
    by (auto simp: exec_load_def exec_valloc_def Let_def split: bind_splits if_splits prod.splits dest!: Suc.IH)
qed simp

lemma exec_parts_keep:
  "exec_free killed kvm vm st = Some st' \<Longrightarrow> tf st' = tf st \<and> task_name st' = task_name st \<and> curvm st' = curvm st \<and> cr3 st' = cr3 st"
  "on_fs f st = Some st' \<Longrightarrow> tf st' = tf st \<and> task_name st' = task_name st \<and> curvm st' = curvm st \<and> cr3 st' = cr3 st"
  "setup_ustack vm st = Some (ok, st') \<Longrightarrow> tf st' = tf st \<and> task_name st' = task_name st \<and> curvm st' = curvm st \<and> cr3 st' = cr3 st"
  "copy_argv_into_stack slot vm argv st = (False, st') \<Longrightarrow> tf st' = tf st \<and> task_name st' = task_name st \<and> curvm st' = curvm st \<and> cr3 st' = cr3 st"
  by (auto simp: exec_free_def on_fs_def setup_ustack_def exec_valloc_def copy_argv_into_stack_def Let_def split: bind_splits if_splits prod.splits)

lemma exec_bad_keeps:
  "exec_bad killed kvm ip vm st = Some (r, st') \<Longrightarrow> r = -1 \<and> tf st' = tf st \<and> task_name st' = task_name st \<and> curvm st' = curvm st \<and> cr3 st' = cr3 st"
  by (auto simp: exec_bad_def split: bind_splits option.splits dest!: exec_parts_keep(1,2))

definition new_program :: "(u32 \<times> u8 list) list \<Rightarrow> elfhdr \<Rightarrow> exec \<Rightarrow> exec \<Rightarrow> bool" where
  "new_program argv eh st st' =
     (curvm st' \<noteq> curvm st \<and> argv \<noteq> [] \<and> take (length (snd (hd argv)) + 1) (task_name st') = snd (hd argv) @ [0]
      \<and> (\<exists>esp. tf st' = (tf st)\<lparr>tf_ebx := of_nat (length argv), tf_ecx := TOP_USER_STACK - 4 * of_nat (length argv), tf_user_esp := esp, tf_eip := e_entry eh\<rparr>))"

lemma exec_free_apart: "exec_free killed kvm vm st = Some st' \<Longrightarrow> vm \<noteq> curvm st"
  by (auto simp: exec_free_def vm_free_def kassert_def split: bind_splits if_splits)

lemma copy_argv_ok:
  "copy_argv_into_stack slot vm argv st = (True, st') \<Longrightarrow> mem st' = mem st \<and> task_name st' = task_name st \<and> curvm st' = curvm st
    \<and> (\<exists>esp. tf st' = (tf st)\<lparr>tf_ebx := of_nat (length argv), tf_ecx := TOP_USER_STACK - 4 * of_nat (length argv), tf_user_esp := esp\<rparr>)"
  by (auto simp: copy_argv_into_stack_def Let_def split: if_splits prod.splits)

lemma exec_commit_outcome:
  assumes "exec_commit killed kvm intr slot argv vm eh st = Some (r, st')"
  shows "(r = -1 \<and> tf st' = tf st \<and> task_name st' = task_name st \<and> curvm st' = curvm st \<and> cr3 st' = cr3 st) \<or> (r = 0 \<and> new_program argv eh st st')"
proof -
  obtain ok st1 where u: "setup_ustack vm st = Some (ok, st1)"
    using assms by (auto simp: exec_commit_def split: bind_splits)
  note k1 = exec_parts_keep(3) [OF u]
  obtain ok2 st2 where c: "copy_argv_into_stack slot vm argv st1 = (ok2, st2)"
    by (rule prod.exhaust)
  consider "\<not> ok" | "ok" "\<not> ok2" | "ok" "ok2"
    by blast
  then show ?thesis
  proof cases
    case 1
    then show ?thesis
      using assms u k1 by (auto simp: exec_commit_def split: bind_splits dest!: exec_parts_keep(1))
  next
    case 2
    then show ?thesis
      using assms u k1 c exec_parts_keep(4) [of slot vm argv st1 st2] by (auto simp: exec_commit_def split: bind_splits dest!: exec_parts_keep(1))
  next
    case 3
    let ?name = "snd (hd argv)"
    let ?st3 = "st2\<lparr>task_name := ?name @ 0 # drop (Suc (length ?name)) (task_name st2), curvm := vm\<rparr>"
    obtain sw st5 where e: "argv \<noteq> []" "exec_free killed kvm (curvm st2) (case sw of None \<Rightarrow> ?st3 | Some c \<Rightarrow> ?st3\<lparr>cr3 := c\<rparr>) = Some st5"
        "r = 0" "st' = st5\<lparr>tf := (tf st5)\<lparr>tf_eip := e_entry eh\<rparr>\<rparr>"
      using assms u c 3 by (auto simp: exec_commit_def kassert_def Let_def split: bind_splits if_splits)
    have "curvm st2 \<noteq> vm" "curvm st5 = vm" "task_name st5 = task_name ?st3" "tf st5 = tf st2"
      using exec_free_apart [OF e(2)] exec_parts_keep(1) [OF e(2)] by (auto split: option.splits)
    moreover obtain esp where "tf st2 = (tf st1)\<lparr>tf_ebx := of_nat (length argv), tf_ecx := TOP_USER_STACK - 4 * of_nat (length argv), tf_user_esp := esp\<rparr>" "curvm st2 = curvm st1"
      using copy_argv_ok c 3(2) by metis
    ultimately show ?thesis
      using e k1 by (auto simp: new_program_def)
  qed
qed


text \<open>A state of the machine for the examples.\<close>

definition exec_example :: exec where
  "exec_example = \<lparr>mem = \<lparr>pool = pt_full, blocks = []\<rparr>, fsys = fs_example,
     tf = \<lparr>tf_edi = 0, tf_esi = 0, tf_ebp = 0, tf_esp = 0, tf_ebx = 0, tf_edx = 0, tf_ecx = 0, tf_eax = 0, tf_gs = 0, tf_fs = 0, tf_es = 0, tf_ds = 0,
       tf_intr_nr = 48, tf_errorcode = 0, tf_eip = 0x04048000, tf_cs = 0, tf_eflags = 0, tf_user_esp = 0, tf_user_ss = 0\<rparr>,
     task_name = replicate 32 0, curvm = 0x80500000, cr3 = 0, stores = []\<rparr>"


section \<open>The arguments on the stack\<close>

lemma copyout_mapped:
  assumes "\<And>k. done + k < sz \<Longrightarrow> page_frame_ptr m pgdir (dst + of_nat k) \<noteq> 0"
  shows "fst (copyout_loop m pgdir dst src sz done)"
  using assms
proof (induction m pgdir dst src sz "done" rule: copyout_loop.induct)
  case (1 m pgdir dst src sz "done")
  show ?case
  proof (cases "done < sz")
    case True
    let ?per = "min 4096 (sz - done)"
    have "page_frame_ptr m pgdir dst \<noteq> 0"
      using "1.prems" [of 0] True by simp
    moreover have "page_frame_ptr m pgdir (dst + of_nat ?per + of_nat k) \<noteq> 0" if "done + ?per + k < sz" for k
      using "1.prems" [of "?per + k"] that by (simp add: add.assoc)
    ultimately show ?thesis
      using "1.IH" [OF True refl refl] by (subst copyout_loop.simps) (auto simp: True Let_def split: prod.split)
  qed (simp add: copyout_loop.simps)
qed

lemma copyout_once:
  assumes "0 < sz" "sz \<le> 4096" "page_frame_ptr m (vm_pgdir m vm) dst \<noteq> 0"
  shows "vm_copyout m vm dst src (of_nat sz) = (True, [(page_frame_ptr m (vm_pgdir m vm) dst + of_nat (unat dst mod 4096), src, sz)])"
proof -
  have "unat (of_nat sz :: u32) = sz"
    using assms(2) by (simp add: unat_of_nat)
  then show ?thesis
    using assms by (simp add: vm_copyout_def copyout_loop.simps)
qed

text \<open>
  The layout, in numbers that do not wrap around: the pointers from \<open>q\<close> upwards, the strings from \<open>a\<close> downwards without a gap.
\<close>

fun arg_stores :: "wmem \<Rightarrow> u32 \<Rightarrow> u32 \<Rightarrow> nat \<Rightarrow> nat \<Rightarrow> (u32 \<times> u8 list) list \<Rightarrow> user_store list" where
  "arg_stores m vm slot q a [] = []"
| "arg_stores m vm slot q a ((p, arg) # args) =
     (let b = a - (length arg + 1) in
      Copy (arg @ [0]) (snd (vm_copyout m vm (of_nat b) p (of_nat (length arg + 1))))
      # Copy (le_bytes (of_nat b)) [(page_frame_ptr m (vm_pgdir m vm) (of_nat q) + of_nat (q mod 4096), slot, 4)]
      # arg_stores m vm slot (q + 4) b args)"

definition arg_bytes :: "(u32 \<times> u8 list) list \<Rightarrow> nat" where
  "arg_bytes argv = sum_list (map (\<lambda>(p, arg). length arg + 1) argv)"

definition stack_mapped :: "wmem \<Rightarrow> u32 \<Rightarrow> bool" where
  "stack_mapped m vm = (\<forall>v. BOTTOM_USER_STACK \<le> v \<longrightarrow> v < TOP_USER_STACK \<longrightarrow> page_frame_ptr m (vm_pgdir m vm) v \<noteq> 0)"

lemma stack_mappedD:
  assumes "stack_mapped m vm" "0x7FFFC000 \<le> k" "k < 0x80000000"
  shows "page_frame_ptr m (vm_pgdir m vm) (of_nat k) \<noteq> 0"
proof -
  have "unat (of_nat k :: u32) = k"
    using assms(3) by (simp add: unat_of_nat)
  then show ?thesis
    using assms by (simp add: stack_mapped_def word_le_nat_alt word_less_nat_alt BOTTOM_USER_STACK_def TOP_USER_STACK_def USER_TOP_def KERNEL_BASE_def
        NPAGES_USER_STACK_def PG_SIZE_def)
qed

lemma argv_loop_stores:
  assumes "stack_mapped m vm" "q + 4 * length argv \<le> 0x80000000" "0x7FFFC000 + arg_bytes argv \<le> a" "a \<le> q"
  shows "argv_loop m vm slot (of_nat q) (of_nat a) argv = (True, of_nat (a - arg_bytes argv), arg_stores m vm slot q a argv)"
  using assms
proof (induction argv arbitrary: q a)
  case (Cons x argv)
  obtain p arg where x: "x = (p, arg)"
    by (rule prod.exhaust)
  let ?b = "a - (length arg + 1)"
  have le: "length arg + 1 + arg_bytes argv \<le> a" "0x7FFFC000 + arg_bytes argv \<le> ?b" "?b \<le> q" "a \<le> 0x80000000"
    using Cons.prems x by (simp_all add: arg_bytes_def)
  have b: "of_nat a - (of_nat (length arg) + 1) = (of_nat ?b :: u32)"
    using le(1) by (simp add: of_nat_diff)
  have len: "unat (of_nat (length arg + 1) :: u32) = length arg + 1"
    using le(1,4) by (simp only: unat_of_nat len_of_numeral_defs) simp
  have "page_frame_ptr m (vm_pgdir m vm) (of_nat ?b + of_nat k) \<noteq> 0" if "0 + k < length arg + 1" for k
  proof -
    have "0x7FFFC000 \<le> ?b + k" "?b + k < 0x80000000"
      using that le by linarith+
    then show ?thesis
      unfolding of_nat_add [symmetric] by (rule stack_mappedD [OF Cons.prems(1)])
  qed
  then have c1: "fst (vm_copyout m vm (of_nat ?b) p (of_nat (length arg + 1)))"
    unfolding vm_copyout_def len by (rule copyout_mapped)
  have uq: "unat (of_nat q :: u32) = q"
    using Cons.prems(2) by (simp add: unat_of_nat)
  have c2: "vm_copyout m vm (of_nat q) slot 4 = (True, [(page_frame_ptr m (vm_pgdir m vm) (of_nat q) + of_nat (q mod 4096), slot, 4)])"
    using copyout_once [of 4 m vm "of_nat q" slot] stack_mappedD [OF Cons.prems(1), of q] Cons.prems(2) le uq by simp
  have ih: "argv_loop m vm slot (of_nat (q + 4)) (of_nat ?b) argv = (True, of_nat (?b - arg_bytes argv), arg_stores m vm slot (q + 4) ?b argv)"
    using Cons.IH [of "q + 4" ?b] Cons.prems le by simp
  have fin: "a - arg_bytes (x # argv) = ?b - arg_bytes argv"
    by (simp add: x arg_bytes_def)
  obtain calls where c1': "vm_copyout m vm (of_nat ?b) p (of_nat (length arg) + 1) = (True, calls)"
    using c1 by (cases "vm_copyout m vm (of_nat ?b) p (of_nat (length arg + 1))") (auto simp: add.commute)
  have q4: "of_nat (q + 4) = (of_nat q + 4 :: u32)" and l1: "of_nat (length arg + 1) = (of_nat (length arg) + 1 :: u32)"
    by simp_all
  show ?case
    unfolding x fin [unfolded x] argv_loop.simps arg_stores.simps Let_def b l1 c1' c2 prod.case ih [unfolded q4] by simp
qed (simp add: arg_bytes_def)


text \<open>A directory in which the four pages of the stack are mapped.\<close>

definition stack_example :: wmem where
  "stack_example a =
     (if a = 0x80500000 then 0x80400000
      else if a = 0x80400000 + 4 * 511 then 0x00401007
      else if a = 0x80401000 + 4 * 1020 \<or> a = 0x80401000 + 4 * 1021 \<or> a = 0x80401000 + 4 * 1022 \<or> a = 0x80401000 + 4 * 1023 then 0x00402007
      else 0)"

lemma stack_example_mapped: "stack_mapped stack_example 0x80500000"
  unfolding stack_mapped_def
proof (intro allI impI)
  fix v :: u32 assume "BOTTOM_USER_STACK \<le> v" "v < TOP_USER_STACK"
  then have v: "0x7FFFC000 \<le> unat v" "unat v < 0x80000000"
    by (simp_all add: word_le_nat_alt word_less_nat_alt BOTTOM_USER_STACK_def TOP_USER_STACK_def USER_TOP_def KERNEL_BASE_def NPAGES_USER_STACK_def PG_SIZE_def)
  have "unat (PDE_NR v) = 511"
    using v by (simp add: unat_NR)
  then have pde: "PDE_NR v = 511"
    by (simp add: word_unat_eq_iff)
  have "unat (PTE_NR v) = unat v div 4096 mod 1024"
    by (rule unat_NR)
  moreover have "unat v div 4096 mod 1024 \<in> {1020, 1021, 1022, 1023}"
  proof -
    have "524284 \<le> unat v div 4096" "unat v div 4096 < 524288"
      using v by simp_all
    then have "unat v div 4096 \<in> {524284, 524285, 524286, 524287}"
      by auto
    then show ?thesis
      by auto
  qed
  ultimately have "PTE_NR v \<in> {1020, 1021, 1022, 1023}"
    by (auto simp: word_unat_eq_iff)
  then show "page_frame_ptr stack_example (vm_pgdir stack_example 0x80500000) v \<noteq> 0"
    using pde by (auto simp: page_frame_ptr_def vm_pgdir_def stack_example_def IS_PRESENT_def PG_PRESENT_def GET_PGTAB_def ENTRY_VADDR_def KV2P_def KERNEL_BASE_def)
qed


end
