(* ===== verification/Trap.thy ===== *)
theory Trap
  imports Task VM
begin

text \<open>
  Traps and the tables of the processor: \<open>kernel/trap.c\<close>, \<open>kernel/x86_mmu.c\<close>, \<open>kernel/device/timer.c\<close>, \<open>kernel/device/iopic.c\<close>,
  \<open>kernel/syscall/syscall_init.c\<close> and the checks of \<open>syscall_pri.h\<close>.

  A handler is a function of the trap frame and the kernel state; \<open>None\<close> is a panic or a call that does not return. A trap ends with a return to the
  interrupted code or with a call of \<open>task_exit\<close>, which does not return. What is written to the ports is recorded as a list.
\<close>

section \<open>Segments (x86\_mmu.c)\<close>

definition RPL3 :: u32 where "RPL3 = 3"
definition SYS_CODE_SELECTOR :: u32 where "SYS_CODE_SELECTOR = push_bit 3 1"
definition USER_CODE_SELECTOR :: u32 where "USER_CODE_SELECTOR = push_bit 3 5 OR RPL3"
definition USER_DATA_SELECTOR :: u32 where "USER_DATA_SELECTOR = push_bit 3 6 OR RPL3"

record gdt_desc =
  limit_low :: u16
  base_low :: u16
  desc_high :: u32

definition GDT_DESC_NULL :: gdt_desc where "GDT_DESC_NULL = \<lparr>limit_low = 0, base_low = 0, desc_high = 0\<rparr>"

definition MAKE_GDT_DESC :: "u32 \<Rightarrow> u32 \<Rightarrow> u32 \<Rightarrow> gdt_desc" where
  "MAKE_GDT_DESC base_addr limit attrs =
     \<lparr>limit_low = ucast limit, base_low = ucast base_addr,
      desc_high = attrs OR (drop_bit 16 base_addr AND 0xFF) OR (limit AND 0x000F0000) OR (base_addr AND 0xFF000000)\<rparr>"

definition gdt_attr :: "u32 \<Rightarrow> u32 \<Rightarrow> u32 \<Rightarrow> u32" where
  "gdt_attr g dpl ty = push_bit 23 g OR push_bit 22 1 OR push_bit 15 1 OR push_bit 13 dpl OR push_bit 12 1 OR push_bit 8 ty"

definition GDT_ATTR_SYS_CODE :: u32 where "GDT_ATTR_SYS_CODE = gdt_attr 1 0 8"
definition GDT_ATTR_SYS_DATA :: u32 where "GDT_ATTR_SYS_DATA = gdt_attr 1 0 2"
definition GDT_ATTR_USER_CODE :: u32 where "GDT_ATTR_USER_CODE = gdt_attr 1 3 8"
definition GDT_ATTR_USER_DATA :: u32 where "GDT_ATTR_USER_DATA = gdt_attr 1 3 2"
definition GDT_ATTR_BYTE_DATA :: u32 where "GDT_ATTR_BYTE_DATA = gdt_attr 0 0 2"
definition GDT_ATTR_TSS :: u32 where "GDT_ATTR_TSS = push_bit 15 1 OR push_bit 8 9"

text \<open>The table after \<open>mmu_init\<close>; \<open>tss\<close> is the address of the task state segment of 104 bytes.\<close>

definition gdt_table :: "gdt_desc list" where
  "gdt_table = [GDT_DESC_NULL, MAKE_GDT_DESC 0 0xFFFFF GDT_ATTR_SYS_CODE, MAKE_GDT_DESC 0 0xFFFFF GDT_ATTR_SYS_DATA,
     MAKE_GDT_DESC 0x800B8000 0xFFFFF GDT_ATTR_BYTE_DATA, GDT_DESC_NULL, MAKE_GDT_DESC 0 0xFFFFF GDT_ATTR_USER_CODE,
     MAKE_GDT_DESC 0 0xFFFFF GDT_ATTR_USER_DATA]"

definition mmu_init :: "u32 \<Rightarrow> gdt_desc list" where
  "mmu_init tss = gdt_table[4 := MAKE_GDT_DESC tss 104 GDT_ATTR_TSS]"

section \<open>Interrupt gates and handlers (trap.c)\<close>

definition IDT_VECTORS_NR :: nat where "IDT_VECTORS_NR = 256"
definition IRQ_START_VEC_NR :: nat where "IRQ_START_VEC_NR = 0x20"
definition IDT_DESC_ATTR_DPL_KERNEL :: u16 where "IDT_DESC_ATTR_DPL_KERNEL = push_bit 15 1 OR push_bit 8 0b1110"
definition IDT_DESC_ATTR_DPL_USER :: u16 where "IDT_DESC_ATTR_DPL_USER = push_bit 15 1 OR push_bit 13 3 OR push_bit 8 0b1110"

record intr_gate_desc =
  entry_offset_low :: u16
  entry_cs :: u16
  gate_attrs :: u16
  entry_offset_high :: u16

definition SETUP_IGATE :: "u32 \<Rightarrow> u16 \<Rightarrow> intr_gate_desc" where
  "SETUP_IGATE vec_entry attrs =
     \<lparr>entry_offset_low = ucast (vec_entry AND 0x0000FFFF), entry_cs = ucast SYS_CODE_SELECTOR, gate_attrs = attrs,
      entry_offset_high = ucast (drop_bit 16 vec_entry)\<rparr>"

type_synonym intr_handler_fn = "trap_frame \<Rightarrow> kstate \<Rightarrow> (trap_frame \<times> kstate) option"

record traps =
  idt :: "intr_gate_desc list"
  intr_handler_table :: "intr_handler_fn option list"

datatype trap_out = Back trap_frame kstate | TaskExit int kstate

definition general_trap :: "traps \<Rightarrow> trap_frame \<Rightarrow> kstate \<Rightarrow> trap_out option" where
  "general_trap tr tf s =
     (case intr_handler_table tr ! unat (tf_intr_nr tf) of
        None \<Rightarrow> None
      | Some handler \<Rightarrow> do {
          (tf1, s1) \<leftarrow> handler tf s;
          if t_killed (tasks s1 (current_task s1)) \<and> tf_cs tf1 AND 3 = RPL3 then Some (TaskExit KILLED_TASK_EXITSTATUS s1)
          else Some (Back tf1 s1)
        })"

definition exception_handler :: intr_handler_fn where
  "exception_handler tf s =
     (if tf_cs tf AND 3 = 0 then None
      else Some (tf, upd_task (current_task s) (\<lambda>t. t\<lparr>t_killed := True\<rparr>) s))"

definition setup_irq_handler :: "nat \<Rightarrow> intr_handler_fn \<Rightarrow> traps \<Rightarrow> traps" where
  "setup_irq_handler irq_nr fn tr = tr\<lparr>intr_handler_table := (intr_handler_table tr)[IRQ_START_VEC_NR + irq_nr := Some fn]\<rparr>"

definition setup_intr_handler :: "u32 list \<Rightarrow> nat \<Rightarrow> bool \<Rightarrow> intr_handler_fn \<Rightarrow> traps \<Rightarrow> traps" where
  "setup_intr_handler vectors nr user handler tr =
     tr\<lparr>intr_handler_table := (intr_handler_table tr)[nr := Some handler],
        idt := (idt tr)[nr := SETUP_IGATE (vectors ! nr) (if user then IDT_DESC_ATTR_DPL_USER else IDT_DESC_ATTR_DPL_KERNEL)]\<rparr>"

definition trap_init :: "u32 list \<Rightarrow> traps" where
  "trap_init vectors =
     \<lparr>idt = map (\<lambda>i. SETUP_IGATE (vectors ! i) IDT_DESC_ATTR_DPL_KERNEL) [0..<IDT_VECTORS_NR],
      intr_handler_table = map (\<lambda>i. if i < 20 then Some exception_handler else None) [0..<IDT_VECTORS_NR]\<rparr>"

section \<open>Timer and interrupt controller\<close>

definition timer_interrupt :: "schedular \<Rightarrow> u32 \<Rightarrow> kstate \<Rightarrow> (u32 \<times> kstate) option" where
  "timer_interrupt sch ticks s = do { s1 \<leftarrow> timeslice_check sch s; Some (ticks + 1000 div 1000, s1) }"

definition setup_irq0_frequence :: "(u16 \<times> u8) list" where
  "setup_irq0_frequence =
     (let val = of_nat (1193180 div 1000) :: u16 in
      [(0x43, push_bit 6 0 OR push_bit 4 0b10 OR push_bit 1 0b010 OR 0), (0x40, ucast val), (0x40, ucast (drop_bit 8 val))])"

definition iopic_init :: "(u16 \<times> u8) list" where
  "iopic_init = [(0x20, 0b00010001), (0x21, 0x20), (0x21, 0b00000100), (0x21, 0b00000001),
     (0xa0, 0b00010001), (0xa1, 0x28), (0xa1, 0b00000010), (0xa1, 0b00000001), (0x21, 0b11111011), (0xa1, 0b11111101)]"

text \<open>\<open>enable_irq\<close>: the port and the mask that is written to it, from the masks that are read.\<close>

definition enable_irq :: "u16 \<Rightarrow> u8 \<Rightarrow> u8 \<Rightarrow> u16 \<times> u8" where
  "enable_irq irq main_mask slave_mask =
     (if irq < 8 then (0x21, main_mask AND NOT (push_bit (unat irq) 1)) else (0xa1, slave_mask AND NOT (push_bit (unat (irq - 8)) 1)))"

section \<open>System calls (syscall\_init.c, syscall\_pri.h)\<close>

text \<open>A system call gives the value for \<open>eax\<close> beside the frame, which \<open>execv\<close> changes.\<close>

type_synonym syscall_fn = "trap_frame \<Rightarrow> kstate \<Rightarrow> (u32 \<times> trap_frame \<times> kstate) option"

definition sys_call :: "syscall_fn list \<Rightarrow> u32 \<Rightarrow> trap_frame \<Rightarrow> kstate \<Rightarrow> trap_out option" where
  "sys_call syscalls frame tf s =
     (let t = current_task s; s = upd_task t (\<lambda>k. k\<lparr>t_tf := frame\<rparr>) s in
      if t_killed (tasks s t) then Some (TaskExit KILLED_TASK_EXITSTATUS s)
      else do {
        (tf1, s1) \<leftarrow> (if unat (tf_eax tf) < length syscalls then do {
              (v, tf1, s1) \<leftarrow> (syscalls ! unat (tf_eax tf)) tf s;
              Some (tf1\<lparr>tf_eax := v\<rparr>, s1)
            } else Some (tf, upd_task t (\<lambda>k. k\<lparr>t_killed := True\<rparr>) s));
        if t_killed (tasks s1 t) then Some (TaskExit KILLED_TASK_EXITSTATUS s1) else Some (Back tf1 s1)
      })"

definition check_ptr :: "u32 \<Rightarrow> int \<Rightarrow> u32" where
  "check_ptr ptr sz = (if sz < 0 then 0 else if ptr \<ge> USER_BASE \<and> ptr + of_int sz \<le> USER_TOP then ptr else 0)"

definition check_str :: "(u32 \<Rightarrow> u8) \<Rightarrow> u32 \<Rightarrow> u32" where
  "check_str m ptr =
     (if ptr < USER_BASE \<or> ptr \<ge> USER_TOP then ptr
      else if \<exists>k \<in> {0..<unat (USER_TOP - ptr)}. m (ptr + of_nat k) = 0 then ptr else 0)"

section \<open>How the processor reads the tables\<close>

definition desc_base :: "gdt_desc \<Rightarrow> u32" where
  "desc_base d = ucast (base_low d) OR push_bit 16 (desc_high d AND 0xFF) OR (desc_high d AND 0xFF000000)"

definition desc_limit :: "gdt_desc \<Rightarrow> u32" where
  "desc_limit d = ucast (limit_low d) OR (desc_high d AND 0x000F0000)"

definition desc_attrs :: "gdt_desc \<Rightarrow> u32" where
  "desc_attrs d = desc_high d AND 0x00F0FF00"

definition desc_dpl :: "gdt_desc \<Rightarrow> u32" where
  "desc_dpl d = drop_bit 13 (desc_high d) AND 3"

definition gate_offset :: "intr_gate_desc \<Rightarrow> u32" where
  "gate_offset g = ucast (entry_offset_low g) OR push_bit 16 (ucast (entry_offset_high g))"

definition gate_dpl :: "intr_gate_desc \<Rightarrow> u16" where
  "gate_dpl g = drop_bit 13 (gate_attrs g) AND 3"

lemma u32_eqI:
  fixes x y :: u32
  assumes "bit x 0 = bit y 0 \<and> bit x 1 = bit y 1 \<and> list_all (\<lambda>n. bit x n = bit y n) [2..<32]"
  shows "x = y"
proof (rule bit_word_eqI)
  fix n assume "n < LENGTH(32)"
  then have "n = 0 \<or> n = 1 \<or> n \<in> set [2..<32]"
    unfolding set_upt by (simp; linarith)
  then show "bit x n = bit y n"
    using assms unfolding list_all_iff by blast
qed

lemmas table_bits = upt_rec_numeral bit_or_iff bit_and_iff bit_push_bit_iff bit_drop_bit_eq bit_ucast_iff

lemma desc_decode:
  assumes "limit AND 0xFFFFF = limit" "attrs AND 0x00F0FF00 = attrs"
  shows "desc_base (MAKE_GDT_DESC b limit attrs) = b" "desc_limit (MAKE_GDT_DESC b limit attrs) = limit" "desc_attrs (MAKE_GDT_DESC b limit attrs) = attrs"
proof -
  have l: "\<not> bit (0xFFFFF :: u32) n \<Longrightarrow> \<not> bit limit n" and a: "\<not> bit (0x00F0FF00 :: u32) n \<Longrightarrow> \<not> bit attrs n" for n
    using assms by (metis bit_and_iff)+
  show "desc_base (MAKE_GDT_DESC b limit attrs) = b"
    by (rule u32_eqI) (simp add: table_bits desc_base_def MAKE_GDT_DESC_def l a)
  show "desc_limit (MAKE_GDT_DESC b limit attrs) = limit"
    by (rule u32_eqI) (simp add: table_bits desc_limit_def MAKE_GDT_DESC_def l a)
  show "desc_attrs (MAKE_GDT_DESC b limit attrs) = attrs"
    by (rule u32_eqI) (simp add: table_bits desc_attrs_def MAKE_GDT_DESC_def l a)
qed

lemma gate_decode: "gate_offset (SETUP_IGATE e attrs) = e"
  by (rule u32_eqI) (simp add: table_bits gate_offset_def SETUP_IGATE_def)

section \<open>Properties\<close>

text \<open>
  C37. The descriptors that \<open>MAKE_GDT_DESC\<close> and \<open>SETUP_IGATE\<close> pack are read back by the processor as they were meant: base address, limit of twenty
  bits and attributes, and the address of the interrupt's entry. In the table of \<open>mmu_init\<close> the privilege of each segment is that of its selectors, and
  after \<open>setup_intr_handler\<close> exactly the gates made for user programs can be entered from them.
\<close>

theorem descriptors_decode:
  assumes "limit AND 0xFFFFF = limit" "attrs AND 0x00F0FF00 = attrs"
  shows "desc_base (MAKE_GDT_DESC base limit attrs) = base \<and> desc_limit (MAKE_GDT_DESC base limit attrs) = limit
    \<and> desc_attrs (MAKE_GDT_DESC base limit attrs) = attrs \<and> gate_offset (SETUP_IGATE e gattrs) = e
    \<and> map desc_dpl (mmu_init tss) = [0, 0, 0, 0, 0, 3, 3]
    \<and> desc_base (mmu_init tss ! 4) = tss \<and> desc_limit (mmu_init tss ! 4) = 104
    \<and> gate_dpl (SETUP_IGATE e IDT_DESC_ATTR_DPL_USER) = 3 \<and> gate_dpl (SETUP_IGATE e IDT_DESC_ATTR_DPL_KERNEL) = 0"
proof -
  have tss: "(104 :: u32) AND 0xFFFFF = 104" "GDT_ATTR_TSS AND 0x00F0FF00 = GDT_ATTR_TSS"
    by code_simp+
  have at: "desc_attrs (MAKE_GDT_DESC tss 104 GDT_ATTR_TSS) = GDT_ATTR_TSS"
    by (rule desc_decode(3) [OF tss])
  have dpl: "desc_dpl d = drop_bit 13 (desc_attrs d) AND 3" for d
    by (rule u32_eqI) (simp add: table_bits desc_dpl_def desc_attrs_def)
  have "desc_dpl (MAKE_GDT_DESC tss 104 GDT_ATTR_TSS) = 0"
    unfolding dpl at by (simp add: GDT_ATTR_TSS_def)
  moreover have "map desc_dpl gdt_table = [0, 0, 0, 0, 0, 3, 3]"
    by code_simp
  ultimately have "map desc_dpl (mmu_init tss) = [0, 0, 0, 0, 0, 3, 3]"
    by (simp add: mmu_init_def map_update)
  moreover have "mmu_init tss ! 4 = MAKE_GDT_DESC tss 104 GDT_ATTR_TSS"
    by (simp add: mmu_init_def gdt_table_def)
  moreover have "gate_dpl (SETUP_IGATE e IDT_DESC_ATTR_DPL_USER) = 3" "gate_dpl (SETUP_IGATE e IDT_DESC_ATTR_DPL_KERNEL) = 0"
    by (simp_all add: gate_dpl_def SETUP_IGATE_def IDT_DESC_ATTR_DPL_USER_def IDT_DESC_ATTR_DPL_KERNEL_def)
  ultimately show ?thesis
    using desc_decode [OF assms, of base] desc_decode(1,2) [OF tss, of tss] gate_decode [of e gattrs] by simp
qed

theorem descriptors_decode_witness:
  "desc_base (MAKE_GDT_DESC 0x800B8000 0xFFFFF GDT_ATTR_BYTE_DATA) = 0x800B8000 \<and> desc_limit (MAKE_GDT_DESC 0x800B8000 0xFFFFF GDT_ATTR_BYTE_DATA) = 0xFFFFF
    \<and> desc_dpl (mmu_init 0x80012340 ! 5) = 3"
proof -
  have a: "(0xFFFFF :: u32) AND 0xFFFFF = 0xFFFFF" "GDT_ATTR_BYTE_DATA AND 0x00F0FF00 = GDT_ATTR_BYTE_DATA"
    by code_simp+
  have "map desc_dpl (mmu_init 0x80012340) ! 5 = 3"
    using descriptors_decode [OF a, of "0x800B8000" 0 0 "0x80012340"] by simp
  moreover have "5 < length (mmu_init 0x80012340)"
    by (simp add: mmu_init_def gdt_table_def)
  ultimately show ?thesis
    using descriptors_decode [OF a, of "0x800B8000" 0 0 0] by simp
qed

text \<open>
  C21. A killed task does not get back to its user program. Whatever the handler of the trap did, \<open>general_trap\<close> returns to code of ring 3 only when the
  current task is not killed, and otherwise calls \<open>task_exit\<close>; \<open>sys_call\<close> returns only when the calling task is not killed, whatever system call it
  made, and an unknown number kills the task. An exception of a user program kills that task and no other, one in the kernel is a panic.
\<close>

theorem killed_task_does_not_return:
  "(general_trap tr tf s = Some (Back tf' s') \<longrightarrow> tf_cs tf' AND 3 = RPL3 \<longrightarrow> \<not> t_killed (tasks s' (current_task s')))
    \<and> (sys_call syscalls frame tf s = Some (Back tf' s') \<longrightarrow> \<not> t_killed (tasks s' (current_task s)) \<and> \<not> t_killed (tasks s (current_task s))
         \<and> unat (tf_eax tf) < length syscalls)
    \<and> (t_killed (tasks s (current_task s)) \<or> length syscalls \<le> unat (tf_eax tf) \<longrightarrow> (\<exists>s1. sys_call syscalls frame tf s = Some (TaskExit KILLED_TASK_EXITSTATUS s1)))
    \<and> (tf_cs tf AND 3 = 0 \<longrightarrow> exception_handler tf s = None)
    \<and> (tf_cs tf AND 3 \<noteq> 0 \<longrightarrow> (\<exists>s1. exception_handler tf s = Some (tf, s1) \<and> t_killed (tasks s1 (current_task s))
         \<and> (\<forall>t. t \<noteq> current_task s \<longrightarrow> tasks s1 t = tasks s t)))"
proof (intro conjI)
  show "general_trap tr tf s = Some (Back tf' s') \<longrightarrow> tf_cs tf' AND 3 = RPL3 \<longrightarrow> \<not> t_killed (tasks s' (current_task s'))"
    by (auto simp: general_trap_def split: option.splits bind_splits if_splits)
  show "sys_call syscalls frame tf s = Some (Back tf' s') \<longrightarrow> \<not> t_killed (tasks s' (current_task s)) \<and> \<not> t_killed (tasks s (current_task s))
         \<and> unat (tf_eax tf) < length syscalls"
    by (auto simp: sys_call_def upd_task_def Let_def split: bind_splits if_splits)
  show "t_killed (tasks s (current_task s)) \<or> length syscalls \<le> unat (tf_eax tf) \<longrightarrow> (\<exists>s1. sys_call syscalls frame tf s = Some (TaskExit KILLED_TASK_EXITSTATUS s1))"
    by (auto simp: sys_call_def upd_task_def Let_def)
qed (auto simp: exception_handler_def upd_task_def)

definition frame_example :: trap_frame where
  "frame_example = \<lparr>tf_edi = 0, tf_esi = 0, tf_ebp = 0, tf_esp = 0, tf_ebx = 0, tf_edx = 0, tf_ecx = 0, tf_eax = 17, tf_gs = 0, tf_fs = 0, tf_es = 0, tf_ds = 0,
     tf_intr_nr = 14, tf_errorcode = 0, tf_eip = 0x04048000, tf_cs = USER_CODE_SELECTOR, tf_eflags = 0, tf_user_esp = 0, tf_user_ss = 0\<rparr>"

theorem killed_task_does_not_return_witness:
  "(\<exists>s1. exception_handler frame_example demo_proc = Some (frame_example, s1) \<and> t_killed (tasks s1 1))
    \<and> (\<exists>s1. sys_call (replicate 17 (\<lambda>tf s. Some (0, tf, s))) 0 frame_example demo_proc = Some (TaskExit KILLED_TASK_EXITSTATUS s1))"
  using killed_task_does_not_return [of "trap_init (replicate 256 0)" frame_example demo_proc frame_example demo_proc "replicate 17 (\<lambda>tf s. Some (0, tf, s))" 0]
  by (auto simp: frame_example_def USER_CODE_SELECTOR_def RPL3_def demo_proc_sel)

text \<open>
  \<open>check_ptr\<close> adds without a test for overflow: a range at the end of the kernel's memory that wraps around is accepted, and \<open>check_str\<close> returns a kernel
  pointer where it should refuse it.
\<close>

lemma check_ptr_wraps: "check_ptr 0xFFFFF000 0x2000 = 0xFFFFF000"
  by (simp add: check_ptr_def USER_BASE_def USER_TOP_def KERNEL_BASE_def)

lemma check_str_kernel: "KERNEL_BASE \<le> p \<Longrightarrow> check_str m p = p"
  by (simp add: check_str_def USER_TOP_def)

text \<open>Apart from that, an accepted range lies in the user area.\<close>

lemma check_ptr_range:
  assumes "check_ptr p sz = p" "p \<noteq> 0" "unat p + nat sz < 2 ^ 32"
  shows "unat USER_BASE \<le> unat p" "unat p + nat sz \<le> unat USER_TOP" "0 \<le> sz"
proof -
  have c: "0 \<le> sz" "USER_BASE \<le> p" "p + of_int sz \<le> USER_TOP"
    using assms(1,2) by (auto simp: check_ptr_def split: if_splits)
  then obtain k where k: "sz = int k"
    by (metis nonneg_int_cases)
  have "unat (p + of_nat k) = unat p + k"
    using assms(3) k by (simp add: unat_word_ariths unat_of_nat)
  then show "unat USER_BASE \<le> unat p" "unat p + nat sz \<le> unat USER_TOP" "0 \<le> sz"
    using c k by (simp_all add: word_le_nat_alt)
qed

text \<open>The bytes for the timer: with the access mode \<open>0b10\<close> both are taken as the high byte of the counter.\<close>

lemma timer_bytes: "setup_irq0_frequence = [(0x43, 0x24), (0x40, 0xA9), (0x40, 0x04)]"
  by (simp add: setup_irq0_frequence_def)

end
