(* ===== verification/ShLex.thy ===== *)
theory ShLex
  imports Prelude
begin

text \<open>
  The shell's input and its lexer: \<open>shell/sh/sh_scanner.c\<close> and the second half of \<open>shell/sh/sh_parser.c\<close>.

  Text is a list of bytes without the terminating zero. The lexer works on the rest of the command line (\<open>sh->p\<close>); a
  token keeps the text it starts at and its length, as in the code. The input stream is the list of the characters
  that \<open>getc\<close> has still to deliver; at its end \<open>getc\<close> returns \<open>-1\<close>.
\<close>

section \<open>Characters\<close>

abbreviation BSL :: u8 where "BSL \<equiv> 92"
abbreviation NL :: u8 where "NL \<equiv> 10"
abbreviation DQ :: u8 where "DQ \<equiv> 34"
abbreviation SQ :: u8 where "SQ \<equiv> 39"
abbreviation SP :: u8 where "SP \<equiv> 32"

text \<open>The arrays \<open>symbol\<close> and \<open>whitespace\<close>.\<close>

definition is_symbol :: "u8 \<Rightarrow> bool" where
  "is_symbol c = (c \<in> {60, 62, 38, 124, 59, 40, 41})"

definition is_whitespace :: "u8 \<Rightarrow> bool" where
  "is_whitespace c = (c \<in> {32, 10, 13, 9, 12})"

section \<open>Reading a command into the buffer (sh_scanner.c)\<close>

text \<open>
  The stream, the flags of \<open>struct shell_ex\<close> and \<open>struct sh_scanner\<close>: \<open>sbuf\<close> is the text written up to \<open>scanner->p\<close>,
  \<open>adv\<close> the character read in advance.
\<close>

record scan_state =
  instream :: "u8 list"
  eof :: bool
  lineno :: nat
  sbuf :: "u8 list"
  adv :: "u8 option"

text \<open>
  \<open>getc\<close> returns a signed \<open>char\<close>, so a zero byte and every byte from 128 on is taken for the end of the stream.
\<close>

definition get_char :: "scan_state \<Rightarrow> u8 option \<times> scan_state" where
  "get_char s =
     (case instream s of
        [] \<Rightarrow> (None, s\<lparr>eof := True\<rparr>)
      | c # cs \<Rightarrow> (if sint c \<le> 0 then (None, s\<lparr>instream := cs, eof := True\<rparr>)
                  else (Some c, s\<lparr>instream := cs, lineno := lineno s + (if c = NL then 1 else 0)\<rparr>)))"

lemma get_char_shorter: "get_char s = (Some c, s') \<Longrightarrow> length (instream s') < length (instream s)"
  by (auto simp: get_char_def split: list.splits if_splits)

text \<open>
  \<open>read_char\<close> with its recursion over line continuations; \<open>None\<close> for a value that is not a character, which comes
  with \<open>eof\<close> set.
\<close>

function read_char :: "scan_state \<Rightarrow> u8 option \<times> scan_state" where
  "read_char s =
     (if eof s then (None, s)
      else case adv s of
        Some c \<Rightarrow> (Some c, s\<lparr>sbuf := sbuf s @ [c], adv := None\<rparr>)
      | None \<Rightarrow>
          (case get_char s of
             (None, s1) \<Rightarrow> (None, s1)
           | (Some c, s1) \<Rightarrow>
               if c = BSL then
                 (case get_char s1 of
                    (None, s2) \<Rightarrow> (Some BSL, s2\<lparr>sbuf := sbuf s2 @ [BSL]\<rparr>)
                  | (Some d, s2) \<Rightarrow>
                      if d = NL then read_char s2
                      else (Some BSL, s2\<lparr>sbuf := sbuf s2 @ [BSL], adv := Some d\<rparr>))
               else (Some c, s1\<lparr>sbuf := sbuf s1 @ [c]\<rparr>)))"
  by pat_completeness auto
termination
  by (relation "measure (\<lambda>s. length (instream s))") (auto dest!: get_char_shorter [OF sym])

declare read_char.simps [simp del]

text \<open>\<open>read_string\<close> of the scanner: \<open>False\<close> for an unterminated quote.\<close>

partial_function (option) scan_string :: "u8 \<Rightarrow> scan_state \<Rightarrow> (bool \<times> scan_state) option" where
  "scan_string quote s =
     (let (ch, s1) = read_char s in
      if eof s1 then Some (False, s1)
      else if ch = Some quote then Some (True, s1)
      else if quote = DQ \<and> ch = Some BSL then scan_string quote (snd (read_char s1))
      else scan_string quote s1)"

partial_function (option) scan_loop :: "scan_state \<Rightarrow> (bool \<times> scan_state) option" where
  "scan_loop s =
     (let (ch, s1) = read_char s in
      if eof s1 \<or> ch = Some NL then Some (True, s1)
      else if ch = Some SQ \<or> ch = Some DQ then
        Option.bind (scan_string (the ch) s1) (\<lambda>r. if fst r then scan_loop (snd r) else Some (False, snd r))
      else scan_loop s1)"

text \<open>
  \<open>sh_read_to_buf\<close>: the code it returns; the command line is \<open>sbuf\<close>. The code does not check that the text fits into the buffer; a
  longer text is undefined behaviour (\<open>None\<close>).
\<close>

definition LINE_BUF_SIZE :: nat where "LINE_BUF_SIZE = 2048"

definition sh_read_to_buf :: "scan_state \<Rightarrow> (int \<times> scan_state) option" where
  "sh_read_to_buf s =
     Option.bind (scan_loop (s\<lparr>sbuf := [], adv := None\<rparr>)) (\<lambda>(ok, s1).
       if length (sbuf s1) \<ge> LINE_BUF_SIZE then None
       else if \<not> ok then Some (1, s1)
       else if sbuf s1 = [] \<and> eof s1 then Some (0, s1)
       else Some (-1, s1))"

section \<open>Tokens (sh_parser.c)\<close>

datatype token_type = TOKEN_EOF | TOKEN_GT | TOKEN_GTGT | TOKEN_LT | TOKEN_LPAREN | TOKEN_RPAREN | TOKEN_SEMI
  | TOKEN_BACK | TOKEN_AND | TOKEN_PIPE | TOKEN_OR | TOKEN_STRING

record token =
  ttype :: token_type
  tp :: "u8 list"
  tlen :: int

definition skip_whitespace :: "u8 list \<Rightarrow> u8 list" where
  "skip_whitespace p = dropWhile is_whitespace p"

text \<open>The two string readers return the pointer behind the string.\<close>

fun read_string :: "u8 list \<Rightarrow> u8 list" where
  "read_string [] = []"
| "read_string (c # cs) =
     (if is_symbol c \<or> is_whitespace c then c # cs
      else if c = BSL then (case cs of [] \<Rightarrow> [] | d # ds \<Rightarrow> read_string ds)
      else read_string cs)"

fun read_string_with_quotes :: "u8 list \<Rightarrow> u8 \<Rightarrow> u8 list" where
  "read_string_with_quotes [] q = []"
| "read_string_with_quotes (c # cs) q =
     (if c = q then cs
      else if c = BSL \<and> q = DQ then (case cs of [] \<Rightarrow> [] | d # ds \<Rightarrow> read_string_with_quotes ds q)
      else read_string_with_quotes cs q)"

definition mk_token :: "token_type \<Rightarrow> u8 list \<Rightarrow> u8 list \<Rightarrow> token \<times> u8 list" where
  "mk_token typ start p = (\<lparr>ttype = typ, tp = start, tlen = int (length start) - int (length p)\<rparr>, p)"

text \<open>\<open>scan_tok\<close>: the token and the new \<open>sh->p\<close>.\<close>

function scan_tok :: "u8 list \<Rightarrow> token \<times> u8 list" where
  "scan_tok s =
     (let start = skip_whitespace s in
      case start of
        [] \<Rightarrow> mk_token TOKEN_EOF start []
      | ch # p \<Rightarrow>
          if ch = 62 then
            (if p \<noteq> [] \<and> hd p = 62 then mk_token TOKEN_GTGT start (tl p) else mk_token TOKEN_GT start p)
          else if ch = 60 then mk_token TOKEN_LT start p
          else if ch = 40 then mk_token TOKEN_LPAREN start p
          else if ch = 41 then mk_token TOKEN_RPAREN start p
          else if ch = 38 then
            (if p \<noteq> [] \<and> hd p = 38 then mk_token TOKEN_AND start (tl p) else mk_token TOKEN_BACK start p)
          else if ch = 124 then
            (if p \<noteq> [] \<and> hd p = 124 then mk_token TOKEN_OR start (tl p) else mk_token TOKEN_PIPE start p)
          else if ch = 59 then mk_token TOKEN_SEMI start p
          else if ch = 35 then scan_tok (dropWhile (\<lambda>c. c \<noteq> NL \<and> c \<noteq> 13) p)
          else if ch = DQ \<or> ch = SQ then
            (let p1 = read_string_with_quotes p ch in
             (\<lparr>ttype = TOKEN_STRING, tp = p, tlen = int (length start) - int (length p1) - 2\<rparr>, p1))
          else mk_token TOKEN_STRING start (read_string start))"
  by pat_completeness auto
termination
proof (relation "measure length")
  fix s start x p ch
  assume "start = skip_whitespace s" "start = ch # p"
  then have "length (ch # p) \<le> length s"
    by (metis skip_whitespace_def length_dropWhile_le)
  moreover have "length (dropWhile (\<lambda>c. c \<noteq> NL \<and> c \<noteq> 13) p) \<le> length p"
    by (rule length_dropWhile_le)
  ultimately show "(dropWhile (\<lambda>c. c \<noteq> NL \<and> c \<noteq> 13) p, s) \<in> measure length"
    by simp
qed simp

declare scan_tok.simps [simp del]

text \<open>\<open>copy_peek_string\<close>: a backslash is dropped before the character that it escapes. A negative length (a single quote character
  at the end of the line) makes the copy loop run past the end of the buffer.\<close>

fun unescape :: "u8 list \<Rightarrow> u8 list" where
  "unescape [] = []"
| "unescape (c # cs) =
     (if c = BSL then (case cs of [] \<Rightarrow> [c] | d # ds \<Rightarrow> d # unescape ds) else c # unescape cs)"

definition copy_peek_string :: "token \<Rightarrow> u8 list option" where
  "copy_peek_string t = do { kassert (0 \<le> tlen t); Some (unescape (take (nat (tlen t)) (tp t))) }"


section \<open>Reading ends\<close>

definition remaining :: "scan_state \<Rightarrow> nat" where
  "remaining s = 2 * length (instream s) + (if adv s = None then 0 else 1)"

lemma get_char_left: "get_char s = (x, s') \<Longrightarrow> adv s' = adv s \<and> (x \<noteq> None \<longrightarrow> length (instream s') < length (instream s) \<and> eof s' = eof s)
    \<and> (x = None \<longrightarrow> eof s')"
  by (auto simp: get_char_def split: list.splits if_splits)

lemma read_char_left:
  "eof (snd (read_char s)) \<or> (fst (read_char s) \<noteq> None \<and> remaining (snd (read_char s)) < remaining s)"
proof (induction s rule: read_char.induct)
  case (1 s)
  show ?case
  proof (cases "eof s \<or> adv s \<noteq> None")
    case True
    then show ?thesis
      by (auto simp: read_char.simps [of s] remaining_def split: option.splits)
  next
    case False
    obtain x s1 where g: "get_char s = (x, s1)"
      by fastforce
    note l1 = get_char_left [OF g]
    show ?thesis
    proof (cases "x = Some BSL")
      case True
      obtain y s2 where g2: "get_char s1 = (y, s2)"
        by fastforce
      note l2 = get_char_left [OF g2]
      show ?thesis
      proof (cases "y = Some NL")
        case nl: True
        have rc: "read_char s = read_char s2"
          using False g g2 True nl by (subst read_char.simps) auto
        have "remaining s2 < remaining s"
          using l1 l2 True nl False by (simp add: remaining_def)
        moreover have "eof (snd (read_char s2)) \<or> (fst (read_char s2) \<noteq> None \<and> remaining (snd (read_char s2)) < remaining s2)"
          using "1.IH" False g g2 True nl by simp
        ultimately show ?thesis
          using rc by (auto intro: less_trans)
      next
        case other: False
        then show ?thesis
          using False g g2 True l1 l2 by (subst (1 2 3) read_char.simps) (auto simp: remaining_def split: option.splits)
      qed
    next
      case other: False
      then show ?thesis
        using False g l1 by (subst (1 2 3) read_char.simps) (auto simp: remaining_def split: option.splits)
    qed
  qed
qed

lemma scan_string_returns: "\<exists>ok s'. scan_string q s = Some (ok, s') \<and> (eof s' \<or> remaining s' < remaining s) \<and> (\<not> ok \<longrightarrow> eof s')"
proof (induction "remaining s" arbitrary: s rule: less_induct)
  case less
  obtain ch s1 where rc: "read_char s = (ch, s1)"
    by fastforce
  have l1: "eof s1 \<or> remaining s1 < remaining s"
    using read_char_left [of s] rc by auto
  show ?case
  proof (cases "eof s1 \<or> ch = Some q")
    case True
    then show ?thesis
      using rc l1 by (subst scan_string.simps) auto
  next
    case False
    define s2 where "s2 = (if q = DQ \<and> ch = Some BSL then snd (read_char s1) else s1)"
    have step: "scan_string q s = scan_string q s2"
      using rc False by (subst scan_string.simps) (simp add: s2_def)
    show ?thesis
    proof (cases "eof s2")
      case True
      then have "read_char s2 = (None, s2)"
        by (simp add: read_char.simps)
      then have "scan_string q s2 = Some (False, s2)"
        using True by (subst scan_string.simps) simp
      then show ?thesis
        using True step by auto
    next
      case notend: False
      have "remaining s2 < remaining s"
        using l1 False notend read_char_left [of s1] by (auto simp: s2_def split: if_splits)
      from less.hyps [OF this] show ?thesis
        using step \<open>remaining s2 < remaining s\<close> by auto
    qed
  qed
qed

lemma scan_loop_returns: "\<exists>ok s'. scan_loop s = Some (ok, s') \<and> (\<not> ok \<longrightarrow> eof s')"
proof (induction "remaining s" arbitrary: s rule: less_induct)
  case less
  obtain ch s1 where rc: "read_char s = (ch, s1)"
    by fastforce
  have l1: "eof s1 \<or> remaining s1 < remaining s"
    using read_char_left [of s] rc by auto
  have ended: "\<exists>ok s'. scan_loop t = Some (ok, s') \<and> (\<not> ok \<longrightarrow> eof s')" if "eof t \<or> remaining t < remaining s" for t
  proof (cases "eof t")
    case True
    then have "read_char t = (None, t)"
      by (simp add: read_char.simps)
    then show ?thesis
      using True by (subst scan_loop.simps) auto
  qed (use that less.hyps in blast)
  show ?case
  proof (cases "eof s1 \<or> ch = Some NL")
    case True
    then show ?thesis
      using rc by (subst scan_loop.simps) auto
  next
    case False
    show ?thesis
    proof (cases "ch = Some SQ \<or> ch = Some DQ")
      case True
      obtain ok s2 where q: "scan_string (the ch) s1 = Some (ok, s2)" "eof s2 \<or> remaining s2 < remaining s1" "\<not> ok \<longrightarrow> eof s2"
        using scan_string_returns by blast
      have "scan_loop s = (if ok then scan_loop s2 else Some (False, s2))"
        using rc False True q(1) by (subst scan_loop.simps) auto
      then show ?thesis
        using ended [of s2] q l1 False by auto
    next
      case other: False
      then have "scan_loop s = scan_loop s1"
        using rc False by (subst scan_loop.simps) auto
      then show ?thesis
        using ended [of s1] l1 by simp
    qed
  qed
qed

text \<open>
  Reading a command always ends, whatever the input stream holds: \<open>sh_read_to_buf\<close> returns one of its three codes, unless the
  command does not fit into the buffer; the code 1 for an unterminated quote comes only at the end of the stream.
\<close>

theorem sh_read_to_buf_returns:
  "sh_read_to_buf s = None \<and> (\<exists>ok s'. scan_loop (s\<lparr>sbuf := [], adv := None\<rparr>) = Some (ok, s') \<and> LINE_BUF_SIZE \<le> length (sbuf s'))
   \<or> (\<exists>code s'. sh_read_to_buf s = Some (code, s') \<and> length (sbuf s') < LINE_BUF_SIZE
       \<and> (code = 1 \<and> eof s' \<or> code = 0 \<and> eof s' \<and> sbuf s' = [] \<or> code = -1))"
proof -
  obtain ok s' where "scan_loop (s\<lparr>sbuf := [], adv := None\<rparr>) = Some (ok, s')" "\<not> ok \<longrightarrow> eof s'"
    using scan_loop_returns by blast
  then show ?thesis
    by (auto simp: sh_read_to_buf_def)
qed

text \<open>A line of plain characters is taken as it is, with its line feed.\<close>

definition plain :: "u8 \<Rightarrow> bool" where
  "plain c = (0 < sint c \<and> c \<noteq> NL \<and> c \<noteq> BSL \<and> c \<noteq> SQ \<and> c \<noteq> DQ)"

lemma scan_loop_plain:
  assumes "list_all plain line" "\<not> eof s" "adv s = None" "instream s = line @ NL # rest"
  shows "\<exists>s'. scan_loop s = Some (True, s') \<and> sbuf s' = sbuf s @ line @ [NL] \<and> instream s' = rest \<and> \<not> eof s'"
  using assms
proof (induction line arbitrary: s)
  case Nil
  then have "read_char s = (Some NL, s\<lparr>instream := rest, lineno := lineno s + 1, sbuf := sbuf s @ [NL]\<rparr>)"
    by (subst read_char.simps) (simp add: get_char_def)
  then show ?case
    using Nil by (subst scan_loop.simps) simp
next
  case (Cons c line)
  let ?s = "s\<lparr>instream := line @ NL # rest, sbuf := sbuf s @ [c]\<rparr>"
  have c: "0 < sint c" "c \<noteq> NL" "c \<noteq> BSL" "c \<noteq> SQ" "c \<noteq> DQ"
    using Cons.prems(1) by (simp_all add: plain_def)
  then have "read_char s = (Some c, ?s)"
    using Cons.prems by (subst read_char.simps) (simp add: get_char_def)
  then have "scan_loop s = scan_loop ?s"
    using c Cons.prems(2) by (subst scan_loop.simps) simp
  moreover have "\<exists>s'. scan_loop ?s = Some (True, s') \<and> sbuf s' = sbuf ?s @ line @ [NL] \<and> instream s' = rest \<and> \<not> eof s'"
    by (rule Cons.IH) (use Cons.prems in simp_all)
  ultimately show ?case
    by auto
qed

text \<open>
  The scanner looks for quotes inside comments too: after a comment with an apostrophe it goes on reading, and at the end of the
  stream it reports an unterminated quote.
\<close>

lemma apostrophe_in_comment:
  assumes "\<not> eof s" "instream s = [35, SQ, NL]"
  shows "\<exists>s'. sh_read_to_buf s = Some (1, s')"
proof -
  let ?a = "s\<lparr>instream := [SQ, NL], sbuf := [35], adv := None\<rparr>"
  let ?b = "s\<lparr>instream := [NL], sbuf := [35, SQ], adv := None\<rparr>"
  let ?c = "s\<lparr>instream := [], lineno := lineno s + 1, sbuf := [35, SQ, NL], adv := None\<rparr>"
  have rc: "read_char (s\<lparr>sbuf := [], adv := None\<rparr>) = (Some 35, ?a)" "read_char ?a = (Some SQ, ?b)" "read_char ?b = (Some NL, ?c)"
      "read_char ?c = (None, ?c\<lparr>eof := True\<rparr>)"
    using assms by (simp_all add: read_char.simps get_char_def)
  have "scan_string SQ ?b = Some (False, ?c\<lparr>eof := True\<rparr>)"
    using assms(1) rc(3,4) by (subst scan_string.simps, simp, subst scan_string.simps) simp
  then have "scan_loop (s\<lparr>sbuf := [], adv := None\<rparr>) = Some (False, ?c\<lparr>eof := True\<rparr>)"
    using assms(1) rc(1,2) by (subst scan_loop.simps, simp, subst scan_loop.simps) simp
  then show ?thesis
    by (simp add: sh_read_to_buf_def LINE_BUF_SIZE_def)
qed


section \<open>Tokens consume the line\<close>

lemma length_read_string: "length (read_string p) \<le> length p"
proof (induction p rule: read_string.induct)
  case (2 c cs)
  then show ?case
    by (cases cs) (auto intro: le_SucI)
qed simp

lemma length_read_quotes: "length (read_string_with_quotes p q) \<le> length p"
proof (induction p q rule: read_string_with_quotes.induct)
  case (2 c cs q)
  then show ?case
    by (cases cs) (auto intro: le_SucI)
qed simp

lemma read_string_step: "\<not> is_symbol c \<Longrightarrow> \<not> is_whitespace c \<Longrightarrow> length (read_string (c # p)) \<le> length p"
  using length_read_string [of p] length_read_string [of "tl p"] by (cases p) auto

text \<open>A token that is not the end of the line uses up some of it; only at its end there is no token.\<close>

lemma scan_tok_shorter:
  "(ttype (fst (scan_tok s)) \<noteq> TOKEN_EOF \<longrightarrow> length (snd (scan_tok s)) < length s) \<and>
   (ttype (fst (scan_tok s)) = TOKEN_EOF \<longrightarrow> snd (scan_tok s) = [])"
proof (induction s rule: scan_tok.induct)
  case (1 s)
  have le: "length (skip_whitespace s) \<le> length s"
    by (simp add: skip_whitespace_def length_dropWhile_le)
  show ?case
  proof (cases "skip_whitespace s")
    case Nil
    then show ?thesis
      by (simp add: scan_tok.simps [of s] mk_token_def)
  next
    case (Cons ch p)
    then have lp: "length p < length s"
      using le by simp
    have ws: "\<not> is_whitespace ch"
      using Cons by (metis hd_dropWhile list.discI list.sel(1) skip_whitespace_def)
    consider (comment) "ch = 35" | (quote) "ch = DQ \<or> ch = SQ" | (sym) "ch \<in> {62, 60, 40, 41, 38, 124, 59}"
      | (str) "ch \<notin> {62, 60, 40, 41, 38, 124, 59, 35, DQ, SQ}"
      by blast
    then show ?thesis
    proof cases
      case comment
      let ?p = "dropWhile (\<lambda>c. c \<noteq> NL \<and> c \<noteq> 13) p"
      have eq: "scan_tok s = scan_tok ?p"
        using Cons comment by (subst scan_tok.simps) simp
      have "length ?p < length s"
        using lp length_dropWhile_le [of _ p] by (meson le_less_trans)
      moreover have "(ttype (fst (scan_tok ?p)) \<noteq> TOKEN_EOF \<longrightarrow> length (snd (scan_tok ?p)) < length ?p) \<and>
          (ttype (fst (scan_tok ?p)) = TOKEN_EOF \<longrightarrow> snd (scan_tok ?p) = [])"
        using "1.IH" [OF refl Cons] comment by simp
      ultimately show ?thesis
        unfolding eq by auto
    next
      case quote
      then show ?thesis
        using Cons lp length_read_quotes [of p ch] by (subst (1 2 3 4) scan_tok.simps) (auto simp: Let_def)
    next
      case sym
      have tl: "length (tl p) < length s"
        using lp by simp
      from sym show ?thesis
        by (elim insertE emptyE; use Cons lp tl in \<open>simp add: scan_tok.simps [of s] mk_token_def Let_def\<close>)
    next
      case str
      then have "\<not> is_symbol ch"
        by (auto simp: is_symbol_def)
      then show ?thesis
        using Cons lp str read_string_step [OF _ ws, of p] by (subst (1 2 3 4) scan_tok.simps) (auto simp: mk_token_def Let_def)
    qed
  qed
qed

end
