(* ===== verification/ShParse.thy ===== *)
theory ShParse
  imports ShLex
begin

text \<open>
  The parser of the shell: the first half of \<open>shell/sh/sh_parser.c\<close> with the commands of \<open>shell/sh/cmds.c\<close>.

  A parser function takes the rest of the line with the current token and returns the command, \<open>None\<close> for \<open>NULL\<close>, with the
  new state; the messages given to \<open>report_error\<close> are kept in the state. The recursion of \<open>parse_cmd\<close> and that of \<open>parse_binary\<close>
  have fuel, and the result \<open>None\<close> means that it is used up; \<open>sh_parse\<close> gives one unit for every character and one more, which is always enough. Allocations are assumed to succeed (the shell exits when one fails). The flag \<open>wild\<close> records that the copy loop of
  \<open>copy_peek_string\<close> ran past the end of the buffer; what follows is then meaningless.
\<close>

section \<open>Commands (cmds.c)\<close>

datatype cmd =
    CMD_EXEC "u8 list list"
  | CMD_REDIR cmd int u32 "u8 list"
  | CMD_LIST cmd cmd
  | CMD_BACK cmd
  | CMD_PIPE cmd cmd
  | CMD_BINARY cmd cmd token_type

definition MAX_ARGV :: nat where "MAX_ARGV = 20"

section \<open>The parser\<close>

datatype sh_error = ERR_UNEXPECTED_CH u8 | EXPECTED_FILE_PATH | MISSING_RPAREN | TOO_MANY_ARGUMENTS

record sh =
  srest :: "u8 list"
  speek :: token
  errs :: "sh_error list"
  wild :: bool

abbreviation peek :: "sh \<Rightarrow> token_type" where "peek s \<equiv> ttype (speek s)"

definition advance :: "sh \<Rightarrow> sh" where
  "advance s = (let (t, p) = scan_tok (srest s) in s\<lparr>speek := t, srest := p\<rparr>)"

definition report_error :: "sh_error \<Rightarrow> sh \<Rightarrow> sh" where
  "report_error e s = s\<lparr>errs := errs s @ [e]\<rparr>"

text \<open>\<open>*sh->peek.p\<close>\<close>

definition peek_char :: "sh \<Rightarrow> u8" where
  "peek_char s = (case tp (speek s) of [] \<Rightarrow> 0 | c # _ \<Rightarrow> c)"

definition parse_redircmd :: "sh \<Rightarrow> cmd \<Rightarrow> token_type \<Rightarrow> cmd option \<times> sh" where
  "parse_redircmd s left optok =
     (if peek s \<noteq> TOKEN_STRING then (None, report_error EXPECTED_FILE_PATH s)
      else
        let fd = (if optok = TOKEN_LT then 0 else 1);
            mode = (if optok = TOKEN_GTGT then O_APPEND OR O_WRONLY OR O_CREAT
                    else if optok = TOKEN_GT then O_WRONLY OR O_CREAT
                    else O_RDONLY)
        in case copy_peek_string (speek s) of
             None \<Rightarrow> (None, s\<lparr>wild := True\<rparr>)
           | Some redir_to_f \<Rightarrow> (Some (CMD_REDIR left fd mode redir_to_f), advance s))"

text \<open>The loop of \<open>parse_redir\<close>.\<close>

lemma advance_shorter:
  "peek (advance s) \<noteq> TOKEN_EOF \<Longrightarrow> length (srest (advance s)) < length (srest s)"
  "peek (advance s) = TOKEN_EOF \<Longrightarrow> srest (advance s) = []"
  using scan_tok_shorter [of "srest s"] by (auto simp: advance_def split: prod.splits)

lemma advance_sel [simp]: "errs (advance s) = errs s" "wild (advance s) = wild s" "errs (report_error e s) = errs s @ [e]"
  "srest (report_error e s) = srest s" "speek (report_error e s) = speek s" "wild (report_error e s) = wild s"
  by (auto simp: advance_def report_error_def split: prod.splits)

lemma parse_redircmd_shorter:
  assumes "parse_redircmd (advance s) c op = (Some c', s')"
  shows "length (srest s') < length (srest s)"
proof -
  have "peek (advance s) = TOKEN_STRING" "s' = advance (advance s)"
    using assms by (auto simp: parse_redircmd_def Let_def split: if_splits option.splits)
  then show ?thesis
    using advance_shorter [of s] advance_shorter [of "advance s"] by (cases "peek (advance (advance s)) = TOKEN_EOF") auto
qed

function redir_loop :: "cmd \<Rightarrow> sh \<Rightarrow> cmd option \<times> sh" where
  "redir_loop cmd s =
     (let optok = peek s in
      if optok = TOKEN_GT \<or> optok = TOKEN_GTGT \<or> optok = TOKEN_LT then
        (case parse_redircmd (advance s) cmd optok of
           (None, s1) \<Rightarrow> (None, s1)
         | (Some cmd1, s1) \<Rightarrow> redir_loop cmd1 s1)
      else (Some cmd, s))"
  by pat_completeness auto
termination
  by (relation "measure (\<lambda>(c, s). length (srest s))") (auto dest: parse_redircmd_shorter [OF sym])

declare redir_loop.simps [simp del]

text \<open>The loop of \<open>parse_execcmd\<close>: \<open>argv\<close> holds the arguments so far.\<close>

function exec_loop :: "u8 list list \<Rightarrow> sh \<Rightarrow> cmd option \<times> sh" where
  "exec_loop argv s =
     (if length argv \<ge> MAX_ARGV - 1 then (None, report_error TOO_MANY_ARGUMENTS s)
      else case copy_peek_string (speek s) of
        None \<Rightarrow> (None, s\<lparr>wild := True\<rparr>)
      | Some w \<Rightarrow>
          let argv1 = argv @ [w]; s1 = advance s in
          if peek s1 = TOKEN_STRING then exec_loop argv1 s1 else (Some (CMD_EXEC argv1), s1))"
  by pat_completeness auto
termination
  by (relation "measure (\<lambda>(argv, s). MAX_ARGV - length argv)") (auto simp: MAX_ARGV_def)

declare exec_loop.simps [simp del]

definition parse_execcmd :: "sh \<Rightarrow> cmd option \<times> sh" where
  "parse_execcmd s = exec_loop [] s"

text \<open>
  The recursive descent. \<open>rec\<close> is \<open>parse_cmd\<close> at the places where the functions call it again; \<open>parse_cmd\<close> and \<open>parse_binary\<close>, the two that
  call themselves, have fuel.
\<close>

definition parse_primary :: "(sh \<Rightarrow> (cmd option \<times> sh) option) \<Rightarrow> sh \<Rightarrow> (cmd option \<times> sh) option" where
  "parse_primary rec s =
     (if peek s = TOKEN_LPAREN then do {
        (cmd, s1) \<leftarrow> rec (advance s);
        if peek s1 = TOKEN_RPAREN then Some (cmd, advance s1) else Some (None, report_error MISSING_RPAREN s1)
      }
      else if peek s = TOKEN_STRING then Some (parse_execcmd s)
      else Some (None, report_error (ERR_UNEXPECTED_CH (peek_char s)) s))"

definition parse_redir :: "(sh \<Rightarrow> (cmd option \<times> sh) option) \<Rightarrow> sh \<Rightarrow> (cmd option \<times> sh) option" where
  "parse_redir rec s = do {
     (cmd, s1) \<leftarrow> parse_primary rec s;
     (case cmd of None \<Rightarrow> Some (None, s1) | Some cmd \<Rightarrow> Some (redir_loop cmd s1))
   }"

fun parse_binary :: "(sh \<Rightarrow> (cmd option \<times> sh) option) \<Rightarrow> nat \<Rightarrow> sh \<Rightarrow> (cmd option \<times> sh) option" where
  "parse_binary rec 0 s = None"
| "parse_binary rec (Suc n) s = do {
     (left, s1) \<leftarrow> parse_redir rec s;
     (case left of
        None \<Rightarrow> Some (None, s1)
      | Some left \<Rightarrow>
          let operator = peek s1 in
          if operator = TOKEN_PIPE \<or> operator = TOKEN_AND \<or> operator = TOKEN_OR then do {
            (right, s2) \<leftarrow> parse_binary rec n (advance s1);
            Some (case right of
                    None \<Rightarrow> None
                  | Some right \<Rightarrow> Some (if operator = TOKEN_PIPE then CMD_PIPE left right else CMD_BINARY left right operator), s2)
          } else Some (Some left, s1))
   }"

definition parse_list :: "(sh \<Rightarrow> (cmd option \<times> sh) option) \<Rightarrow> nat \<Rightarrow> sh \<Rightarrow> (cmd option \<times> sh) option" where
  "parse_list rec n s = do {
     (left, s1) \<leftarrow> parse_binary rec n s;
     (case left of
        None \<Rightarrow> Some (None, s1)
      | Some left \<Rightarrow>
          if peek s1 \<noteq> TOKEN_SEMI \<and> peek s1 \<noteq> TOKEN_BACK then Some (Some left, s1)
          else do {
            let left1 = (if peek s1 = TOKEN_BACK then CMD_BACK left else left);
            (right, s2) \<leftarrow> rec (advance s1);
            Some (Some (case right of Some right \<Rightarrow> CMD_LIST left1 right | None \<Rightarrow> left1), s2)
          })
   }"

primrec parse_cmd :: "nat \<Rightarrow> sh \<Rightarrow> (cmd option \<times> sh) option" where
  "parse_cmd 0 = (\<lambda>s. None)"
| "parse_cmd (Suc n) = (\<lambda>s.
     if peek s = TOKEN_LPAREN \<or> peek s = TOKEN_STRING then parse_list (parse_cmd n) (Suc n) s else Some (None, s))"

text \<open>\<open>sh_parse\<close> of the text in the buffer.\<close>

definition sh_start :: "u8 list \<Rightarrow> sh" where
  "sh_start buf = advance \<lparr>srest = buf, speek = \<lparr>ttype = TOKEN_EOF, tp = [], tlen = 0\<rparr>, errs = [], wild = False\<rparr>"

definition sh_parse :: "u8 list \<Rightarrow> (cmd option \<times> sh) option" where
  "sh_parse buf = do {
     (cmd, s1) \<leftarrow> parse_cmd (length buf + 1) (sh_start buf);
     (case cmd of
        None \<Rightarrow> Some (None, s1)
      | Some cmd \<Rightarrow>
          if peek s1 \<noteq> TOKEN_EOF then Some (None, report_error (ERR_UNEXPECTED_CH (peek_char s1)) s1)
          else Some (Some cmd, s1))
   }"

section \<open>The fuel suffices\<close>

text \<open>The tokens that may still come.\<close>

definition msize :: "sh \<Rightarrow> nat" where
  "msize s = (if peek s = TOKEN_EOF then 0 else length (srest s) + 1)"

lemma msize_advance: "peek s \<noteq> TOKEN_EOF \<Longrightarrow> msize (advance s) < msize s"
  using advance_shorter [of s] by (auto simp: msize_def)

lemma msize_report [simp]: "msize (report_error e s) = msize s" "msize (s\<lparr>wild := b\<rparr>) = msize s"
  by (simp_all add: msize_def)

lemma msize_advance_le: "msize (advance s) \<le> length (srest s) + 1"
  using advance_shorter [of s] by (auto simp: msize_def)

lemma msize_exec: "peek s = TOKEN_STRING \<Longrightarrow> exec_loop argv s = (r, s') \<Longrightarrow> msize s' \<le> msize s \<and> (r \<noteq> None \<longrightarrow> msize s' < msize s)"
proof (induction argv s rule: exec_loop.induct)
  case (1 argv s)
  have a: "msize (advance s) < msize s"
    using 1(2) by (intro msize_advance) simp
  show ?case
  proof (cases "length argv \<ge> MAX_ARGV - 1 \<or> copy_peek_string (speek s) = None \<or> peek (advance s) \<noteq> TOKEN_STRING")
    case True
    then show ?thesis
      using 1(3) a by (subst (asm) exec_loop.simps) (auto simp: Let_def split: option.splits if_splits)
  next
    case False
    then obtain w where w: "copy_peek_string (speek s) = Some w"
      by auto
    then have "exec_loop (argv @ [w]) (advance s) = (r, s')"
      using 1(3) False by (subst (asm) exec_loop.simps) simp
    then show ?thesis
      using 1(1) [of w "argv @ [w]" "advance s"] w False a by auto
  qed
qed

lemma msize_redir: "redir_loop c s = (r, s') \<Longrightarrow> msize s' \<le> msize s"
proof (induction c s rule: redir_loop.induct)
  case (1 c s)
  show ?case
  proof (cases "peek s = TOKEN_GT \<or> peek s = TOKEN_GTGT \<or> peek s = TOKEN_LT")
    case False
    then show ?thesis
      using 1(2) by (subst (asm) redir_loop.simps) (simp add: Let_def)
  next
    case True
    obtain r1 s1 where p: "parse_redircmd (advance s) c (peek s) = (r1, s1)"
      by fastforce
    have "msize s1 \<le> msize (advance s)"
      using p msize_advance [of "advance s"] by (auto simp: parse_redircmd_def Let_def split: if_splits option.splits)
    moreover have "msize (advance s) < msize s"
      using True by (intro msize_advance) auto
    ultimately have "msize s1 \<le> msize s"
      by simp
    moreover have "msize s' \<le> msize s1"
    proof (cases r1)
      case None
      then show ?thesis
        using 1(2) True p by (subst (asm) redir_loop.simps) (simp add: Let_def)
    next
      case (Some c1)
      then have "redir_loop c1 s1 = (r, s')"
        using 1(2) True p by (subst (asm) redir_loop.simps) (simp add: Let_def)
      then show ?thesis
        using 1(1) [OF refl True p [symmetric] Some] by simp
    qed
    ultimately show ?thesis
      by (rule order_trans [rotated])
  qed
qed

text \<open>A call returns, does not give input back, and a command that it returns has used some of it.\<close>

definition returns :: "(cmd option \<times> sh) option \<Rightarrow> sh \<Rightarrow> bool" where
  "returns x s = (\<exists>r s'. x = Some (r, s') \<and> msize s' \<le> msize s \<and> (r \<noteq> None \<longrightarrow> msize s' < msize s))"

lemma returnsE:
  assumes "returns x s"
  obtains r s' where "x = Some (r, s')" "msize s' \<le> msize s" "r \<noteq> None \<longrightarrow> msize s' < msize s"
  using assms by (auto simp: returns_def)

text \<open>The calls of \<open>rec\<close> return as long as some input has been used.\<close>

lemma primary_returns:
  assumes rec: "\<And>t. msize t < msize s \<Longrightarrow> returns (rec t) t"
  shows "returns (parse_primary rec s) s"
proof -
  consider (paren) "peek s = TOKEN_LPAREN" | (str) "peek s = TOKEN_STRING" | (other) "peek s \<noteq> TOKEN_LPAREN" "peek s \<noteq> TOKEN_STRING"
    by blast
  then show ?thesis
  proof cases
    case paren
    then have a: "msize (advance s) < msize s"
      by (intro msize_advance) auto
    obtain r s1 where r: "rec (advance s) = Some (r, s1)" "msize s1 \<le> msize (advance s)"
      by (rule returnsE [OF rec [OF a]])
    have "msize (advance s1) < msize s1" if "peek s1 = TOKEN_RPAREN"
      using that by (intro msize_advance) auto
    then show ?thesis
      using paren r a by (auto simp: parse_primary_def returns_def)
  next
    case str
    obtain r s' where "exec_loop [] s = (r, s')"
      by fastforce
    then show ?thesis
      using str msize_exec [OF str] by (auto simp: parse_primary_def parse_execcmd_def returns_def)
  qed (simp add: parse_primary_def returns_def)
qed

lemma redir_returns:
  assumes rec: "\<And>t. msize t < msize s \<Longrightarrow> returns (rec t) t"
  shows "returns (parse_redir rec s) s"
proof -
  have "returns (parse_primary rec s) s"
    by (rule primary_returns) (rule rec)
  then obtain r s1 where r: "parse_primary rec s = Some (r, s1)" "msize s1 \<le> msize s" "r \<noteq> None \<longrightarrow> msize s1 < msize s"
    by (rule returnsE)
  show ?thesis
  proof (cases r)
    case (Some c)
    obtain r' s' where "redir_loop c s1 = (r', s')"
      by fastforce
    then show ?thesis
      using msize_redir [of c s1 r' s'] r Some by (auto simp: parse_redir_def returns_def)
  qed (use r in \<open>simp add: parse_redir_def returns_def\<close>)
qed

lemma binary_returns:
  assumes "msize s < n" "\<And>t. msize t < msize s \<Longrightarrow> returns (rec t) t"
  shows "returns (parse_binary rec n s) s"
  using assms
proof (induction n arbitrary: s)
  case (Suc n)
  have "returns (parse_redir rec s) s"
    by (rule redir_returns) (rule Suc.prems(2))
  then obtain r s1 where r: "parse_redir rec s = Some (r, s1)" "msize s1 \<le> msize s" "r \<noteq> None \<longrightarrow> msize s1 < msize s"
    by (rule returnsE)
  show ?case
  proof (cases "r \<noteq> None \<and> (peek s1 = TOKEN_PIPE \<or> peek s1 = TOKEN_AND \<or> peek s1 = TOKEN_OR)")
    case True
    then have a: "msize (advance s1) < msize s1" "msize s1 < msize s"
      using msize_advance [of s1] r(3) by auto
    then have "returns (parse_binary rec n (advance s1)) (advance s1)"
      using Suc.prems by (intro Suc.IH) auto
    then obtain r' s' where "parse_binary rec n (advance s1) = Some (r', s')" "msize s' \<le> msize (advance s1)"
      by (rule returnsE)
    then show ?thesis
      using True r(1) a by (auto simp: returns_def Let_def)
  qed (use r in \<open>cases r; auto simp: returns_def Let_def\<close>)
qed simp

lemma list_returns:
  assumes "msize s < n" and rec: "\<And>t. msize t < msize s \<Longrightarrow> returns (rec t) t"
  shows "returns (parse_list rec n s) s"
proof -
  have "returns (parse_binary rec n s) s"
    by (rule binary_returns [OF assms(1)]) (rule rec)
  then obtain r s1 where r: "parse_binary rec n s = Some (r, s1)" "msize s1 \<le> msize s" "r \<noteq> None \<longrightarrow> msize s1 < msize s"
    by (rule returnsE)
  show ?thesis
  proof (cases "r \<noteq> None \<and> (peek s1 = TOKEN_SEMI \<or> peek s1 = TOKEN_BACK)")
    case True
    then have a: "msize (advance s1) < msize s1" "msize (advance s1) < msize s"
      using msize_advance [of s1] r(3) by auto
    obtain r' s' where "rec (advance s1) = Some (r', s')" "msize s' \<le> msize (advance s1)"
      by (rule returnsE [OF rec [OF a(2)]])
    then show ?thesis
      using True r a by (auto simp: parse_list_def returns_def Let_def)
  qed (use r in \<open>cases r; auto simp: parse_list_def returns_def\<close>)
qed

lemma cmd_returns: "msize s < n \<Longrightarrow> returns (parse_cmd n s) s"
proof (induction n arbitrary: s)
  case (Suc n)
  have "returns (parse_list (parse_cmd n) (Suc n) s) s"
    using Suc by (intro list_returns) auto
  then show ?case
    by (auto simp: returns_def)
qed simp

lemma msize_start: "msize (sh_start buf) \<le> length buf"
  using advance_shorter [of "\<lparr>srest = buf, speek = \<lparr>ttype = TOKEN_EOF, tp = [], tlen = 0\<rparr>, errs = [], wild = False\<rparr>"]
  by (auto simp: msize_def sh_start_def)


end
