(* ===== verification/ShPrint.thy ===== *)
theory ShPrint
  imports ShParse
begin

text \<open>
  The parser of the shell against a printer: \<open>print_cmd\<close> writes a command in the grammar of the comments of \<open>sh_parser.c\<close>,
  and parsing what it writes gives the command back. The last section shows three inputs on which the parser does not do what it should.
\<close>

section \<open>Printing a command and parsing it again\<close>

text \<open>A printed command is a sequence of words and symbols; each is preceded by a space, and words are in double quotes.\<close>

datatype item = W "u8 list" | T token_type

fun symtext :: "token_type \<Rightarrow> u8 list" where
  "symtext TOKEN_GT = [62]"
| "symtext TOKEN_GTGT = [62, 62]"
| "symtext TOKEN_LT = [60]"
| "symtext TOKEN_LPAREN = [40]"
| "symtext TOKEN_RPAREN = [41]"
| "symtext TOKEN_SEMI = [59]"
| "symtext TOKEN_BACK = [38]"
| "symtext TOKEN_AND = [38, 38]"
| "symtext TOKEN_PIPE = [124]"
| "symtext TOKEN_OR = [124, 124]"
| "symtext _ = []"

definition escape :: "u8 list \<Rightarrow> u8 list" where
  "escape w = concat (map (\<lambda>c. if c = DQ \<or> c = BSL then [BSL, c] else [c]) w)"

fun item_text :: "item \<Rightarrow> u8 list" where
  "item_text (W w) = DQ # escape w @ [DQ]"
| "item_text (T t) = symtext t"

fun wf_item :: "item \<Rightarrow> bool" where
  "wf_item (W w) = True"
| "wf_item (T t) = (t \<noteq> TOKEN_EOF \<and> t \<noteq> TOKEN_STRING)"

definition line_text :: "item list \<Rightarrow> u8 list" where
  "line_text xs = concat (map (\<lambda>x. SP # item_text x) xs)"

text \<open>The level of the grammar that a command belongs to: list, binary, redirection, primary.\<close>

fun cmd_level :: "cmd \<Rightarrow> nat" where
  "cmd_level (CMD_LIST _ _) = 0"
| "cmd_level (CMD_BACK _) = 0"
| "cmd_level (CMD_PIPE _ _) = 1"
| "cmd_level (CMD_BINARY _ _ _) = 1"
| "cmd_level (CMD_REDIR _ _ _ _) = 2"
| "cmd_level (CMD_EXEC _) = 3"

definition wrap :: "nat \<Rightarrow> cmd \<Rightarrow> item list \<Rightarrow> item list" where
  "wrap k c xs = (if cmd_level c < k then T TOKEN_LPAREN # xs @ [T TOKEN_RPAREN] else xs)"

definition redir_tok :: "int \<Rightarrow> u32 \<Rightarrow> token_type" where
  "redir_tok fd mode = (if fd = 0 then TOKEN_LT else if mode = O_WRONLY OR O_CREAT then TOKEN_GT else TOKEN_GTGT)"

primrec cmd_items :: "cmd \<Rightarrow> item list" where
  "cmd_items (CMD_EXEC ws) = map W ws"
| "cmd_items (CMD_REDIR c fd mode f) = wrap 2 c (cmd_items c) @ [T (redir_tok fd mode), W f]"
| "cmd_items (CMD_PIPE l r) = wrap 2 l (cmd_items l) @ T TOKEN_PIPE # wrap 1 r (cmd_items r)"
| "cmd_items (CMD_BINARY l r op) = wrap 2 l (cmd_items l) @ T op # wrap 1 r (cmd_items r)"
| "cmd_items (CMD_LIST l r) = wrap 1 l (cmd_items l) @ T TOKEN_SEMI # cmd_items r"
| "cmd_items (CMD_BACK c) = wrap 1 c (cmd_items c) @ [T TOKEN_BACK]"

definition print_cmd :: "cmd \<Rightarrow> u8 list" where
  "print_cmd c = line_text (cmd_items c)"

text \<open>The commands that the parser can produce.\<close>

primrec wf_cmd :: "cmd \<Rightarrow> bool" where
  "wf_cmd (CMD_EXEC ws) = (ws \<noteq> [] \<and> length ws < MAX_ARGV \<and> (\<forall>w\<in>set ws. 0 \<notin> set w))"
| "wf_cmd (CMD_REDIR c fd mode f) =
     (wf_cmd c \<and> 0 \<notin> set f \<and> (fd = 0 \<and> mode = O_RDONLY \<or> fd = 1 \<and> mode = O_WRONLY OR O_CREAT
        \<or> fd = 1 \<and> mode = O_APPEND OR O_WRONLY OR O_CREAT))"
| "wf_cmd (CMD_PIPE l r) = (wf_cmd l \<and> wf_cmd r)"
| "wf_cmd (CMD_BINARY l r op) = (wf_cmd l \<and> wf_cmd r \<and> (op = TOKEN_AND \<or> op = TOKEN_OR))"
| "wf_cmd (CMD_LIST l r) = (wf_cmd l \<and> wf_cmd r)"
| "wf_cmd (CMD_BACK c) = wf_cmd c"

subsection \<open>The lexer on printed items\<close>

lemma escape_simps [simp]: "escape [] = []"
  "escape (c # w) = (if c = DQ \<or> c = BSL then BSL # c # escape w else c # escape w)"
  by (simp_all add: escape_def)

lemma read_quotes_escape: "read_string_with_quotes (escape w @ DQ # rest) DQ = rest"
  by (induction w) auto

lemma unescape_escape: "unescape (escape w) = w"
  by (induction w) auto

lemma line_text_simps [simp]: "line_text [] = []" "line_text (x # xs) = SP # item_text x @ line_text xs"
  by (simp_all add: line_text_def)

lemma skip_printed: "x \<noteq> [] \<Longrightarrow> \<not> is_whitespace (hd x) \<Longrightarrow> skip_whitespace (SP # x) = x"
  by (cases x) (auto simp: skip_whitespace_def is_whitespace_def)

fun tok_of :: "item \<Rightarrow> token \<Rightarrow> bool" where
  "tok_of (W w) t = (ttype t = TOKEN_STRING \<and> copy_peek_string t = Some w)"
| "tok_of (T k) t = (ttype t = k)"

lemma scan_word: "scan_tok (SP # DQ # escape w @ DQ # rest) =
    (\<lparr>ttype = TOKEN_STRING, tp = escape w @ DQ # rest, tlen = int (length (escape w))\<rparr>, rest)"
proof -
  have "skip_whitespace (SP # DQ # escape w @ DQ # rest) = DQ # escape w @ DQ # rest"
    by (rule skip_printed) (simp_all add: is_whitespace_def)
  then show ?thesis
    by (subst scan_tok.simps) (simp add: Let_def read_quotes_escape)
qed

lemma scan_symbol:
  assumes "wf_item (T k)" "rest = [] \<or> hd rest = SP"
  shows "\<exists>t. scan_tok (SP # symtext k @ rest) = (t, rest) \<and> ttype t = k"
proof -
  have "skip_whitespace (SP # symtext k @ rest) = symtext k @ rest"
    using assms(1) by (cases k) (simp_all add: skip_printed is_whitespace_def)
  then show ?thesis
    using assms by (cases k) (subst scan_tok.simps; force simp: mk_token_def Let_def)+
qed

lemma scan_item:
  assumes "wf_item x"
  shows "\<exists>t. scan_tok (line_text (x # xs)) = (t, line_text xs) \<and> tok_of x t"
proof (cases x)
  case (W w)
  then show ?thesis
    by (simp add: scan_word copy_peek_string_def unescape_escape)
next
  case (T k)
  have "line_text xs = [] \<or> hd (line_text xs) = SP"
    by (cases xs) simp_all
  then show ?thesis
    using scan_symbol [of k "line_text xs"] assms T by simp
qed

text \<open>The state of the parser in front of a sequence of items, without an error so far.\<close>

fun front :: "sh \<Rightarrow> item list \<Rightarrow> bool" where
  "front s [] = (peek s = TOKEN_EOF \<and> srest s = [] \<and> errs s = [] \<and> \<not> wild s)"
| "front s (x # xs) = (tok_of x (speek s) \<and> srest s = line_text xs \<and> list_all wf_item (x # xs) \<and> errs s = [] \<and> \<not> wild s)"

lemma scan_tok_Nil: "scan_tok [] = (\<lparr>ttype = TOKEN_EOF, tp = [], tlen = 0\<rparr>, [])"
  by (simp add: scan_tok.simps skip_whitespace_def mk_token_def)

lemma front_scan:
  assumes "srest s = line_text xs" "list_all wf_item xs" "errs s = []" "\<not> wild s"
  shows "front (advance s) xs"
proof (cases xs)
  case Nil
  then show ?thesis
    using assms by (simp add: advance_def scan_tok_Nil)
next
  case (Cons x ys)
  then show ?thesis
    using assms scan_item [of x ys] by (auto simp: advance_def)
qed

lemma front_advance: "front s (x # xs) \<Longrightarrow> front (advance s) xs"
  by (auto intro: front_scan)

lemma front_start: "list_all wf_item xs \<Longrightarrow> front (sh_start (line_text xs)) xs"
  unfolding sh_start_def by (rule front_scan) simp_all

lemma front_peek: "front s (T k # xs) \<Longrightarrow> peek s = k" "front s (W w # xs) \<Longrightarrow> peek s = TOKEN_STRING"
  "front s [] \<Longrightarrow> peek s = TOKEN_EOF"
  by simp_all

subsection \<open>The parser on printed items\<close>

text \<open>What may follow a printed command of a level.\<close>

fun head_tok :: "item list \<Rightarrow> token_type" where
  "head_tok [] = TOKEN_EOF"
| "head_tok (W w # xs) = TOKEN_STRING"
| "head_tok (T k # xs) = k"

lemma front_head: "front s xs \<Longrightarrow> peek s = head_tok xs"
  by (cases xs rule: head_tok.cases) simp_all

abbreviation redir_ops :: "token_type set" where "redir_ops \<equiv> {TOKEN_GT, TOKEN_GTGT, TOKEN_LT}"
abbreviation binary_ops :: "token_type set" where "binary_ops \<equiv> {TOKEN_PIPE, TOKEN_AND, TOKEN_OR}"

definition prim_ok :: "item list \<Rightarrow> cmd \<Rightarrow> bool" where
  "prim_ok xs c = (\<forall>s ys n. front s (xs @ ys) \<longrightarrow> head_tok ys \<noteq> TOKEN_STRING \<longrightarrow> msize s \<le> n \<longrightarrow>
     (\<exists>s'. parse_primary (parse_cmd n) s = Some (Some c, s') \<and> front s' ys))"

definition redir_ok :: "item list \<Rightarrow> cmd \<Rightarrow> bool" where
  "redir_ok xs c = (\<forall>s ys n. front s (xs @ ys) \<longrightarrow> head_tok ys \<noteq> TOKEN_STRING \<longrightarrow> msize s \<le> n \<longrightarrow>
     (\<exists>c0 s0 s'. parse_primary (parse_cmd n) s = Some (Some c0, s0) \<and> redir_loop c0 s0 = redir_loop c s' \<and> front s' ys))"

definition binary_ok :: "item list \<Rightarrow> cmd \<Rightarrow> bool" where
  "binary_ok xs c = (\<forall>s ys n m. front s (xs @ ys) \<longrightarrow> head_tok ys \<notin> {TOKEN_STRING} \<union> redir_ops \<union> binary_ops \<longrightarrow>
     msize s \<le> n \<longrightarrow> msize s < m \<longrightarrow> (\<exists>s'. parse_binary (parse_cmd n) m s = Some (Some c, s') \<and> front s' ys))"

definition list_ok :: "item list \<Rightarrow> cmd \<Rightarrow> bool" where
  "list_ok xs c = (\<forall>s ys n. front s (xs @ ys) \<longrightarrow> head_tok ys \<in> {TOKEN_EOF, TOKEN_RPAREN} \<longrightarrow> msize s < n \<longrightarrow>
     (\<exists>s'. parse_cmd n s = Some (Some c, s') \<and> front s' ys))"

lemma list_okD: "list_ok xs c \<Longrightarrow> front s (xs @ ys) \<Longrightarrow> head_tok ys \<in> {TOKEN_EOF, TOKEN_RPAREN} \<Longrightarrow> msize s < n \<Longrightarrow>
    \<exists>s'. parse_cmd n s = Some (Some c, s') \<and> front s' ys"
  unfolding list_ok_def by blast

lemma binary_okD: "binary_ok xs c \<Longrightarrow> front s (xs @ ys) \<Longrightarrow> head_tok ys \<notin> {TOKEN_STRING} \<union> redir_ops \<union> binary_ops \<Longrightarrow>
    msize s \<le> n \<Longrightarrow> msize s < m \<Longrightarrow> \<exists>s'. parse_binary (parse_cmd n) m s = Some (Some c, s') \<and> front s' ys"
  unfolding binary_ok_def by blast

lemma redir_okD: "redir_ok xs c \<Longrightarrow> front s (xs @ ys) \<Longrightarrow> head_tok ys \<noteq> TOKEN_STRING \<Longrightarrow> msize s \<le> n \<Longrightarrow>
    \<exists>c0 s0 s'. parse_primary (parse_cmd n) s = Some (Some c0, s0) \<and> redir_loop c0 s0 = redir_loop c s' \<and> front s' ys"
  unfolding redir_ok_def by blast

text \<open>The recursive calls return.\<close>

lemma rec_returns: "msize s \<le> n \<Longrightarrow> msize t < msize s \<Longrightarrow> returns (parse_cmd n t) t"
  by (rule cmd_returns) simp

lemma exec_words:
  assumes "front s (map W ws @ ys)" "ws \<noteq> []" "head_tok ys \<noteq> TOKEN_STRING" "length argv + length ws < MAX_ARGV"
  shows "\<exists>s'. exec_loop argv s = (Some (CMD_EXEC (argv @ ws)), s') \<and> front s' ys"
  using assms
proof (induction ws arbitrary: s argv)
  case (Cons w ws)
  have w: "copy_peek_string (speek s) = Some w" "length argv < MAX_ARGV - 1"
    using Cons.prems by auto
  have f: "front (advance s) (map W ws @ ys)"
    using Cons.prems(1) front_advance [of s "W w" "map W ws @ ys"] by simp
  show ?case
  proof (cases ws)
    case Nil
    then show ?thesis
      using f w front_head [of "advance s" ys] Cons.prems(3) by (subst exec_loop.simps) (simp add: Let_def)
  next
    case (Cons v vs)
    then have "peek (advance s) = TOKEN_STRING"
      using f by simp
    then show ?thesis
      using Cons.IH [OF f, of "argv @ [w]"] Cons.prems w Cons by (subst exec_loop.simps) (simp add: Let_def)
  qed
qed simp

lemma exec_prim_ok:
  assumes "wf_cmd (CMD_EXEC ws)"
  shows "prim_ok (map W ws) (CMD_EXEC ws)"
  unfolding prim_ok_def
proof (intro allI impI)
  fix s ys n
  assume a: "front s (map W ws @ ys)" "head_tok ys \<noteq> TOKEN_STRING"
  then have "peek s = TOKEN_STRING"
    using assms by (cases ws) auto
  then show "\<exists>s'. parse_primary (parse_cmd n) s = Some (Some (CMD_EXEC ws), s') \<and> front s' ys"
    using exec_words [OF a(1) _ a(2), of "[]"] assms by (auto simp: parse_primary_def parse_execcmd_def)
qed

lemma paren_prim_ok:
  assumes "list_ok xs c"
  shows "prim_ok (T TOKEN_LPAREN # xs @ [T TOKEN_RPAREN]) c"
  unfolding prim_ok_def
proof (intro allI impI)
  fix s ys n
  assume a: "front s ((T TOKEN_LPAREN # xs @ [T TOKEN_RPAREN]) @ ys)" "head_tok ys \<noteq> TOKEN_STRING" "msize s \<le> n"
  have p: "peek s = TOKEN_LPAREN" and f: "front (advance s) (xs @ T TOKEN_RPAREN # ys)"
    using a(1) front_advance [of s "T TOKEN_LPAREN" "xs @ T TOKEN_RPAREN # ys"] by simp_all
  have "msize (advance s) < n"
    using msize_advance [of s] p a(3) by simp
  then obtain s1 where s1: "parse_cmd n (advance s) = Some (Some c, s1)" "front s1 (T TOKEN_RPAREN # ys)"
    using list_okD [OF assms f, of n] by auto
  then show "\<exists>s'. parse_primary (parse_cmd n) s = Some (Some c, s') \<and> front s' ys"
    using p front_advance [OF s1(2)] by (auto simp: parse_primary_def)
qed

lemma prim_redir_ok: "prim_ok xs c \<Longrightarrow> redir_ok xs c"
  unfolding prim_ok_def redir_ok_def by blast

lemma redirect_ok:
  assumes "redir_ok xs c" "wf_cmd (CMD_REDIR c fd mode f)"
  shows "redir_ok (xs @ [T (redir_tok fd mode), W f]) (CMD_REDIR c fd mode f)"
  unfolding redir_ok_def
proof (intro allI impI)
  fix s ys n
  let ?op = "redir_tok fd mode"
  assume a: "front s ((xs @ [T ?op, W f]) @ ys)" "head_tok ys \<noteq> TOKEN_STRING" "msize s \<le> n"
  have op: "?op \<in> redir_ops"
    by (simp add: redir_tok_def)
  then obtain c0 s0 s1 where r: "parse_primary (parse_cmd n) s = Some (Some c0, s0)" "redir_loop c0 s0 = redir_loop c s1"
      "front s1 (T ?op # W f # ys)"
    using redir_okD [OF assms(1), of s "T ?op # W f # ys" n] a by (auto simp del: front.simps)
  have f1: "front (advance s1) (W f # ys)"
    using r(3) by (rule front_advance)
  then have "front (advance (advance s1)) ys"
    by (rule front_advance)
  moreover have "parse_redircmd (advance s1) c ?op = (Some (CMD_REDIR c fd mode f), advance (advance s1))"
    using f1 assms(2) by (auto simp: parse_redircmd_def redir_tok_def O_APPEND_def O_WRONLY_def O_CREAT_def Let_def)
  then have "redir_loop c s1 = redir_loop (CMD_REDIR c fd mode f) (advance (advance s1))"
    using front_head [OF r(3)] op by (subst redir_loop.simps) (auto simp: Let_def)
  ultimately show "\<exists>c0 s0 s'. parse_primary (parse_cmd n) s = Some (Some c0, s0) \<and> redir_loop c0 s0 = redir_loop (CMD_REDIR c fd mode f) s' \<and> front s' ys"
    using r by auto
qed

lemma redir_parse:
  assumes "redir_ok xs c" "front s (xs @ ys)" "head_tok ys \<notin> {TOKEN_STRING} \<union> redir_ops" "msize s \<le> n"
  obtains s' where "parse_redir (parse_cmd n) s = Some (Some c, s')" "front s' ys"
proof -
  obtain c0 s0 s' where r: "parse_primary (parse_cmd n) s = Some (Some c0, s0)" "redir_loop c0 s0 = redir_loop c s'" "front s' ys"
    using redir_okD [OF assms(1,2) _ assms(4)] assms(3) by auto
  have "redir_loop c s' = (Some c, s')"
    using front_head [OF r(3)] assms(3) by (subst redir_loop.simps) (auto simp: Let_def)
  then show thesis
    using that r by (simp add: parse_redir_def)
qed

lemma redir_binary_ok:
  assumes "redir_ok xs c"
  shows "binary_ok xs c"
  unfolding binary_ok_def
proof (intro allI impI)
  fix s ys n m
  assume a: "front s (xs @ ys)" "head_tok ys \<notin> {TOKEN_STRING} \<union> redir_ops \<union> binary_ops" "msize s \<le> n" "msize s < m"
  obtain s' where "parse_redir (parse_cmd n) s = Some (Some c, s')" "front s' ys"
    using redir_parse [OF assms a(1) _ a(3)] a(2) by blast
  then show "\<exists>s'. parse_binary (parse_cmd n) m s = Some (Some c, s') \<and> front s' ys"
    using a(2,4) front_head [of s' ys] by (cases m) (auto simp: Let_def)
qed

lemma operator_ok:
  assumes "redir_ok xs l" "binary_ok zs r" "op \<in> binary_ops"
  shows "binary_ok (xs @ T op # zs) (if op = TOKEN_PIPE then CMD_PIPE l r else CMD_BINARY l r op)"
  unfolding binary_ok_def
proof (intro allI impI)
  fix s ys n m
  assume a: "front s ((xs @ T op # zs) @ ys)" "head_tok ys \<notin> {TOKEN_STRING} \<union> redir_ops \<union> binary_ops" "msize s \<le> n" "msize s < m"
  obtain k where k: "m = Suc k"
    using a(4) by (cases m) auto
  obtain s1 where s1: "parse_redir (parse_cmd n) s = Some (Some l, s1)" "front s1 (T op # zs @ ys)"
  proof (rule redir_parse [OF assms(1) _ _ a(3), of "T op # zs @ ys"])
    show "head_tok (T op # zs @ ys) \<notin> {TOKEN_STRING} \<union> redir_ops"
      using assms(3) by auto
  qed (use a(1) in simp_all)
  have p: "peek s1 = op"
    using s1(2) by simp
  have "returns (parse_redir (parse_cmd n) s) s"
    by (rule redir_returns) (rule rec_returns [OF a(3)])
  then have "msize s1 < msize s"
    using s1(1) by (auto simp: returns_def)
  moreover have "msize (advance s1) < msize s1"
    using p assms(3) by (intro msize_advance) auto
  ultimately have "msize (advance s1) \<le> n" "msize (advance s1) < k"
    using a(3,4) k by simp_all
  then obtain s' where "parse_binary (parse_cmd n) k (advance s1) = Some (Some r, s')" "front s' ys"
    using binary_okD [OF assms(2) front_advance [OF s1(2)] a(2)] by blast
  then show "\<exists>s'. parse_binary (parse_cmd n) m s = Some (Some (if op = TOKEN_PIPE then CMD_PIPE l r else CMD_BINARY l r op), s') \<and> front s' ys"
    using k s1 p assms(3) by (auto simp: Let_def)
qed

abbreviation opens :: "item list \<Rightarrow> bool" where
  "opens xs \<equiv> xs \<noteq> [] \<and> (head_tok xs = TOKEN_LPAREN \<or> head_tok xs = TOKEN_STRING)"

lemma head_tok_append [simp]: "xs \<noteq> [] \<Longrightarrow> head_tok (xs @ ys) = head_tok xs"
  by (cases xs rule: head_tok.cases) simp_all

lemma wrap_opens: "opens xs \<Longrightarrow> opens (wrap k c xs)"
  by (auto simp: wrap_def)

lemma cmd_items_opens: "wf_cmd c \<Longrightarrow> opens (cmd_items c)"
proof (induction c)
  case (CMD_EXEC ws)
  then show ?case
    by (cases ws) auto
qed (auto simp: wrap_opens)

text \<open>\<open>parse_list\<close> after its first command.\<close>

lemma list_first:
  assumes "binary_ok xs c" "opens xs" "front s (xs @ ys)" "head_tok ys \<notin> {TOKEN_STRING} \<union> redir_ops \<union> binary_ops" "msize s < n"
  obtains m s1 where "n = Suc m" "parse_cmd n s = parse_list (parse_cmd m) n s" "parse_binary (parse_cmd m) n s = Some (Some c, s1)"
    "front s1 ys" "msize s1 < msize s"
proof -
  obtain m where m: "n = Suc m" "msize s \<le> m"
    using assms(5) by (cases n) auto
  obtain s1 where s1: "parse_binary (parse_cmd m) n s = Some (Some c, s1)" "front s1 ys"
    using binary_okD [OF assms(1,3,4) m(2) assms(5)] by blast
  moreover have "returns (parse_binary (parse_cmd m) n s) s"
    by (rule binary_returns [OF assms(5)]) (rule rec_returns [OF m(2)])
  then have "msize s1 < msize s"
    using s1(1) by (auto simp: returns_def)
  moreover have "parse_cmd n s = parse_list (parse_cmd m) n s"
    using m(1) assms(2) front_head [OF assms(3)] by auto
  ultimately show thesis
    using that m(1) by blast
qed

lemma binary_list_ok:
  assumes "binary_ok xs c" "opens xs"
  shows "list_ok xs c"
  unfolding list_ok_def
proof (intro allI impI)
  fix s ys n
  assume a: "front s (xs @ ys)" "head_tok ys \<in> {TOKEN_EOF, TOKEN_RPAREN}" "msize s < n"
  have "head_tok ys \<notin> {TOKEN_STRING} \<union> redir_ops \<union> binary_ops"
    using a(2) by auto
  from list_first [OF assms a(1) this a(3)] obtain m s1
    where "parse_cmd n s = parse_list (parse_cmd m) n s" "parse_binary (parse_cmd m) n s = Some (Some c, s1)" "front s1 ys" .
  then show "\<exists>s'. parse_cmd n s = Some (Some c, s') \<and> front s' ys"
    using a(2) front_head [of s1 ys] by (auto simp: parse_list_def)
qed

lemma sequence_ok:
  assumes "binary_ok xs l" "opens xs" "list_ok zs r"
  shows "list_ok (xs @ T TOKEN_SEMI # zs) (CMD_LIST l r)"
  unfolding list_ok_def
proof (intro allI impI)
  fix s ys n
  assume a: "front s ((xs @ T TOKEN_SEMI # zs) @ ys)" "head_tok ys \<in> {TOKEN_EOF, TOKEN_RPAREN}" "msize s < n"
  have "front s (xs @ T TOKEN_SEMI # zs @ ys)" "head_tok (T TOKEN_SEMI # zs @ ys) \<notin> {TOKEN_STRING} \<union> redir_ops \<union> binary_ops"
    using a(1) by simp_all
  from list_first [OF assms(1,2) this a(3)] obtain m s1
    where s1: "n = Suc m" "parse_cmd n s = parse_list (parse_cmd m) n s" "parse_binary (parse_cmd m) n s = Some (Some l, s1)"
      "front s1 (T TOKEN_SEMI # zs @ ys)" "msize s1 < msize s" .
  have p: "peek s1 = TOKEN_SEMI"
    using s1(4) by simp
  have "msize (advance s1) < msize s1"
    using p by (intro msize_advance) simp
  then have "msize (advance s1) < m"
    using a(3) s1(1,5) by simp
  then obtain s' where "parse_cmd m (advance s1) = Some (Some r, s')" "front s' ys"
    using list_okD [OF assms(3) front_advance [OF s1(4)] a(2)] by blast
  then show "\<exists>s'. parse_cmd n s = Some (Some (CMD_LIST l r), s') \<and> front s' ys"
    using s1(2,3) p by (simp add: parse_list_def Let_def)
qed

lemma background_ok:
  assumes "binary_ok xs c" "opens xs"
  shows "list_ok (xs @ [T TOKEN_BACK]) (CMD_BACK c)"
  unfolding list_ok_def
proof (intro allI impI)
  fix s ys n
  assume a: "front s ((xs @ [T TOKEN_BACK]) @ ys)" "head_tok ys \<in> {TOKEN_EOF, TOKEN_RPAREN}" "msize s < n"
  have "front s (xs @ T TOKEN_BACK # ys)" "head_tok (T TOKEN_BACK # ys) \<notin> {TOKEN_STRING} \<union> redir_ops \<union> binary_ops"
    using a(1) by simp_all
  from list_first [OF assms(1,2) this a(3)] obtain m s1
    where s1: "n = Suc m" "parse_cmd n s = parse_list (parse_cmd m) n s" "parse_binary (parse_cmd m) n s = Some (Some c, s1)"
      "front s1 (T TOKEN_BACK # ys)" "msize s1 < msize s" .
  have p: "peek s1 = TOKEN_BACK"
    using s1(4) by simp
  have f: "front (advance s1) ys"
    using s1(4) by (rule front_advance)
  obtain k where k: "m = Suc k"
    using a(3) s1(1,5) by (cases m) auto
  have "parse_cmd m (advance s1) = Some (None, advance s1)"
    using front_head [OF f] a(2) k by auto
  then show "\<exists>s'. parse_cmd n s = Some (Some (CMD_BACK c), s') \<and> front s' ys"
    using s1(2,3) p f by (simp add: parse_list_def Let_def)
qed

lemma parse_printed:
  assumes "wf_cmd c"
  shows "redir_ok (wrap 2 c (cmd_items c)) c \<and> binary_ok (wrap 1 c (cmd_items c)) c \<and> list_ok (cmd_items c) c"
  using assms
proof (induction c)
  case (CMD_EXEC ws)
  then have "redir_ok (map W ws) (CMD_EXEC ws)"
    by (intro prim_redir_ok exec_prim_ok)
  then show ?case
    using cmd_items_opens [OF CMD_EXEC] by (simp add: wrap_def redir_binary_ok binary_list_ok)
next
  case (CMD_REDIR c fd mode f)
  then have "redir_ok (cmd_items (CMD_REDIR c fd mode f)) (CMD_REDIR c fd mode f)"
    by (simp add: redirect_ok)
  then show ?case
    using cmd_items_opens [OF CMD_REDIR(2)] by (simp add: wrap_def redir_binary_ok binary_list_ok)
next
  case (CMD_LIST l r)
  then have "list_ok (cmd_items (CMD_LIST l r)) (CMD_LIST l r)"
    by (simp add: sequence_ok wrap_opens cmd_items_opens)
  then show ?case
    using paren_prim_ok [of "cmd_items (CMD_LIST l r)" "CMD_LIST l r"] by (simp add: wrap_def redir_binary_ok prim_redir_ok)
next
  case (CMD_BACK c)
  then have "list_ok (cmd_items (CMD_BACK c)) (CMD_BACK c)"
    by (simp add: background_ok wrap_opens cmd_items_opens)
  then show ?case
    using paren_prim_ok [of "cmd_items (CMD_BACK c)" "CMD_BACK c"] by (simp add: wrap_def redir_binary_ok prim_redir_ok)
next
  case (CMD_PIPE l r)
  then have "binary_ok (cmd_items (CMD_PIPE l r)) (CMD_PIPE l r)"
    using operator_ok [of "wrap 2 l (cmd_items l)" l "wrap 1 r (cmd_items r)" r TOKEN_PIPE] by simp
  moreover from this have "list_ok (cmd_items (CMD_PIPE l r)) (CMD_PIPE l r)"
    using cmd_items_opens [OF CMD_PIPE(3)] by (rule binary_list_ok)
  ultimately show ?case
    using paren_prim_ok [of "cmd_items (CMD_PIPE l r)" "CMD_PIPE l r"] by (simp add: wrap_def prim_redir_ok)
next
  case (CMD_BINARY l r op)
  then have "binary_ok (cmd_items (CMD_BINARY l r op)) (CMD_BINARY l r op)"
    using operator_ok [of "wrap 2 l (cmd_items l)" l "wrap 1 r (cmd_items r)" r op] by auto
  moreover from this have "list_ok (cmd_items (CMD_BINARY l r op)) (CMD_BINARY l r op)"
    using cmd_items_opens [OF CMD_BINARY(3)] by (rule binary_list_ok)
  ultimately show ?case
    using paren_prim_ok [of "cmd_items (CMD_BINARY l r op)" "CMD_BINARY l r op"] by (simp add: wrap_def prim_redir_ok)
qed

lemma wf_cmd_items: "wf_cmd c \<Longrightarrow> list_all wf_item (cmd_items c)"
  by (induction c) (auto simp: wrap_def redir_tok_def list_all_iff)

text \<open>
  C34. Every command that the parser can produce, printed with its words in double quotes, its symbols set off by spaces and with parentheses where the
  grammar needs them, is parsed back to the same command, without an error message and up to the end of the line.
\<close>

theorem print_parse_roundtrip:
  assumes "wf_cmd c"
  shows "\<exists>s. sh_parse (print_cmd c) = Some (Some c, s) \<and> peek s = TOKEN_EOF \<and> errs s = [] \<and> \<not> wild s"
proof -
  let ?buf = "print_cmd c"
  have f: "front (sh_start ?buf) (cmd_items c @ [])"
    using front_start [OF wf_cmd_items [OF assms]] by (simp add: print_cmd_def)
  have "msize (sh_start ?buf) < length ?buf + 1"
    using msize_start [of ?buf] by simp
  then obtain s where "parse_cmd (length ?buf + 1) (sh_start ?buf) = Some (Some c, s)" "front s []"
    using list_okD [OF _ f] parse_printed [OF assms] by (metis head_tok.simps(1) insertI1)
  then show ?thesis
    by (simp add: sh_parse_def)
qed

theorem print_parse_roundtrip_witness:
  "\<exists>c s. c = CMD_LIST (CMD_BACK (CMD_EXEC [[97, 34]])) (CMD_BINARY (CMD_REDIR (CMD_EXEC [[98], []]) 1 (O_WRONLY OR O_CREAT) [99])
       (CMD_EXEC [[100]]) TOKEN_OR)
     \<and> wf_cmd c \<and> sh_parse (print_cmd c) = Some (Some c, s) \<and> errs s = []"
  using print_parse_roundtrip [of "CMD_LIST (CMD_BACK (CMD_EXEC [[97, 34]])) (CMD_BINARY (CMD_REDIR (CMD_EXEC [[98], []]) 1
    (O_WRONLY OR O_CREAT) [99]) (CMD_EXEC [[100]]) TOKEN_OR)"]
  by (auto simp: MAX_ARGV_def)

section \<open>Errors\<close>

text \<open>
  The message after \<open>;\<close> does not keep \<open>parse_list\<close> from returning its first command: the line \<open>a ; b >\<close> gives
  \<open>a\<close> as a correct command.
\<close>

lemma error_after_semicolon:
  "map_option (\<lambda>(c, s). (c, errs s)) (sh_parse [97, 32, 59, 32, 98, 32, 62]) = Some (Some (CMD_EXEC [[97]]), [EXPECTED_FILE_PATH])"
  by code_simp

text \<open>A backslash is dropped in single quotes too.\<close>

lemma backslash_in_single_quotes:
  "map_option fst (sh_parse [39, 97, 92, 98, 39]) = Some (Some (CMD_EXEC [[97, 98]]))"
  by code_simp

text \<open>A single quote character at the end of the line is a string of length -1.\<close>

lemma lone_quote_runs_wild: "map_option (\<lambda>(c, s). wild s) (sh_parse [34]) = Some True"
  by code_simp

end
