(* ===== verification/CString.thy ===== *)
theory CString
  imports Prelude
begin

text \<open>
  The memory and string routines of \<open>lib/src/string.c\<close> over a byte-addressed 32-bit memory, with
  the source's pointer walks. Loops that stop at a terminating 0 byte may run forever on a memory
  that has none, so they are partial functions; the lemmas show that they return on C strings.

  \<open>cstr m p s\<close>: at address \<open>p\<close> the memory holds the bytes \<open>s\<close>, none of them 0, followed by a 0.
  \<open>span p n\<close>: the \<open>n\<close> addresses from \<open>p\<close> on.
\<close>

type_synonym bmem = "u32 \<Rightarrow> u8"

section \<open>The routines\<close>

fun memset_loop :: "nat \<Rightarrow> u32 \<Rightarrow> u8 \<Rightarrow> bmem \<Rightarrow> bmem" where
  "memset_loop 0 s v m = m"
| "memset_loop (Suc n) s v m = memset_loop n (s + 1) v (m(s := v))"

definition memset :: "u32 \<Rightarrow> u8 \<Rightarrow> u32 \<Rightarrow> bmem \<Rightarrow> u32 \<times> bmem" where
  "memset dst v count m = (dst, memset_loop (unat count) dst v m)"

fun memcpy_loop :: "nat \<Rightarrow> u32 \<Rightarrow> u32 \<Rightarrow> bmem \<Rightarrow> bmem" where
  "memcpy_loop 0 tmp s m = m"
| "memcpy_loop (Suc n) tmp s m = memcpy_loop n (tmp + 1) (s + 1) (m(tmp := m s))"

definition memcpy :: "u32 \<Rightarrow> u32 \<Rightarrow> u32 \<Rightarrow> bmem \<Rightarrow> u32 \<times> bmem" where
  "memcpy dst src count m = (dst, memcpy_loop (unat count) dst src m)"

text \<open>\<open>memcmp\<close> returns a \<open>uint8_t\<close>, so its \<open>-1\<close> is 255.\<close>

fun memcmp_loop :: "nat \<Rightarrow> u32 \<Rightarrow> u32 \<Rightarrow> bmem \<Rightarrow> u8" where
  "memcmp_loop 0 su1 su2 m = 0"
| "memcmp_loop (Suc n) su1 su2 m =
     (if m su1 \<noteq> m su2 then (if m su1 > m su2 then 1 else - 1)
      else memcmp_loop n (su1 + 1) (su2 + 1) m)"

definition memcmp :: "u32 \<Rightarrow> u32 \<Rightarrow> u32 \<Rightarrow> bmem \<Rightarrow> u8" where
  "memcmp cs ct count m = memcmp_loop (unat count) cs ct m"

partial_function (option) strlen_loop :: "bmem \<Rightarrow> u32 \<Rightarrow> u32 option" where
  "strlen_loop m str = (if m str \<noteq> 0 then strlen_loop m (str + 1) else Some str)"

definition strlen :: "u32 \<Rightarrow> bmem \<Rightarrow> u32 option" where
  "strlen str m = do { e \<leftarrow> strlen_loop m str; Some (e - str) }"

partial_function (option) strcpy_loop :: "bmem \<Rightarrow> u32 \<Rightarrow> u32 \<Rightarrow> (u32 \<times> bmem) option" where
  "strcpy_loop m dst src =
     (let c = m src; m' = m(dst := c)
      in if c \<noteq> 0 then strcpy_loop m' (dst + 1) (src + 1) else Some (dst + 1, m'))"

definition strcpy :: "u32 \<Rightarrow> u32 \<Rightarrow> bmem \<Rightarrow> (u32 \<times> bmem) option" where
  "strcpy dst src m = do { (d, m') \<leftarrow> strcpy_loop m dst src; Some (d - 1, m') }"

text \<open>
  The loop \<open>while (len1 >= len2)\<close> of \<open>strstr\<close> counts \<open>len1\<close> down; it is only entered with
  \<open>len2\<close> not 0, so it stops before \<open>len1\<close> would wrap.
\<close>

fun strstr_loop :: "nat \<Rightarrow> u32 \<Rightarrow> u32 \<Rightarrow> u32 \<Rightarrow> bmem \<Rightarrow> u32" where
  "strstr_loop 0 haystack needle len2 m = 0"
| "strstr_loop (Suc l) haystack needle len2 m =
     (if Suc l \<ge> unat len2 then
        if memcmp haystack needle len2 m = 0 then haystack
        else strstr_loop l (haystack + 1) needle len2 m
      else 0)"

definition strstr :: "u32 \<Rightarrow> u32 \<Rightarrow> bmem \<Rightarrow> u32 option" where
  "strstr haystack needle m = do {
     len2 \<leftarrow> strlen needle m;
     if len2 = 0 then Some haystack
     else do {
       len1 \<leftarrow> strlen haystack m;
       Some (strstr_loop (unat len1) haystack needle len2 m)
     }
   }"

partial_function (option) strchr :: "bmem \<Rightarrow> u32 \<Rightarrow> u8 \<Rightarrow> u32 option" where
  "strchr m s ch =
     (if m s \<noteq> 0 then if m s = ch then Some s else strchr m (s + 1) ch else Some 0)"

partial_function (option) strcmp :: "bmem \<Rightarrow> u32 \<Rightarrow> u32 \<Rightarrow> int option" where
  "strcmp m str1 str2 =
     (let ch1 = m str1; ch2 = m str2
      in if ch1 \<noteq> ch2 then Some (if ch1 > ch2 then 1 else - 1)
         else if ch1 = 0 then Some 0
         else strcmp m (str1 + 1) (str2 + 1))"

definition strcat :: "u32 \<Rightarrow> u32 \<Rightarrow> bmem \<Rightarrow> (u32 \<times> bmem) option" where
  "strcat dst src m = do {
     e \<leftarrow> strlen_loop m dst;
     (_, m') \<leftarrow> strcpy_loop m e src;
     Some (dst, m')
   }"

text \<open>\<open>while (n-- != 0 && (*dst++ = *src++) != '\0')\<close>: stops after \<open>n\<close> bytes without a 0.\<close>

fun strncat_loop :: "nat \<Rightarrow> u32 \<Rightarrow> u32 \<Rightarrow> bmem \<Rightarrow> bmem" where
  "strncat_loop 0 dst src m = m"
| "strncat_loop (Suc n) dst src m =
     (let c = m src; m' = m(dst := c)
      in if c \<noteq> 0 then strncat_loop n (dst + 1) (src + 1) m' else m')"

definition strncat :: "u32 \<Rightarrow> u32 \<Rightarrow> u32 \<Rightarrow> bmem \<Rightarrow> (u32 \<times> bmem) option" where
  "strncat dst src n m = do {
     e \<leftarrow> strlen_loop m dst;
     Some (dst, strncat_loop (unat n) e src m)
   }"

section \<open>C strings and address ranges\<close>

fun cstr :: "bmem \<Rightarrow> u32 \<Rightarrow> u8 list \<Rightarrow> bool" where
  "cstr m p [] = (m p = 0)"
| "cstr m p (c # s) = (m p = c \<and> c \<noteq> 0 \<and> cstr m (p + 1) s)"

definition span :: "u32 \<Rightarrow> nat \<Rightarrow> u32 set" where
  "span p n = (\<lambda>i. p + of_nat i) ` {..<n}"

lemma span_0 [simp]: "span p 0 = {}"
  by (simp add: span_def)

lemma span_Suc: "span p (Suc n) = insert p (span (p + 1) n)"
proof -
  have "{..<Suc n} = insert 0 (Suc ` {..<n})"
    by (auto simp: image_iff less_Suc_eq_0_disj)
  then show ?thesis
    by (simp add: span_def image_image algebra_simps)
qed

lemma span_add: "span p (i + k) = span p i \<union> span (p + of_nat i) k"
  by (induction i arbitrary: p) (auto simp: span_Suc algebra_simps)

lemma in_span: "i < n \<Longrightarrow> p + of_nat i \<in> span p n"
  by (auto simp: span_def)

lemma span_mono: "n \<le> k \<Longrightarrow> span p n \<subseteq> span p k"
  by (auto simp: span_def)

lemma not_in_later_span:
  assumes "n < 2 ^ 32"
  shows "p \<notin> span (p + 1) n"
proof
  assume "p \<in> span (p + 1) n"
  then obtain i where "i < n" and "p = p + 1 + of_nat i"
    by (auto simp: span_def)
  then have "(of_nat (Suc i) :: u32) = of_nat 0"
    by (simp add: algebra_simps)
  with \<open>i < n\<close> assms show False
    by (subst (asm) of_nat_u32_eq_iff) auto
qed

lemma cstr_cong:
  assumes "\<And>x. x \<in> span p (Suc (length s)) \<Longrightarrow> m' x = m x"
  shows "cstr m' p s = cstr m p s"
  using assms
proof (induction s arbitrary: p)
  case (Cons c s)
  from Cons.prems have "cstr m' (p + 1) s = cstr m (p + 1) s"
    by (intro Cons.IH) (simp add: span_Suc)
  moreover from Cons.prems have "m' p = m p"
    by (simp add: span_Suc)
  ultimately show ?case by simp
qed (simp add: span_Suc)

lemma cstr_unique:
  assumes "cstr m p s" and "cstr m p t"
  shows "s = t"
  using assms
proof (induction s arbitrary: p t)
  case Nil
  then show ?case by (cases t) auto
next
  case (Cons c s)
  then show ?case by (cases t) auto
qed

lemma cstr_bytes:
  assumes "cstr m p s"
  shows "(\<forall>c \<in> set s. c \<noteq> 0)" and "i < length s \<Longrightarrow> m (p + of_nat i) = s ! i"
    and "m (p + of_nat (length s)) = 0"
  using assms
proof (induction s arbitrary: p i)
  case (Cons c s)
  { case 1 then show ?case using Cons.IH(1) by auto }
  { case 2 then show ?case using Cons.IH(2) [of "i - 1" "p + 1"]
      by (cases i) (auto simp: algebra_simps) }
  { case 3 then show ?case using Cons.IH(3) [of "p + 1"] by (auto simp: algebra_simps) }
qed auto

section \<open>Copying\<close>

lemma memset_frame: "x \<notin> span dst n \<Longrightarrow> memset_loop n dst v m x = m x"
  by (induction n arbitrary: dst m) (auto simp: span_Suc)

lemma memset_fill: "x \<in> span dst n \<Longrightarrow> memset_loop n dst v m x = v"
proof (induction n arbitrary: dst m)
  case (Suc n)
  then show ?case
    by (cases "x \<in> span (dst + 1) n") (auto simp: span_Suc memset_frame)
qed simp

lemma memcpy_frame: "x \<notin> span dst n \<Longrightarrow> memcpy_loop n dst src m x = m x"
  by (induction n arbitrary: dst src m) (auto simp: span_Suc)

lemma memcpy_copies:
  assumes "span dst n \<inter> span src n = {}" and "n < 2 ^ 32" and "i < n"
  shows "memcpy_loop n dst src m (dst + of_nat i) = m (src + of_nat i)"
  using assms
proof (induction n arbitrary: dst src m i)
  case (Suc n)
  have tail: "span (dst + 1) n \<inter> span (src + 1) n = {}" and d: "dst \<notin> span (src + 1) n"
    using Suc.prems by (auto simp: span_Suc)
  show ?case
  proof (cases i)
    case 0
    with Suc.prems not_in_later_span [of n dst] show ?thesis
      by (simp add: memcpy_frame)
  next
    case (Suc j)
    then have j: "j < n" using \<open>i < Suc n\<close> by simp
    then have "src + 1 + of_nat j \<noteq> dst"
      using d in_span [of j n "src + 1"] by auto
    with Suc.IH [OF tail _ j, of "m(dst := m src)"] Suc Suc.prems(2) show ?thesis
      by (simp add: algebra_simps fun_upd_def)
  qed
qed simp

lemma strlen_loop_cstr: "cstr m p s \<Longrightarrow> strlen_loop m p = Some (p + of_nat (length s))"
proof (induction s arbitrary: p)
  case Nil
  then show ?case by (simp add: strlen_loop.simps [of m p])
next
  case (Cons c s)
  then show ?case by (simp add: strlen_loop.simps [of m p] algebra_simps)
qed

lemma strlen_cstr: "cstr m p s \<Longrightarrow> strlen p m = Some (of_nat (length s))"
  by (simp add: strlen_def strlen_loop_cstr)

text \<open>
  Copying a string to a disjoint place: the copy is the string, nothing outside the destination
  range changes, and the returned pointer is one past the copied 0.
\<close>

lemma strcpy_loop_cstr:
  assumes "cstr m src s" and "span dst (Suc (length s)) \<inter> span src (Suc (length s)) = {}"
    and "length s < 2 ^ 32 - 1"
  shows "\<exists>m'. strcpy_loop m dst src = Some (dst + of_nat (length s) + 1, m')
           \<and> cstr m' dst s \<and> (\<forall>x. x \<notin> span dst (Suc (length s)) \<longrightarrow> m' x = m x)"
  using assms
proof (induction s arbitrary: dst src m)
  case Nil
  then show ?case
    by (subst strcpy_loop.simps) (auto simp: span_Suc)
next
  case (Cons c s)
  define m1 where "m1 = m(dst := c)"
  have notin: "dst \<notin> span (src + 1) (Suc (length s))"
    and disj: "span (dst + 1) (Suc (length s)) \<inter> span (src + 1) (Suc (length s)) = {}"
    using Cons.prems(2)
    by (auto simp: span_Suc [of dst "Suc (length s)"] span_Suc [of src "Suc (length s)"])
  have "cstr m1 (src + 1) s = cstr m (src + 1) s"
    using notin by (intro cstr_cong) (auto simp: m1_def)
  with Cons.prems have "cstr m1 (src + 1) s" by simp
  from Cons.IH [OF this disj] Cons.prems(3) obtain m' where
    m': "strcpy_loop m1 (dst + 1) (src + 1) = Some (dst + 1 + of_nat (length s) + 1, m')"
      "cstr m' (dst + 1) s" "\<forall>x. x \<notin> span (dst + 1) (Suc (length s)) \<longrightarrow> m' x = m1 x"
    by auto
  have "dst \<notin> span (dst + 1) (Suc (length s))"
    using Cons.prems(3) by (intro not_in_later_span) simp
  with m'(3) have "m' dst = c" by (simp add: m1_def)
  moreover have "strcpy_loop m dst src = Some (dst + of_nat (length (c # s)) + 1, m')"
    using m'(1) Cons.prems(1)
    by (simp add: strcpy_loop.simps [of m dst src] Let_def algebra_simps m1_def)
  ultimately show ?case
    using m'(2,3) Cons.prems(1) by (auto simp: m1_def span_Suc [of dst "Suc (length s)"])
qed

lemma strcat_cstr:
  assumes a: "cstr m dst s" and b: "cstr m src t"
    and disj: "span dst (Suc (length s + length t)) \<inter> span src (Suc (length t)) = {}"
    and len: "length s + length t < 2 ^ 32 - 1"
  shows "\<exists>m'. strcat dst src m = Some (dst, m') \<and> cstr m' dst (s @ t)
           \<and> (\<forall>x. x \<notin> span (dst + of_nat (length s)) (Suc (length t)) \<longrightarrow> m' x = m x)"
proof -
  let ?e = "dst + of_nat (length s)"
  have sub: "span dst (Suc (length s + length t)) = span dst (length s) \<union> span ?e (Suc (length t))"
    using span_add [of dst "length s" "Suc (length t)"] by simp
  have "span ?e (Suc (length t)) \<inter> span src (Suc (length t)) = {}"
    using disj sub by auto
  from strcpy_loop_cstr [OF b this] len obtain m' where
    m': "strcpy_loop m ?e src = Some (?e + of_nat (length t) + 1, m')" "cstr m' ?e t"
      "\<forall>x. x \<notin> span ?e (Suc (length t)) \<longrightarrow> m' x = m x"
    by auto
  have pre: "m' (dst + of_nat i) = s ! i" if "i < length s" for i
  proof -
    have "dst + of_nat i \<notin> span ?e (Suc (length t))"
    proof
      assume "dst + of_nat i \<in> span ?e (Suc (length t))"
      then obtain j where "j < Suc (length t)" and "(of_nat i :: u32) = of_nat (length s + j)"
        by (auto simp: span_def)
      with that len show False
        by (subst (asm) of_nat_u32_eq_iff) auto
    qed
    then show ?thesis
      using m'(3) cstr_bytes(2) [OF a that] by simp
  qed
  have "cstr m' dst (s @ t)"
    using pre m'(2) cstr_bytes(1) [OF a]
  proof (induction s arbitrary: dst)
    case (Cons c s)
    have "cstr m' (dst + 1) (s @ t)"
    proof (rule Cons.IH)
      fix i assume "i < length s"
      then show "m' (dst + 1 + of_nat i) = s ! i"
        using Cons.prems(1) [of "Suc i"] by (simp add: algebra_simps)
    qed (use Cons.prems in \<open>auto simp: algebra_simps\<close>)
    with Cons.prems(1) [of 0] Cons.prems(3) show ?case by simp
  qed simp
  with m' show ?thesis
    by (simp add: strcat_def strlen_loop_cstr [OF a])
qed

section \<open>Comparing and searching\<close>

text \<open>The order \<open>strcmp\<close> computes: byte-wise, unsigned, a proper prefix is smaller.\<close>

fun byte_cmp :: "u8 list \<Rightarrow> u8 list \<Rightarrow> int" where
  "byte_cmp [] [] = 0"
| "byte_cmp [] (_ # _) = - 1"
| "byte_cmp (_ # _) [] = 1"
| "byte_cmp (a # s) (b # t) = (if a = b then byte_cmp s t else if a > b then 1 else - 1)"

lemma byte_cmp_0 [simp]: "byte_cmp s t = 0 \<longleftrightarrow> s = t"
  by (induction s t rule: byte_cmp.induct) auto

lemma byte_cmp_swap: "byte_cmp t s = - byte_cmp s t"
  by (induction s t rule: byte_cmp.induct) auto

lemma strcmp_cstr:
  assumes "cstr m p s" and "cstr m q t"
  shows "strcmp m p q = Some (byte_cmp s t)"
  using assms
proof (induction s t arbitrary: p q rule: byte_cmp.induct)
  case 1
  then show ?case by (subst strcmp.simps) simp
next
  case (2 b t)
  then have "m p = 0" and "m q = b" and "b \<noteq> 0" by simp_all
  then show ?case by (subst strcmp.simps) (simp add: Let_def)
next
  case (3 a s)
  then have "m q = 0" and "m p = a" and "a \<noteq> 0" by simp_all
  then show ?case by (subst strcmp.simps) (simp add: Let_def word_gt_0)
next
  case (4 a s b t)
  then have eqs: "m p = a" "m q = b" "a \<noteq> 0" by simp_all
  show ?case
  proof (cases "a = b")
    case True
    with 4 have "strcmp m (p + 1) (q + 1) = Some (byte_cmp s t)" by simp
    with True eqs show ?thesis by (subst strcmp.simps) (simp add: Let_def)
  next
    case False
    with eqs show ?thesis by (subst strcmp.simps) (simp add: Let_def)
  qed
qed

lemma memcmp_loop_0:
  "memcmp_loop n p q m = 0 \<longleftrightarrow> (\<forall>i < n. m (p + of_nat i) = m (q + of_nat i))"
proof (induction n arbitrary: p q)
  case (Suc n)
  show ?case
    unfolding All_less_Suc2 by (simp add: Suc.IH algebra_simps)
qed simp

lemma strchr_cstr:
  assumes "cstr m p s"
  shows "strchr m p c =
    Some (if c \<in> set s then p + of_nat (length (takeWhile (\<lambda>x. x \<noteq> c) s)) else 0)"
  using assms
proof (induction s arbitrary: p)
  case Nil
  then show ?case by (subst strchr.simps) simp
next
  case (Cons a s)
  then have "m p = a" "a \<noteq> 0"
    and "strchr m (p + 1) c =
      Some (if c \<in> set s then p + 1 + of_nat (length (takeWhile (\<lambda>x. x \<noteq> c) s)) else 0)"
    by simp_all
  then show ?case
    by (subst strchr.simps) (auto simp: algebra_simps)
qed

text \<open>Reference for \<open>strstr\<close>: the index of the first occurrence of \<open>t\<close> in \<open>s\<close>.\<close>

fun first_occ :: "u8 list \<Rightarrow> u8 list \<Rightarrow> nat option" where
  "first_occ t [] = None"
| "first_occ t (c # s) =
     (if take (length t) (c # s) = t then Some 0 else map_option Suc (first_occ t s))"

lemma first_occ_None_iff:
  "t \<noteq> [] \<Longrightarrow> first_occ t s = None \<longleftrightarrow> (\<nexists>us vs. s = us @ t @ vs)"
proof (induction s)
  case (Cons c s)
  have "(\<exists>us vs. c # s = us @ t @ vs) \<longleftrightarrow>
      take (length t) (c # s) = t \<or> (\<exists>us vs. s = us @ t @ vs)"
  proof
    assume "\<exists>us vs. c # s = us @ t @ vs"
    then obtain us vs where e: "c # s = us @ t @ vs" by blast
    show "take (length t) (c # s) = t \<or> (\<exists>us vs. s = us @ t @ vs)"
      using e by (cases us) auto
  next
    assume "take (length t) (c # s) = t \<or> (\<exists>us vs. s = us @ t @ vs)"
    then show "\<exists>us vs. c # s = us @ t @ vs"
      by (metis append_Cons append_Nil append_take_drop_id)
  qed
  with Cons show ?case by simp
qed simp

lemma first_occ_short: "length s < length t \<Longrightarrow> first_occ t s = None"
proof (induction s)
  case (Cons c s)
  then have "take (length t) (c # s) \<noteq> t"
    by (metis length_take min.absorb1 nat_less_le)
  with Cons show ?case by simp
qed simp

lemma memcmp_prefix:
  assumes "cstr m p s" and "cstr m q t" and "length t \<le> length s" and "length t < 2 ^ 32"
  shows "memcmp p q (of_nat (length t)) m = 0 \<longleftrightarrow> take (length t) s = t"
proof -
  have "take (length t) s = t \<longleftrightarrow> (\<forall>i < length t. s ! i = t ! i)"
    using assms(3) by (simp add: list_eq_iff_nth_eq)
  then show ?thesis
    using assms(3) cstr_bytes(2) [OF assms(1)] cstr_bytes(2) [OF assms(2)]
    by (simp add: memcmp_def memcmp_loop_0 unat_of_nat_u32 [OF assms(4)])
qed

lemma strstr_loop_cstr:
  assumes "cstr m p s" and "cstr m q t" and "t \<noteq> []" and "length t < 2 ^ 32"
  shows "strstr_loop (length s) p q (of_nat (length t)) m =
    (case first_occ t s of None \<Rightarrow> 0 | Some i \<Rightarrow> p + of_nat i)"
  using assms(1)
proof (induction s arbitrary: p)
  case (Cons c s)
  show ?case
  proof (cases "length t \<le> Suc (length s)")
    case True
    then have "memcmp p q (of_nat (length t)) m = 0 \<longleftrightarrow> take (length t) (c # s) = t"
      using memcmp_prefix [OF Cons.prems assms(2) _ assms(4)] by simp
    moreover have "strstr_loop (length s) (p + 1) q (of_nat (length t)) m =
        (case first_occ t s of None \<Rightarrow> 0 | Some i \<Rightarrow> p + 1 + of_nat i)"
      using Cons by simp
    ultimately show ?thesis
      using True by (simp add: unat_of_nat_u32 [OF assms(4)] algebra_simps split: option.split)
  next
    case False
    then have "first_occ t (c # s) = None"
      by (intro first_occ_short) simp
    with False show ?thesis
      by (simp add: unat_of_nat_u32 [OF assms(4)])
  qed
qed simp

lemma strstr_cstr:
  assumes "cstr m p s" and "cstr m q t" and "length s < 2 ^ 32" and "length t < 2 ^ 32"
  shows "strstr p q m = Some (if t = [] then p
    else case first_occ t s of None \<Rightarrow> 0 | Some i \<Rightarrow> p + of_nat i)"
proof -
  have "(of_nat (length t) :: u32) = of_nat 0 \<longleftrightarrow> length t = 0"
    using assms(4) by (intro of_nat_u32_eq_iff) simp_all
  then show ?thesis
    using strlen_cstr [OF assms(1)] strlen_cstr [OF assms(2)] strstr_loop_cstr [OF assms(1,2)] assms(3,4)
    by (simp add: strstr_def unat_of_nat_u32)
qed

lemma strncat_unterminated:
  assumes "cstr m dst s" and "cstr m src t" and "n \<le> length t" and "n < 2 ^ 32"
    and "span (dst + of_nat (length s)) n \<inter> span src (Suc (length t)) = {}"
  shows "\<exists>m'. strncat dst src (of_nat n) m = Some (dst, m')
    \<and> m' (dst + of_nat (length s) + of_nat n) = m (dst + of_nat (length s) + of_nat n)"
proof -
  have frame: "x \<notin> span d k \<Longrightarrow> strncat_loop k d q m x = m x" for x d q k m
    by (induction k arbitrary: d q m) (auto simp: span_Suc Let_def)
  let ?e = "dst + of_nat (length s)"
  have "?e + of_nat n \<notin> span ?e n"
  proof
    assume "?e + of_nat n \<in> span ?e n"
    then obtain i where "i < n" "(of_nat n :: u32) = of_nat i"
      by (auto simp: span_def)
    with assms(4) show False by (subst (asm) of_nat_u32_eq_iff) auto
  qed
  then show ?thesis
    by (simp add: strncat_def strlen_loop_cstr [OF assms(1)] unat_of_nat_u32 [OF assms(4)] frame)
qed

section \<open>Properties\<close>

text \<open>A memory for the witnesses: "ab" at address 16 and "b" at address 32, 0 elsewhere.\<close>

definition demo_mem :: bmem where
  "demo_mem = (\<lambda>_. 0)(16 := 97, 17 := 98, 32 := 98)"

lemma demo_cstr: "cstr demo_mem 16 [97, 98]" "cstr demo_mem 32 [98]" "cstr demo_mem 64 []"
  by (simp_all add: demo_mem_def)

text \<open>
  Copying. \<open>memcpy\<close> copies exactly \<open>n\<close> bytes between disjoint ranges; \<open>strcpy\<close> copies a string
  and its terminator and returns a pointer to the new terminator; \<open>strcat\<close> appends a string to
  another. Each returns, and none writes outside its destination.
\<close>

theorem string_copies:
  assumes "cstr m src t" and "cstr m dst s"
    and "span dst (Suc (length s + length t)) \<inter> span src (Suc (length t)) = {}"
    and "length s + length t < 2 ^ 32 - 1"
  shows "(\<exists>m'. strcat dst src m = Some (dst, m') \<and> cstr m' dst (s @ t)
            \<and> (\<forall>x. x \<notin> span (dst + of_nat (length s)) (Suc (length t)) \<longrightarrow> m' x = m x))
    \<and> (\<exists>m'. strcpy dst src m = Some (dst + of_nat (length t), m') \<and> cstr m' dst t
            \<and> (\<forall>x. x \<notin> span dst (Suc (length t)) \<longrightarrow> m' x = m x))
    \<and> (\<exists>m'. memcpy dst src (of_nat (length t)) m = (dst, m')
            \<and> (\<forall>i < length t. m' (dst + of_nat i) = t ! i)
            \<and> (\<forall>x. x \<notin> span dst (length t) \<longrightarrow> m' x = m x))"
proof (intro conjI)
  have part: "span dst (Suc (length t)) \<subseteq> span dst (Suc (length s + length t))"
    by (rule span_mono) simp
  then have disj: "span dst (Suc (length t)) \<inter> span src (Suc (length t)) = {}"
    using assms(3) by blast
  then show "\<exists>m'. strcpy dst src m = Some (dst + of_nat (length t), m') \<and> cstr m' dst t
      \<and> (\<forall>x. x \<notin> span dst (Suc (length t)) \<longrightarrow> m' x = m x)"
    using strcpy_loop_cstr [OF assms(1) disj] assms(4) by (auto simp: strcpy_def)
  have sub: "span p (length t) \<subseteq> span p (Suc (length t))" for p
    by (rule span_mono) simp
  have "span dst (length t) \<inter> span src (length t) = {}"
    using disj sub [of dst] sub [of src] by blast
  note memcpy_copies [OF this]
  moreover have "length t < 2 ^ 32"
    using assms(4) by simp
  ultimately have "memcpy_loop (length t) dst src m (dst + of_nat i) = t ! i" if "i < length t" for i
    using cstr_bytes(2) [OF assms(1) that] that by metis
  moreover have "memcpy dst src (of_nat (length t)) m = (dst, memcpy_loop (length t) dst src m)"
    using assms(4) by (simp add: memcpy_def unat_of_nat_u32)
  ultimately show "\<exists>m'. memcpy dst src (of_nat (length t)) m = (dst, m')
      \<and> (\<forall>i < length t. m' (dst + of_nat i) = t ! i) \<and> (\<forall>x. x \<notin> span dst (length t) \<longrightarrow> m' x = m x)"
    using memcpy_frame by blast
  show "\<exists>m'. strcat dst src m = Some (dst, m') \<and> cstr m' dst (s @ t)
      \<and> (\<forall>x. x \<notin> span (dst + of_nat (length s)) (Suc (length t)) \<longrightarrow> m' x = m x)"
    by (rule strcat_cstr [OF assms(2,1,3,4)])
qed

theorem string_copies_witness:
  "\<exists>m'. strcat 16 32 demo_mem = Some (16, m') \<and> cstr m' 16 [97, 98, 98] \<and> m' 32 = 98"
proof -
  have d: "span 16 (Suc (length [97, 98 :: u8] + length [98 :: u8])) \<inter> span 32 (Suc (length [98 :: u8])) = {}"
    by (auto simp: span_Suc)
  have "32 \<notin> span (16 + of_nat (length [97, 98 :: u8])) (Suc (length [98 :: u8]))"
    by (simp add: span_Suc)
  with string_copies [OF demo_cstr(2,1) d] show ?thesis
    by (auto simp: demo_mem_def)
qed

text \<open>
  Measuring, comparing and searching return on C strings: \<open>strlen\<close> is the length, \<open>strcmp\<close> is 0
  exactly on equal strings and otherwise the sign of the unsigned lexicographic order, \<open>strchr\<close>
  finds the first occurrence of a byte, and \<open>strstr\<close> the first occurrence of a string, with 0
  exactly when there is none.
\<close>

theorem string_searches:
  assumes "cstr m p s" and "cstr m q t" and "length s < 2 ^ 32" and "length t < 2 ^ 32"
  shows "strlen p m = Some (of_nat (length s))
    \<and> strcmp m p q = Some (byte_cmp s t) \<and> (byte_cmp s t = 0 \<longleftrightarrow> s = t)
    \<and> strcmp m q p = Some (- byte_cmp s t)
    \<and> strchr m p c =
        Some (if c \<in> set s then p + of_nat (length (takeWhile (\<lambda>x. x \<noteq> c) s)) else 0)
    \<and> strstr p q m = Some (if t = [] then p
        else case first_occ t s of None \<Rightarrow> 0 | Some i \<Rightarrow> p + of_nat i)
    \<and> (t \<noteq> [] \<longrightarrow> first_occ t s = None \<longleftrightarrow> (\<nexists>us vs. s = us @ t @ vs))"
  using assms strcmp_cstr [OF assms(2,1)] byte_cmp_swap [of t s]
  by (simp add: strlen_cstr strcmp_cstr strchr_cstr strstr_cstr first_occ_None_iff)

theorem string_searches_witness:
  "strlen 16 demo_mem = Some 2 \<and> strcmp demo_mem 16 32 = Some (- 1)
     \<and> strstr 16 32 demo_mem = Some 17 \<and> strchr demo_mem 16 98 = Some 17"
  using string_searches [OF demo_cstr(1,2), of 98] by simp

end
